(* ===== verification/Prelude.thy ===== *)
theory Prelude
  imports Complex_Main "HOL-Library.Word" "HOL-Library.Signed_Division"
begin

text \<open>
  Shared vocabulary of the development: names for the fixed-width integer types of the
  firmware, the reading of C's signed arithmetic (operands are promoted to \<open>int\<close>, the
  result is converted back to the width of the variable, division truncates towards zero),
  system ticks, and the generic lemmas the component theories rely on.

  A C variable of type \<open>intN_t\<close> or \<open>uintN_t\<close> is an \<open>N word\<close>; \<open>sint\<close> reads it as
  signed, \<open>uint\<close> as unsigned, and \<open>word_of_int\<close> is the (modular) conversion that GCC
  performs when a wider value is assigned to it.
\<close>

unbundle bit_operations_syntax

type_synonym u8 = "8 word"
type_synonym u16 = "16 word"
type_synonym u32 = "32 word"
type_synonym s8 = "8 word"
type_synonym s16 = "16 word"
type_synonym s32 = "32 word"
type_synonym systime = "32 word"

text \<open>The messages of ChibiOS that kernel and driver functions return.\<close>

datatype msg = MSG_OK | MSG_TIMEOUT | MSG_RESET

named_theorems wrap_simps \<open>reading back a converted value that is in range\<close>

section \<open>Signed conversions\<close>

lemma sint_word_of_int_id:
  fixes i :: int
  assumes "- (2 ^ (LENGTH('a::len) - 1)) \<le> i" and "i < 2 ^ (LENGTH('a) - 1)"
  shows "sint (word_of_int i :: 'a word) = i"
  using assms by (simp add: sint_sbintrunc' signed_take_bit_int_eq_self)

lemma sint8_id [wrap_simps]: "-128 \<le> i \<Longrightarrow> i \<le> 127 \<Longrightarrow> sint (word_of_int i :: 8 word) = i"
  by (rule sint_word_of_int_id) simp_all

lemma sint16_id [wrap_simps]:
  "-32768 \<le> i \<Longrightarrow> i \<le> 32767 \<Longrightarrow> sint (word_of_int i :: 16 word) = i"
  by (rule sint_word_of_int_id) simp_all

lemma sint32_id [wrap_simps]:
  "-2147483648 \<le> i \<Longrightarrow> i \<le> 2147483647 \<Longrightarrow> sint (word_of_int i :: 32 word) = i"
  by (rule sint_word_of_int_id) simp_all

lemma uint16_id [wrap_simps]: "0 \<le> i \<Longrightarrow> i \<le> 65535 \<Longrightarrow> uint (word_of_int i :: 16 word) = i"
  by (simp add: uint_word_of_int)

lemma sint8_range: "-128 \<le> sint (w :: 8 word)" "sint (w :: 8 word) \<le> 127"
  using sint_range_size [of w] by (simp_all add: word_size)

lemma sint16_range: "-32768 \<le> sint (w :: 16 word)" "sint (w :: 16 word) \<le> 32767"
  using sint_range_size [of w] by (simp_all add: word_size)

lemma sint32_range: "-2147483648 \<le> sint (w :: 32 word)" "sint (w :: 32 word) \<le> 2147483647"
  using sint_range_size [of w] by (simp_all add: word_size)

lemma uint16_range: "0 \<le> uint (w :: 16 word)" "uint (w :: 16 word) \<le> 65535"
  using uint_lt2p [of w] by simp_all

lemma uint8_range: "0 \<le> uint (w :: 8 word)" "uint (w :: 8 word) \<le> 255"
  using uint_lt2p [of w] by simp_all

lemma uint32_range: "0 \<le> uint (w :: 32 word)" "uint (w :: 32 word) \<le> 4294967295"
  using uint_lt2p [of w] by simp_all

lemmas word_ranges = sint8_range sint16_range sint32_range uint8_range uint16_range uint32_range

lemma uint_and_mask: "uint (w AND mask n) = uint w mod 2 ^ n"
  by (metis take_bit_eq_mask take_bit_eq_mod unsigned_take_bit_eq)

lemma mod_minus_once: "b \<le> x \<Longrightarrow> x < 2 * b \<Longrightarrow> x mod b = x - (b :: int)"
  by (metis diff_ge_0_iff_ge diff_less_eq minus_mod_self2 mod_pos_pos_trivial mult_2)

lemma unat_inc:
  fixes x y :: "'a::len word"
  assumes "x < y"
  shows "unat (x + 1) = Suc (unat x)"
proof -
  have "unat x < unat y" "unat y < 2 ^ LENGTH('a)"
    using assms by (simp_all add: word_less_nat_alt)
  then have "unat x + 1 < 2 ^ LENGTH('a)" by linarith
  then show ?thesis by (simp add: unat_word_ariths(1))
qed

lemma bytes_of_word: "push_bit 8 (ucast (ucast (drop_bit 8 w) :: u8)) OR ucast (ucast w :: u8) = (w :: u16)"
proof (rule bit_eqI)
  fix n assume "possible_bit TYPE(u16) n"
  then have "n < 16" by simp
  then show "bit (push_bit 8 (ucast (ucast (drop_bit 8 w) :: u8)) OR ucast (ucast w :: u8) :: u16) n = bit w n"
    by (auto simp: bit_or_iff bit_push_bit_iff bit_word_ucast_iff bit_drop_bit_eq)
qed

lemma two_power_le_of_int: "2 ^ a \<le> n \<Longrightarrow> (2::'a::linordered_idom) ^ a \<le> of_int n"
  by (metis of_int_le_iff of_int_numeral of_int_power)

lemma of_int_less_two_power: "n < 2 ^ a \<Longrightarrow> of_int n < (2::'a::linordered_idom) ^ a"
  by (metis of_int_less_iff of_int_numeral of_int_power)

lemma sint32_uint:
  "sint (i :: 32 word) = (if uint i < 2147483648 then uint i else uint i - 4294967296)"
proof -
  have "sint i = (uint i + 2147483648) mod 4294967296 - 2147483648"
    using int_word_sint [of "uint i", where 'a = 32] by simp
  moreover have "(uint i + 2147483648) mod 4294967296 =
      (if uint i < 2147483648 then uint i + 2147483648 else uint i - 2147483648)"
    using uint32_range [of i] mod_minus_once [of 4294967296 "uint i + 2147483648"] by auto
  ultimately show ?thesis by auto
qed

lemma sint16_uint:
  "sint (i :: 16 word) = (if uint i < 32768 then uint i else uint i - 65536)"
proof -
  have "sint i = (uint i + 32768) mod 65536 - 32768"
    using int_word_sint [of "uint i", where 'a = 16] by simp
  moreover have "(uint i + 32768) mod 65536 = (if uint i < 32768 then uint i + 32768 else uint i - 32768)"
    using uint16_range [of i] mod_minus_once [of 65536 "uint i + 32768"] by auto
  ultimately show ?thesis by auto
qed

section \<open>Truncating division\<close>

lemma sdiv_bounds:
  fixes a b :: int
  assumes "0 < b" and "\<bar>a\<bar> \<le> k * b"
  shows "\<bar>a sdiv b\<bar> \<le> k"
proof -
  have "\<bar>a\<bar> div b \<le> (k * b) div b"
    using assms by (intro zdiv_mono1) auto
  then have "\<bar>a\<bar> div b \<le> k"
    using assms(1) by simp
  moreover have "\<bar>a sdiv b\<bar> \<le> \<bar>a\<bar> div b"
    using assms(1) by (auto simp: signed_divide_int_def abs_mult sgn_if pos_imp_zdiv_nonneg_iff)
  ultimately show ?thesis by linarith
qed

lemma sdiv_nonneg: "0 \<le> a \<Longrightarrow> 0 < b \<Longrightarrow> a sdiv b = a div (b :: int)"
  by (simp add: signed_divide_int_def sgn_if)

lemma sdiv_neg: "a \<le> 0 \<Longrightarrow> 0 < b \<Longrightarrow> a sdiv b = - ((- a) div (b :: int))"
  by (simp add: signed_divide_int_def sgn_if)

section \<open>System ticks\<close>

text \<open>
  \<open>CH_CFG_ST_FREQUENCY\<close> is 100000 ticks per second and \<open>systime_t\<close> has 32 bits. The macro
  \<open>TIME_I2MS\<close> of \<open>os/rt/include/chtime.h\<close> computes in 64 bits, rounds up, and converts to
  the 32-bit \<open>time_msecs_t\<close>.
\<close>

definition CH_CFG_ST_FREQUENCY :: int where
  "CH_CFG_ST_FREQUENCY = 100000"

definition TIME_I2MS :: "systime \<Rightarrow> u32" where
  "TIME_I2MS interval =
     word_of_int ((uint interval * 1000 + CH_CFG_ST_FREQUENCY - 1) div CH_CFG_ST_FREQUENCY)"

definition TIME_IMMEDIATE :: u32 where "TIME_IMMEDIATE = 0"
definition TIME_INFINITE :: u32 where "TIME_INFINITE = -1"
definition chTimeAddX :: "systime \<Rightarrow> u32 \<Rightarrow> systime" where "chTimeAddX t i = t + i"
definition chTimeDiffX :: "systime \<Rightarrow> systime \<Rightarrow> u32" where "chTimeDiffX start stop = stop - start"

definition TIME_MS2I :: "u32 \<Rightarrow> systime" where
  "TIME_MS2I msecs = word_of_int ((uint msecs * CH_CFG_ST_FREQUENCY + 999) div 1000)"

lemma uint_TIME_I2MS: "uint (TIME_I2MS i) = (uint i * 1000 + 99999) div 100000"
proof -
  have "(uint i * 1000 + 99999) div 100000 \<le> 4294967295"
    using uint32_range [of i] by auto
  moreover have "0 \<le> (uint i * 1000 + 99999) div 100000"
    using uint32_range [of i] by (simp add: pos_imp_zdiv_nonneg_iff)
  ultimately show ?thesis
    by (simp add: TIME_I2MS_def CH_CFG_ST_FREQUENCY_def uint_word_of_int)
qed

lemma TIME_I2MS_less_iff:
  "0 < n \<Longrightarrow> uint (TIME_I2MS i) < n \<longleftrightarrow> uint i \<le> (n - 1) * 100"
  unfolding uint_TIME_I2MS by auto

end
