(* ===== verification/CFloat.thy ===== *)
theory CFloat
  imports Prelude "HOL-Library.Log_Nat"
begin

text \<open>
  C's \<open>float\<close> and \<open>double\<close> as IEEE 754 binary32 and binary64 with rounding to nearest,
  ties to even (what GCC's soft-float routines implement; the firmware is built with
  \<open>USE_FPU = no\<close>). A finite non-zero value is its exact rational value, zeros carry their
  sign, and every operation computes exactly and rounds once. Everything is executable.

  Converting a value to an integer type truncates; where the truncated value does not fit,
  or the operand is not finite, C leaves the result undefined. The model takes that result
  from a parameter \<open>ub\<close>, so whatever is proved holds for any behaviour of the platform.
\<close>

datatype fp = NaN | Inf bool | Zero bool | Fin rat

datatype fmt = Binary32 | Binary64

fun prec :: "fmt \<Rightarrow> int" where
  "prec Binary32 = 24"
| "prec Binary64 = 53"

fun emin :: "fmt \<Rightarrow> int" where
  "emin Binary32 = -126"
| "emin Binary64 = -1022"

fun emax :: "fmt \<Rightarrow> int" where
  "emax Binary32 = 127"
| "emax Binary64 = 1023"

section \<open>Rounding\<close>

definition ilog2 :: "rat \<Rightarrow> int" where
  "ilog2 r =
     (let (n, d) = quotient_of r; k = bitlen n - bitlen d
      in if 2 powi k \<le> r then k else k - 1)"

definition rne :: "rat \<Rightarrow> int" where
  "rne x =
     (let f = \<lfloor>x\<rfloor>; d = x - of_int f
      in if d < 1/2 then f else if 1/2 < d then f + 1 else if even f then f else f + 1)"

definition quantum :: "fmt \<Rightarrow> rat \<Rightarrow> rat" where
  "quantum f r = 2 powi (max (ilog2 \<bar>r\<bar>) (emin f) - prec f + 1)"

definition fround :: "fmt \<Rightarrow> rat \<Rightarrow> fp" where
  "fround f r =
     (if r = 0 then Zero False
      else let q = quantum f r; v = of_int (rne (r / q)) * q
           in if v = 0 then Zero (r < 0)
              else if 2 powi (emax f + 1) \<le> \<bar>v\<bar> then Inf (r < 0)
              else Fin v)"

section \<open>Operations\<close>

fun fp_sign :: "fp \<Rightarrow> bool" where
  "fp_sign NaN = False"
| "fp_sign (Inf s) = s"
| "fp_sign (Zero s) = s"
| "fp_sign (Fin r) = (r < 0)"

definition fp_of_int :: "fmt \<Rightarrow> int \<Rightarrow> fp" where
  "fp_of_int f i = fround f (of_int i)"

definition fp_lit :: "fmt \<Rightarrow> rat \<Rightarrow> fp" where
  "fp_lit f r = fround f r"

fun fp_neg :: "fp \<Rightarrow> fp" where
  "fp_neg NaN = NaN"
| "fp_neg (Inf s) = Inf (\<not> s)"
| "fp_neg (Zero s) = Zero (\<not> s)"
| "fp_neg (Fin r) = Fin (- r)"

definition fp_add :: "fmt \<Rightarrow> fp \<Rightarrow> fp \<Rightarrow> fp" where
  "fp_add f x y =
     (case (x, y) of
        (NaN, _) \<Rightarrow> NaN
      | (_, NaN) \<Rightarrow> NaN
      | (Inf s, Inf t) \<Rightarrow> if s = t then Inf s else NaN
      | (Inf s, _) \<Rightarrow> Inf s
      | (_, Inf t) \<Rightarrow> Inf t
      | (Zero s, Zero t) \<Rightarrow> Zero (s \<and> t)
      | (Zero s, Fin b) \<Rightarrow> fround f b
      | (Fin a, Zero t) \<Rightarrow> fround f a
      | (Fin a, Fin b) \<Rightarrow> fround f (a + b))"

definition fp_sub :: "fmt \<Rightarrow> fp \<Rightarrow> fp \<Rightarrow> fp" where
  "fp_sub f x y = fp_add f x (fp_neg y)"

definition fp_mul :: "fmt \<Rightarrow> fp \<Rightarrow> fp \<Rightarrow> fp" where
  "fp_mul f x y =
     (case (x, y) of
        (NaN, _) \<Rightarrow> NaN
      | (_, NaN) \<Rightarrow> NaN
      | (Inf s, Zero t) \<Rightarrow> NaN
      | (Zero s, Inf t) \<Rightarrow> NaN
      | (Inf s, _) \<Rightarrow> Inf (s \<noteq> fp_sign y)
      | (_, Inf t) \<Rightarrow> Inf (fp_sign x \<noteq> t)
      | (Zero s, _) \<Rightarrow> Zero (s \<noteq> fp_sign y)
      | (_, Zero t) \<Rightarrow> Zero (fp_sign x \<noteq> t)
      | (Fin a, Fin b) \<Rightarrow> fround f (a * b))"

definition fp_div :: "fmt \<Rightarrow> fp \<Rightarrow> fp \<Rightarrow> fp" where
  "fp_div f x y =
     (case (x, y) of
        (NaN, _) \<Rightarrow> NaN
      | (_, NaN) \<Rightarrow> NaN
      | (Inf s, Inf t) \<Rightarrow> NaN
      | (Zero s, Zero t) \<Rightarrow> NaN
      | (Inf s, _) \<Rightarrow> Inf (s \<noteq> fp_sign y)
      | (_, Inf t) \<Rightarrow> Zero (fp_sign x \<noteq> t)
      | (Zero s, _) \<Rightarrow> Zero (s \<noteq> fp_sign y)
      | (_, Zero t) \<Rightarrow> Inf (fp_sign x \<noteq> t)
      | (Fin a, Fin b) \<Rightarrow> fround f (a / b))"

fun fp_cvt :: "fmt \<Rightarrow> fp \<Rightarrow> fp" where
  "fp_cvt f (Fin r) = fround f r"
| "fp_cvt f x = x"

fun fp_lt :: "fp \<Rightarrow> fp \<Rightarrow> bool" where
  "fp_lt NaN y = False"
| "fp_lt x NaN = False"
| "fp_lt (Inf s) (Inf t) = (s \<and> \<not> t)"
| "fp_lt (Inf s) y = s"
| "fp_lt x (Inf t) = (\<not> t)"
| "fp_lt (Zero s) (Zero t) = False"
| "fp_lt (Zero s) (Fin b) = (0 < b)"
| "fp_lt (Fin a) (Zero t) = (a < 0)"
| "fp_lt (Fin a) (Fin b) = (a < b)"

definition trunc :: "rat \<Rightarrow> int" where
  "trunc r = (if 0 \<le> r then \<lfloor>r\<rfloor> else \<lceil>r\<rceil>)"

fun fp_trunc :: "fp \<Rightarrow> int option" where
  "fp_trunc (Zero s) = Some 0"
| "fp_trunc (Fin r) = Some (trunc r)"
| "fp_trunc x = None"

type_synonym ub_conv = "int \<Rightarrow> int \<Rightarrow> fp \<Rightarrow> int"

definition fp_to_int :: "ub_conv \<Rightarrow> int \<Rightarrow> int \<Rightarrow> fp \<Rightarrow> int" where
  "fp_to_int ub lo hi x =
     (case fp_trunc x of
        None \<Rightarrow> ub lo hi x
      | Some i \<Rightarrow> if lo \<le> i \<and> i \<le> hi then i else ub lo hi x)"

abbreviation fp_to_s16 :: "ub_conv \<Rightarrow> fp \<Rightarrow> s16" where
  "fp_to_s16 ub x \<equiv> word_of_int (fp_to_int ub (-32768) 32767 x)"

abbreviation fp_to_u16 :: "ub_conv \<Rightarrow> fp \<Rightarrow> u16" where
  "fp_to_u16 ub x \<equiv> word_of_int (fp_to_int ub 0 65535 x)"

abbreviation fp_to_s32 :: "ub_conv \<Rightarrow> fp \<Rightarrow> s32" where
  "fp_to_s32 ub x \<equiv> word_of_int (fp_to_int ub (-2147483648) 2147483647 x)"

lemma fround_0 [simp]: "fround f 0 = Zero False"
  by (simp add: fround_def)

section \<open>Rounding to an integer\<close>

lemma rne_of_int [simp]: "rne (of_int n) = n"
  by (simp add: rne_def)

lemma rne_cases: "rne x = \<lfloor>x\<rfloor> \<or> rne x = \<lfloor>x\<rfloor> + 1 \<and> of_int \<lfloor>x\<rfloor> < x"
  unfolding rne_def Let_def by (auto simp: not_less)

lemma rne_le: "x \<le> of_int n \<Longrightarrow> rne x \<le> n"
  using rne_cases [of x] by (auto simp: floor_le_iff le_floor_iff)

lemma rne_ge: "of_int n \<le> x \<Longrightarrow> n \<le> rne x"
  using rne_cases [of x] le_floor_iff [of n x] by auto

lemma rne_error: "\<bar>of_int (rne x) - x\<bar> \<le> 1/2"
proof -
  have "of_int \<lfloor>x\<rfloor> \<le> x" "x < of_int \<lfloor>x\<rfloor> + 1"
    by linarith+
  then show ?thesis
    unfolding rne_def Let_def by (auto simp: not_less abs_le_iff)
qed

section \<open>The exponent\<close>

lemma ilog2_bounds:
  assumes "0 < r"
  shows "2 powi ilog2 r \<le> r" and "r < 2 powi (ilog2 r + 1)"
proof -
  obtain n d where q: "quotient_of r = (n, d)" by fastforce
  have d: "0 < d" using q quotient_of_denom_pos by blast
  have r: "r = of_int n / of_int d" using q quotient_of_div by blast
  have n: "0 < n" using assms r d by (simp add: zero_less_divide_iff)
  define a where "a = nat (bitlen n - 1)"
  define b where "b = nat (bitlen d - 1)"
  have bl: "bitlen n = int a + 1" "bitlen d = int b + 1"
    using n d bitlen_nonneg [of n] bitlen_nonneg [of d] bitlen_eq_zero_iff [of n]
      bitlen_eq_zero_iff [of d] by (auto simp: a_def b_def)
  have nb: "2 ^ a \<le> n" "n < 2 ^ (a + 1)" and db: "2 ^ b \<le> d" "d < 2 ^ (b + 1)"
    using bitlen_bounds [OF n] bitlen_bounds [OF d] unfolding bl by (simp_all add: nat_add_distrib)
  define k where "k = bitlen n - bitlen d"
  have k: "k = int a - int b" by (simp add: k_def bl)
  have nr: "(2::rat) ^ a \<le> of_int n" "of_int n < (2::rat) ^ (a + 1)"
    using nb by (blast intro: two_power_le_of_int of_int_less_two_power)+
  have dr: "(2::rat) ^ b \<le> of_int d" "of_int d < (2::rat) ^ (b + 1)"
    using db by (blast intro: two_power_le_of_int of_int_less_two_power)+
  have dpos: "(0::rat) < of_int d" using d by simp
  have pk: "(2::rat) powi k = 2 ^ a / 2 ^ b"
    by (simp add: k power_int_diff)
  have up: "r < 2 powi (k + 1)"
  proof -
    have "of_int n * 2 ^ b < (2 ^ (a + 1)) * (of_int d :: rat)"
      using nr(2) dr(1) n by (intro mult_less_le_imp_less) simp_all
    then show ?thesis
      using dpos by (simp add: r pk power_int_add pos_divide_less_eq mult.commute field_simps)
  qed
  have lo: "2 powi (k - 1) \<le> r"
  proof -
    have "2 ^ a * (of_int d :: rat) \<le> of_int n * 2 ^ (b + 1)"
      using nr(1) dr(2) dpos n by (intro mult_mono) auto
    then show ?thesis
      using dpos by (simp add: r pk power_int_diff pos_le_divide_eq mult.commute field_simps)
  qed
  have il: "ilog2 r = (if 2 powi k \<le> r then k else k - 1)"
    by (simp add: ilog2_def q k_def)
  show "2 powi ilog2 r \<le> r" using lo by (simp add: il)
  show "r < 2 powi (ilog2 r + 1)" using up by (auto simp: il not_le)
qed

lemma ilog2_less: "0 < r \<Longrightarrow> r < 2 powi n \<Longrightarrow> ilog2 r < n"
proof (rule ccontr)
  assume r: "0 < r" "r < 2 powi n" and "\<not> ilog2 r < n"
  then have "(2::rat) powi n \<le> 2 powi ilog2 r" by (intro power_int_increasing) auto
  with ilog2_bounds(1) [OF r(1)] r(2) show False by linarith
qed

section \<open>Rounding a value\<close>

lemma quantum_pos [simp]: "0 < quantum f r"
  by (simp add: quantum_def)

lemma emin_prec: "emin f - prec f + 1 \<le> 0" "0 < prec f" "prec f \<le> emax f" "emin f < 0"
  by (cases f; simp)+

text \<open>Below \<open>2 ^ prec\<close> the spacing of the floating point values divides one.\<close>

lemma quantum_inverse:
  assumes "r \<noteq> 0" and "\<bar>r\<bar> < 2 powi prec f"
  obtains k :: nat where "quantum f r = 1 / 2 ^ k"
proof -
  have "ilog2 \<bar>r\<bar> < prec f" using assms by (intro ilog2_less) auto
  then have le: "max (ilog2 \<bar>r\<bar>) (emin f) - prec f + 1 \<le> 0"
    using emin_prec(1) [of f] by linarith
  define k where "k = nat (- (max (ilog2 \<bar>r\<bar>) (emin f) - prec f + 1))"
  have "- int k = max (ilog2 \<bar>r\<bar>) (emin f) - prec f + 1"
    using le by (simp only: k_def)
  then have "quantum f r = 2 powi (- int k)"
    by (simp only: quantum_def)
  then have "quantum f r = 1 / 2 ^ k"
    by (simp add: power_int_minus field_simps)
  then show thesis by (rule that)
qed

text \<open>The value of a finite number (infinities and NaN have none).\<close>

fun fp_val :: "fp \<Rightarrow> rat option" where
  "fp_val (Zero s) = Some 0"
| "fp_val (Fin r) = Some r"
| "fp_val x = None"

lemma fround_small:
  assumes r: "\<bar>r\<bar> \<le> of_int b" and b: "b < 2 ^ nat (prec f)"
  shows "\<exists>v. fp_val (fround f r) = Some v \<and> \<bar>v\<bar> \<le> of_int b \<and> (0 \<le> r \<longrightarrow> 0 \<le> v) \<and> (r \<le> 0 \<longrightarrow> v \<le> 0)"
proof (cases "r = 0")
  case True
  then show ?thesis using r by (simp add: fround_def)
next
  case False
  have pw: "(2::rat) powi prec f = 2 ^ nat (prec f)"
    using emin_prec(2) [of f] by (simp add: power_int_def)
  have "(of_int b :: rat) < 2 ^ nat (prec f)"
    using b by (rule of_int_less_two_power)
  then have lt: "\<bar>r\<bar> < 2 powi prec f"
    using r pw by linarith
  obtain k :: nat where q: "quantum f r = 1 / 2 ^ k"
    using quantum_inverse [OF False lt] by blast
  define v where "v = of_int (rne (r / quantum f r)) * quantum f r"
  define N where "N = b * 2 ^ k"
  have "r / quantum f r \<le> of_int N" "of_int (- N) \<le> r / quantum f r"
    using mult_right_mono [of r "of_int b" "2 ^ k"] mult_right_mono [of "- of_int b" r "2 ^ k"] r
    by (auto simp: q N_def abs_le_iff)
  then have "rne (r / quantum f r) \<le> N" "- N \<le> rne (r / quantum f r)"
    by (auto intro: rne_le rne_ge)
  then have "(of_int (rne (r / quantum f r)) :: rat) \<le> of_int N"
    "of_int (- N) \<le> (of_int (rne (r / quantum f r)) :: rat)"
    by (simp_all only: of_int_le_iff)
  then have vb: "\<bar>v\<bar> \<le> of_int b"
    by (auto simp: v_def q N_def abs_le_iff field_simps)
  have sg: "0 \<le> r \<longrightarrow> 0 \<le> v" "r \<le> 0 \<longrightarrow> v \<le> 0"
    using rne_ge [of 0 "r / quantum f r"] rne_le [of "r / quantum f r" 0]
    by (auto simp: v_def q mult_nonneg_nonneg divide_le_0_iff mult_le_0_iff zero_le_mult_iff)
  have "(of_int b::rat) < 2 powi (emax f + 1)"
  proof -
    have "(2::rat) powi prec f \<le> 2 powi (emax f + 1)"
      using emin_prec(3) [of f] by (intro power_int_increasing) auto
    then show ?thesis using \<open>(of_int b :: rat) < 2 ^ nat (prec f)\<close> pw by linarith
  qed
  then have fin: "\<not> 2 powi (emax f + 1) \<le> \<bar>v\<bar>"
    using vb by linarith
  show ?thesis
    using False vb sg fin by (auto simp: fround_def Let_def v_def [symmetric])
qed

lemma fround_of_int:
  assumes "\<bar>i\<bar> < 2 ^ nat (prec f)"
  shows "fp_val (fround f (of_int i)) = Some (of_int i)"
proof (cases "i = 0")
  case True
  then show ?thesis by (simp add: fround_def)
next
  case False
  let ?r = "of_int i :: rat"
  have pw: "(2::rat) powi prec f = 2 ^ nat (prec f)"
    using emin_prec(2) [of f] by (simp add: power_int_def)
  have "of_int \<bar>i\<bar> < (2::rat) ^ nat (prec f)"
    using assms by (rule of_int_less_two_power)
  then have lt: "\<bar>?r\<bar> < 2 powi prec f" using pw by simp
  obtain k :: nat where q: "quantum f ?r = 1 / 2 ^ k"
    using quantum_inverse [OF _ lt] False by auto
  have "?r / quantum f ?r = of_int (i * 2 ^ k)"
    by (simp add: q)
  then have v: "of_int (rne (?r / quantum f ?r)) * quantum f ?r = ?r"
    by (simp only: rne_of_int) (simp add: q)
  have "(2::rat) powi prec f \<le> 2 powi (emax f + 1)"
    using emin_prec(3) [of f] by (intro power_int_increasing) auto
  then show ?thesis
    using False lt v by (auto simp: fround_def Let_def)
qed

section \<open>Conversion to an integer\<close>

lemma trunc_of_int [simp]: "trunc (of_int i) = i"
  by (simp add: trunc_def)

lemma trunc_bounds: "\<bar>r\<bar> \<le> of_int b \<Longrightarrow> \<bar>trunc r\<bar> \<le> b"
  unfolding trunc_def by (auto simp: abs_le_iff floor_le_iff ceiling_le_iff le_floor_iff le_ceiling_iff) linarith+

lemma trunc_sign: "0 \<le> r \<Longrightarrow> 0 \<le> trunc r" "r \<le> 0 \<Longrightarrow> trunc r \<le> 0"
  by (auto simp: trunc_def ceiling_le_iff)

lemma trunc_error: "\<bar>of_int (trunc w) - w\<bar> < 1"
  unfolding trunc_def by (auto simp: abs_less_iff) linarith+

lemma fp_trunc_val: "fp_trunc x = map_option trunc (fp_val x)"
  by (cases x) (simp_all add: trunc_def)

lemma fp_to_int_val:
  "fp_val x = Some v \<Longrightarrow> lo \<le> trunc v \<Longrightarrow> trunc v \<le> hi \<Longrightarrow> fp_to_int ub lo hi x = trunc v"
  by (simp add: fp_to_int_def fp_trunc_val)

lemma fp_of_int_val: "\<bar>i\<bar> < 2 ^ nat (prec f) \<Longrightarrow> fp_val (fp_of_int f i) = Some (of_int i)"
  unfolding fp_of_int_def by (rule fround_of_int)

lemma fp_val_cases: "fp_val x = Some v \<longleftrightarrow> (\<exists>s. x = Zero s \<and> v = 0) \<or> x = Fin v"
  by (cases x) auto

lemma fp_of_int_eq:
  "\<bar>i\<bar> < 2 ^ nat (prec f) \<Longrightarrow> fp_of_int f i = (if i = 0 then Zero False else Fin (of_int i))"
  using fp_of_int_val [of i f]
  by (auto simp: fp_val_cases fp_of_int_def)

lemma fround_not_NaN: "fround f r \<noteq> NaN"
  by (simp add: fround_def Let_def)

lemma fp_mul_small:
  assumes "fp_val x = Some a" "fp_val y = Some b" "\<bar>a * b\<bar> \<le> of_int c" "c < 2 ^ nat (prec f)"
  shows "\<exists>v. fp_val (fp_mul f x y) = Some v \<and> \<bar>v\<bar> \<le> of_int c \<and>
    (0 \<le> a * b \<longrightarrow> 0 \<le> v) \<and> (a * b \<le> 0 \<longrightarrow> v \<le> 0)"
  using assms fround_small [of "a * b" c f]
  by (auto simp: fp_val_cases fp_mul_def)

lemma fp_add_small:
  assumes "fp_val x = Some a" "fp_val y = Some b" "\<bar>a + b\<bar> \<le> of_int c" "c < 2 ^ nat (prec f)"
  shows "\<exists>v. fp_val (fp_add f x y) = Some v \<and> \<bar>v\<bar> \<le> of_int c \<and>
    (0 \<le> a + b \<longrightarrow> 0 \<le> v) \<and> (a + b \<le> 0 \<longrightarrow> v \<le> 0)"
  using assms fround_small [of "a + b" c f]
  by (auto simp: fp_val_cases fp_add_def)

lemma fp_add_int:
  assumes "fp_val x = Some (of_int i)" "fp_val y = Some (of_int j)" "\<bar>i + j\<bar> < 2 ^ nat (prec f)"
  shows "fp_val (fp_add f x y) = Some (of_int (i + j))"
  using assms fround_of_int [of "i + j" f]
  by (auto simp: fp_val_cases fp_add_def)

lemma fp_div_zero_left: "fp_val x = Some 0 \<Longrightarrow> fp_val y = Some b \<Longrightarrow> b \<noteq> 0 \<Longrightarrow> fp_val (fp_div f x y) = Some 0"
  by (auto simp: fp_val_cases fp_div_def)

section \<open>Rounding errors\<close>

text \<open>The rounding error of a value below \<open>2 ^ m\<close>, and values known up to an error.\<close>

definition ulp :: "fmt \<Rightarrow> nat \<Rightarrow> rat" where
  "ulp f m = 2 powi (int m - prec f - 1)"

definition fp_near :: "fp \<Rightarrow> rat \<Rightarrow> rat \<Rightarrow> bool" where
  "fp_near x r e \<longleftrightarrow> (\<exists>v. fp_val x = Some v \<and> \<bar>v - r\<bar> \<le> e)"

lemma fp_near_exact: "fp_val x = Some r \<Longrightarrow> fp_near x r 0"
  by (simp add: fp_near_def)

lemma fp_near_mono: "fp_near x r e \<Longrightarrow> e \<le> e' \<Longrightarrow> fp_near x r e'"
  by (auto simp: fp_near_def)

lemma fround_near:
  assumes "\<bar>r\<bar> < 2 ^ m" and "int m \<le> emax f"
  shows "fp_near (fround f r) r (ulp f m)"
proof (cases "r = 0")
  case True
  then show ?thesis by (simp add: fp_near_def ulp_def)
next
  case False
  define q where "q = quantum f r"
  define v where "v = of_int (rne (r / q)) * q"
  have q: "0 < q" by (simp add: q_def)
  have m: "\<bar>r\<bar> < 2 powi int m" using assms(1) by simp
  then have "ilog2 \<bar>r\<bar> < int m" using False by (intro ilog2_less) auto
  then have "q \<le> 2 powi (int m - prec f)"
    unfolding q_def quantum_def using emin_prec(4) [of f] by (intro power_int_increasing) auto
  moreover have "(2::rat) powi (int m - prec f) = 2 * ulp f m"
    using power_int_add [of "2::rat" "int m - prec f - 1" 1] by (simp add: ulp_def)
  moreover have "v - r = (of_int (rne (r / q)) - r / q) * q" using q by (simp add: v_def field_simps)
  then have "\<bar>v - r\<bar> \<le> 1/2 * q"
    using rne_error [of "r / q"] q by (simp only: abs_mult) (intro mult_mono; simp)
  ultimately have err: "\<bar>v - r\<bar> \<le> ulp f m" by linarith
  have fin: "\<exists>v'. fp_val (fround f r) = Some v'"
  proof -
    have "ulp f m \<le> 2 powi int m"
      unfolding ulp_def using emin_prec(2) [of f] by (intro power_int_increasing) auto
    then have "\<bar>v\<bar> < 2 powi int m + 2 powi int m" using err m by linarith
    also have "(2::rat) powi int m + 2 powi int m = 2 powi (int m + 1)" by (simp add: power_int_add)
    also have "(2::rat) powi (int m + 1) \<le> 2 powi (emax f + 1)"
      using assms(2) by (intro power_int_increasing) auto
    finally show ?thesis using False by (auto simp: fround_def Let_def v_def q_def)
  qed
  have "fp_val (fround f r) = Some v"
    using fin False by (auto simp: fround_def Let_def v_def q_def split: if_splits)
  then show ?thesis using err by (simp add: fp_near_def)
qed

lemma fp_near_cvt:
  assumes "fp_near x r e" and "\<bar>r\<bar> + e < 2 ^ m" and "int m \<le> emax f"
  shows "fp_near (fp_cvt f x) r (e + ulp f m)"
proof -
  obtain v where v: "fp_val x = Some v" "\<bar>v - r\<bar> \<le> e" using assms(1) by (auto simp: fp_near_def)
  have "\<bar>v\<bar> < 2 ^ m" using v(2) assms(2) by linarith
  from fround_near [OF this assms(3)] obtain w where w: "fp_val (fround f v) = Some w" "\<bar>w - v\<bar> \<le> ulp f m"
    by (auto simp: fp_near_def)
  have "fp_val (fp_cvt f x) = Some w" using v(1) w(1) by (auto simp: fp_val_cases)
  then show ?thesis using v(2) w(2) by (auto simp: fp_near_def)
qed

lemma fp_near_add:
  assumes "fp_near x a e" and "fp_near y b d" and "\<bar>a + b\<bar> + e + d < 2 ^ m" and "int m \<le> emax f"
  shows "fp_near (fp_add f x y) (a + b) (e + d + ulp f m)"
proof -
  obtain v w where v: "fp_val x = Some v" "\<bar>v - a\<bar> \<le> e" and w: "fp_val y = Some w" "\<bar>w - b\<bar> \<le> d"
    using assms(1,2) by (auto simp: fp_near_def)
  have "\<bar>v + w\<bar> < 2 ^ m" using v(2) w(2) assms(3) by linarith
  from fround_near [OF this assms(4)] obtain u where u: "fp_val (fround f (v + w)) = Some u" "\<bar>u - (v + w)\<bar> \<le> ulp f m"
    by (auto simp: fp_near_def)
  have "fp_val (fp_add f x y) = Some u" using v(1) w(1) u(1) by (auto simp: fp_val_cases fp_add_def)
  then show ?thesis using v(2) w(2) u(2) by (auto simp: fp_near_def)
qed

lemma fp_near_mul:
  assumes "fp_near x a e" and "fp_val y = Some b" and "(\<bar>a\<bar> + e) * \<bar>b\<bar> < 2 ^ m" and "int m \<le> emax f"
  shows "fp_near (fp_mul f x y) (a * b) (e * \<bar>b\<bar> + ulp f m)"
proof -
  obtain v where v: "fp_val x = Some v" "\<bar>v - a\<bar> \<le> e" using assms(1) by (auto simp: fp_near_def)
  have "\<bar>v\<bar> \<le> \<bar>a\<bar> + e" using v(2) by linarith
  then have "\<bar>v * b\<bar> < 2 ^ m"
    using assms(3) mult_right_mono [of "\<bar>v\<bar>" "\<bar>a\<bar> + e" "\<bar>b\<bar>"] by (simp add: abs_mult)
  from fround_near [OF this assms(4)] obtain u where u: "fp_val (fround f (v * b)) = Some u" "\<bar>u - v * b\<bar> \<le> ulp f m"
    by (auto simp: fp_near_def)
  have "fp_val (fp_mul f x y) = Some u" using v(1) assms(2) u(1) by (auto simp: fp_val_cases fp_mul_def)
  moreover have "\<bar>v * b - a * b\<bar> \<le> e * \<bar>b\<bar>"
    using v(2) mult_right_mono [of "\<bar>v - a\<bar>" e "\<bar>b\<bar>"] by (simp add: abs_mult flip: left_diff_distrib)
  ultimately show ?thesis using u(2) by (auto simp: fp_near_def)
qed

lemma fp_near_div:
  assumes "fp_near x a e" and "fp_val y = Some b" and "b \<noteq> 0" and "(\<bar>a\<bar> + e) / \<bar>b\<bar> < 2 ^ m" and "int m \<le> emax f"
  shows "fp_near (fp_div f x y) (a / b) (e / \<bar>b\<bar> + ulp f m)"
proof -
  obtain v where v: "fp_val x = Some v" "\<bar>v - a\<bar> \<le> e" using assms(1) by (auto simp: fp_near_def)
  have "\<bar>v\<bar> \<le> \<bar>a\<bar> + e" using v(2) by linarith
  then have "\<bar>v / b\<bar> < 2 ^ m"
    using assms(3,4) divide_right_mono [of "\<bar>v\<bar>" "\<bar>a\<bar> + e" "\<bar>b\<bar>"] by (simp add: abs_divide)
  from fround_near [OF this assms(5)] obtain u where u: "fp_val (fround f (v / b)) = Some u" "\<bar>u - v / b\<bar> \<le> ulp f m"
    by (auto simp: fp_near_def)
  have "fp_val (fp_div f x y) = Some u"
    using v(1) assms(2,3) u(1) by (auto simp: fp_val_cases fp_div_def)
  moreover have "\<bar>v / b - a / b\<bar> \<le> e / \<bar>b\<bar>"
    using v(2) divide_right_mono [of "\<bar>v - a\<bar>" e "\<bar>b\<bar>"] by (simp add: abs_divide flip: diff_divide_distrib)
  ultimately show ?thesis using u(2) by (auto simp: fp_near_def)
qed

text \<open>Milliseconds as seconds, the \<open>ms/1000.0\<close> of the log lines.\<close>

definition ms_to_s :: "u32 \<Rightarrow> fp" where
  "ms_to_s ms = fp_div Binary64 (fp_of_int Binary64 (uint ms)) (fp_of_int Binary64 1000)"

end
