(* ===== verification/CString.thy ===== *)
theory CString
  imports Prelude "HOL-Library.Monad_Syntax" "HOL-Library.Char_ord"
begin

text \<open>
  The part of \<open>string.h\<close> and \<open>stdlib.h\<close> the firmware uses, over explicit buffers. A
  \<open>char\<close> array is a list of characters of the array's length; a pointer into it is the
  suffix that starts there (\<open>drop i buf\<close> for \<open>&buf[i]\<close>). An access outside the array has no
  meaning in C: every function returns an \<open>option\<close> and is \<open>None\<close> exactly when the code
  would read or write outside its buffers.

  \<open>atoi\<close> follows newlib, the C library of the ARM tool chain, where it is \<open>strtol\<close> and
  saturates at the limits of the 32-bit \<open>long\<close>.
\<close>

abbreviation NUL :: char where "NUL \<equiv> CHR 0x00"
abbreviation LF :: char where "LF \<equiv> CHR 0x0A"
abbreviation CR :: char where "CR \<equiv> CHR 0x0D"

section \<open>Reading\<close>

fun strlen :: "char list \<Rightarrow> nat option" where
  "strlen [] = None"
| "strlen (c # cs) = (if c = NUL then Some 0 else map_option Suc (strlen cs))"

text \<open>The string a buffer holds: the characters before the first NUL.\<close>

definition cstr :: "char list \<Rightarrow> string" where
  "cstr buf = takeWhile (\<lambda>c. c \<noteq> NUL) buf"

definition terminated :: "char list \<Rightarrow> bool" where
  "terminated buf \<longleftrightarrow> NUL \<in> set buf"

text \<open>\<open>strncmp_eq p lit n\<close> is \<open>strncmp(p, "lit", n) == 0\<close>.\<close>

fun strncmp_eq :: "char list \<Rightarrow> string \<Rightarrow> nat \<Rightarrow> bool option" where
  "strncmp_eq p lit 0 = Some True"
| "strncmp_eq [] lit (Suc n) = None"
| "strncmp_eq (c # p) [] (Suc n) = Some (c = NUL)"
| "strncmp_eq (c # p) (d # lit) (Suc n) =
     (if c \<noteq> d then Some False else if c = NUL then Some True else strncmp_eq p lit n)"

section \<open>Numbers\<close>

definition is_digit :: "char \<Rightarrow> bool" where
  "is_digit c \<longleftrightarrow> CHR ''0'' \<le> c \<and> c \<le> CHR ''9''"

definition digit_val :: "char \<Rightarrow> int" where
  "digit_val c = int (of_char c) - 48"

definition is_space :: "char \<Rightarrow> bool" where
  "is_space c \<longleftrightarrow> c = CHR '' '' \<or> (CHR 0x09 \<le> c \<and> c \<le> CHR 0x0D)"

fun atoi_digits :: "char list \<Rightarrow> int \<Rightarrow> int option" where
  "atoi_digits [] acc = None"
| "atoi_digits (c # p) acc =
     (if is_digit c then atoi_digits p (10 * acc + digit_val c) else Some acc)"

fun atoi_sign :: "char list \<Rightarrow> int option" where
  "atoi_sign [] = None"
| "atoi_sign (c # p) =
     (if c = CHR ''-'' then map_option uminus (atoi_digits p 0)
      else if c = CHR ''+'' then atoi_digits p 0
      else atoi_digits (c # p) 0)"

fun atoi_scan :: "char list \<Rightarrow> int option" where
  "atoi_scan [] = None"
| "atoi_scan (c # p) = (if is_space c then atoi_scan p else atoi_sign (c # p))"

definition clamp32 :: "int \<Rightarrow> int" where
  "clamp32 i = max (-2147483648) (min 2147483647 i)"

definition atoi :: "char list \<Rightarrow> int option" where
  "atoi p = map_option clamp32 (atoi_scan p)"

section \<open>Writing\<close>

text \<open>\<open>memcpy dst off src n\<close> is \<open>memcpy(&dst[off], src, n)\<close>; it yields the new \<open>dst\<close>.\<close>

definition memcpy :: "'a list \<Rightarrow> nat \<Rightarrow> 'a list \<Rightarrow> nat \<Rightarrow> 'a list option" where
  "memcpy dst off src n =
     (if off + n \<le> length dst \<and> n \<le> length src
      then Some (take off dst @ take n src @ drop (off + n) dst) else None)"

definition poke :: "'a list \<Rightarrow> nat \<Rightarrow> 'a \<Rightarrow> 'a list option" where
  "poke buf i v = (if i < length buf then Some (buf[i := v]) else None)"

definition peek :: "'a list \<Rightarrow> nat \<Rightarrow> 'a option" where
  "peek buf i = (if i < length buf then Some (buf ! i) else None)"

text \<open>\<open>peeks buf off n\<close> is what \<open>memcpy\<close> reads from \<open>&buf[off]\<close>.\<close>

definition peeks :: "'a list \<Rightarrow> nat \<Rightarrow> nat \<Rightarrow> 'a list option" where
  "peeks buf off n = (if off + n \<le> length buf then Some (take n (drop off buf)) else None)"

definition strcpy :: "char list \<Rightarrow> char list \<Rightarrow> char list option" where
  "strcpy dst src = do { n \<leftarrow> strlen src; memcpy dst 0 src (n + 1) }"

section \<open>Running a list of calls\<close>

text \<open>A sequence of calls of an operation that may fault; the first fault ends the run.\<close>

fun run_calls :: "('s \<Rightarrow> 'e \<Rightarrow> 's option) \<Rightarrow> 's \<Rightarrow> 'e list \<Rightarrow> 's option" where
  "run_calls f s [] = Some s"
| "run_calls f s (e # es) = Option.bind (f s e) (\<lambda>s'. run_calls f s' es)"

section \<open>Lemmas on strings in buffers\<close>

lemma strlen_iff: "strlen buf = (if terminated buf then Some (length (cstr buf)) else None)"
  by (induction buf) (auto simp: cstr_def terminated_def)

lemma strlen_terminated: "terminated buf \<Longrightarrow> strlen buf = Some (length (cstr buf))"
  by (simp add: strlen_iff)

lemma terminated_split: "terminated buf \<Longrightarrow> \<exists>rest. buf = cstr buf @ NUL # rest"
  by (induction buf) (auto simp: cstr_def terminated_def)

lemma cstr_append_NUL [simp]: "NUL \<notin> set s \<Longrightarrow> cstr (s @ NUL # r) = s"
  by (induction s) (auto simp: cstr_def)

lemma terminated_append_NUL [simp]: "terminated (s @ NUL # r)"
  by (simp add: terminated_def)

lemma NUL_notin_cstr [simp]: "NUL \<notin> set (cstr buf)"
  by (auto simp: cstr_def dest: set_takeWhileD)

lemma cstr_length_less: "terminated buf \<Longrightarrow> length (cstr buf) < length buf"
  by (induction buf) (auto simp: cstr_def terminated_def)

lemma length_memcpy: "memcpy dst off src n = Some dst' \<Longrightarrow> length dst' = length dst"
  by (auto simp: memcpy_def split: if_splits)

lemma memcpy_Some:
  "off + n \<le> length dst \<Longrightarrow> n \<le> length src \<Longrightarrow>
   memcpy dst off src n = Some (take off dst @ take n src @ drop (off + n) dst)"
  by (simp add: memcpy_def)

text \<open>Copying a string with its terminator over the terminator of another appends it.\<close>

lemma memcpy_append_string:
  assumes b: "terminated buf" and s: "terminated str"
    and fit: "length (cstr buf) + length (cstr str) + 1 \<le> length buf"
  shows "\<exists>buf'. memcpy buf (length (cstr buf)) str (length (cstr str) + 1) = Some buf' \<and>
    length buf' = length buf \<and> terminated buf' \<and> cstr buf' = cstr buf @ cstr str"
proof -
  obtain r where buf: "buf = cstr buf @ NUL # r" using terminated_split [OF b] by blast
  obtain q where str: "str = cstr str @ NUL # q" using terminated_split [OF s] by blast
  have hd: "take (length (cstr buf)) buf = cstr buf"
    by (metis append_eq_conv_conj buf)
  have tl: "take (length (cstr str) + 1) str = cstr str @ [NUL]"
  proof -
    have "take (length (cstr str) + 1) (cstr str @ NUL # q) = cstr str @ [NUL]"
      by (simp add: take_append)
    with str show ?thesis by (simp only: str [symmetric])
  qed
  define buf' where "buf' = take (length (cstr buf)) buf @ take (length (cstr str) + 1) str @
    drop (length (cstr buf) + (length (cstr str) + 1)) buf"
  have eq: "buf' = (cstr buf @ cstr str) @ NUL # drop (length (cstr buf) + (length (cstr str) + 1)) buf"
    by (simp only: buf'_def hd tl append_assoc append_Cons append_Nil)
  have "memcpy buf (length (cstr buf)) str (length (cstr str) + 1) = Some buf'"
    using fit cstr_length_less [OF s] by (simp add: memcpy_def buf'_def)
  moreover have "length buf' = length buf"
    using fit by (simp add: eq)
  moreover have "terminated buf'" "cstr buf' = cstr buf @ cstr str"
    unfolding eq by (simp_all del: append_assoc)
  ultimately show ?thesis by blast
qed

section \<open>Lemmas on numbers\<close>

lemma digit_val_range: "is_digit c \<Longrightarrow> 0 \<le> digit_val c \<and> digit_val c \<le> 9"
  by (auto simp: is_digit_def digit_val_def less_eq_char_def)

lemma is_digit_of_nat:
  assumes "d < 10"
  shows "is_digit (char_of (48 + d :: nat)) \<and> digit_val (char_of (48 + d)) = int d"
  using assms by (simp add: is_digit_def digit_val_def less_eq_char_def of_char_of)

text \<open>The value of a string of digits, most significant first.\<close>

definition dec_val :: "string \<Rightarrow> int" where
  "dec_val ds = foldl (\<lambda>acc c. 10 * acc + digit_val c) 0 ds"

lemma dec_val_Nil [simp]: "dec_val [] = 0"
  by (simp add: dec_val_def)

lemma dec_val_snoc [simp]: "dec_val (ds @ [c]) = 10 * dec_val ds + digit_val c"
  by (simp add: dec_val_def)

lemma atoi_digits_foldl:
  "list_all is_digit ds \<Longrightarrow> \<not> is_digit c \<Longrightarrow>
   atoi_digits (ds @ c # r) acc = Some (foldl (\<lambda>acc c. 10 * acc + digit_val c) acc ds)"
  by (induction ds arbitrary: acc) simp_all

lemma atoi_digits_dec_val:
  "list_all is_digit ds \<Longrightarrow> \<not> is_digit c \<Longrightarrow> atoi_digits (ds @ c # r) 0 = Some (dec_val ds)"
  by (simp add: atoi_digits_foldl dec_val_def)

lemma dec_val_bounds_acc:
  "list_all is_digit ds \<Longrightarrow> 0 \<le> acc \<Longrightarrow>
   0 \<le> foldl (\<lambda>acc c. 10 * acc + digit_val c) acc ds \<and>
   foldl (\<lambda>acc c. 10 * acc + digit_val c) acc ds < (acc + 1) * 10 ^ length ds"
proof (induction ds arbitrary: acc)
  case Nil
  then show ?case by simp
next
  case (Cons d ds)
  have d: "0 \<le> digit_val d" "digit_val d \<le> 9" using Cons.prems digit_val_range by auto
  have "0 \<le> foldl (\<lambda>acc c. 10 * acc + digit_val c) (10 * acc + digit_val d) ds \<and>
    foldl (\<lambda>acc c. 10 * acc + digit_val c) (10 * acc + digit_val d) ds <
      (10 * acc + digit_val d + 1) * 10 ^ length ds"
    using Cons.prems d by (intro Cons.IH) auto
  moreover have "(10 * acc + digit_val d + 1) * 10 ^ length ds \<le> (acc + 1) * 10 ^ length (d # ds)"
  proof -
    have "10 * acc + digit_val d + 1 \<le> 10 * (acc + 1)" using d by simp
    then have "(10 * acc + digit_val d + 1) * 10 ^ length ds \<le> (10 * (acc + 1)) * 10 ^ length ds"
      by (intro mult_right_mono) auto
    then show ?thesis by (simp add: algebra_simps)
  qed
  ultimately show ?case by (simp only: foldl_Cons) (meson order_less_le_trans)
qed

lemma dec_val_bounds: "list_all is_digit ds \<Longrightarrow> 0 \<le> dec_val ds \<and> dec_val ds < 10 ^ length ds"
  using dec_val_bounds_acc [of ds 0] by (simp add: dec_val_def)

lemma not_space_digit: "is_digit c \<Longrightarrow> \<not> is_space c \<and> c \<noteq> CHR ''-'' \<and> c \<noteq> CHR ''+''"
  by (auto simp: is_digit_def is_space_def less_eq_char_def)

lemma atoi_scan_digits:
  assumes "list_all is_digit ds" "ds \<noteq> []" "\<not> is_digit c"
  shows "atoi_scan (ds @ c # r) = Some (dec_val ds)"
proof -
  obtain d es where ds: "ds = d # es" using assms(2) by (cases ds) auto
  have d: "is_digit d" using assms(1) ds by simp
  have "atoi_scan (ds @ c # r) = atoi_digits (ds @ c # r) 0"
    using not_space_digit [OF d] by (simp add: ds)
  then show ?thesis using assms by (simp add: atoi_digits_dec_val)
qed

lemma atoi_number_value:
  assumes "list_all is_digit ds" "ds \<noteq> []" "\<not> is_digit c" "dec_val ds \<le> 2147483647"
  shows "atoi (ds @ c # r) = Some (dec_val ds)"
  using assms dec_val_bounds [of ds] by (simp add: atoi_def atoi_scan_digits clamp32_def)

lemma atoi_negative_value:
  assumes "list_all is_digit ds" "\<not> is_digit c" "dec_val ds \<le> 2147483648"
  shows "atoi (CHR ''-'' # ds @ c # r) = Some (- dec_val ds)"
proof -
  have "\<not> is_space (CHR ''-'')" by (simp add: is_space_def less_eq_char_def)
  then show ?thesis
    using assms dec_val_bounds [of ds] by (simp add: atoi_def atoi_digits_dec_val clamp32_def)
qed

lemma dec_val_9_digits: "list_all is_digit ds \<Longrightarrow> length ds \<le> 9 \<Longrightarrow> dec_val ds \<le> 2147483647"
  using dec_val_bounds [of ds] power_increasing [of "length ds" 9 "10::int"] by simp

lemma atoi_number:
  assumes "list_all is_digit ds" "ds \<noteq> []" "\<not> is_digit c" "length ds \<le> 9"
  shows "atoi (ds @ c # r) = Some (dec_val ds)"
  using assms dec_val_9_digits by (intro atoi_number_value)

lemma atoi_range: "atoi p = Some i \<Longrightarrow> -2147483648 \<le> i \<and> i \<le> 2147483647"
  by (auto simp: atoi_def clamp32_def)

lemma NUL_not_digit [simp]: "\<not> is_digit NUL"
  by (simp add: is_digit_def less_eq_char_def)

lemma run_calls_append:
  "run_calls f s (xs @ ys) = do { s' \<leftarrow> run_calls f s xs; run_calls f s' ys }"
  by (induction xs arbitrary: s) (simp_all split: Option.bind_splits)

lemma atoi_digits_total: "terminated p \<Longrightarrow> \<exists>i. atoi_digits p acc = Some i"
  by (induction p acc rule: atoi_digits.induct) (auto simp: terminated_def)

lemma atoi_total: "terminated p \<Longrightarrow> \<exists>i. atoi p = Some i"
proof -
  assume t: "terminated p"
  have sign: "\<exists>i. atoi_sign p = Some i" if "terminated p" for p
  proof (cases p)
    case Nil
    then show ?thesis using that by (simp add: terminated_def)
  next
    case (Cons c q)
    then have "c \<noteq> NUL \<Longrightarrow> terminated q" using that by (auto simp: terminated_def)
    then show ?thesis
      using that atoi_digits_total [of q 0] atoi_digits_total [of p 0] Cons by fastforce
  qed
  have "\<exists>i. atoi_scan p = Some i" using t
  proof (induction p rule: atoi_scan.induct)
    case (2 c p)
    have "is_space c \<Longrightarrow> terminated p"
      using 2(2) by (auto simp: terminated_def is_space_def less_eq_char_def)
    then show ?case using 2 sign [of "c # p"] by (simp del: atoi_sign.simps)
  qed (simp add: terminated_def)
  then show ?thesis by (auto simp: atoi_def)
qed

lemma strncmp_eq_total: "terminated p \<Longrightarrow> NUL \<notin> set lit \<Longrightarrow> \<exists>b. strncmp_eq p lit n = Some b"
  by (induction p lit n rule: strncmp_eq.induct) (auto simp: terminated_def)

end
