(* ===== verification/Mde.thy ===== *)
theory Mde
  imports CFloat CString
begin

text \<open>
  \<open>mde.c\<close>, the Motor Drive Enclosure: the module's variables, the word format of the SPI
  link, one exchange on the link, the power-up sequence, one communication cycle, and the
  accessors the other modules use. The thread that runs these blocks is in
  \<open>Mde_Thread\<close>, since it also calls the IMU and the control module.

  The drive electronics at the other end of the link are a parameter \<open>slave\<close>: the two bytes
  it shifts out for a frame, as a function of all frames sent so far (so it may keep any
  state). \<open>mde_frames\<close> records the frames on the link in the order they were sent.
\<close>

type_synonym frame = "u8 \<times> u8"
type_synonym slave = "frame list \<Rightarrow> frame"

record mde_state =
  motor_az :: s8
  motor_el :: s8
  motor_sk :: s8
  enc_az :: u16
  enc_az_off :: u16
  enc_az_speed :: s16
  power_up :: bool
  power_dn :: bool
  is_powered_up :: bool
  mde_pwr_line :: bool
  mde_frames :: "frame list"

definition mde_state_init :: mde_state where
  "mde_state_init =
     \<lparr>motor_az = 0, motor_el = 0, motor_sk = 0, enc_az = 0, enc_az_off = 0, enc_az_speed = 0,
      power_up = False, power_dn = False, is_powered_up = False,
      mde_pwr_line = False, mde_frames = []\<rparr>"

definition MOTOR_AZ :: u8 where "MOTOR_AZ = 0b011"
definition MOTOR_EL :: u8 where "MOTOR_EL = 0b101"
definition MOTOR_SK :: u8 where "MOTOR_SK = 0b110"

section \<open>Command words\<close>

function bit_count_loop :: "u16 \<Rightarrow> u8 \<Rightarrow> u8" where
  "bit_count_loop n cntr =
     (if n = 0 then cntr else bit_count_loop (drop_bit 1 n) (cntr + ucast (n mod 2)))"
  by pat_completeness auto
termination
proof (relation "measure (\<lambda>(n, cntr). unat n)")
  fix n :: u16 and cntr :: u8
  assume "n \<noteq> 0"
  then have "0 < unat n" by (simp add: unat_gt_0)
  then show "((drop_bit 1 n, cntr + ucast (n mod 2)), n, cntr) \<in> measure (\<lambda>(n, cntr). unat n)"
    by (simp add: unat_drop_bit_eq drop_bit_Suc unat_div)
qed simp

declare bit_count_loop.simps [simp del]

definition bit_count :: "u16 \<Rightarrow> u8" where
  "bit_count n = bit_count_loop n 0"

definition mde_cmd_set_mot_trq :: "u8 \<Rightarrow> s8 \<Rightarrow> u16" where
  "mde_cmd_set_mot_trq motor speed =
     (let cmd = push_bit 12 0b1110 OR push_bit 9 (ucast (motor AND 0x7)) OR push_bit 1 (ucast speed)
      in cmd OR (if bit_count cmd AND 0x1 = 0 then 1 else 0))"

section \<open>The link\<close>

definition mde_exchange :: "slave \<Rightarrow> u16 \<Rightarrow> mde_state \<Rightarrow> bool \<times> u16 \<times> mde_state" where
  "mde_exchange slave mosi st =
     (let tx = (ucast (drop_bit 8 mosi), ucast mosi);
          frames = mde_frames st @ [tx];
          rx = slave frames
      in (True, push_bit 8 (ucast (fst rx)) OR ucast (snd rx), st\<lparr>mde_frames := frames\<rparr>))"

fun mde_send_all :: "slave \<Rightarrow> u16 list \<Rightarrow> mde_state \<Rightarrow> mde_state" where
  "mde_send_all slave [] st = st"
| "mde_send_all slave (w # ws) st = mde_send_all slave ws (snd (snd (mde_exchange slave w st)))"

definition mde_init_words1 :: "u16 list" where
  "mde_init_words1 =
     [0x5ba5, 0xf4ff, 0xf4ff, 0xa8ff, 0xa9fe, 0xa9fd, 0xa8fc, 0xa9fb, 0xa8fa, 0xa8f9, 0xa9f8,
      0xa9f7, 0xa8f6, 0xa8f5, 0xa9f4, 0xa8f3, 0xa9f2, 0xa9f1]"

definition mde_init_words2 :: "u16 list" where
  "mde_init_words2 = [0xa45a, 0xa45a]"

definition mde_init_words3 :: "u16 list" where
  "mde_init_words3 =
     [0xfbff, 0xd9f9, 0xd7ef, 0xdcff, 0xdaff, 0xfb77, 0xfa76, 0xfafb, 0xfdff, 0xfcfe]"

section \<open>One communication cycle\<close>

text \<open>The thread's local variables; C leaves their first values indeterminate.\<close>

record mde_locals =
  old_t :: systime
  old_x :: u16

definition mde_read_encoder :: "slave \<Rightarrow> mde_state \<Rightarrow> bool \<times> u8 \<times> u8 \<times> mde_state" where
  "mde_read_encoder slave st =
     (let st = mde_send_all slave [0xFEFF, 0xFEFF, 0xFEFF, 0xFEFF, 0xFDFF] st;
          (status_fc, miso_fc, st) = mde_exchange slave 0xFCFE st;
          (status_fb, miso_fb, st) = mde_exchange slave 0xFBFF st
      in (status_fb \<and> status_fc, ucast (miso_fc AND 0xFF), ucast (miso_fb AND 0xFF), st))"

definition mde_update_encoder ::
  "ub_conv \<Rightarrow> systime \<Rightarrow> systime \<Rightarrow> u8 \<Rightarrow> u8 \<Rightarrow> mde_locals \<Rightarrow> mde_state \<Rightarrow> mde_locals \<times> mde_state"
where
  "mde_update_encoder ub now now' fc fb loc st =
     (let enc = NOT (push_bit 8 (ucast fc) OR ucast fb);
          dt = fp_div Binary64 (fp_of_int Binary64 (uint (now - old_t loc)))
                 (fp_of_int Binary64 CH_CFG_ST_FREQUENCY);
          dx = word_of_int (sint enc - sint (old_x loc)) :: s16
      in (loc\<lparr>old_x := enc, old_t := now'\<rparr>,
          st\<lparr>enc_az := enc,
             enc_az_speed := fp_to_s16 ub (fp_div Binary64 (fp_of_int Binary64 (sint dx)) dt)\<rparr>))"

definition mde_poll ::
  "slave \<Rightarrow> ub_conv \<Rightarrow> systime \<Rightarrow> systime \<Rightarrow> mde_locals \<Rightarrow> mde_state \<Rightarrow> mde_locals \<times> mde_state"
where
  "mde_poll slave ub now now' loc st =
     (let (status, fc, fb, st) = mde_read_encoder slave st
      in if status then mde_update_encoder ub now now' fc fb loc st else (loc, st))"

text \<open>A cycle in which no other thread changes the torques between the three commands.\<close>

definition mde_comm ::
  "slave \<Rightarrow> ub_conv \<Rightarrow> systime \<Rightarrow> systime \<Rightarrow> mde_locals \<Rightarrow> mde_state \<Rightarrow> mde_locals \<times> mde_state"
where
  "mde_comm slave ub now now' loc st =
     (let (loc, st) = mde_poll slave ub now now' loc st
      in (loc, mde_send_all slave
                 [mde_cmd_set_mot_trq MOTOR_AZ (motor_az st),
                  mde_cmd_set_mot_trq MOTOR_EL (motor_el st),
                  mde_cmd_set_mot_trq MOTOR_SK (motor_sk st)] st))"

section \<open>Interface of the module\<close>

definition mde_init :: "mde_state \<Rightarrow> mde_state" where
  "mde_init st = st\<lparr>mde_pwr_line := False\<rparr>"

definition mde_power_up :: "mde_state \<Rightarrow> mde_state" where
  "mde_power_up st = st\<lparr>power_up := True\<rparr>"

definition mde_power_down :: "mde_state \<Rightarrow> mde_state" where
  "mde_power_down st = st\<lparr>power_dn := True\<rparr>"

definition mde_get_az_enc_pos :: "mde_state \<Rightarrow> u16" where
  "mde_get_az_enc_pos st = enc_az st"

definition mde_get_az_enc_spd :: "mde_state \<Rightarrow> s16" where
  "mde_get_az_enc_spd st = enc_az_speed st"

definition mde_get_trq_az :: "mde_state \<Rightarrow> s8" where
  "mde_get_trq_az st = motor_az st"

definition mde_set_trq_az :: "s8 \<Rightarrow> mde_state \<Rightarrow> mde_state" where
  "mde_set_trq_az trq st = st\<lparr>motor_az := trq\<rparr>"

definition mde_get_trq_el :: "mde_state \<Rightarrow> s8" where
  "mde_get_trq_el st = motor_el st"

definition mde_set_trq_el :: "s8 \<Rightarrow> mde_state \<Rightarrow> mde_state" where
  "mde_set_trq_el trq st = st\<lparr>motor_el := trq\<rparr>"

definition mde_get_trq_sk :: "mde_state \<Rightarrow> s8" where
  "mde_get_trq_sk st = motor_sk st"

definition mde_set_trq_sk :: "s8 \<Rightarrow> mde_state \<Rightarrow> mde_state" where
  "mde_set_trq_sk trq st = st\<lparr>motor_sk := trq\<rparr>"

definition mde_get_az_enc_off :: "mde_state \<Rightarrow> u16" where
  "mde_get_az_enc_off st = enc_az_off st"

definition mde_set_az_enc_off :: "u16 \<Rightarrow> mde_state \<Rightarrow> mde_state" where
  "mde_set_az_enc_off off st = st\<lparr>enc_az_off := off\<rparr>"

lemmas mde_accessors =
  mde_get_az_enc_pos_def mde_get_az_enc_spd_def mde_get_trq_az_def mde_set_trq_az_def
  mde_get_trq_el_def mde_set_trq_el_def mde_get_trq_sk_def mde_set_trq_sk_def
  mde_get_az_enc_off_def mde_set_az_enc_off_def mde_power_up_def mde_power_down_def

section \<open>Counting bits\<close>

definition popcount :: "'a::len word \<Rightarrow> nat" where
  "popcount w = card {i. bit w i}"

lemma finite_bits: "finite {i. bit (w :: 'a::len word) i}"
  by (rule finite_subset [of _ "{..<LENGTH('a)}"]) (auto dest: bit_imp_le_length)

lemma popcount_le: "popcount (w :: 'a::len word) \<le> LENGTH('a)"
proof -
  have "card {i. bit w i} \<le> card {..<LENGTH('a)}"
    by (rule card_mono) (auto dest: bit_imp_le_length)
  then show ?thesis by (simp add: popcount_def)
qed

lemma popcount_step: "popcount w = of_bool (odd w) + popcount (drop_bit 1 w)"
proof -
  have "{i. bit w i} = (if odd w then {0} else {}) \<union> Suc ` {i. bit (drop_bit 1 w) i}" (is "_ = ?R")
  proof (rule set_eqI)
    fix i show "i \<in> {i. bit w i} \<longleftrightarrow> i \<in> ?R"
      by (cases i) (auto simp: bit_drop_bit_eq bit_0)
  qed
  moreover have "card (Suc ` {i. bit (drop_bit 1 w) i}) = card {i. bit (drop_bit 1 w) i}"
    by (rule card_image) simp
  ultimately show ?thesis
    using finite_bits [of "drop_bit 1 w"] by (auto simp: popcount_def card_insert_if)
qed

lemma popcount_0 [simp]: "popcount 0 = 0"
  by (simp add: popcount_def)

lemma bit_count_loop_popcount: "bit_count_loop n cntr = cntr + of_nat (popcount n)"
proof (induction n cntr rule: bit_count_loop.induct)
  case (1 n cntr)
  have "ucast (n mod 2) = (of_bool (odd n) :: u8)"
    by (simp add: mod_2_eq_odd)
  then show ?case
    using 1 popcount_step [of n]
    by (cases "n = 0") (simp_all add: bit_count_loop.simps [of n] bit_count_loop.simps [of 0])
qed

lemma bit_count_popcount: "unat (bit_count n) = popcount n"
  using popcount_le [of n] by (simp add: bit_count_def bit_count_loop_popcount unat_of_nat)

lemma odd_word_unat: "odd (w :: 'a::len word) \<longleftrightarrow> odd (unat w)"
  by (metis even_of_nat mult.right_neutral unsigned_1 word_arith_nat_mult)

lemma popcount_or_1: "\<not> bit w 0 \<Longrightarrow> popcount (w OR 1) = Suc (popcount w)"
proof -
  assume "\<not> bit w 0"
  moreover have "{i. bit (w OR 1) i} = insert 0 {i. bit w i}"
    by (auto simp: bit_or_iff bit_1_iff)
  ultimately show ?thesis by (simp add: popcount_def card_insert_if finite_bits)
qed

text \<open>The word before its check bit is set.\<close>

abbreviation mde_cmd_base :: "u8 \<Rightarrow> s8 \<Rightarrow> u16" where
  "mde_cmd_base motor speed \<equiv>
     push_bit 12 0b1110 OR push_bit 9 (ucast (motor AND 0x7)) OR push_bit 1 (ucast speed)"

lemma mde_cmd_alt:
  "mde_cmd_set_mot_trq motor speed =
     (if even (popcount (mde_cmd_base motor speed)) then mde_cmd_base motor speed OR 1
      else mde_cmd_base motor speed)"
proof -
  have "(bit_count w AND 1 = 0) = even (popcount w)" for w
    by (simp add: and_one_eq mod_2_eq_odd odd_word_unat bit_count_popcount)
  then show ?thesis by (simp add: mde_cmd_set_mot_trq_def Let_def)
qed

lemma seven_mask: "(0x7 :: u8) = mask 3"
  by (simp add: mask_eq_exp_minus_1)

lemma bit_code: "bit (push_bit 12 0b1110 :: u16) n \<longleftrightarrow> n = 13 \<or> n = 14 \<or> n = 15"
proof (cases "n < 16")
  case True
  have "\<forall>n \<in> set [0..<16]. bit (push_bit 12 0b1110 :: u16) n = (n = 13 \<or> n = 14 \<or> n = 15)"
    by code_simp
  with True show ?thesis by simp
next
  case False
  then show ?thesis using bit_imp_le_length [of "push_bit 12 0b1110 :: u16" n] by auto
qed

lemma bit_base:
  "bit (mde_cmd_base motor speed) n \<longleftrightarrow>
     n = 13 \<or> n = 14 \<or> n = 15 \<or> (9 \<le> n \<and> n < 12 \<and> bit motor (n - 9)) \<or>
     (1 \<le> n \<and> n < 9 \<and> bit speed (n - 1))"
proof -
  have "bit (push_bit 9 (ucast (motor AND 0x7)) :: u16) n \<longleftrightarrow> 9 \<le> n \<and> n < 12 \<and> bit motor (n - 9)"
    by (auto simp: seven_mask bit_simps)
  moreover have "bit (push_bit 1 (ucast speed) :: u16) n \<longleftrightarrow> 1 \<le> n \<and> n < 9 \<and> bit speed (n - 1)"
    using bit_imp_le_length [of speed "n - 1"]
    by (simp only: bit_push_bit_iff bit_word_ucast_iff possible_bit_word) auto
  ultimately show ?thesis
    by (simp only: bit_or_iff bit_code disj_assoc)
qed

lemma not_bit_0_base: "\<not> bit (mde_cmd_base motor speed) 0"
  by (simp only: bit_base) simp

lemma bit_cmd:
  "bit (mde_cmd_set_mot_trq motor speed) n \<longleftrightarrow>
     bit (mde_cmd_base motor speed) n \<or> n = 0 \<and> even (popcount (mde_cmd_base motor speed))"
  by (auto simp: mde_cmd_alt bit_or_iff bit_1_iff)

text \<open>The three fields of a command word, as the drive electronics take it apart.\<close>

definition cmd_code :: "u16 \<Rightarrow> u16" where "cmd_code w = drop_bit 12 w"
definition cmd_motor :: "u16 \<Rightarrow> u8" where "cmd_motor w = ucast (take_bit 3 (drop_bit 9 w))"
definition cmd_speed :: "u16 \<Rightarrow> s8" where "cmd_speed w = ucast (drop_bit 1 w)"

lemma cmd_speed_roundtrip: "cmd_speed (mde_cmd_set_mot_trq motor speed) = speed"
proof (rule bit_eqI)
  fix n assume "possible_bit TYPE(s8) n"
  then have "n < 8" by simp
  then show "bit (cmd_speed (mde_cmd_set_mot_trq motor speed)) n = bit speed n"
    unfolding cmd_speed_def bit_word_ucast_iff bit_drop_bit_eq comp_def bit_cmd bit_base by simp
qed

lemma cmd_motor_roundtrip: "cmd_motor (mde_cmd_set_mot_trq motor speed) = motor AND 0x7"
proof (rule bit_eqI)
  fix n assume "possible_bit TYPE(u8) n"
  then have "n < 8" by simp
  then show "bit (cmd_motor (mde_cmd_set_mot_trq motor speed)) n = bit (motor AND 0x7) n"
    unfolding cmd_motor_def bit_word_ucast_iff bit_take_bit_iff bit_drop_bit_eq comp_def bit_cmd
      bit_base
    by (auto simp: seven_mask bit_and_iff bit_mask_iff)
qed

lemma cmd_code_roundtrip: "cmd_code (mde_cmd_set_mot_trq motor speed) = 0b1110"
proof -
  have "cmd_code (mde_cmd_set_mot_trq motor speed) = drop_bit 12 (push_bit 12 0b1110 :: u16)"
    by (rule bit_eqI)
      (auto simp only: cmd_code_def bit_drop_bit_eq comp_def bit_cmd bit_base bit_code)
  then show ?thesis by simp
qed

lemma cmd_odd_parity: "odd (popcount (mde_cmd_set_mot_trq motor speed))"
  using popcount_or_1 [OF not_bit_0_base, of motor speed] by (simp add: mde_cmd_alt)

section \<open>What a communication cycle does\<close>

lemma mde_exchange_fst [simp]: "fst (mde_exchange slave w st) = True"
  by (simp add: mde_exchange_def Let_def)

definition frame_of :: "u16 \<Rightarrow> frame" where
  "frame_of w = (ucast (drop_bit 8 w), ucast w)"

lemma mde_exchange_state:
  "snd (snd (mde_exchange slave w st)) = st\<lparr>mde_frames := mde_frames st @ [frame_of w]\<rparr>"
  by (simp add: mde_exchange_def Let_def frame_of_def)

lemma mde_send_all_state:
  "mde_send_all slave ws st = st\<lparr>mde_frames := mde_frames st @ map frame_of ws\<rparr>"
  by (induction ws arbitrary: st) (simp_all add: mde_exchange_state)

lemma mde_read_encoder_state:
  "mde_read_encoder slave st = (ok, fc, fb, st') \<Longrightarrow>
     ok \<and> st' = st\<lparr>mde_frames := mde_frames st @
       map frame_of [0xFEFF, 0xFEFF, 0xFEFF, 0xFEFF, 0xFDFF, 0xFCFE, 0xFBFF]\<rparr>"
  unfolding mde_read_encoder_def mde_send_all_state
  by (auto simp: Let_def mde_exchange_def frame_of_def)

definition poll_words :: "u16 list" where
  "poll_words = [0xFEFF, 0xFEFF, 0xFEFF, 0xFEFF, 0xFDFF, 0xFCFE, 0xFBFF]"

lemma mde_poll_state:
  "motor_az (snd (mde_poll slave ub t t' loc st)) = motor_az st"
  "motor_el (snd (mde_poll slave ub t t' loc st)) = motor_el st"
  "motor_sk (snd (mde_poll slave ub t t' loc st)) = motor_sk st"
  "power_up (snd (mde_poll slave ub t t' loc st)) = power_up st"
  "power_dn (snd (mde_poll slave ub t t' loc st)) = power_dn st"
  "is_powered_up (snd (mde_poll slave ub t t' loc st)) = is_powered_up st"
  "mde_pwr_line (snd (mde_poll slave ub t t' loc st)) = mde_pwr_line st"
  "enc_az_off (snd (mde_poll slave ub t t' loc st)) = enc_az_off st"
  "mde_frames (snd (mde_poll slave ub t t' loc st)) = mde_frames st @ map frame_of poll_words"
proof -
  obtain ok fc fb st' where r: "mde_read_encoder slave st = (ok, fc, fb, st')"
    by (metis prod_cases4)
  note s = mde_read_encoder_state [OF r] mde_poll_def r mde_update_encoder_def Let_def poll_words_def
  show "motor_az (snd (mde_poll slave ub t t' loc st)) = motor_az st"
    "motor_el (snd (mde_poll slave ub t t' loc st)) = motor_el st"
    "motor_sk (snd (mde_poll slave ub t t' loc st)) = motor_sk st"
    "power_up (snd (mde_poll slave ub t t' loc st)) = power_up st"
    "power_dn (snd (mde_poll slave ub t t' loc st)) = power_dn st"
    "is_powered_up (snd (mde_poll slave ub t t' loc st)) = is_powered_up st"
    "mde_pwr_line (snd (mde_poll slave ub t t' loc st)) = mde_pwr_line st"
    "enc_az_off (snd (mde_poll slave ub t t' loc st)) = enc_az_off st"
    "mde_frames (snd (mde_poll slave ub t t' loc st)) = mde_frames st @ map frame_of poll_words"
    by (simp_all add: s del: list.map)
qed

text \<open>
  The frames of a cycle: seven polls, then one torque command per motor with the torques
  that were set, whatever the drive electronics answer.
\<close>

lemma mde_comm_frames:
  "mde_frames (snd (mde_comm slave ub t t' loc st)) = mde_frames st @
     map frame_of (poll_words @
       [mde_cmd_set_mot_trq MOTOR_AZ (motor_az st), mde_cmd_set_mot_trq MOTOR_EL (motor_el st),
        mde_cmd_set_mot_trq MOTOR_SK (motor_sk st)])"
  using mde_poll_state [of slave ub t t' loc st]
  by (simp add: mde_comm_def mde_send_all_state case_prod_beta Let_def)

text \<open>A frame determines the word it carries.\<close>

definition word_of_frame :: "frame \<Rightarrow> u16" where
  "word_of_frame f = push_bit 8 (ucast (fst f)) OR ucast (snd f)"

lemma word_of_frame_of: "word_of_frame (frame_of w) = w"
proof (rule bit_eqI)
  fix n assume "possible_bit TYPE(u16) n"
  then have "n < 16" by simp
  then show "bit (word_of_frame (frame_of w)) n = bit w n"
    by (auto simp: word_of_frame_def frame_of_def bit_or_iff bit_push_bit_iff bit_word_ucast_iff
        bit_drop_bit_eq)
qed

end
