(* ===== verification/Imu.thy ===== *)
theory Imu
  imports CFloat CString
begin

text \<open>
  \<open>imu.c\<close>, the inertial measurement unit: two ADIS16209 accelerometers, an ADC with the
  three rotation-rate sensors, and an MPU9250 magnetometer on one SPI bus. The module's
  variables, the bus transfers, the set-up of the magnetometer, one round of the sampling
  thread, and the calibration of the elevation rate.

  The devices are a parameter \<open>bus\<close>: the bytes shifted in during a transfer, as a function
  of all transfers so far. Bytes that the code sends without having set them are \<open>None\<close>.
  The library function \<open>atan\<close> is a parameter too: its accuracy is not fixed by the C
  standard, and only its range matters to the code.
\<close>

datatype imu_cs = spi_accel1 | spi_accel2 | spi_adc | spi_mpu

record xfer =
  xfer_cs :: imu_cs
  xfer_tx :: "u8 option list"

type_synonym imu_bus = "xfer list \<Rightarrow> nat \<Rightarrow> u8"

record imu_state =
  imu_accel_x :: s16
  imu_accel_y :: s16
  imu_accel_z :: s16
  imu_rot_x :: u16
  imu_rot_y :: u16
  imu_rot_y0 :: u16
  imu_rot_z :: u16
  imu_el_pos :: s16
  imu_el_off :: s16
  imu_el_spd :: s16
  imu_xfers :: "xfer list"

definition imu_state_init :: imu_state where
  "imu_state_init =
     \<lparr>imu_accel_x = 0, imu_accel_y = 0, imu_accel_z = 0, imu_rot_x = 0, imu_rot_y = 0,
      imu_rot_y0 = 2070, imu_rot_z = 0, imu_el_pos = 0, imu_el_off = 0, imu_el_spd = 0,
      imu_xfers = []\<rparr>"

section \<open>Bus transfers\<close>

definition imu_exchange :: "imu_bus \<Rightarrow> imu_cs \<Rightarrow> u16 \<Rightarrow> imu_state \<Rightarrow> u16 \<times> imu_state" where
  "imu_exchange bus cfg mosi st =
     (let xs = imu_xfers st @ [\<lparr>xfer_cs = cfg, xfer_tx = [Some (ucast (drop_bit 8 mosi)), Some (ucast mosi)]\<rparr>];
          rx = bus xs
      in (push_bit 8 (ucast (rx 0)) OR ucast (rx 1), st\<lparr>imu_xfers := xs\<rparr>))"

definition imu_read_mpu9250_n ::
  "imu_bus \<Rightarrow> imu_cs \<Rightarrow> u8 \<Rightarrow> u8 list \<Rightarrow> u8 \<Rightarrow> imu_state \<Rightarrow> bool \<times> u8 list \<times> imu_state" where
  "imu_read_mpu9250_n bus cfg reg data n st =
     (if n < 1 then (False, data, st)
      else let xs = imu_xfers st @
                 [\<lparr>xfer_cs = cfg, xfer_tx = Some (reg OR 0x80) # replicate (unat n) None\<rparr>];
               rx = bus xs
           in (True, map rx [1..<unat n + 1] @ drop (unat n) data, st\<lparr>imu_xfers := xs\<rparr>))"

definition imu_read_mpu9250 ::
  "imu_bus \<Rightarrow> imu_cs \<Rightarrow> u8 \<Rightarrow> u8 list \<Rightarrow> imu_state \<Rightarrow> bool \<times> u8 list \<times> imu_state" where
  "imu_read_mpu9250 bus cfg reg data st = imu_read_mpu9250_n bus cfg reg data 1 st"

definition imu_write_mpu9250 :: "imu_cs \<Rightarrow> u8 \<Rightarrow> u8 \<Rightarrow> imu_state \<Rightarrow> imu_state" where
  "imu_write_mpu9250 cfg reg data st =
     st\<lparr>imu_xfers := imu_xfers st @ [\<lparr>xfer_cs = cfg, xfer_tx = [Some reg, Some data]\<rparr>]\<rparr>"

fun imu_write_all :: "(u8 \<times> u8) list \<Rightarrow> imu_state \<Rightarrow> imu_state" where
  "imu_write_all [] st = st"
| "imu_write_all ((reg, data) # ws) st = imu_write_all ws (imu_write_mpu9250 spi_mpu reg data st)"

section \<open>The magnetometer\<close>

definition MPU9250_PWR_MGMT_1 :: u8 where "MPU9250_PWR_MGMT_1 = 0x6B"
definition MPU9250_USER_CTRL :: u8 where "MPU9250_USER_CTRL = 0x6A"
definition MPU9250_I2C_MST_CTRL :: u8 where "MPU9250_I2C_MST_CTRL = 0x24"
definition MPU9250_I2C_MST_DELAY_CTRL :: u8 where "MPU9250_I2C_MST_DELAY_CTRL = 0x67"
definition MPU9250_I2C_SLV4_CTRL :: u8 where "MPU9250_I2C_SLV4_CTRL = 0x34"
definition MPU9250_EXT_SENS_DATA_00 :: u8 where "MPU9250_EXT_SENS_DATA_00 = 0x49"
definition MPU9250_I2C_SLV0_ADDR :: u8 where "MPU9250_I2C_SLV0_ADDR = 0x25"
definition MPU9250_I2C_SLV0_REG :: u8 where "MPU9250_I2C_SLV0_REG = 0x26"
definition MPU9250_I2C_SLV0_CTRL :: u8 where "MPU9250_I2C_SLV0_CTRL = 0x27"
definition MPU9250_I2C_SLV0_DO :: u8 where "MPU9250_I2C_SLV0_DO = 0x63"
definition MPU9250_WHO_AM_I_AK8963 :: u8 where "MPU9250_WHO_AM_I_AK8963 = 0x00"
definition MPU9250_AK8963_ADDRESS :: u8 where "MPU9250_AK8963_ADDRESS = 0x0C"
definition MPU9250_AK8963_XOUT_L :: u8 where "MPU9250_AK8963_XOUT_L = 0x03"
definition MPU9250_AK8963_CNTL :: u8 where "MPU9250_AK8963_CNTL = 0x0A"
definition MPU9250_AK8963_CNTL2 :: u8 where "MPU9250_AK8963_CNTL2 = 0x0B"
definition MPU9250_AK8963_ASAX :: u8 where "MPU9250_AK8963_ASAX = 0x10"
definition MPU9250_AK8963_M_100Hz :: u8 where "MPU9250_AK8963_M_100Hz = 0x06"
definition MPU9250_AK8963_MFS_16BITS :: u8 where "MPU9250_AK8963_MFS_16BITS = 1"

text \<open>A write to register \<open>reg\<close> of the AK8963 behind the MPU9250's I2C master.\<close>

definition ak8963_write :: "u8 \<Rightarrow> u8 \<Rightarrow> (u8 \<times> u8) list" where
  "ak8963_write reg data =
     [(MPU9250_I2C_SLV0_ADDR, MPU9250_AK8963_ADDRESS), (MPU9250_I2C_SLV0_REG, reg),
      (MPU9250_I2C_SLV0_DO, data), (MPU9250_I2C_SLV0_CTRL, 0x81)]"

definition ak8963_request :: "u8 \<Rightarrow> u8 \<Rightarrow> (u8 \<times> u8) list" where
  "ak8963_request reg ctrl =
     [(MPU9250_I2C_SLV0_ADDR, MPU9250_AK8963_ADDRESS OR 0x80), (MPU9250_I2C_SLV0_REG, reg),
      (MPU9250_I2C_SLV0_CTRL, ctrl)]"

text \<open>Two bytes, least significant first, as a signed 16-bit value.\<close>

definition le16 :: "u8 \<Rightarrow> u8 \<Rightarrow> s16" where
  "le16 lo hi = push_bit 8 (ucast hi) OR ucast lo"

definition read_magnetometer ::
  "imu_bus \<Rightarrow> u8 list \<Rightarrow> imu_state \<Rightarrow> (s16 \<times> s16 \<times> s16) option \<times> u8 list \<times> imu_state" where
  "read_magnetometer bus whoami st =
     (let st = imu_write_all ([(MPU9250_USER_CTRL, 0x20), (MPU9250_I2C_MST_CTRL, 0x0D)] @
                 ak8963_request MPU9250_WHO_AM_I_AK8963 0x81) st;
          (_, whoami, st) = imu_read_mpu9250 bus spi_mpu MPU9250_EXT_SENS_DATA_00 whoami st;
          st = imu_write_all (ak8963_request MPU9250_AK8963_XOUT_L 0x87) st;
          (_, raw, st) = imu_read_mpu9250_n bus spi_mpu MPU9250_EXT_SENS_DATA_00 (replicate 7 0) 7 st;
          c = raw ! 6
      in (if c AND 0x08 = 0
          then Some (le16 (raw ! 0) (raw ! 1), le16 (raw ! 2) (raw ! 3), le16 (raw ! 4) (raw ! 5))
          else None, whoami, st))"

text \<open>
  \<open>imu_init\<close>: wake the MPU9250, reset the AK8963, read its factory calibration (the code
  computes scale factors from it and discards them), and start continuous measurement.
\<close>

definition imu_init :: "imu_bus \<Rightarrow> imu_state \<Rightarrow> imu_state" where
  "imu_init bus st =
     (let st = imu_write_all
            ([(MPU9250_PWR_MGMT_1, 0x00), (MPU9250_USER_CTRL, 0x20), (MPU9250_I2C_MST_CTRL, 0x1D),
              (MPU9250_I2C_MST_DELAY_CTRL, 0x81), (MPU9250_I2C_SLV4_CTRL, 0x01)] @
             ak8963_write MPU9250_AK8963_CNTL2 0x01 @
             ak8963_write MPU9250_AK8963_CNTL 0x00 @
             ak8963_write MPU9250_AK8963_CNTL 0x0F @
             ak8963_request MPU9250_AK8963_ASAX 0x83) st;
          (_, rawData, st) =
             imu_read_mpu9250_n bus spi_mpu MPU9250_EXT_SENS_DATA_00 (replicate 3 0) 3 st
      in imu_write_all
            (ak8963_write MPU9250_AK8963_CNTL 0x00 @
             ak8963_write MPU9250_AK8963_CNTL
               (push_bit 4 MPU9250_AK8963_MFS_16BITS OR MPU9250_AK8963_M_100Hz) @
             ak8963_request MPU9250_AK8963_CNTL 0x81) st)"

text \<open>The set-up leaves the readings alone.\<close>

lemma imu_write_all_state: "\<exists>xs. imu_write_all ws st = st\<lparr>imu_xfers := xs\<rparr>"
proof (induction ws arbitrary: st)
  case Nil
  show ?case by (intro exI [of _ "imu_xfers st"]) simp
next
  case (Cons w ws)
  then show ?case using Cons.IH [of "imu_write_mpu9250 spi_mpu (fst w) (snd w) st"]
    by (cases w) (auto simp: imu_write_mpu9250_def)
qed

lemma imu_init_state: "\<exists>xs. imu_init bus st = st\<lparr>imu_xfers := xs\<rparr>"
proof -
  obtain f where f: "imu_write_all ws st = st\<lparr>imu_xfers := f ws st\<rparr>" for ws st
    using imu_write_all_state by metis
  show ?thesis
    unfolding imu_init_def imu_read_mpu9250_n_def f by (simp add: Let_def) blast
qed

section \<open>One round of the sampling thread\<close>

text \<open>\<open>(int16_t)((miso & 0x3FFF) << 2) / 4\<close>: the 14-bit reading of the ADIS16209.\<close>

definition accel_raw :: "u16 \<Rightarrow> int" where
  "accel_raw miso = sint (word_of_int (uint (miso AND 0x3FFF) * 4) :: s16) sdiv 4"

definition imu_read_accel :: "imu_bus \<Rightarrow> imu_cs \<Rightarrow> u16 \<Rightarrow> imu_state \<Rightarrow> int \<times> imu_state" where
  "imu_read_accel bus cs cmd st =
     (let (_, st) = imu_exchange bus cs cmd st;
          (miso, st) = imu_exchange bus cs 0x0000 st
      in (accel_raw miso, st))"

definition imu_read_rot :: "imu_bus \<Rightarrow> u16 \<Rightarrow> imu_state \<Rightarrow> u16 \<times> imu_state" where
  "imu_read_rot bus cmd st =
     (let (miso, st) = imu_exchange bus spi_adc cmd st in (miso AND 0x0FFF, st))"

definition el_position :: "(fp \<Rightarrow> fp) \<Rightarrow> ub_conv \<Rightarrow> s16 \<Rightarrow> s16 \<Rightarrow> s16" where
  "el_position atan ub az ax =
     (let q = fp_div Binary32 (fp_neg (fp_of_int Binary32 (sint az))) (fp_of_int Binary32 (sint ax));
          pos = fp_to_s16 ub (fp_mul Binary64 (atan q) (fp_of_int Binary64 10430))
      in if 0 < sint ax then word_of_int (sint pos + 32768) else pos)"

record imu_locals =
  accu :: s32
  cntr :: u8

definition imu_locals_init :: imu_locals where
  "imu_locals_init = \<lparr>accu = 0, cntr = 0\<rparr>"

definition imu_el_rate :: "imu_locals \<Rightarrow> imu_state \<Rightarrow> imu_locals \<times> imu_state" where
  "imu_el_rate loc st =
     (let a = word_of_int (sint (accu loc) + - (uint (imu_rot_y st) - uint (imu_rot_y0 st)) * 11) :: s32;
          c = cntr loc + 1
      in if 5 \<le> c
         then (\<lparr>accu = 0, cntr = 0\<rparr>, st\<lparr>imu_el_spd := word_of_int (sint a sdiv uint c)\<rparr>)
         else (\<lparr>accu = a, cntr = c\<rparr>, st))"

definition imu_sample :: "imu_bus \<Rightarrow> imu_state \<Rightarrow> imu_state" where
  "imu_sample bus st =
     (let (z, st) = imu_read_accel bus spi_accel1 0x0400 st;
          st = st\<lparr>imu_accel_z := word_of_int (- z)\<rparr>;
          (x, st) = imu_read_accel bus spi_accel1 0x0600 st;
          st = st\<lparr>imu_accel_x := word_of_int x\<rparr>;
          (y, st) = imu_read_accel bus spi_accel2 0x0600 st;
          st = st\<lparr>imu_accel_y := word_of_int (- y)\<rparr>;
          (rx, st) = imu_read_rot bus 0x0000 st;
          st = st\<lparr>imu_rot_x := rx\<rparr>;
          (ry, st) = imu_read_rot bus 0x0800 st;
          st = st\<lparr>imu_rot_y := ry\<rparr>;
          (rz, st) = imu_read_rot bus 0x1000 st
      in st\<lparr>imu_rot_z := rz\<rparr>)"

definition imu_iteration ::
  "imu_bus \<Rightarrow> (fp \<Rightarrow> fp) \<Rightarrow> ub_conv \<Rightarrow> imu_locals \<Rightarrow> imu_state \<Rightarrow> imu_locals \<times> imu_state" where
  "imu_iteration bus atan ub loc st =
     (let st = imu_sample bus st;
          st = st\<lparr>imu_el_pos := el_position atan ub (imu_accel_z st) (imu_accel_x st)\<rparr>
      in imu_el_rate loc st)"

text \<open>
  The same round as the pieces between which the thread sleeps, so that other threads can see
  the variables between two of them.
\<close>

fun imu_block ::
  "imu_bus \<Rightarrow> (fp \<Rightarrow> fp) \<Rightarrow> ub_conv \<Rightarrow> nat \<Rightarrow> imu_locals \<times> imu_state \<Rightarrow> imu_locals \<times> imu_state" where
  "imu_block bus atan ub pc (loc, st) =
     (if pc = 0 then let (z, st) = imu_read_accel bus spi_accel1 0x0400 st in (loc, st\<lparr>imu_accel_z := word_of_int (- z)\<rparr>)
      else if pc = 1 then let (x, st) = imu_read_accel bus spi_accel1 0x0600 st in (loc, st\<lparr>imu_accel_x := word_of_int x\<rparr>)
      else if pc = 2 then let (y, st) = imu_read_accel bus spi_accel2 0x0600 st in (loc, st\<lparr>imu_accel_y := word_of_int (- y)\<rparr>)
      else if pc = 3 then let (rx, st) = imu_read_rot bus 0x0000 st in (loc, st\<lparr>imu_rot_x := rx\<rparr>)
      else if pc = 4 then let (ry, st) = imu_read_rot bus 0x0800 st in (loc, st\<lparr>imu_rot_y := ry\<rparr>)
      else if pc = 5 then let (rz, st) = imu_read_rot bus 0x1000 st in (loc, st\<lparr>imu_rot_z := rz\<rparr>)
      else imu_el_rate loc (st\<lparr>imu_el_pos := el_position atan ub (imu_accel_z st) (imu_accel_x st)\<rparr>))"

lemma imu_blocks_iteration:
  "fold (imu_block bus atan ub) [0, 1, 2, 3, 4, 5, 6] (loc, st) = imu_iteration bus atan ub loc st"
  by (simp add: imu_iteration_def imu_sample_def Let_def split: prod.splits)

declare imu_block.simps [simp del]

section \<open>Interface of the module\<close>

definition imu_get_accel_x :: "imu_state \<Rightarrow> s16" where "imu_get_accel_x st = imu_accel_x st"
definition imu_get_accel_y :: "imu_state \<Rightarrow> s16" where "imu_get_accel_y st = imu_accel_y st"
definition imu_get_accel_z :: "imu_state \<Rightarrow> s16" where "imu_get_accel_z st = imu_accel_z st"
definition imu_get_rot_x :: "imu_state \<Rightarrow> u16" where "imu_get_rot_x st = imu_rot_x st"
definition imu_get_rot_y :: "imu_state \<Rightarrow> u16" where "imu_get_rot_y st = imu_rot_y st"
definition imu_get_rot_z :: "imu_state \<Rightarrow> u16" where "imu_get_rot_z st = imu_rot_z st"
definition imu_get_el_pos :: "imu_state \<Rightarrow> s16" where "imu_get_el_pos st = imu_el_pos st"
definition imu_get_el_spd :: "imu_state \<Rightarrow> s16" where "imu_get_el_spd st = imu_el_spd st"
definition imu_get_el_off :: "imu_state \<Rightarrow> s16" where "imu_get_el_off st = imu_el_off st"

definition imu_set_el_off :: "s16 \<Rightarrow> imu_state \<Rightarrow> imu_state" where
  "imu_set_el_off off st = st\<lparr>imu_el_off := off\<rparr>"

text \<open>
  \<open>imu_calibrate\<close> samples the elevation rate sensor a hundred times, ten milliseconds apart;
  \<open>samples\<close> are the values of \<open>imu_rot_y\<close> at those moments.
\<close>

fun imu_cal_sum :: "u16 list \<Rightarrow> s32 \<Rightarrow> s32" where
  "imu_cal_sum [] a = a"
| "imu_cal_sum (r # rs) a = imu_cal_sum rs (word_of_int (sint a + uint r))"

definition imu_calibrate :: "u16 list \<Rightarrow> imu_state \<Rightarrow> imu_state" where
  "imu_calibrate samples st =
     st\<lparr>imu_rot_y0 := word_of_int (sint (imu_cal_sum (take 100 samples) 0) sdiv 100)\<rparr>"

lemmas imu_accessors =
  imu_get_accel_x_def imu_get_accel_y_def imu_get_accel_z_def imu_get_rot_x_def imu_get_rot_y_def
  imu_get_rot_z_def imu_get_el_pos_def imu_get_el_spd_def imu_get_el_off_def imu_set_el_off_def

section \<open>Readings\<close>

lemma mask14: "(0x3FFF :: u16) = mask 14" and mask12: "(0x0FFF :: u16) = mask 12"
  by (simp_all add: mask_eq_exp_minus_1)

lemma uint_low14: "uint (miso AND 0x3FFF :: u16) = uint miso mod 2 ^ 14"
  by (simp add: mask14 uint_and_mask)

text \<open>The reading is the low 14 bits as a two's complement number.\<close>

lemma accel_raw_sint: "accel_raw miso = sint (ucast miso :: 14 word)"
proof -
  define m where "m = uint miso mod 2 ^ 14"
  have m: "0 \<le> m" "m < 16384" by (simp_all add: m_def)
  have "sint (word_of_int (m * 4) :: s16) = (if m < 8192 then m * 4 else m * 4 - 65536)"
    unfolding int_word_sint using m by (auto simp: mod_minus_once)
  then have "accel_raw miso = (if m < 8192 then m * 4 else m * 4 - 65536) sdiv 4"
    by (simp only: accel_raw_def uint_low14 m_def [symmetric])
  then have "accel_raw miso = (if m < 8192 then m else m - 16384)"
    using m by (auto simp: sdiv_nonneg sdiv_neg)
  moreover have "sint (ucast miso :: 14 word) = (if m < 8192 then m else m - 16384)"
  proof -
    have "sint (ucast miso :: 14 word) = (uint miso + 8192) mod 16384 - 8192"
      unfolding ucast_eq int_word_sint by simp
    moreover have "(uint miso + 8192) mod 16384 = (m + 8192) mod 16384"
      unfolding m_def by (simp add: mod_add_left_eq)
    moreover have "(m + 8192) mod 16384 = (if m < 8192 then m + 8192 else m - 8192)"
      using m mod_minus_once [of 16384 "m + 8192"] by auto
    ultimately show ?thesis by auto
  qed
  ultimately show ?thesis by simp
qed

lemma accel_raw_range: "-8192 \<le> accel_raw miso \<and> accel_raw miso \<le> 8191"
  using sint_range_size [of "ucast miso :: 14 word"] by (simp add: accel_raw_sint word_size)

lemma rot_range: "uint (miso AND 0x0FFF :: u16) \<le> 4095"
proof -
  have "uint miso mod 2 ^ 12 < 2 ^ 12" by (rule pos_mod_bound) simp
  then show ?thesis by (simp add: mask12 uint_and_mask)
qed

section \<open>Calibration\<close>

lemma imu_cal_sum_sum:
  assumes "-2147483648 \<le> sint a" and "sint a + (\<Sum>r\<leftarrow>rs. uint r) \<le> 2147483647"
  shows "sint (imu_cal_sum rs a) = sint a + (\<Sum>r\<leftarrow>rs. uint r)"
  using assms
proof (induction rs arbitrary: a)
  case Nil
  then show ?case by simp
next
  case (Cons r rs)
  have nn: "0 \<le> (\<Sum>r\<leftarrow>rs. uint r)" by (intro sum_list_nonneg) auto
  have le: "sint a + uint r + (\<Sum>r\<leftarrow>rs. uint r) \<le> 2147483647"
    using Cons.prems by simp
  have id: "sint (word_of_int (sint a + uint r) :: s32) = sint a + uint r"
    using le nn Cons.prems(1) uint16_range(1) [of r] by (intro sint32_id) linarith+
  have "sint (imu_cal_sum rs (word_of_int (sint a + uint r))) =
      sint (word_of_int (sint a + uint r) :: s32) + (\<Sum>r\<leftarrow>rs. uint r)"
    using le sint32_range(1) [of "word_of_int (sint a + uint r) :: s32"]
    by (intro Cons.IH) (simp_all only: id)
  then show ?case using id by simp
qed

lemma sum_list_le_length:
  "\<forall>r \<in> set rs. f r \<le> (hi::int) \<Longrightarrow> (\<Sum>r\<leftarrow>rs. f r) \<le> int (length rs) * hi"
  by (induction rs) (auto simp: algebra_simps)

lemma sum_list_ge_length:
  "\<forall>r \<in> set rs. (lo::int) \<le> f r \<Longrightarrow> int (length rs) * lo \<le> (\<Sum>r\<leftarrow>rs. f r)"
  by (induction rs) (auto simp: algebra_simps)

lemma imu_calibrate_mean:
  assumes "length samples = 100"
  shows "uint (imu_rot_y0 (imu_calibrate samples st)) = (\<Sum>r\<leftarrow>samples. uint r) div 100"
proof -
  let ?S = "\<Sum>r\<leftarrow>samples. uint r"
  have "?S \<le> int (length samples) * 65535"
    using uint16_range by (intro sum_list_le_length) auto
  then have hi: "?S \<le> 6553500" using assms by simp
  have lo: "0 \<le> ?S" by (intro sum_list_nonneg) auto
  have "sint (imu_cal_sum samples 0) = ?S"
    using imu_cal_sum_sum [of 0 samples] hi by simp
  moreover have "uint (word_of_int (?S div 100) :: u16) = ?S div 100"
    using hi lo by (intro uint16_id) (auto simp: pos_imp_zdiv_nonneg_iff)
  ultimately show ?thesis
    using assms lo by (simp add: imu_calibrate_def sdiv_nonneg)
qed

text \<open>The calibrated zero lies between the smallest and the largest sample.\<close>

lemma imu_calibrate_between:
  assumes "length samples = 100" and "\<And>r. r \<in> set samples \<Longrightarrow> lo \<le> uint r \<and> uint r \<le> hi"
  shows "lo \<le> uint (imu_rot_y0 (imu_calibrate samples st)) \<and>
    uint (imu_rot_y0 (imu_calibrate samples st)) \<le> hi"
proof -
  have "int (length samples) * lo \<le> (\<Sum>r\<leftarrow>samples. uint r)"
    "(\<Sum>r\<leftarrow>samples. uint r) \<le> int (length samples) * hi"
    using assms(2) by (auto intro: sum_list_ge_length sum_list_le_length)
  then show ?thesis
    using assms(1) by (auto simp: imu_calibrate_mean)
qed

section \<open>The elevation rate\<close>

lemma uint8_plus_one: "uint (c :: 8 word) < 255 \<Longrightarrow> uint (c + 1) = uint c + 1"
  by (simp add: uint_plus_if')

text \<open>
  The accumulator stays within five samples of the sensor range, so the 32-bit sum never
  wraps; \<open>rate_ok\<close> is the invariant of the thread's local variables.
\<close>

definition rate_ok :: "imu_locals \<Rightarrow> bool" where
  "rate_ok loc \<longleftrightarrow> uint (cntr loc) < 5 \<and> \<bar>sint (accu loc)\<bar> \<le> uint (cntr loc) * 720885"

lemma rot_term_bound: "\<bar>- (uint (a :: u16) - uint (b :: u16)) * 11\<bar> \<le> 720885"
proof -
  have "0 \<le> x \<Longrightarrow> x \<le> 65535 \<Longrightarrow> 0 \<le> y \<Longrightarrow> y \<le> 65535 \<Longrightarrow> \<bar>- (x - y) * 11\<bar> \<le> 720885" for x y :: int
    by (simp add: abs_le_iff algebra_simps)
  from this [OF uint16_range uint16_range] show ?thesis .
qed

lemma rate_sum_id:
  assumes "rate_ok loc"
  shows "sint (word_of_int (sint (accu loc) + - (uint y - uint y0) * 11) :: s32) =
    sint (accu loc) + - (uint (y :: u16) - uint (y0 :: u16)) * 11"
  using assms rot_term_bound [of y y0] unfolding rate_ok_def
  by (intro sint32_id) linarith+

lemma rate_ok_init: "rate_ok imu_locals_init"
  by (simp add: rate_ok_def imu_locals_init_def)

lemma imu_el_rate_ok: "rate_ok loc \<Longrightarrow> rate_ok (fst (imu_el_rate loc st))"
proof -
  assume ok: "rate_ok loc"
  then have c: "uint (cntr loc + 1) = uint (cntr loc) + 1"
    by (intro uint8_plus_one) (simp add: rate_ok_def)
  show ?thesis
  proof (cases "5 \<le> cntr loc + 1")
    case True
    then show ?thesis by (simp add: imu_el_rate_def Let_def rate_ok_def)
  next
    case False
    then have lt: "uint (cntr loc) + 1 < 5" using c by (simp add: word_le_def)
    define d where "d = - (uint (imu_rot_y st) - uint (imu_rot_y0 st)) * 11"
    have "\<bar>sint (accu loc)\<bar> \<le> uint (cntr loc) * 720885" "\<bar>d\<bar> \<le> 720885"
      using ok rot_term_bound by (simp_all add: rate_ok_def d_def)
    then have "\<bar>sint (accu loc) + d\<bar> \<le> (uint (cntr loc) + 1) * 720885"
      unfolding distrib_right by linarith
    moreover have "sint (word_of_int (sint (accu loc) + d) :: s32) = sint (accu loc) + d"
      unfolding d_def by (rule rate_sum_id [OF ok])
    moreover have "fst (imu_el_rate loc st) = \<lparr>accu = word_of_int (sint (accu loc) + d), cntr = cntr loc + 1\<rparr>"
      using False by (simp add: imu_el_rate_def Let_def d_def)
    ultimately show ?thesis using lt c by (simp only: rate_ok_def imu_locals.select_convs)
  qed
qed

end
