(* ===== verification/Debug.thy ===== *)
theory Debug
  imports CString "HOL-Library.Sublist"
begin

text \<open>
  \<open>debug.c\<close>: one static buffer of 4096 bytes that the threads append messages to and the
  web server drains. \<open>debug_print\<close> appends a message only when it fits together with its
  terminator; \<open>debug_emty_bucket\<close> copies the text out and empties the buffer.
\<close>

definition DEBUG_BUCKET_SIZE :: nat where
  "DEBUG_BUCKET_SIZE = 4096"

definition bucket_init :: "char list" where
  "bucket_init = replicate DEBUG_BUCKET_SIZE NUL"

definition debug_print :: "char list \<Rightarrow> char list \<Rightarrow> char list option" where
  "debug_print bucket str = do {
     used \<leftarrow> strlen bucket;
     in_len \<leftarrow> strlen str;
     if in_len + 1 < length bucket - used then memcpy bucket used str (in_len + 1)
     else Some bucket }"

definition debug_emty_bucket :: "char list \<Rightarrow> char list \<Rightarrow> (char list \<times> char list) option" where
  "debug_emty_bucket bucket ret = do {
     ret' \<leftarrow> strcpy ret bucket;
     bucket' \<leftarrow> poke bucket 0 NUL;
     Some (bucket', ret') }"

definition bucket_ok :: "char list \<Rightarrow> bool" where
  "bucket_ok bucket \<longleftrightarrow> length bucket = DEBUG_BUCKET_SIZE \<and> terminated bucket"

section \<open>The contract of a bounded message log\<close>

text \<open>
  What the callers of the module rely on: messages are appended whole or dropped whole, the
  log never holds more than its capacity, and draining returns exactly what was logged.
\<close>

locale message_log =
  fixes print :: "'b \<Rightarrow> 'm \<Rightarrow> 'b option"
    and drain :: "'b \<Rightarrow> 'm \<Rightarrow> ('b \<times> 'm) option"
    and content :: "'b \<Rightarrow> string"
    and ok :: "'b \<Rightarrow> bool"
    and text_of :: "'m \<Rightarrow> string"
    and msg :: "'m \<Rightarrow> bool"
    and room :: "'m \<Rightarrow> bool"
    and cap :: nat
  assumes print_total:
      "ok b \<Longrightarrow> msg m \<Longrightarrow> \<exists>b'. print b m = Some b' \<and> ok b' \<and>
         content b' = (if length (content b) + length (text_of m) < cap then content b @ text_of m else content b)"
    and drain_total:
      "ok b \<Longrightarrow> room r \<Longrightarrow>
         \<exists>b' r'. drain b r = Some (b', r') \<and> ok b' \<and> content b' = [] \<and> text_of r' = content b"
    and content_fits: "ok b \<Longrightarrow> length (content b) \<le> cap"
begin

text \<open>Messages are never torn: the log is the concatenation of some of them, in order.\<close>

lemma run_subseq:
  assumes "ok b" and "list_all msg ss"
  shows "\<exists>b' ms. run_calls print b ss = Some b' \<and> ok b' \<and> subseq ms ss \<and>
    content b' = content b @ concat (map text_of ms)"
  using assms
proof (induction ss arbitrary: b)
  case Nil
  then show ?case by (intro exI [of _ b] exI [of _ "[]"]) simp
next
  case (Cons s ss)
  have m: "msg s" "list_all msg ss" using Cons.prems by simp_all
  obtain b1 where b1: "print b s = Some b1" "ok b1"
    "content b1 = (if length (content b) + length (text_of s) < cap then content b @ text_of s else content b)"
    using print_total [OF Cons.prems(1) m(1)] by blast
  obtain b' ms where r: "run_calls print b1 ss = Some b'" "ok b'" "subseq ms ss"
    "content b' = content b1 @ concat (map text_of ms)"
    using Cons.IH [OF b1(2) m(2)] by blast
  define ms' where "ms' = (if length (content b) + length (text_of s) < cap then s # ms else ms)"
  have "subseq ms' (s # ss)" using r(3) by (auto simp: ms'_def)
  moreover have "content b' = content b @ concat (map text_of ms')"
    using r(4) b1(3) by (simp add: ms'_def)
  moreover have "run_calls print b (s # ss) = Some b'" using b1(1) r(1) by simp
  ultimately show ?case using r(2) by blast
qed

text \<open>When the messages fit, none is lost.\<close>

lemma run_complete:
  assumes "ok b" and "list_all msg ss" and "length (content b) + length (concat (map text_of ss)) < cap"
  shows "\<exists>b'. run_calls print b ss = Some b' \<and> ok b' \<and> content b' = content b @ concat (map text_of ss)"
  using assms
proof (induction ss arbitrary: b)
  case Nil
  then show ?case by simp
next
  case (Cons s ss)
  obtain b1 where b1: "print b s = Some b1" "ok b1" "content b1 = content b @ text_of s"
    using print_total [OF Cons.prems(1), of s] Cons.prems(2,3) by auto
  then obtain b' where "run_calls print b1 ss = Some b'" "ok b'"
    "content b' = content b1 @ concat (map text_of ss)"
    using Cons.IH [OF b1(2)] Cons.prems(2,3) by auto
  then show ?case using b1 by auto
qed

text \<open>Draining after a run hands out exactly what the run logged and leaves the log empty.\<close>

lemma run_then_drain:
  assumes "ok b" and "content b = []" and "list_all msg ss" and "room r"
    and "length (concat (map text_of ss)) < cap"
  shows "\<exists>b' b'' r'. run_calls print b ss = Some b' \<and> drain b' r = Some (b'', r') \<and>
    text_of r' = concat (map text_of ss) \<and> content b'' = []"
proof -
  obtain b' where "run_calls print b ss = Some b'" "ok b'" "content b' = concat (map text_of ss)"
    using run_complete [OF assms(1,3)] assms(2,5) by auto
  with drain_total [OF \<open>ok b'\<close> assms(4)] show ?thesis by auto
qed

end

section \<open>The module keeps the contract\<close>

lemma debug_print_effect:
  assumes b: "bucket_ok bucket" and s: "terminated str"
  shows "\<exists>bucket'. debug_print bucket str = Some bucket' \<and> bucket_ok bucket' \<and>
    cstr bucket' = (if length (cstr bucket) + length (cstr str) < DEBUG_BUCKET_SIZE - 1
      then cstr bucket @ cstr str else cstr bucket)"
proof -
  have t: "terminated bucket" and l: "length bucket = DEBUG_BUCKET_SIZE"
    using b by (simp_all add: bucket_ok_def)
  show ?thesis
  proof (cases "length (cstr bucket) + length (cstr str) < DEBUG_BUCKET_SIZE - 1")
    case True
    then have "length (cstr bucket) + length (cstr str) + 1 \<le> length bucket"
      using l by simp
    from memcpy_append_string [OF t s this] True l show ?thesis
      by (auto simp: debug_print_def strlen_terminated t s bucket_ok_def less_diff_conv)
  next
    case False
    then show ?thesis
      using b t s l by (auto simp: debug_print_def strlen_terminated less_diff_conv)
  qed
qed

lemma debug_emty_bucket_effect:
  assumes b: "bucket_ok bucket" and r: "length ret = DEBUG_BUCKET_SIZE"
  shows "\<exists>bucket' ret'. debug_emty_bucket bucket ret = Some (bucket', ret') \<and> bucket_ok bucket' \<and>
    cstr bucket' = [] \<and> length ret' = DEBUG_BUCKET_SIZE \<and> terminated ret' \<and> cstr ret' = cstr bucket"
proof -
  have t: "terminated bucket" and l: "length bucket = DEBUG_BUCKET_SIZE"
    using b by (simp_all add: bucket_ok_def)
  obtain q where q: "bucket = cstr bucket @ NUL # q" using terminated_split [OF t] by blast
  have tk: "take (length (cstr bucket) + 1) bucket = cstr bucket @ [NUL]"
  proof -
    have "take (length (cstr bucket) + 1) (cstr bucket @ NUL # q) = cstr bucket @ [NUL]"
      by simp
    then show ?thesis by (simp only: q [symmetric])
  qed
  have fits: "length (cstr bucket) + 1 \<le> DEBUG_BUCKET_SIZE"
    using cstr_length_less [OF t] l by simp
  define ret' where "ret' = cstr bucket @ NUL # drop (length (cstr bucket) + 1) ret"
  have cp: "strcpy ret bucket = Some ret'"
    unfolding strcpy_def strlen_terminated [OF t] bind.bind_lunit memcpy_def
    using fits r l tk by (simp add: ret'_def)
  have pk: "poke bucket 0 NUL = Some (bucket[0 := NUL])"
    using l by (simp add: poke_def DEBUG_BUCKET_SIZE_def)
  have "bucket[0 := NUL] = NUL # tl bucket"
    using l by (cases bucket) (simp_all add: DEBUG_BUCKET_SIZE_def)
  then have "bucket_ok (bucket[0 := NUL])" "cstr (bucket[0 := NUL]) = []"
    using l by (simp_all add: bucket_ok_def terminated_def cstr_def DEBUG_BUCKET_SIZE_def)
  moreover have "length ret' = DEBUG_BUCKET_SIZE" using fits r by (simp add: ret'_def)
  ultimately show ?thesis
    by (simp add: debug_emty_bucket_def cp pk) (simp add: ret'_def)
qed

lemma bucket_init_ok: "bucket_ok bucket_init" "cstr bucket_init = []"
  by (simp_all add: bucket_ok_def bucket_init_def DEBUG_BUCKET_SIZE_def terminated_def cstr_def)

interpretation dbg: message_log debug_print debug_emty_bucket cstr bucket_ok cstr terminated
  "\<lambda>ret. length ret = DEBUG_BUCKET_SIZE" "DEBUG_BUCKET_SIZE - 1"
proof unfold_locales
  fix b m assume "bucket_ok b" "terminated m"
  then show "\<exists>b'. debug_print b m = Some b' \<and> bucket_ok b' \<and> cstr b' =
      (if length (cstr b) + length (cstr m) < DEBUG_BUCKET_SIZE - 1 then cstr b @ cstr m else cstr b)"
    by (rule debug_print_effect)
next
  fix b r :: "char list" assume "bucket_ok b" "length r = DEBUG_BUCKET_SIZE"
  then show "\<exists>b' r'. debug_emty_bucket b r = Some (b', r') \<and> bucket_ok b' \<and> cstr b' = [] \<and>
      cstr r' = cstr b"
    using debug_emty_bucket_effect by blast
next
  fix b assume "bucket_ok b"
  then show "length (cstr b) \<le> DEBUG_BUCKET_SIZE - 1"
    using cstr_length_less [of b] by (simp add: bucket_ok_def)
qed

end
