(* ===== verification/ChPrintf.thy ===== *)
theory ChPrintf
  imports CFloat CString
begin

text \<open>
  ChibiOS formatted output: \<open>memstreams.c\<close> (a memory buffer as a stream) and \<open>chprintf.c\<close>
  (\<open>chvprintf\<close>, \<open>chsnprintf\<close>), which the firmware uses for every text it produces.

  \<open>chvprintf\<close> ignores the result of \<open>streamPut\<close>, so what it emits does not depend on the
  stream: \<open>chvprintf\<close> yields the characters emitted, in order, and \<open>chvsnprintf\<close> puts them
  into a memory stream one by one. On the target \<open>int\<close> and \<open>long\<close> are 32 bits wide. The
  format is the array of the format string with its terminator; \<open>None\<close> is an argument of the
  wrong kind, a missing argument, or a read past the end of the format.
\<close>

section \<open>Memory streams\<close>

record MemoryStream =
  ms_buffer :: "char list"
  ms_size :: u32
  ms_eos :: u32
  ms_offset :: u32

definition msObjectInit :: "char list \<Rightarrow> u32 \<Rightarrow> u32 \<Rightarrow> MemoryStream" where
  "msObjectInit buffer sz eos =
     \<lparr>ms_buffer = buffer, ms_size = sz, ms_eos = eos, ms_offset = 0\<rparr>"

definition ms_writes :: "MemoryStream \<Rightarrow> char list \<Rightarrow> u32 \<Rightarrow> (u32 \<times> MemoryStream) option" where
  "ms_writes msp bp n =
     (let n = (if ms_size msp - ms_eos msp < n then ms_size msp - ms_eos msp else n)
      in do { b \<leftarrow> memcpy (ms_buffer msp) (unat (ms_eos msp)) bp (unat n);
              Some (n, msp\<lparr>ms_buffer := b, ms_eos := ms_eos msp + n\<rparr>) })"

definition ms_reads :: "MemoryStream \<Rightarrow> char list \<Rightarrow> u32 \<Rightarrow> (u32 \<times> char list \<times> MemoryStream) option" where
  "ms_reads msp bp n =
     (let n = (if ms_eos msp - ms_offset msp < n then ms_eos msp - ms_offset msp else n)
      in do { b \<leftarrow> memcpy bp 0 (drop (unat (ms_offset msp)) (ms_buffer msp)) (unat n);
              Some (n, b, msp\<lparr>ms_offset := ms_offset msp + n\<rparr>) })"

definition ms_put :: "MemoryStream \<Rightarrow> char \<Rightarrow> (msg \<times> MemoryStream) option" where
  "ms_put msp b =
     (if ms_size msp - ms_eos msp \<le> 0 then Some (MSG_RESET, msp)
      else do { buf \<leftarrow> poke (ms_buffer msp) (unat (ms_eos msp)) b;
                Some (MSG_OK, msp\<lparr>ms_buffer := buf, ms_eos := ms_eos msp + 1\<rparr>) })"

definition ms_get :: "MemoryStream \<Rightarrow> (char option \<times> MemoryStream) option" where
  "ms_get msp =
     (if ms_eos msp - ms_offset msp \<le> 0 then Some (None, msp)
      else do { b \<leftarrow> peek (ms_buffer msp) (unat (ms_offset msp));
                Some (Some b, msp\<lparr>ms_offset := ms_offset msp + 1\<rparr>) })"

definition ms_unget :: "MemoryStream \<Rightarrow> char \<Rightarrow> (msg \<times> MemoryStream) option" where
  "ms_unget msp b =
     (if ms_offset msp \<le> 0 then Some (MSG_RESET, msp)
      else do { buf \<leftarrow> poke (ms_buffer msp) (unat (ms_offset msp - 1)) b;
                Some (MSG_OK, msp\<lparr>ms_offset := ms_offset msp - 1, ms_buffer := buf\<rparr>) })"

section \<open>Number conversion\<close>

definition MAX_FILLER :: nat where "MAX_FILLER = 11"
definition FLOAT_PRECISION :: u32 where "FLOAT_PRECISION = 9"

text \<open>
  \<open>long_to_string_with_divisor\<close>. The radix is unsigned, so the 32-bit \<open>long\<close> operands are
  converted to unsigned as well.
\<close>

definition digit_char :: "u32 \<Rightarrow> char" where
  "digit_char d =
     (let i = unat d + 48; i = (if 57 < i then i + 7 else i) in char_of i)"

function l2s_loop :: "u32 \<Rightarrow> u32 \<Rightarrow> u32 \<Rightarrow> char list \<Rightarrow> char list" where
  "l2s_loop radix l ll q =
     (let q = digit_char (l mod radix) # q; l = l div radix; ll = ll div radix
      in if ll \<noteq> 0 \<and> 2 \<le> radix then l2s_loop radix l ll q else q)"
  by pat_completeness auto
termination
proof (relation "measure (\<lambda>(radix, l, ll, q). unat ll)")
  fix radix ll :: u32 and x xa xb :: "char list"
  show "wf (measure (\<lambda>(radix :: u32, l :: u32, ll :: u32, q :: char list). unat ll))" by simp
next
  fix radix l ll :: u32 and q x :: "char list" and xa xb :: u32
  assume "xb = ll div radix" "xb \<noteq> 0 \<and> 2 \<le> radix"
  then have "unat xb = unat ll div unat radix" "2 \<le> unat radix" "0 < unat ll"
    by (auto simp: unat_div word_le_nat_alt unat_gt_0)
  then have "unat xb < unat ll" by simp
  then show "((radix, xa, xb, x), radix, l, ll, q) \<in> measure (\<lambda>(radix, l, ll, q). unat ll)" by simp
qed

declare l2s_loop.simps [simp del]

definition long_to_string_with_divisor :: "u32 \<Rightarrow> u32 \<Rightarrow> u32 \<Rightarrow> char list" where
  "long_to_string_with_divisor num radix divisor =
     l2s_loop radix num (if divisor = 0 then num else divisor) []"

definition ch_ltoa :: "u32 \<Rightarrow> u32 \<Rightarrow> char list" where
  "ch_ltoa num radix = long_to_string_with_divisor num radix 0"

definition pow10 :: "u32 list" where
  "pow10 = [10, 100, 1000, 10000, 100000, 1000000, 10000000, 100000000, 1000000000]"

definition ftoa :: "ub_conv \<Rightarrow> fp \<Rightarrow> u32 \<Rightarrow> char list" where
  "ftoa ub num precision =
     (let precision = (if precision = 0 \<or> FLOAT_PRECISION < precision then FLOAT_PRECISION else precision);
          precision = pow10 ! (unat precision - 1);
          l = fp_to_s32 ub num;
          whole = long_to_string_with_divisor l 10 0;
          frac = fp_mul Binary64 (fp_sub Binary64 num (fp_of_int Binary64 (sint l)))
                   (fp_of_int Binary64 (uint precision));
          l' = fp_to_s32 ub frac
      in whole @ CHR ''.'' # long_to_string_with_divisor l' 10 (precision div 10))"

section \<open>The format interpreter\<close>

datatype varg = VInt u32 | VStr "char list option" | VDbl fp

record spec =
  sp_left_align :: bool
  sp_do_sign :: bool
  sp_filler :: char
  sp_width :: int
  sp_precision :: int
  sp_conv :: char

datatype 'a scan = Stop | Cont 'a

fun opt_char :: "char \<Rightarrow> char list \<Rightarrow> bool \<times> char list" where
  "opt_char x [] = (False, [])"
| "opt_char x (c # fmt) = (if c = x then (True, fmt) else (False, c # fmt))"

fun fetch :: "char list \<Rightarrow> (char \<times> char list) option" where
  "fetch [] = None"
| "fetch (c # fmt) = Some (c, fmt)"

fun fetch_int :: "varg list \<Rightarrow> (u32 \<times> varg list) option" where
  "fetch_int (VInt i # ap) = Some (i, ap)"
| "fetch_int ap = None"

text \<open>A run of digits; yields the first other character, or stops at the terminator.\<close>

fun scan_digits :: "char list \<Rightarrow> int \<Rightarrow> (char \<times> char list \<times> int) scan option" where
  "scan_digits [] acc = None"
| "scan_digits (c # fmt) acc =
     (if c = NUL then Some Stop
      else if is_digit c then scan_digits fmt (10 * acc + digit_val c)
      else Some (Cont (c, fmt, acc)))"

definition scan_width :: "char list \<Rightarrow> varg list \<Rightarrow> (char \<times> char list \<times> int \<times> varg list) scan option" where
  "scan_width fmt ap =
     (let (star, fmt) = opt_char (CHR ''*'') fmt
      in if star then do {
           (w, ap) \<leftarrow> fetch_int ap;
           (c, fmt) \<leftarrow> fetch fmt;
           Some (Cont (c, fmt, sint w, ap)) }
         else do {
           r \<leftarrow> scan_digits fmt 0;
           Some (case r of Stop \<Rightarrow> Stop | Cont (c, fmt, w) \<Rightarrow> Cont (c, fmt, w, ap)) })"

definition scan_precision ::
  "char \<Rightarrow> char list \<Rightarrow> varg list \<Rightarrow> (char \<times> char list \<times> int \<times> varg list) scan option" where
  "scan_precision c fmt ap =
     (if c \<noteq> CHR ''.'' then Some (Cont (c, fmt, 0, ap))
      else do {
        (c, fmt) \<leftarrow> fetch fmt;
        if c = NUL then Some Stop
        else if c = CHR ''*'' then do {
          (p, ap) \<leftarrow> fetch_int ap;
          (c, fmt) \<leftarrow> fetch fmt;
          Some (Cont (c, fmt, sint p, ap)) }
        else do {
          r \<leftarrow> scan_digits (c # fmt) 0;
          Some (case r of Stop \<Rightarrow> Stop | Cont (c, fmt, p) \<Rightarrow> Cont (c, fmt, p, ap)) } })"

definition scan_long :: "char \<Rightarrow> char list \<Rightarrow> (char \<times> char list) scan option" where
  "scan_long c fmt =
     (if c = CHR ''l'' \<or> c = CHR ''L'' then do {
        (c, fmt) \<leftarrow> fetch fmt;
        if c = NUL then Some Stop else Some (Cont (c, fmt)) }
      else Some (Cont (c, fmt)))"

definition scan_spec :: "char list \<Rightarrow> varg list \<Rightarrow> (spec \<times> char list \<times> varg list) scan option" where
  "scan_spec fmt ap =
     (let (la, fmt) = opt_char (CHR ''-'') fmt;
          (sg, fmt) = opt_char (CHR ''+'') fmt;
          (zf, fmt) = opt_char (CHR ''0'') fmt
      in do {
        w \<leftarrow> scan_width fmt ap;
        case w of Stop \<Rightarrow> Some Stop
        | Cont (c, fmt, wd, ap) \<Rightarrow> do {
            p \<leftarrow> scan_precision c fmt ap;
            case p of Stop \<Rightarrow> Some Stop
            | Cont (c, fmt, pr, ap) \<Rightarrow> do {
                l \<leftarrow> scan_long c fmt;
                case l of Stop \<Rightarrow> Some Stop
                | Cont (c, fmt) \<Rightarrow>
                    Some (Cont (\<lparr>sp_left_align = la, sp_do_sign = sg,
                                 sp_filler = (if zf then CHR ''0'' else CHR '' ''),
                                 sp_width = wd, sp_precision = pr, sp_conv = c\<rparr>, fmt, ap)) } } })"

definition fmt_string :: "int \<Rightarrow> char list option \<Rightarrow> char list option" where
  "fmt_string precision s =
     (let p = (if precision = 0 then 32767 else precision);
          s = (case s of None \<Rightarrow> ''(null)'' @ [NUL] | Some s \<Rightarrow> s);
          t = take (nat p) (cstr s)
      in if terminated s \<or> length t = nat p then Some t else None)"

definition signed_text :: "bool \<Rightarrow> bool \<Rightarrow> char list \<Rightarrow> char list" where
  "signed_text neg do_sign t = (if neg then CHR ''-'' # t else if do_sign then CHR ''+'' # t else t)"

text \<open>The text of one conversion, and the filler it uses.\<close>

definition format_arg :: "ub_conv \<Rightarrow> spec \<Rightarrow> varg list \<Rightarrow> (char list \<times> char \<times> varg list) option" where
  "format_arg ub sp ap =
     (let c = sp_conv sp in
      if c = CHR ''c'' then
        (case ap of VInt i # ap' \<Rightarrow> Some ([char_of (unat i)], CHR '' '', ap') | _ \<Rightarrow> None)
      else if c = CHR ''s'' then
        (case ap of VStr s # ap' \<Rightarrow> do { t \<leftarrow> fmt_string (sp_precision sp) s; Some (t, CHR '' '', ap') }
                  | _ \<Rightarrow> None)
      else if c \<in> {CHR ''D'', CHR ''d'', CHR ''I'', CHR ''i''} then
        (case ap of VInt l # ap' \<Rightarrow>
            Some (signed_text (sint l < 0) (sp_do_sign sp)
                    (ch_ltoa (if sint l < 0 then - l else l) 10), sp_filler sp, ap')
                  | _ \<Rightarrow> None)
      else if c = CHR ''f'' then
        (case ap of VDbl d # ap' \<Rightarrow>
            (let f = fp_cvt Binary32 d; neg = fp_lt f (Zero False)
             in Some (signed_text neg (sp_do_sign sp)
                  (ftoa ub (if neg then fp_neg f else f) (word_of_int (sp_precision sp))), sp_filler sp, ap'))
                  | _ \<Rightarrow> None)
      else if c \<in> {CHR ''X'', CHR ''x'', CHR ''P'', CHR ''p''} then
        (case ap of VInt l # ap' \<Rightarrow> Some (ch_ltoa l 16, sp_filler sp, ap') | _ \<Rightarrow> None)
      else if c \<in> {CHR ''U'', CHR ''u''} then
        (case ap of VInt l # ap' \<Rightarrow> Some (ch_ltoa l 10, sp_filler sp, ap') | _ \<Rightarrow> None)
      else if c \<in> {CHR ''O'', CHR ''o''} then
        (case ap of VInt l # ap' \<Rightarrow> Some (ch_ltoa l 8, sp_filler sp, ap') | _ \<Rightarrow> None)
      else Some ([c], sp_filler sp, ap))"

text \<open>Padding to the field width.\<close>

definition pad_field :: "bool \<Rightarrow> int \<Rightarrow> char \<Rightarrow> char list \<Rightarrow> char list" where
  "pad_field left_align width filler s =
     (let pad = replicate (nat (width - int (length s))) filler
      in if left_align then s @ pad
         else if pad \<noteq> [] \<and> filler = CHR ''0'' \<and> s \<noteq> [] \<and> (hd s = CHR ''-'' \<or> hd s = CHR ''+'')
              then hd s # pad @ tl s
         else pad @ s)"

lemma opt_char_length: "opt_char x fmt = (b, fmt') \<Longrightarrow> length fmt' \<le> length fmt"
  by (cases fmt) (auto split: if_splits)

lemma scan_digits_length:
  "scan_digits fmt acc = Some (Cont (c, fmt', n)) \<Longrightarrow> length fmt' < length fmt"
  by (induction fmt arbitrary: acc) (auto split: if_splits intro: less_SucI)

lemma fetch_length: "fetch fmt = Some (c, fmt') \<Longrightarrow> length fmt' < length fmt"
  by (cases fmt) auto

lemma scan_width_length:
  "scan_width fmt ap = Some (Cont (c, fmt', w, ap')) \<Longrightarrow> length fmt' < length fmt"
  unfolding scan_width_def
  by (auto simp: Let_def split: prod.splits if_splits scan.splits bind_splits
      dest!: scan_digits_length fetch_length opt_char_length)

lemma scan_precision_length:
  "scan_precision c fmt ap = Some (Cont (c', fmt', w, ap')) \<Longrightarrow> length fmt' \<le> length fmt"
  unfolding scan_precision_def
  by (auto split: prod.splits if_splits scan.splits bind_splits
      dest!: scan_digits_length fetch_length simp del: scan_digits.simps)

lemma scan_long_length: "scan_long c fmt = Some (Cont (c', fmt')) \<Longrightarrow> length fmt' \<le> length fmt"
  unfolding scan_long_def
  by (auto split: prod.splits if_splits bind_splits dest!: fetch_length)

lemma scan_spec_length:
  "scan_spec fmt ap = Some (Cont (sp, fmt', ap')) \<Longrightarrow> length fmt' < length fmt"
  unfolding scan_spec_def
  by (auto simp: Let_def split: prod.splits scan.splits bind_splits
      dest!: scan_width_length scan_precision_length scan_long_length opt_char_length)

function chvprintf :: "ub_conv \<Rightarrow> char list \<Rightarrow> varg list \<Rightarrow> char list option" where
  "chvprintf ub [] ap = None"
| "chvprintf ub (c # fmt) ap =
     (if c = NUL then Some []
      else if c \<noteq> CHR ''%'' then map_option ((#) c) (chvprintf ub fmt ap)
      else (case scan_spec fmt ap of
              None \<Rightarrow> None
            | Some Stop \<Rightarrow> Some []
            | Some (Cont (sp, fmt', ap')) \<Rightarrow>
                (case format_arg ub sp ap' of
                   None \<Rightarrow> None
                 | Some (s, fill, ap'') \<Rightarrow>
                     map_option ((@) (pad_field (sp_left_align sp) (sp_width sp) fill s))
                       (chvprintf ub fmt' ap''))))"
  by pat_completeness auto
termination
  by (relation "measure (\<lambda>(ub, fmt, ap). length fmt)") (auto dest: scan_spec_length)

declare chvprintf.simps(2) [simp del]

section \<open>Printing into a buffer\<close>

text \<open>\<open>streamPut\<close> for each emitted character; the status is ignored.\<close>

fun ms_put_all :: "MemoryStream \<Rightarrow> char list \<Rightarrow> MemoryStream option" where
  "ms_put_all msp [] = Some msp"
| "ms_put_all msp (c # cs) = do { (_, msp') \<leftarrow> ms_put msp c; ms_put_all msp' cs }"

definition chvsnprintf ::
  "ub_conv \<Rightarrow> char list \<Rightarrow> u32 \<Rightarrow> char list \<Rightarrow> varg list \<Rightarrow> (u32 \<times> char list) option" where
  "chvsnprintf ub str sz fmt ap =
     (let size_wo_nul = (if 0 < sz then sz - 1 else 0)
      in do {
        out \<leftarrow> chvprintf ub fmt ap;
        ms \<leftarrow> ms_put_all (msObjectInit str size_wo_nul 0) out;
        str' \<leftarrow> (if ms_eos ms < sz then poke (ms_buffer ms) (unat (ms_eos ms)) NUL
                else Some (ms_buffer ms));
        Some (word_of_int (int (length out)), str') })"

definition chsnprintf ::
  "ub_conv \<Rightarrow> char list \<Rightarrow> u32 \<Rightarrow> string \<Rightarrow> varg list \<Rightarrow> (u32 \<times> char list) option" where
  "chsnprintf ub str sz fmt args = chvsnprintf ub str sz (fmt @ [NUL]) args"

section \<open>Streams stay inside their buffer\<close>

definition ms_ok :: "MemoryStream \<Rightarrow> bool" where
  "ms_ok msp \<longleftrightarrow> ms_eos msp \<le> ms_size msp \<and> unat (ms_size msp) \<le> length (ms_buffer msp)"

lemma ms_put_full: "ms_eos msp = ms_size msp \<Longrightarrow> ms_put msp c = Some (MSG_RESET, msp)"
  by (simp add: ms_put_def)

lemma ms_put_room:
  assumes "ms_ok msp" "ms_eos msp < ms_size msp"
  shows "ms_put msp c = Some (MSG_OK, msp\<lparr>ms_buffer := (ms_buffer msp)[unat (ms_eos msp) := c],
      ms_eos := ms_eos msp + 1\<rparr>)"
    and "unat (ms_eos msp + 1) = Suc (unat (ms_eos msp))"
proof -
  have lt: "unat (ms_eos msp) < unat (ms_size msp)" using assms(2) by (simp add: word_less_nat_alt)
  then have "unat (ms_eos msp) < length (ms_buffer msp)" using assms(1) by (simp add: ms_ok_def)
  moreover have "ms_size msp - ms_eos msp \<noteq> 0" using assms(2) by auto
  ultimately show "ms_put msp c = Some (MSG_OK, msp\<lparr>ms_buffer := (ms_buffer msp)[unat (ms_eos msp) := c],
      ms_eos := ms_eos msp + 1\<rparr>)"
    by (simp add: ms_put_def poke_def)
  show "unat (ms_eos msp + 1) = Suc (unat (ms_eos msp))"
    using assms(2) by (rule unat_inc)
qed

lemma ms_put_all_effect:
  assumes "ms_ok msp"
  shows "\<exists>msp'. ms_put_all msp cs = Some msp' \<and> ms_ok msp' \<and> ms_size msp' = ms_size msp \<and>
    length (ms_buffer msp') = length (ms_buffer msp) \<and>
    unat (ms_eos msp') = min (unat (ms_eos msp) + length cs) (unat (ms_size msp)) \<and>
    take (unat (ms_eos msp')) (ms_buffer msp') =
      take (unat (ms_size msp)) (take (unat (ms_eos msp)) (ms_buffer msp) @ cs) \<and>
    drop (unat (ms_size msp)) (ms_buffer msp') = drop (unat (ms_size msp)) (ms_buffer msp)"
  using assms
proof (induction cs arbitrary: msp)
  case Nil
  then show ?case by (auto simp: ms_ok_def word_le_nat_alt min_absorb1)
next
  case (Cons c cs)
  have le: "unat (ms_eos msp) \<le> unat (ms_size msp)" "unat (ms_size msp) \<le> length (ms_buffer msp)"
    using Cons.prems by (simp_all add: ms_ok_def word_le_nat_alt)
  show ?case
  proof (cases "ms_eos msp = ms_size msp")
    case True
    then show ?thesis
      using Cons.IH [OF Cons.prems] le by (auto simp: ms_put_full)
  next
    case False
    then have lt: "ms_eos msp < ms_size msp"
      using Cons.prems by (simp add: ms_ok_def order_less_le)
    then have ltn: "unat (ms_eos msp) < unat (ms_size msp)" by (simp add: word_less_nat_alt)
    note pr = ms_put_room [OF Cons.prems lt]
    let ?m = "msp\<lparr>ms_buffer := (ms_buffer msp)[unat (ms_eos msp) := c], ms_eos := ms_eos msp + 1\<rparr>"
    have ok: "ms_ok ?m" using ltn le pr(2) by (simp add: ms_ok_def word_le_nat_alt)
    have tk: "take (Suc (unat (ms_eos msp))) ((ms_buffer msp)[unat (ms_eos msp) := c]) =
        take (unat (ms_eos msp)) (ms_buffer msp) @ [c]"
      using ltn le by (simp add: take_Suc_conv_app_nth)
    have dr: "drop (unat (ms_size msp)) ((ms_buffer msp)[unat (ms_eos msp) := c]) =
        drop (unat (ms_size msp)) (ms_buffer msp)"
      using ltn by simp
    obtain m' where "ms_put_all ?m cs = Some m'" "ms_ok m'" "ms_size m' = ms_size msp"
      "length (ms_buffer m') = length (ms_buffer msp)"
      "unat (ms_eos m') = min (unat (ms_eos msp) + length (c # cs)) (unat (ms_size msp))"
      "take (unat (ms_eos m')) (ms_buffer m') =
        take (unat (ms_size msp)) (take (unat (ms_eos msp)) (ms_buffer msp) @ c # cs)"
      "drop (unat (ms_size msp)) (ms_buffer m') = drop (unat (ms_size msp)) (ms_buffer msp)"
      using Cons.IH [OF ok] pr(2) tk dr by auto
    then show ?thesis using pr(1) by auto
  qed
qed

lemma chvsnprintf_effect:
  assumes sz: "0 < sz" "unat sz \<le> length str" and out: "chvprintf ub fmt ap = Some out"
    and nn: "NUL \<notin> set out"
  shows "\<exists>str'. chvsnprintf ub str sz fmt ap = Some (word_of_int (int (length out)), str') \<and>
    length str' = length str \<and> terminated str' \<and> cstr str' = take (unat sz - 1) out \<and>
    drop (unat sz) str' = drop (unat sz) str"
proof -
  have sz1: "unat (sz - 1) = unat sz - 1"
    using sz(1) by (intro unat_minus_one) auto
  have pos: "0 < unat sz" using sz(1) by (simp add: word_less_nat_alt)
  have "ms_ok (msObjectInit str (sz - 1) 0)"
    using sz sz1 by (simp add: ms_ok_def msObjectInit_def)
  from ms_put_all_effect [OF this, of out] obtain m where
    m: "ms_put_all (msObjectInit str (sz - 1) 0) out = Some m" "ms_ok m" "ms_size m = sz - 1"
      "length (ms_buffer m) = length str" "unat (ms_eos m) = min (length out) (unat sz - 1)"
      "take (unat (ms_eos m)) (ms_buffer m) = take (unat sz - 1) out"
      "drop (unat sz - 1) (ms_buffer m) = drop (unat sz - 1) str"
    by (auto simp: msObjectInit_def sz1)
  have e: "unat (ms_eos m) < unat sz" using m(5) pos by linarith
  then have lt: "ms_eos m < sz" "unat (ms_eos m) < length (ms_buffer m)"
    using m(4) sz(2) by (simp_all add: word_less_nat_alt)
  let ?b = "(ms_buffer m)[unat (ms_eos m) := NUL]"
  have b: "?b = take (unat sz - 1) out @ NUL # drop (Suc (unat (ms_eos m))) (ms_buffer m)"
    using lt(2) m(6) by (simp add: upd_conv_take_nth_drop)
  have "NUL \<notin> set (take (unat sz - 1) out)" using nn by (meson in_set_takeD)
  then have "terminated ?b" "cstr ?b = take (unat sz - 1) out"
    by (simp_all add: b)
  moreover have "drop (unat sz) ?b = drop (unat sz) str"
  proof -
    have "drop 1 (drop (unat sz - 1) (ms_buffer m)) = drop 1 (drop (unat sz - 1) str)"
      by (simp only: m(7))
    then have "drop (unat sz) (ms_buffer m) = drop (unat sz) str" using pos by simp
    then show ?thesis using e by simp
  qed
  moreover have "chvsnprintf ub str sz fmt ap = Some (word_of_int (int (length out)), ?b)"
    using sz(1) lt by (simp add: chvsnprintf_def out m(1) poke_def)
  ultimately show ?thesis using m(4) by auto
qed

section \<open>Decimal numbers\<close>

lemma digit_char_dec: "is_digit (digit_char (l mod 10))" "digit_val (digit_char (l mod 10)) = int (unat l mod 10)"
proof -
  have lt: "unat l mod 10 < 10" by simp
  have um: "unat (l mod 10) = unat l mod 10" by (simp add: unat_mod)
  have "digit_char (l mod 10) = char_of (48 + unat l mod 10)"
    using lt by (simp add: digit_char_def Let_def um add.commute)
  then show "is_digit (digit_char (l mod 10))" "digit_val (digit_char (l mod 10)) = int (unat l mod 10)"
    using is_digit_of_nat [OF lt] by simp_all
qed

text \<open>
  The loop emits as many digits as its second counter has, the last that many decimal
  digits of its first one.
\<close>

lemma l2s_loop_dec:
  "\<exists>ds. l2s_loop 10 l ll q = ds @ q \<and> ds \<noteq> [] \<and> list_all is_digit ds \<and>
     dec_val ds = int (unat l mod 10 ^ length ds) \<and> unat ll < 10 ^ length ds \<and>
     (\<forall>k. 0 < k \<longrightarrow> unat ll < 10 ^ k \<longrightarrow> length ds \<le> k)"
proof (induction "unat ll" arbitrary: l ll q rule: less_induct)
  case less
  let ?c = "digit_char (l mod 10)"
  have step: "l2s_loop 10 l ll q =
      (if ll div 10 \<noteq> 0 then l2s_loop 10 (l div 10) (ll div 10) (?c # q) else ?c # q)"
    by (subst l2s_loop.simps) (simp add: Let_def word_le_nat_alt)
  have ud: "unat (l div 10) = unat l div 10" "unat (ll div 10) = unat ll div 10"
    by (simp_all add: unat_div)
  show ?case
  proof (cases "ll div 10 = 0")
    case True
    then have "unat ll < 10" using ud(2) by (metis div_eq_0_iff unat_0 zero_neq_numeral)
    then show ?thesis
      using step True digit_char_dec [of l]
      by (intro exI [of _ "[?c]"]) (auto simp: dec_val_def Suc_le_eq)
  next
    case False
    then have big: "10 \<le> unat ll" using ud(2) by (metis div_less not_le unat_eq_zero)
    then have "unat (ll div 10) < unat ll" by (simp add: ud)
    from less [OF this, of "l div 10" "?c # q"] obtain ds where
      ds: "l2s_loop 10 (l div 10) (ll div 10) (?c # q) = ds @ ?c # q" "ds \<noteq> []" "list_all is_digit ds"
        "dec_val ds = int (unat l div 10 mod 10 ^ length ds)" "unat ll div 10 < 10 ^ length ds"
        "\<And>k. 0 < k \<Longrightarrow> unat ll div 10 < 10 ^ k \<Longrightarrow> length ds \<le> k"
      by (auto simp: ud)
    have val: "dec_val (ds @ [?c]) = int (unat l mod 10 ^ length (ds @ [?c]))"
    proof -
      have "unat l mod 10 ^ Suc (length ds) = 10 * (unat l div 10 mod 10 ^ length ds) + unat l mod 10"
        by (simp add: mod_mult2_eq mult.commute)
      then show ?thesis using ds(4) digit_char_dec(2) [of l] by simp
    qed
    have up: "unat ll < 10 ^ length (ds @ [?c])"
      using ds(5) by (simp add: div_less_iff_less_mult mult.commute)
    have min: "length (ds @ [?c]) \<le> k" if k: "0 < k" "unat ll < 10 ^ k" for k
    proof -
      have "k \<noteq> 1" using big k by auto
      with k(1) have j: "k = Suc (k - 1)" "0 < k - 1" by auto
      have "10 ^ k = (10::nat) ^ (k - 1) * 10" by (subst j(1)) simp
      then have "unat ll div 10 < 10 ^ (k - 1)"
        using k(2) by (simp add: div_less_iff_less_mult mult.commute)
      then show ?thesis using ds(6) [OF j(2)] j(1) by simp
    qed
    show ?thesis
      using step False ds(1-3) val up min digit_char_dec(1) [of l]
      by (intro exI [of _ "ds @ [?c]"]) auto
  qed
qed

lemma ch_ltoa_dec:
  "list_all is_digit (ch_ltoa n 10)" "ch_ltoa n 10 \<noteq> []" "dec_val (ch_ltoa n 10) = uint n"
  "length (ch_ltoa n 10) \<le> 10" "0 < k \<Longrightarrow> unat n < 10 ^ k \<Longrightarrow> length (ch_ltoa n 10) \<le> k"
proof -
  obtain ds where ds: "l2s_loop 10 n n [] = ds @ []" "ds \<noteq> []" "list_all is_digit ds"
    "dec_val ds = int (unat n mod 10 ^ length ds)" "unat n < 10 ^ length ds"
    "\<And>k. 0 < k \<Longrightarrow> unat n < 10 ^ k \<Longrightarrow> length ds \<le> k"
    using l2s_loop_dec [of n n "[]"] by auto
  have eq: "ch_ltoa n 10 = ds"
    using ds(1) by (simp add: ch_ltoa_def long_to_string_with_divisor_def)
  show "list_all is_digit (ch_ltoa n 10)" "ch_ltoa n 10 \<noteq> []" using ds eq by auto
  show "dec_val (ch_ltoa n 10) = uint n" using ds(4,5) eq by simp
  have "unat n < 10 ^ 10" using unsigned_less [of n, where ?'a = nat] by simp
  then show "length (ch_ltoa n 10) \<le> 10" using ds(6) [of 10] eq by simp
  show "0 < k \<Longrightarrow> unat n < 10 ^ k \<Longrightarrow> length (ch_ltoa n 10) \<le> k" using ds(6) eq by simp
qed

text \<open>The text of a signed 32-bit integer.\<close>

definition dec_text :: "u32 \<Rightarrow> char list" where
  "dec_text i = signed_text (sint i < 0) False (ch_ltoa (if sint i < 0 then - i else i) 10)"

lemma uint_neg_sint: "sint (i :: u32) < 0 \<Longrightarrow> uint (- i) = - sint i"
proof -
  assume neg: "sint i < 0"
  then have "uint i \<noteq> 0" "sint i = uint i - 4294967296"
    by (auto simp: sint32_uint split: if_splits)
  moreover have "uint (- i) = (- uint i) mod 4294967296"
    by (simp add: uint_word_ariths(4))
  moreover have "(- uint i) mod 4294967296 = 4294967296 - uint i"
    using \<open>uint i \<noteq> 0\<close> uint32_range [of i] by (simp add: zmod_zminus1_eq_if)
  ultimately show ?thesis by simp
qed

lemma uint_pos_sint: "0 \<le> sint (i :: u32) \<Longrightarrow> uint i = sint i"
  using uint32_range [of i] by (auto simp: sint32_uint split: if_splits)

text \<open>Reading the text back gives the integer: \<open>atoi\<close> is a left inverse of \<open>%d\<close>.\<close>

lemma atoi_dec_text: "\<not> is_digit c \<Longrightarrow> atoi (dec_text i @ c # r) = Some (sint i)"
proof (cases "sint i < 0")
  case True
  assume c: "\<not> is_digit c"
  have v: "dec_val (ch_ltoa (- i) 10) = - sint i"
    using ch_ltoa_dec(3) [of "- i"] uint_neg_sint [OF True] by simp
  have "atoi (CHR ''-'' # ch_ltoa (- i) 10 @ c # r) = Some (- dec_val (ch_ltoa (- i) 10))"
    using c v sint32_range [of i] by (intro atoi_negative_value ch_ltoa_dec) auto
  then show ?thesis using True v by (simp add: dec_text_def signed_text_def)
next
  case False
  assume c: "\<not> is_digit c"
  have v: "dec_val (ch_ltoa i 10) = sint i"
    using ch_ltoa_dec(3) [of i] uint_pos_sint [of i] False by simp
  have "atoi (ch_ltoa i 10 @ c # r) = Some (dec_val (ch_ltoa i 10))"
    using c v sint32_range [of i] by (intro atoi_number_value ch_ltoa_dec) auto
  then show ?thesis using False v by (simp add: dec_text_def signed_text_def)
qed

lemma dec_text_chars: "list_all (\<lambda>c. is_digit c \<or> c = CHR ''-'') (dec_text i)"
  using ch_ltoa_dec(1) by (auto simp: dec_text_def signed_text_def list_all_iff)

lemma dec_text_length: "length (dec_text i) \<le> 11"
  using ch_ltoa_dec(4) [of i] ch_ltoa_dec(4) [of "- i"] by (auto simp: dec_text_def signed_text_def)

section \<open>What a format can emit\<close>

text \<open>
  \<open>emits ub fmt ap n\<close>: the format consumes the arguments without a fault and emits at most
  \<open>n\<close> characters, none of them NUL. One rule per conversion the firmware uses.
\<close>

definition emits :: "ub_conv \<Rightarrow> char list \<Rightarrow> varg list \<Rightarrow> nat \<Rightarrow> bool" where
  "emits ub fmt ap n \<longleftrightarrow> (\<exists>out. chvprintf ub fmt ap = Some out \<and> NUL \<notin> set out \<and> length out \<le> n)"

definition plain_spec :: "int \<Rightarrow> char \<Rightarrow> spec" where
  "plain_spec p c = \<lparr>sp_left_align = False, sp_do_sign = False, sp_filler = CHR '' '',
     sp_width = 0, sp_precision = p, sp_conv = c\<rparr>"

lemma pad_field_plain: "pad_field False 0 f t = t"
  by (simp add: pad_field_def)

lemma chvprintf_conv:
  assumes "scan_spec fmt ap = Some (Cont (plain_spec p c, fmt', ap))"
    and "format_arg ub (plain_spec p c) ap = Some (t, f, ap')"
  shows "chvprintf ub (CHR ''%'' # fmt) ap = map_option ((@) t) (chvprintf ub fmt' ap')"
proof -
  have "pad_field (sp_left_align (plain_spec p c)) (sp_width (plain_spec p c)) f t = t"
    by (simp add: plain_spec_def pad_field_plain)
  then show ?thesis using assms by (simp add: chvprintf.simps(2))
qed

lemma emits_conv:
  assumes "scan_spec fmt ap = Some (Cont (plain_spec p c, fmt', ap))"
    and "format_arg ub (plain_spec p c) ap = Some (t, f, ap')"
    and "NUL \<notin> set t" "length t \<le> k" "emits ub fmt' ap' n"
  shows "emits ub (CHR ''%'' # fmt) ap (k + n)"
  using assms(3-5) unfolding emits_def chvprintf_conv [OF assms(1,2)] by fastforce

lemma scan_spec_plain:
  "c \<in> {CHR ''d'', CHR ''s'', CHR ''f''} \<Longrightarrow>
     scan_spec (c # fmt) ap = Some (Cont (plain_spec 0 c, fmt, ap))"
  by (elim insertE emptyE; simp add: scan_spec_def scan_width_def scan_precision_def scan_long_def plain_spec_def
      is_digit_def less_eq_char_def)

lemma scan_spec_prec:
  "is_digit d \<Longrightarrow>
     scan_spec (CHR ''.'' # d # CHR ''f'' # fmt) ap = Some (Cont (plain_spec (digit_val d) (CHR ''f''), fmt, ap))"
proof -
  assume d: "is_digit d"
  have n: "\<not> is_digit (CHR ''.'')" "\<not> is_digit (CHR ''f'')" "\<not> is_digit (CHR ''*'')" "\<not> is_digit NUL"
    by (simp_all add: is_digit_def less_eq_char_def)
  then have "d \<noteq> CHR ''*''" "d \<noteq> NUL" using d by auto
  then show ?thesis
    using d n by (simp add: scan_spec_def scan_width_def scan_precision_def scan_long_def plain_spec_def)
qed

lemma digit_not_NUL: "is_digit c \<Longrightarrow> c \<noteq> NUL"
  by (auto simp: is_digit_def less_eq_char_def)

lemma digits_not_NUL: "list_all is_digit ds \<Longrightarrow> NUL \<notin> set ds"
  using digit_not_NUL by (auto simp: list_all_iff)

lemma dec_text_not_NUL: "NUL \<notin> set (dec_text i)"
  using dec_text_chars [of i] digit_not_NUL by (auto simp: list_all_iff)

lemma format_d: "format_arg ub (plain_spec p (CHR ''d'')) (VInt i # ap) = Some (dec_text i, CHR '' '', ap)"
  by (simp add: format_arg_def plain_spec_def dec_text_def)

text \<open>The text of a \<open>%.Nf\<close> conversion.\<close>

definition float_text :: "ub_conv \<Rightarrow> int \<Rightarrow> fp \<Rightarrow> char list" where
  "float_text ub p d =
     (let f = fp_cvt Binary32 d; neg = fp_lt f (Zero False)
      in signed_text neg False (ftoa ub (if neg then fp_neg f else f) (word_of_int p)))"

lemma format_f: "format_arg ub (plain_spec p (CHR ''f'')) (VDbl d # ap) = Some (float_text ub p d, CHR '' '', ap)"
  by (simp add: format_arg_def plain_spec_def float_text_def Let_def)

lemma pow10_nth: "1 \<le> p \<Longrightarrow> p \<le> 9 \<Longrightarrow> unat (pow10 ! (p - 1) div 10) < 10 ^ p"
proof -
  assume p: "1 \<le> p" "p \<le> 9"
  then have "p \<in> set [1, 2, 3, 4, 5, 6, 7, 8, 9]" by auto
  moreover have "\<forall>p \<in> set [1, 2, 3, 4, 5, 6, 7, 8, 9]. unat (pow10 ! (p - 1) div 10) < 10 ^ p"
    by (simp add: pow10_def unat_div)
  ultimately show ?thesis by blast
qed

lemma l2s_divisor:
  assumes "divisor \<noteq> 0" "0 < k" "unat divisor < 10 ^ k"
  shows "list_all is_digit (long_to_string_with_divisor l 10 divisor)"
    "length (long_to_string_with_divisor l 10 divisor) \<le> k"
  using l2s_loop_dec [of l divisor "[]"] assms
  by (auto simp: long_to_string_with_divisor_def)

lemma ftoa_text:
  assumes "1 \<le> p" "p \<le> 9"
  shows "NUL \<notin> set (ftoa ub x (word_of_int p))" "length (ftoa ub x (word_of_int p)) \<le> nat p + 11"
proof -
  define k where "k = nat p"
  have k: "1 \<le> k" "k \<le> 9" "p = int k" using assms by (simp_all add: k_def)
  have "uint (word_of_int p :: u32) = p" using assms by (simp add: uint_word_of_int)
  then have uk: "unat (word_of_int p :: u32) = k" by (simp only: unat_eq_nat_uint k_def)
  have kk: "(word_of_int p :: u32) \<noteq> 0" "\<not> FLOAT_PRECISION < (word_of_int p :: u32)"
    using uk k by (auto simp: FLOAT_PRECISION_def word_less_nat_alt unat_eq_zero)
  let ?pw = "pow10 ! (k - 1)"
  have nz: "?pw div 10 \<noteq> 0"
  proof -
    have "k \<in> set [1, 2, 3, 4, 5, 6, 7, 8, 9]" using k by auto
    moreover have "\<forall>k \<in> set [1, 2, 3, 4, 5, 6, 7, 8, 9]. pow10 ! (k - 1) div 10 \<noteq> 0"
      by (simp add: pow10_def)
    ultimately show ?thesis by blast
  qed
  obtain w l where e: "ftoa ub x (word_of_int p) =
      ch_ltoa w 10 @ CHR ''.'' # long_to_string_with_divisor l 10 (?pw div 10)"
    unfolding ftoa_def Let_def using kk uk by (auto simp: ch_ltoa_def)
  note fr = l2s_divisor [OF nz _ pow10_nth [OF k(1,2)], of l]
  show "NUL \<notin> set (ftoa ub x (word_of_int p))"
    unfolding e using digits_not_NUL [OF ch_ltoa_dec(1)] digits_not_NUL [OF fr(1)] k(1) by simp
  show "length (ftoa ub x (word_of_int p)) \<le> nat p + 11"
    unfolding e using ch_ltoa_dec(4) [of w] fr(2) k by simp
qed

lemma float_text_bound:
  assumes "1 \<le> p" "p \<le> 9"
  shows "NUL \<notin> set (float_text ub p d)" "length (float_text ub p d) \<le> nat p + 12"
proof -
  define neg where "neg = fp_lt (fp_cvt Binary32 d) (Zero False)"
  define t where "t = ftoa ub (if neg then fp_neg (fp_cvt Binary32 d) else fp_cvt Binary32 d) (word_of_int p)"
  have t: "NUL \<notin> set t" "length t \<le> nat p + 11"
    unfolding t_def by (rule ftoa_text [OF assms])+
  have "float_text ub p d = signed_text neg False t"
    by (simp add: float_text_def Let_def neg_def t_def)
  then show "NUL \<notin> set (float_text ub p d)" "length (float_text ub p d) \<le> nat p + 12"
    using t by (auto simp: signed_text_def)
qed

lemma emits_end: "emits ub [NUL] ap 0"
  by (simp add: emits_def chvprintf.simps(2))

lemma emits_lit: "c \<noteq> NUL \<Longrightarrow> c \<noteq> CHR ''%'' \<Longrightarrow> emits ub fmt ap n \<Longrightarrow> emits ub (c # fmt) ap (Suc n)"
  by (auto simp: emits_def chvprintf.simps(2))

lemma emits_d: "emits ub fmt ap n \<Longrightarrow> emits ub (CHR ''%'' # CHR ''d'' # fmt) (VInt i # ap) (11 + n)"
  by (rule emits_conv [OF scan_spec_plain format_d dec_text_not_NUL dec_text_length]) simp_all

lemma emits_f2: "emits ub fmt ap n \<Longrightarrow>
    emits ub (CHR ''%'' # CHR ''.'' # CHR ''2'' # CHR ''f'' # fmt) (VDbl d # ap) (14 + n)"
  and emits_f3: "emits ub fmt ap n \<Longrightarrow>
    emits ub (CHR ''%'' # CHR ''.'' # CHR ''3'' # CHR ''f'' # fmt) (VDbl d # ap) (15 + n)"
  and emits_f5: "emits ub fmt ap n \<Longrightarrow>
    emits ub (CHR ''%'' # CHR ''.'' # CHR ''5'' # CHR ''f'' # fmt) (VDbl d # ap) (17 + n)"
proof -
  have dv: "digit_val (CHR ''2'') = 2" "digit_val (CHR ''3'') = 3" "digit_val (CHR ''5'') = 5"
    by (simp_all add: digit_val_def)
  have dg: "is_digit (CHR ''2'')" "is_digit (CHR ''3'')" "is_digit (CHR ''5'')"
    by (simp_all add: is_digit_def less_eq_char_def)
  assume e: "emits ub fmt ap n"
  show "emits ub (CHR ''%'' # CHR ''.'' # CHR ''2'' # CHR ''f'' # fmt) (VDbl d # ap) (14 + n)"
    using float_text_bound [of 2 ub d] by (intro emits_conv [OF scan_spec_prec format_f]) (simp_all add: dg dv e)
  show "emits ub (CHR ''%'' # CHR ''.'' # CHR ''3'' # CHR ''f'' # fmt) (VDbl d # ap) (15 + n)"
    using float_text_bound [of 3 ub d] by (intro emits_conv [OF scan_spec_prec format_f]) (simp_all add: dg dv e)
  show "emits ub (CHR ''%'' # CHR ''.'' # CHR ''5'' # CHR ''f'' # fmt) (VDbl d # ap) (17 + n)"
    using float_text_bound [of 5 ub d] by (intro emits_conv [OF scan_spec_prec format_f]) (simp_all add: dg dv e)
qed

lemma emits_s:
  assumes "terminated s" "length (cstr s) \<le> k" "k \<le> 32767" "emits ub fmt ap n"
  shows "emits ub (CHR ''%'' # CHR ''s'' # fmt) (VStr (Some s) # ap) (k + n)"
proof (rule emits_conv)
  show "scan_spec (CHR ''s'' # fmt) (VStr (Some s) # ap) =
      Some (Cont (plain_spec 0 (CHR ''s''), fmt, VStr (Some s) # ap))"
    by (rule scan_spec_plain) simp
  show "format_arg ub (plain_spec 0 (CHR ''s'')) (VStr (Some s) # ap) = Some (cstr s, CHR '' '', ap)"
    using assms(1-3) by (simp add: format_arg_def plain_spec_def fmt_string_def Let_def)
qed (use assms in auto)

lemmas emits_rules = emits_d emits_f2 emits_f3 emits_f5 emits_s

lemma emits_chsnprintf:
  assumes "emits ub (fmt @ [NUL]) args n" "0 < sz" "unat sz \<le> length str"
  shows "\<exists>out str'. chsnprintf ub str sz fmt args = Some (word_of_int (int (length out)), str') \<and>
    length out \<le> n \<and> length str' = length str \<and> terminated str' \<and> cstr str' = take (unat sz - 1) out"
proof -
  obtain out where o: "chvprintf ub (fmt @ [NUL]) args = Some out" "NUL \<notin> set out" "length out \<le> n"
    using assms(1) by (auto simp: emits_def)
  from chvsnprintf_effect [OF assms(2,3) o(1,2)] o(3) show ?thesis
    unfolding chsnprintf_def by blast
qed

end
