(* ===== verification/Ctrl.thy ===== *)
theory Ctrl
  imports Mde Imu Debug ChPrintf
begin

text \<open>
  \<open>ctrl.c\<close>, the position and speed control of the three motors. The record \<open>robot\<close> gathers
  the variables the control thread reads and writes: its own, those of the motor drive and
  the IMU, the debug buffer, and the system time. The body of the thread's loop is split at
  the points where it can be interrupted by another module's command: the failsafe check,
  the azimuth calibration (which sleeps for a second in its middle), the three motor
  controllers, the log line, and the time stamp that the motor drive checks.
\<close>

datatype motor_state =
    MOTOR_STATE_CONST_TORQUE
  | MOTOR_STATE_CONST_SPEED
  | MOTOR_STATE_TARGET_POSITION

record ctrl_state =
  az_flag_calibrate :: bool
  az_state :: motor_state
  el_state :: motor_state
  sk_state :: motor_state
  az_tgt_spd :: s16
  az_tgt_pos :: u16
  az_tgt_pos_spd :: s16
  az_tgt_pos_tim :: systime
  el_tgt_spd :: s16
  el_tgt_pos :: s16
  el_tgt_pos_spd :: s16
  el_tgt_pos_tim :: systime
  sk_tgt_pos :: s16
  last_loop_update :: systime

definition ctrl_state_init :: ctrl_state where
  "ctrl_state_init =
     \<lparr>az_flag_calibrate = False, az_state = MOTOR_STATE_CONST_TORQUE,
      el_state = MOTOR_STATE_CONST_TORQUE, sk_state = MOTOR_STATE_CONST_TORQUE,
      az_tgt_spd = 0, az_tgt_pos = 0, az_tgt_pos_spd = 0, az_tgt_pos_tim = 0,
      el_tgt_spd = 0, el_tgt_pos = 0, el_tgt_pos_spd = 0, el_tgt_pos_tim = 0,
      sk_tgt_pos = 0, last_loop_update = 0\<rparr>"

record robot =
  ctl :: ctrl_state
  mde :: mde_state
  imu :: imu_state
  bucket :: "char list"
  now :: systime

abbreviation upd_ctl :: "(ctrl_state \<Rightarrow> ctrl_state) \<Rightarrow> 'a robot_scheme \<Rightarrow> 'a robot_scheme" where
  "upd_ctl f r \<equiv> r\<lparr>ctl := f (ctl r)\<rparr>"

abbreviation upd_mde :: "(mde_state \<Rightarrow> mde_state) \<Rightarrow> 'a robot_scheme \<Rightarrow> 'a robot_scheme" where
  "upd_mde f r \<equiv> r\<lparr>mde := f (mde r)\<rparr>"

section \<open>Commands\<close>

definition az_set_const_trq :: "s8 \<Rightarrow> 'a robot_scheme \<Rightarrow> 'a robot_scheme" where
  "az_set_const_trq torque r =
     (let r = upd_ctl (\<lambda>c. c\<lparr>az_flag_calibrate := False\<rparr>) r;
          r = upd_ctl (\<lambda>c. c\<lparr>az_state := MOTOR_STATE_CONST_TORQUE\<rparr>) r
      in upd_mde (mde_set_trq_az torque) r)"

definition el_set_const_trq :: "s8 \<Rightarrow> 'a robot_scheme \<Rightarrow> 'a robot_scheme" where
  "el_set_const_trq torque r =
     (let r = upd_mde (mde_set_trq_el torque) r
      in upd_ctl (\<lambda>c. c\<lparr>el_state := MOTOR_STATE_CONST_TORQUE\<rparr>) r)"

definition sk_set_const_trq :: "s8 \<Rightarrow> 'a robot_scheme \<Rightarrow> 'a robot_scheme" where
  "sk_set_const_trq torque r =
     (let r = upd_mde (mde_set_trq_sk torque) r
      in upd_ctl (\<lambda>c. c\<lparr>sk_state := MOTOR_STATE_CONST_TORQUE\<rparr>) r)"

definition az_set_const_spd :: "s16 \<Rightarrow> 'a robot_scheme \<Rightarrow> 'a robot_scheme" where
  "az_set_const_spd speed r =
     upd_ctl (\<lambda>c. c\<lparr>az_tgt_spd := speed, az_flag_calibrate := False,
                     az_state := MOTOR_STATE_CONST_SPEED\<rparr>) r"

definition az_set_tgt_pos :: "u16 \<Rightarrow> 'a robot_scheme \<Rightarrow> 'a robot_scheme" where
  "az_set_tgt_pos position r =
     upd_ctl (\<lambda>c. c\<lparr>az_tgt_pos := position, az_flag_calibrate := False,
                     az_tgt_pos_tim := now r, az_state := MOTOR_STATE_TARGET_POSITION\<rparr>) r"

definition az_set_tgt_pos_spd :: "s16 \<Rightarrow> 'a robot_scheme \<Rightarrow> 'a robot_scheme" where
  "az_set_tgt_pos_spd speed r = upd_ctl (\<lambda>c. c\<lparr>az_tgt_pos_spd := speed\<rparr>) r"

definition el_set_tgt_pos :: "s16 \<Rightarrow> 'a robot_scheme \<Rightarrow> 'a robot_scheme" where
  "el_set_tgt_pos position r =
     upd_ctl (\<lambda>c. c\<lparr>el_tgt_pos := position, el_tgt_pos_tim := now r,
                     el_state := MOTOR_STATE_TARGET_POSITION\<rparr>) r"

definition el_set_tgt_pos_spd :: "s16 \<Rightarrow> 'a robot_scheme \<Rightarrow> 'a robot_scheme" where
  "el_set_tgt_pos_spd speed r = upd_ctl (\<lambda>c. c\<lparr>el_tgt_pos_spd := speed\<rparr>) r"

definition sk_set_tgt_pos :: "s16 \<Rightarrow> 'a robot_scheme \<Rightarrow> 'a robot_scheme" where
  "sk_set_tgt_pos position r =
     upd_ctl (\<lambda>c. c\<lparr>sk_tgt_pos := position, sk_state := MOTOR_STATE_TARGET_POSITION\<rparr>) r"

definition az_get_tgt_pos :: "'a robot_scheme \<Rightarrow> u16" where "az_get_tgt_pos r = az_tgt_pos (ctl r)"
definition el_get_tgt_pos :: "'a robot_scheme \<Rightarrow> s16" where "el_get_tgt_pos r = el_tgt_pos (ctl r)"
definition sk_get_tgt_pos :: "'a robot_scheme \<Rightarrow> s16" where "sk_get_tgt_pos r = sk_tgt_pos (ctl r)"
definition az_get_state :: "'a robot_scheme \<Rightarrow> motor_state" where "az_get_state r = az_state (ctl r)"
definition el_get_state :: "'a robot_scheme \<Rightarrow> motor_state" where "el_get_state r = el_state (ctl r)"
definition sk_get_state :: "'a robot_scheme \<Rightarrow> motor_state" where "sk_get_state r = sk_state (ctl r)"

definition az_calibrate :: "'a robot_scheme \<Rightarrow> 'a robot_scheme" where
  "az_calibrate r = upd_ctl (\<lambda>c. c\<lparr>az_flag_calibrate := True\<rparr>) r"

definition ctrl_is_running :: "'a robot_scheme \<Rightarrow> bool" where
  "ctrl_is_running r \<longleftrightarrow> uint (TIME_I2MS (now r - last_loop_update (ctl r))) < 100"

section \<open>The loop of the control thread\<close>

text \<open>The thread's local variables; \<open>old_az\<close> starts indeterminate.\<close>

record ctrl_locals =
  old_az :: u16
  dir_el :: s8
  loop_cntr :: u32

definition rot_excess :: "u16 \<Rightarrow> bool" where
  "rot_excess r \<longleftrightarrow> uint r < 2070 - 800 \<or> uint r > 2070 + 800"

definition failsafe_tripped :: "imu_state \<Rightarrow> bool" where
  "failsafe_tripped i \<longleftrightarrow>
     (imu_get_accel_x i = 0 \<and> imu_get_accel_y i = 0 \<and> imu_get_accel_z i = 0) \<or>
     rot_excess (imu_get_rot_x i) \<or> rot_excess (imu_get_rot_y i) \<or> rot_excess (imu_get_rot_z i)"

definition ctrl_failsafe :: "'a robot_scheme \<Rightarrow> 'a robot_scheme" where
  "ctrl_failsafe r =
     (if failsafe_tripped (imu r)
      then sk_set_const_trq 0 (el_set_const_trq 0 (az_set_const_trq 0 r)) else r)"

text \<open>
  Azimuth calibration: when it starts, the motor gets a torque and the thread sleeps for one
  second (\<open>cal_needs_start\<close>, \<open>ctrl_cal_start\<close>, then \<open>ctrl_cal_resume\<close>); afterwards each
  round waits for the encoder to pass its zero (\<open>ctrl_cal_watch\<close>).
\<close>

definition cal_needs_start :: "'a robot_scheme \<Rightarrow> bool" where
  "cal_needs_start r \<longleftrightarrow>
     az_flag_calibrate (ctl r) \<and> az_state (ctl r) \<noteq> MOTOR_STATE_CONST_SPEED"

definition ctrl_cal_start :: "'a robot_scheme \<Rightarrow> 'a robot_scheme" where
  "ctrl_cal_start r = upd_mde (mde_set_trq_az 25) r"

definition ctrl_cal_resume :: "ctrl_locals \<Rightarrow> 'a robot_scheme \<Rightarrow> ctrl_locals \<times> 'a robot_scheme" where
  "ctrl_cal_resume loc r =
     (loc\<lparr>old_az := 0\<rparr>,
      upd_ctl (\<lambda>c. c\<lparr>az_tgt_spd := 180 * 30, az_state := MOTOR_STATE_CONST_SPEED\<rparr>) r)"

definition ctrl_cal_watch :: "ctrl_locals \<Rightarrow> 'a robot_scheme \<Rightarrow> ctrl_locals \<times> 'a robot_scheme" where
  "ctrl_cal_watch loc r =
     (if az_flag_calibrate (ctl r) \<and> az_state (ctl r) = MOTOR_STATE_CONST_SPEED
      then let az = mde_get_az_enc_pos (mde r)
           in (loc\<lparr>old_az := az\<rparr>, if az < old_az loc then az_set_const_trq 0 r else r)
      else (loc, r))"

text \<open>
  The target moves with its speed since it was set. The 16-bit speed is multiplied by the
  unsigned number of milliseconds in 32-bit unsigned arithmetic before the division.
\<close>

definition tgt_travel :: "s16 \<Rightarrow> u32 \<Rightarrow> fp" where
  "tgt_travel spd ms =
     fp_div Binary64 (fp_of_int Binary64 (uint (scast spd * ms :: u32))) (fp_of_int Binary64 1000)"

definition az_target :: "ub_conv \<Rightarrow> 'a robot_scheme \<Rightarrow> u16" where
  "az_target ub r =
     fp_to_u16 ub (fp_add Binary64 (fp_of_int Binary64 (uint (az_tgt_pos (ctl r))))
       (tgt_travel (az_tgt_pos_spd (ctl r)) (TIME_I2MS (now r - az_tgt_pos_tim (ctl r)))))"

definition az_nullzone :: int where "az_nullzone = 45"

definition az_outside_nullzone :: "u16 \<Rightarrow> bool" where
  "az_outside_nullzone dir_diff \<longleftrightarrow> az_nullzone < uint dir_diff \<and> uint dir_diff < 65535 - az_nullzone"

definition az_approach_speed :: "u16 \<Rightarrow> u16 \<Rightarrow> s16" where
  "az_approach_speed tgt enc =
     (let dir_diff = tgt - enc;
          distance = (if tgt - enc < enc - tgt then tgt - enc else enc - tgt);
          dir = (if uint dir_diff < 32768 then 1 else -1);
          spd = word_of_int ((dir * uint distance) sdiv 2) :: s16;
          spd = (if \<bar>sint spd\<bar> < 2 * 182 then word_of_int (dir * 2 * 182) else spd);
          spd = (if \<bar>sint spd\<bar> > 30 * 182 then word_of_int (dir * 30 * 182) else spd)
      in spd)"

definition az_speed_torque :: "s16 \<Rightarrow> s16 \<Rightarrow> s8" where
  "az_speed_torque tgt act =
     (let dir = (if 0 < sint tgt then 1 else -1);
          trq = word_of_int ((sint tgt - sint act) sdiv 60 + 10 * dir) :: s8;
          trq = (if 25 < sint trq then 25 else trq);
          trq = (if sint trq < -25 then -25 else trq)
      in trq)"

definition ctrl_az_speed :: "'a robot_scheme \<Rightarrow> 'a robot_scheme" where
  "ctrl_az_speed r =
     upd_mde (mde_set_trq_az (az_speed_torque (az_tgt_spd (ctl r)) (mde_get_az_enc_spd (mde r)))) r"

definition ctrl_az :: "ub_conv \<Rightarrow> 'a robot_scheme \<Rightarrow> 'a robot_scheme" where
  "ctrl_az ub r =
     (case az_state (ctl r) of
        MOTOR_STATE_CONST_TORQUE \<Rightarrow> r
      | MOTOR_STATE_TARGET_POSITION \<Rightarrow>
          (let enc = mde_get_az_enc_pos (mde r) + mde_get_az_enc_off (mde r);
               tgt = az_target ub r
           in if az_outside_nullzone (tgt - enc)
              then ctrl_az_speed (upd_ctl (\<lambda>c. c\<lparr>az_tgt_spd := az_approach_speed tgt enc\<rparr>) r)
              else upd_mde (mde_set_trq_az (if 0 < sint (mde_get_trq_az (mde r)) then 3 else -3)) r)
      | MOTOR_STATE_CONST_SPEED \<Rightarrow> ctrl_az_speed r)"

definition el_target :: "ub_conv \<Rightarrow> 'a robot_scheme \<Rightarrow> s16" where
  "el_target ub r =
     fp_to_s16 ub (fp_add Binary64 (fp_of_int Binary64 (sint (el_tgt_pos (ctl r))))
       (tgt_travel (el_tgt_pos_spd (ctl r)) (TIME_I2MS (now r - el_tgt_pos_tim (ctl r)))))"

text \<open>The speed for a distance, and the direction kept in \<open>dir_el\<close>.\<close>

definition el_approach_speed :: "s16 \<Rightarrow> s8 \<times> s16" where
  "el_approach_speed distance =
     (let dir = (if sint distance < 0 then -1 else 1);
          spd = distance;
          spd = (if \<bar>sint distance\<bar> > 45
                 then (if \<bar>sint spd\<bar> < 1 * 182 then word_of_int (dir * 1 * 182) else spd) else spd);
          spd = (if \<bar>sint spd\<bar> > 15 * 182 then word_of_int (dir * 15 * 182) else spd)
      in (word_of_int dir, spd))"

definition el_speed_torque :: "s16 \<Rightarrow> s16 \<Rightarrow> s8 \<Rightarrow> s8" where
  "el_speed_torque tgt_spd el_spd static_trq =
     (let spd = (if \<bar>sint el_spd\<bar> < 150 then 0 else el_spd);
          moving_trq = word_of_int ((sint tgt_spd - sint spd) sdiv 10) :: s16;
          trq = word_of_int (sint moving_trq + sint static_trq) :: s16;
          trq = (if 25 < sint trq then 25 else trq);
          trq = (if sint trq < -25 then -25 else trq)
      in scast trq)"

definition el_static_torque :: "s16 \<Rightarrow> s8" where
  "el_static_torque pos =
     (let trq0 = 0; trq90 = 0 in word_of_int (trq0 + ((trq90 - trq0) * sint pos) sdiv 16384))"

definition ctrl_el_speed :: "s8 \<Rightarrow> 'a robot_scheme \<Rightarrow> 'a robot_scheme" where
  "ctrl_el_speed static_trq r =
     upd_mde (mde_set_trq_el
       (el_speed_torque (el_tgt_spd (ctl r)) (imu_get_el_spd (imu r)) static_trq)) r"

definition ctrl_el :: "ub_conv \<Rightarrow> ctrl_locals \<Rightarrow> 'a robot_scheme \<Rightarrow> ctrl_locals \<times> 'a robot_scheme" where
  "ctrl_el ub loc r =
     (let pos = imu_get_el_pos (imu r) + imu_get_el_off (imu r);
          static_trq = el_static_torque pos
      in case el_state (ctl r) of
           MOTOR_STATE_CONST_TORQUE \<Rightarrow> (loc, r)
         | MOTOR_STATE_TARGET_POSITION \<Rightarrow>
             (let (dir, spd) = el_approach_speed (el_target ub r - pos)
              in (loc\<lparr>dir_el := dir\<rparr>,
                  ctrl_el_speed static_trq (upd_ctl (\<lambda>c. c\<lparr>el_tgt_spd := spd\<rparr>) r)))
         | MOTOR_STATE_CONST_SPEED \<Rightarrow> (loc, ctrl_el_speed static_trq r))"

definition ctrl_sk :: "'a robot_scheme \<Rightarrow> 'a robot_scheme" where
  "ctrl_sk r =
     (case sk_state (ctl r) of
        MOTOR_STATE_CONST_TORQUE \<Rightarrow> r
      | MOTOR_STATE_TARGET_POSITION \<Rightarrow> upd_ctl (\<lambda>c. c\<lparr>sk_state := MOTOR_STATE_CONST_TORQUE\<rparr>) r
      | MOTOR_STATE_CONST_SPEED \<Rightarrow> upd_ctl (\<lambda>c. c\<lparr>sk_state := MOTOR_STATE_CONST_TORQUE\<rparr>) r)"

text \<open>Counts to degrees: division by the double constant 182.044, stored in a \<open>float\<close>.\<close>

definition counts_to_deg :: "int \<Rightarrow> fp" where
  "counts_to_deg counts =
     fp_cvt Binary32 (fp_div Binary64 (fp_of_int Binary64 counts) (fp_lit Binary64 (182044 / 1000)))"

definition ctrl_log_line :: "ub_conv \<Rightarrow> 'a robot_scheme \<Rightarrow> (u32 \<times> char list) option" where
  "ctrl_log_line ub r =
     (let az = counts_to_deg (uint (mde_get_az_enc_pos (mde r)) + uint (mde_get_az_enc_off (mde r)));
          el = counts_to_deg (sint (imu_get_el_pos (imu r)));
          tgt_az = counts_to_deg (uint (az_tgt_pos (ctl r)));
          tgt_el = counts_to_deg (sint (el_tgt_pos (ctl r)))
      in chsnprintf ub (replicate 128 NUL) 128
           (''[%.3f] tgt=(%.2f,%.2f) pos=(%.2f,%.2f) diff=(%.2f,%.2f)'' @ [LF])
           [VDbl (ms_to_s (TIME_I2MS (now r))), VDbl tgt_az, VDbl tgt_el, VDbl az, VDbl el,
            VDbl (fp_sub Binary32 az tgt_az), VDbl (fp_sub Binary32 el tgt_el)])"

definition ctrl_log ::
  "ub_conv \<Rightarrow> ctrl_locals \<Rightarrow> 'a robot_scheme \<Rightarrow> (ctrl_locals \<times> 'a robot_scheme) option" where
  "ctrl_log ub loc r =
     (let loc' = loc\<lparr>loop_cntr := loop_cntr loc + 1\<rparr>
      in if loop_cntr loc mod 50 = 0
         then do { (_, buf) \<leftarrow> ctrl_log_line ub r;
                   b \<leftarrow> debug_print (bucket r) buf;
                   Some (loc', r\<lparr>bucket := b\<rparr>) }
         else Some (loc', r))"

definition ctrl_stamp :: "'a robot_scheme \<Rightarrow> 'a robot_scheme" where
  "ctrl_stamp r = upd_ctl (\<lambda>c. c\<lparr>last_loop_update := now r\<rparr>) r"

text \<open>The part of the loop after the calibration block.\<close>

definition ctrl_tail ::
  "ub_conv \<Rightarrow> ctrl_locals \<Rightarrow> 'a robot_scheme \<Rightarrow> (ctrl_locals \<times> 'a robot_scheme) option" where
  "ctrl_tail ub loc r =
     (let r = ctrl_az ub r;
          (loc, r) = ctrl_el ub loc r;
          r = ctrl_sk r
      in do { (loc, r) \<leftarrow> ctrl_log ub loc r; Some (loc, ctrl_stamp r) })"

text \<open>
  One round of the loop when no other thread writes the shared variables meanwhile.
\<close>

definition ctrl_iteration ::
  "ub_conv \<Rightarrow> ctrl_locals \<Rightarrow> 'a robot_scheme \<Rightarrow> (ctrl_locals \<times> 'a robot_scheme) option" where
  "ctrl_iteration ub loc r =
     (let r = ctrl_failsafe r;
          (loc, r) = (if cal_needs_start r then ctrl_cal_resume loc (ctrl_cal_start r)
                      else ctrl_cal_watch loc r)
      in ctrl_tail ub loc r)"

section \<open>The control laws\<close>

lemmas ctrl_commands =
  az_set_const_trq_def el_set_const_trq_def sk_set_const_trq_def az_set_const_spd_def
  az_set_tgt_pos_def az_set_tgt_pos_spd_def el_set_tgt_pos_def el_set_tgt_pos_spd_def
  sk_set_tgt_pos_def az_calibrate_def

definition clamp :: "int \<Rightarrow> int \<Rightarrow> int \<Rightarrow> int" where
  "clamp lo hi x = max lo (min hi x)"

lemma clamp_range: "lo \<le> hi \<Longrightarrow> lo \<le> clamp lo hi x \<and> clamp lo hi x \<le> hi"
  by (simp add: clamp_def)

lemma clamp25_word8:
  "sint (let t = (if 25 < sint t then 25 else t) in (if sint t < -25 then -25 else t) :: 8 word) =
     clamp (-25) 25 (sint t)"
  by (auto simp: clamp_def Let_def)

lemma clamp25_word16:
  "sint (let t = (if 25 < sint t then 25 else t) in (if sint t < -25 then -25 else t) :: 16 word) =
     clamp (-25) 25 (sint t)"
  by (auto simp: clamp_def Let_def)

text \<open>The azimuth torque is always limited; it follows the law only while the sum fits 8 bits.\<close>

lemma az_speed_torque_clamp:
  "sint (az_speed_torque tgt act) = clamp (-25) 25
     (sint (word_of_int ((sint tgt - sint act) sdiv 60 + 10 * (if 0 < sint tgt then 1 else -1)) :: s8))"
  unfolding az_speed_torque_def Let_def by (rule clamp25_word8 [unfolded Let_def])

lemma az_speed_torque_bounds: "-25 \<le> sint (az_speed_torque tgt act) \<and> sint (az_speed_torque tgt act) \<le> 25"
  unfolding az_speed_torque_clamp by (rule clamp_range) simp

lemma az_speed_torque_law:
  assumes "\<bar>sint tgt - sint act\<bar> < 7080"
  shows "sint (az_speed_torque tgt act) =
    clamp (-25) 25 ((sint tgt - sint act) sdiv 60 + 10 * (if 0 < sint tgt then 1 else -1))"
proof -
  have "\<bar>(sint tgt - sint act) sdiv 60\<bar> \<le> 117"
    using assms by (cases "0 \<le> sint tgt - sint act") (auto simp: sdiv_nonneg sdiv_neg)
  then show ?thesis
    unfolding az_speed_torque_clamp by (subst sint8_id) auto
qed

lemma el_speed_torque_law:
  "sint (el_speed_torque tgt_spd el_spd static_trq) =
     clamp (-25) 25 ((sint tgt_spd - (if \<bar>sint el_spd\<bar> < 150 then 0 else sint el_spd)) sdiv 10 + sint static_trq)"
proof -
  define s where "s = (if \<bar>sint el_spd\<bar> < 150 then 0 else el_spd)"
  have ss: "sint s = (if \<bar>sint el_spd\<bar> < 150 then 0 else sint el_spd)" by (simp add: s_def)
  define m where "m = (sint tgt_spd - sint s) sdiv 10"
  have "\<bar>sint tgt_spd - sint s\<bar> \<le> 6554 * 10"
    using sint16_range [of tgt_spd] sint16_range [of s] by auto
  then have m: "\<bar>m\<bar> \<le> 6554" unfolding m_def by (intro sdiv_bounds) auto
  then have m16: "sint (word_of_int m :: s16) = m" by (intro sint16_id) auto
  define w :: s16 where "w = word_of_int (m + sint static_trq)"
  have w: "sint w = m + sint static_trq"
    unfolding w_def using m sint8_range [of static_trq] by (intro sint16_id) auto
  define v :: s16 where "v = (let t = (if 25 < sint w then 25 else w) in if sint t < -25 then -25 else t)"
  have v: "sint v = clamp (-25) 25 (m + sint static_trq)"
    unfolding v_def w [symmetric] by (rule clamp25_word16)
  have "el_speed_torque tgt_spd el_spd static_trq = scast v"
    unfolding el_speed_torque_def s_def [symmetric] Let_def m_def [symmetric] m16 w_def [symmetric] v_def ..
  moreover have "sint (scast v :: s8) = sint v"
    unfolding scast_eq v using clamp_range [of "-25" 25 "m + sint static_trq"] by (intro sint8_id) auto
  ultimately show ?thesis by (simp add: v m_def ss)
qed

text \<open>The static torque of the elevation axis is zero at every position.\<close>

lemma el_static_torque_zero: "el_static_torque pos = 0"
  by (simp add: el_static_torque_def)

lemma limit_speed:
  fixes w lo_w hi_w :: s16
  assumes "sint w = dir * h" "0 \<le> h" "dir = 1 \<or> dir = -1"
    and "sint lo_w = dir * lo" "sint hi_w = dir * hi" "0 \<le> lo" "lo \<le> hi"
  shows "sint (let s = (if \<bar>sint w\<bar> < lo then lo_w else w) in if \<bar>sint s\<bar> > hi then hi_w else s) =
    dir * clamp lo hi h"
  using assms(3)
proof
  assume d: "dir = 1"
  show ?thesis using assms unfolding d Let_def clamp_def by auto
next
  assume d: "dir = -1"
  show ?thesis using assms unfolding d Let_def clamp_def by auto
qed

text \<open>
  The approach speed of the azimuth: half the signed distance along the shorter way round,
  at least two and at most thirty degrees per second.
\<close>

lemma az_distance:
  fixes tgt enc :: u16
  shows "uint (if tgt - enc < enc - tgt then tgt - enc else enc - tgt) = \<bar>sint (tgt - enc)\<bar>"
proof -
  define d where "d = tgt - enc"
  have e: "enc - tgt = - d" by (simp add: d_def)
  have nd: "uint (- d) = (if d = 0 then 0 else 65536 - uint d)"
    using uint16_range [of d]
    by (simp add: uint_word_ariths(4) zmod_zminus1_eq_if uint_0_iff)
  show ?thesis
    unfolding e d_def [symmetric] word_less_def sint16_uint nd
    using uint16_range [of d] by (auto simp: nd)
qed

lemma az_approach_speed_law:
  fixes tgt enc :: u16
  defines "d \<equiv> sint (tgt - enc)"
  shows "sint (az_approach_speed tgt enc) = (if d < 0 then -1 else 1) * clamp 364 5460 (\<bar>d\<bar> div 2)"
proof -
  define dir :: int where "dir = (if uint (tgt - enc) < 32768 then 1 else -1)"
  have dir: "dir = (if d < 0 then -1 else 1)"
    using uint16_range [of "tgt - enc"] by (simp add: dir_def d_def sint16_uint)
  have rng: "\<bar>d\<bar> \<le> 32768" using sint16_range [of "tgt - enc"] by (auto simp: d_def)
  have half: "(dir * \<bar>d\<bar>) sdiv 2 = dir * (\<bar>d\<bar> div 2)"
    by (auto simp: dir sdiv_nonneg sdiv_neg)
  have h: "0 \<le> \<bar>d\<bar> div 2" "\<bar>d\<bar> div 2 \<le> 16384" using rng by auto
  have w: "sint (word_of_int (dir * (\<bar>d\<bar> div 2)) :: s16) = dir * (\<bar>d\<bar> div 2)"
    using h by (intro sint16_id) (auto simp: dir)
  have "az_approach_speed tgt enc =
      (let s = (if \<bar>sint (word_of_int (dir * (\<bar>d\<bar> div 2)) :: s16)\<bar> < 2 * 182
                then word_of_int (dir * 2 * 182) else word_of_int (dir * (\<bar>d\<bar> div 2)))
       in if \<bar>sint s\<bar> > 30 * 182 then word_of_int (dir * 30 * 182) else s)"
    unfolding az_approach_speed_def az_distance Let_def dir_def [symmetric] d_def [symmetric] half ..
  also have "sint \<dots> = dir * clamp (2 * 182) (30 * 182) (\<bar>d\<bar> div 2)"
    using h by (intro limit_speed [OF w]) (auto simp: dir)
  finally show ?thesis by (simp add: dir)
qed

lemma el_approach_speed_law:
  "sint (snd (el_approach_speed distance)) =
     (if \<bar>sint distance\<bar> \<le> 45 then sint distance
      else (if sint distance < 0 then -1 else 1) * clamp 182 2730 \<bar>sint distance\<bar>)"
proof -
  define dir :: int where "dir = (if sint distance < 0 then -1 else 1)"
  have c: "sint (word_of_int (dir * 1 * 182) :: s16) = dir * 182"
    "sint (word_of_int (dir * 15 * 182) :: s16) = dir * 2730"
    by (auto simp: dir_def)
  have w: "sint distance = dir * \<bar>sint distance\<bar>" by (simp add: dir_def)
  show ?thesis
  proof (cases "\<bar>sint distance\<bar> > 45")
    case True
    have "snd (el_approach_speed distance) =
        (let s = (if \<bar>sint distance\<bar> < 182 then word_of_int (dir * 1 * 182) else distance)
         in if \<bar>sint s\<bar> > 2730 then word_of_int (dir * 15 * 182) else s)"
      using True by (simp add: el_approach_speed_def Let_def dir_def)
    also have "sint \<dots> = dir * clamp 182 2730 \<bar>sint distance\<bar>"
      using c by (intro limit_speed [OF w]) (auto simp: dir_def)
    finally show ?thesis using True by (simp add: dir_def)
  next
    case False
    then show ?thesis by (simp add: el_approach_speed_def Let_def)
  qed
qed

section \<open>The loop never faults\<close>

lemma ctrl_log_line_total: "\<exists>n buf. ctrl_log_line ub r = Some (n, buf) \<and> terminated buf \<and> length (cstr buf) \<le> 127"
proof -
  have "\<exists>n. emits ub ((''[%.3f] tgt=(%.2f,%.2f) pos=(%.2f,%.2f) diff=(%.2f,%.2f)'' @ [LF]) @ [NUL])
      [VDbl d1, VDbl d2, VDbl d3, VDbl d4, VDbl d5, VDbl d6, VDbl d7] n" for d1 d2 d3 d4 d5 d6 d7
    unfolding append.simps
    by (intro exI emits_rules emits_end) (rule emits_lit emits_rules emits_end | simp only: char.inject simp_thms)+
  then obtain n where "emits ub ((''[%.3f] tgt=(%.2f,%.2f) pos=(%.2f,%.2f) diff=(%.2f,%.2f)'' @ [LF]) @ [NUL])
      [VDbl (ms_to_s (TIME_I2MS (now r))),
       VDbl (counts_to_deg (uint (az_tgt_pos (ctl r)))),
       VDbl (counts_to_deg (sint (el_tgt_pos (ctl r)))),
       VDbl (counts_to_deg (uint (mde_get_az_enc_pos (mde r)) + uint (mde_get_az_enc_off (mde r)))),
       VDbl (counts_to_deg (sint (imu_get_el_pos (imu r)))),
       VDbl (fp_sub Binary32 (counts_to_deg (uint (mde_get_az_enc_pos (mde r)) + uint (mde_get_az_enc_off (mde r))))
         (counts_to_deg (uint (az_tgt_pos (ctl r))))),
       VDbl (fp_sub Binary32 (counts_to_deg (sint (imu_get_el_pos (imu r))))
         (counts_to_deg (sint (el_tgt_pos (ctl r)))))] n"
    by blast
  from emits_chsnprintf [OF this, of 128 "replicate 128 NUL"] show ?thesis
    unfolding ctrl_log_line_def Let_def by fastforce
qed

lemma ctrl_log_total:
  assumes "bucket_ok (bucket r)"
  shows "\<exists>b. ctrl_log ub loc r = Some (loc\<lparr>loop_cntr := loop_cntr loc + 1\<rparr>, r\<lparr>bucket := b\<rparr>) \<and> bucket_ok b"
proof (cases "loop_cntr loc mod 50 = 0")
  case True
  obtain n buf where l: "ctrl_log_line ub r = Some (n, buf)" "terminated buf"
    using ctrl_log_line_total [of ub r] by blast
  obtain b where "debug_print (bucket r) buf = Some b" "bucket_ok b"
    using debug_print_effect [OF assms l(2)] by blast
  then show ?thesis using True l(1) by (auto simp: ctrl_log_def)
next
  case False
  then have "ctrl_log ub loc r = Some (loc\<lparr>loop_cntr := loop_cntr loc + 1\<rparr>, r\<lparr>bucket := bucket r\<rparr>)"
    by (simp add: ctrl_log_def)
  then show ?thesis using assms by blast
qed

text \<open>The blocks of the loop leave the debug buffer, the clock and the IMU alone.\<close>

lemma ctrl_blocks_frame:
  "bucket (ctrl_failsafe r) = bucket r" "now (ctrl_failsafe r) = now r" "imu (ctrl_failsafe r) = imu r"
  "bucket (ctrl_az ub r) = bucket r" "now (ctrl_az ub r) = now r" "imu (ctrl_az ub r) = imu r"
  "bucket (snd (ctrl_el ub loc r)) = bucket r" "now (snd (ctrl_el ub loc r)) = now r"
  "imu (snd (ctrl_el ub loc r)) = imu r"
  "bucket (ctrl_sk r) = bucket r" "now (ctrl_sk r) = now r" "imu (ctrl_sk r) = imu r"
  "bucket (snd (ctrl_cal_watch loc r)) = bucket r" "now (snd (ctrl_cal_watch loc r)) = now r"
  "imu (snd (ctrl_cal_watch loc r)) = imu r"
  "bucket (snd (ctrl_cal_resume loc r)) = bucket r" "now (snd (ctrl_cal_resume loc r)) = now r"
  "imu (snd (ctrl_cal_resume loc r)) = imu r"
  by (simp_all add: ctrl_failsafe_def ctrl_commands ctrl_az_def ctrl_az_speed_def ctrl_el_def
      ctrl_el_speed_def ctrl_sk_def ctrl_cal_watch_def ctrl_cal_resume_def Let_def
      split: motor_state.splits prod.splits)

text \<open>What the motor blocks compute, without the log line and the time stamp.\<close>

definition ctrl_motors :: "ub_conv \<Rightarrow> ctrl_locals \<Rightarrow> 'a robot_scheme \<Rightarrow> 'a robot_scheme" where
  "ctrl_motors ub loc r = ctrl_sk (snd (ctrl_el ub loc (ctrl_az ub r)))"

lemma ctrl_tail_total:
  assumes "bucket_ok (bucket r)"
  shows "\<exists>loc' b. bucket_ok b \<and>
    ctrl_tail ub loc r = Some (loc', ctrl_stamp ((ctrl_motors ub loc r)\<lparr>bucket := b\<rparr>))"
proof -
  obtain loc1 r1 where el: "ctrl_el ub loc (ctrl_az ub r) = (loc1, r1)" by fastforce
  then have m: "ctrl_motors ub loc r = ctrl_sk r1" by (simp add: ctrl_motors_def)
  have "bucket (ctrl_sk r1) = bucket r"
    using ctrl_blocks_frame(7) [of ub loc "ctrl_az ub r"] by (simp add: ctrl_blocks_frame el)
  then obtain b where "ctrl_log ub loc1 (ctrl_sk r1) =
      Some (loc1\<lparr>loop_cntr := loop_cntr loc1 + 1\<rparr>, (ctrl_sk r1)\<lparr>bucket := b\<rparr>)" "bucket_ok b"
    using ctrl_log_total [of "ctrl_sk r1" ub loc1] assms by auto
  then show ?thesis by (auto simp: ctrl_tail_def el m Let_def)
qed

definition ctrl_head :: "ctrl_locals \<Rightarrow> 'a robot_scheme \<Rightarrow> ctrl_locals \<times> 'a robot_scheme" where
  "ctrl_head loc r =
     (let r = ctrl_failsafe r
      in if cal_needs_start r then ctrl_cal_resume loc (ctrl_cal_start r) else ctrl_cal_watch loc r)"

lemma ctrl_iteration_head_tail:
  "ctrl_iteration ub loc r = (case ctrl_head loc r of (loc', r') \<Rightarrow> ctrl_tail ub loc' r')"
  by (simp add: ctrl_iteration_def ctrl_head_def Let_def split: prod.splits)

lemma ctrl_iteration_total:
  assumes "bucket_ok (bucket r)"
  shows "\<exists>loc' b. bucket_ok b \<and>
    ctrl_iteration ub loc r = Some (loc',
      ctrl_stamp ((ctrl_motors ub (fst (ctrl_head loc r)) (snd (ctrl_head loc r)))\<lparr>bucket := b\<rparr>))"
proof -
  have "bucket (snd (ctrl_head loc r)) = bucket r"
    by (simp add: ctrl_head_def Let_def ctrl_blocks_frame ctrl_cal_start_def)
  then have "bucket_ok (bucket (snd (ctrl_head loc r)))" using assms by simp
  from ctrl_tail_total [OF this, of ub "fst (ctrl_head loc r)"] show ?thesis
    by (simp add: ctrl_iteration_head_tail case_prod_beta)
qed

section \<open>Limits and the failsafe\<close>

definition torque_limited :: "s8 \<Rightarrow> bool" where
  "torque_limited t \<longleftrightarrow> -25 \<le> sint t \<and> sint t \<le> 25"

lemma ctrl_az_limited:
  "az_state (ctl r) \<noteq> MOTOR_STATE_CONST_TORQUE \<Longrightarrow> torque_limited (motor_az (mde (ctrl_az ub r)))"
  using az_speed_torque_bounds
  by (cases "az_state (ctl r)")
    (auto simp: ctrl_az_def ctrl_az_speed_def mde_accessors torque_limited_def Let_def)

lemma el_speed_torque_limited: "torque_limited (el_speed_torque t s st)"
  unfolding torque_limited_def el_speed_torque_law by (rule clamp_range) simp

lemma ctrl_el_limited:
  "el_state (ctl r) \<noteq> MOTOR_STATE_CONST_TORQUE \<Longrightarrow> torque_limited (motor_el (mde (snd (ctrl_el ub loc r))))"
  using el_speed_torque_limited
  by (cases "el_state (ctl r)")
    (auto simp: ctrl_el_def ctrl_el_speed_def mde_accessors Let_def split: prod.splits)

lemma ctrl_az_frame:
  "el_state (ctl (ctrl_az ub r)) = el_state (ctl r)" "sk_state (ctl (ctrl_az ub r)) = sk_state (ctl r)"
  "motor_el (mde (ctrl_az ub r)) = motor_el (mde r)" "motor_sk (mde (ctrl_az ub r)) = motor_sk (mde r)"
  "az_state (ctl (ctrl_az ub r)) = az_state (ctl r)"
  "az_flag_calibrate (ctl (ctrl_az ub r)) = az_flag_calibrate (ctl r)"
  "az_state (ctl r) = MOTOR_STATE_CONST_TORQUE \<Longrightarrow> ctrl_az ub r = r"
  by (simp_all add: ctrl_az_def ctrl_az_speed_def mde_accessors Let_def split: motor_state.splits)

lemma ctrl_el_frame:
  "az_state (ctl (snd (ctrl_el ub loc r))) = az_state (ctl r)"
  "el_state (ctl (snd (ctrl_el ub loc r))) = el_state (ctl r)"
  "sk_state (ctl (snd (ctrl_el ub loc r))) = sk_state (ctl r)"
  "az_flag_calibrate (ctl (snd (ctrl_el ub loc r))) = az_flag_calibrate (ctl r)"
  "motor_az (mde (snd (ctrl_el ub loc r))) = motor_az (mde r)"
  "motor_sk (mde (snd (ctrl_el ub loc r))) = motor_sk (mde r)"
  "el_state (ctl r) = MOTOR_STATE_CONST_TORQUE \<Longrightarrow> ctrl_el ub loc r = (loc, r)"
  by (simp_all add: ctrl_el_def ctrl_el_speed_def mde_accessors Let_def split: motor_state.splits prod.splits)

lemma ctrl_sk_frame:
  "az_state (ctl (ctrl_sk r)) = az_state (ctl r)" "el_state (ctl (ctrl_sk r)) = el_state (ctl r)"
  "az_flag_calibrate (ctl (ctrl_sk r)) = az_flag_calibrate (ctl r)"
  "mde (ctrl_sk r) = mde r" "sk_state (ctl (ctrl_sk r)) = MOTOR_STATE_CONST_TORQUE"
  by (simp_all add: ctrl_sk_def split: motor_state.splits)

lemmas ctrl_frames = ctrl_az_frame(1-6) ctrl_el_frame(1-6) ctrl_sk_frame

lemma ctrl_motors_states:
  "az_state (ctl (ctrl_motors ub loc r)) = az_state (ctl r)"
  "el_state (ctl (ctrl_motors ub loc r)) = el_state (ctl r)"
  "sk_state (ctl (ctrl_motors ub loc r)) = MOTOR_STATE_CONST_TORQUE"
  "motor_sk (mde (ctrl_motors ub loc r)) = motor_sk (mde r)"
  by (simp_all add: ctrl_motors_def ctrl_frames)

text \<open>A closed loop never asks for more than the torque limit.\<close>

lemma ctrl_motors_limited:
  "az_state (ctl r) \<noteq> MOTOR_STATE_CONST_TORQUE \<Longrightarrow> torque_limited (motor_az (mde (ctrl_motors ub loc r)))"
  "el_state (ctl r) \<noteq> MOTOR_STATE_CONST_TORQUE \<Longrightarrow> torque_limited (motor_el (mde (ctrl_motors ub loc r)))"
  by (simp_all add: ctrl_motors_def ctrl_frames ctrl_az_limited ctrl_el_limited)

text \<open>An axis in constant-torque mode keeps the torque it was given.\<close>

lemma ctrl_motors_const:
  "az_state (ctl r) = MOTOR_STATE_CONST_TORQUE \<Longrightarrow> motor_az (mde (ctrl_motors ub loc r)) = motor_az (mde r)"
  "el_state (ctl r) = MOTOR_STATE_CONST_TORQUE \<Longrightarrow> motor_el (mde (ctrl_motors ub loc r)) = motor_el (mde r)"
  by (simp_all add: ctrl_motors_def ctrl_frames ctrl_az_frame(7) ctrl_el_frame(7))

definition stopped :: "'a robot_scheme \<Rightarrow> bool" where
  "stopped r \<longleftrightarrow>
     az_state (ctl r) = MOTOR_STATE_CONST_TORQUE \<and> el_state (ctl r) = MOTOR_STATE_CONST_TORQUE \<and>
     sk_state (ctl r) = MOTOR_STATE_CONST_TORQUE \<and> \<not> az_flag_calibrate (ctl r) \<and>
     motor_az (mde r) = 0 \<and> motor_el (mde r) = 0 \<and> motor_sk (mde r) = 0"

lemma failsafe_stops: "failsafe_tripped (imu r) \<Longrightarrow> stopped (ctrl_failsafe r)"
  by (simp add: ctrl_failsafe_def ctrl_commands stopped_def mde_accessors Let_def)

lemma stopped_head: "failsafe_tripped (imu r) \<Longrightarrow> stopped (snd (ctrl_head loc r)) \<and> snd (ctrl_head loc r) = ctrl_failsafe r"
  using failsafe_stops [of r]
  by (auto simp: ctrl_head_def cal_needs_start_def ctrl_cal_watch_def stopped_def Let_def)

lemma stopped_motors: "stopped r \<Longrightarrow> stopped (ctrl_motors ub loc r)"
  by (simp add: stopped_def ctrl_motors_def ctrl_frames ctrl_az_frame(7) ctrl_el_frame(7))

section \<open>Targets without a speed\<close>

lemma tgt_travel_0: "fp_val (tgt_travel 0 ms) = Some 0"
  unfolding tgt_travel_def
  by (rule fp_div_zero_left [where b = 1000])
    (simp_all add: fp_of_int_eq fp_val_cases)

lemma az_target_still: "az_tgt_pos_spd (ctl r) = 0 \<Longrightarrow> az_target ub r = az_tgt_pos (ctl r)"
proof -
  assume z: "az_tgt_pos_spd (ctl r) = 0"
  define p where "p = uint (az_tgt_pos (ctl r))"
  have p: "0 \<le> p" "p \<le> 65535" using uint16_range by (simp_all add: p_def)
  have "fp_val (fp_add Binary64 (fp_of_int Binary64 p)
      (tgt_travel 0 (TIME_I2MS (now r - az_tgt_pos_tim (ctl r))))) = Some (of_int (p + 0))"
    using p tgt_travel_0 by (intro fp_add_int fp_of_int_val) auto
  then have "az_target ub r = word_of_int p"
    unfolding az_target_def z p_def [symmetric] using p by (subst fp_to_int_val) auto
  then show ?thesis by (simp add: p_def)
qed

lemma el_target_still: "el_tgt_pos_spd (ctl r) = 0 \<Longrightarrow> el_target ub r = el_tgt_pos (ctl r)"
proof -
  assume z: "el_tgt_pos_spd (ctl r) = 0"
  define p where "p = sint (el_tgt_pos (ctl r))"
  have p: "-32768 \<le> p" "p \<le> 32767" using sint16_range by (simp_all add: p_def)
  have "fp_val (fp_add Binary64 (fp_of_int Binary64 p)
      (tgt_travel 0 (TIME_I2MS (now r - el_tgt_pos_tim (ctl r))))) = Some (of_int (p + 0))"
    using p tgt_travel_0 by (intro fp_add_int fp_of_int_val) auto
  then have "el_target ub r = word_of_int p"
    unfolding el_target_def z p_def [symmetric] using p by (subst fp_to_int_val) auto
  then show ?thesis by (simp add: p_def)
qed

lemma ctrl_is_running_iff: "ctrl_is_running r \<longleftrightarrow> uint (now r - last_loop_update (ctl r)) \<le> 9900"
  using TIME_I2MS_less_iff [of 100] by (simp add: ctrl_is_running_def)

end
