(* ===== verification/Mde_Thread.thy ===== *)
theory Mde_Thread
  imports Ctrl
begin

text \<open>
  The thread of \<open>mde.c\<close>: it switches the power of the drive on and off on request, runs the
  power-up sequence, and keeps the communication alive while the control thread is alive.
  The loop sleeps in several places; \<open>mde_pc\<close> names the points between two pieces of code
  that run without sleeping, and \<open>mde_thread_step\<close> runs one such piece.
\<close>

datatype mde_pc =
    PcTop
  | PcPdSleep
  | PcPuCheck
  | PcPuCal "u16 list"
  | PcPuSleep
  | PcPuInit2
  | PcPuInit3
  | PcComm
  | PcTrqAz
  | PcTrqEl
  | PcTrqSk

record mde_thread =
  mpc :: mde_pc
  mloc :: mde_locals

definition mde_pd_begin :: "mde_state \<Rightarrow> mde_state" where
  "mde_pd_begin m = m\<lparr>mde_pwr_line := False\<rparr>"

definition mde_pd_end :: "mde_state \<Rightarrow> mde_state" where
  "mde_pd_end m = m\<lparr>power_dn := False, is_powered_up := False\<rparr>"

definition mde_pu_begin :: "mde_state \<Rightarrow> mde_state" where
  "mde_pu_begin m = m\<lparr>mde_pwr_line := True\<rparr>"

definition mde_pu_end :: "slave \<Rightarrow> mde_state \<Rightarrow> mde_state" where
  "mde_pu_end slave m = (mde_send_all slave mde_init_words3 m)\<lparr>power_up := False, is_powered_up := True\<rparr>"

definition mde_thread_step ::
  "slave \<Rightarrow> ub_conv \<Rightarrow> mde_thread \<times> 'a robot_scheme \<Rightarrow> mde_thread \<times> 'a robot_scheme" where
  "mde_thread_step slave ub tr =
     (let (t, r) = tr; m = mde r in
      case mpc t of
        PcTop \<Rightarrow>
          if power_dn m \<and> is_powered_up m then (t\<lparr>mpc := PcPdSleep\<rparr>, upd_mde mde_pd_begin r)
          else (t\<lparr>mpc := PcPuCheck\<rparr>, r)
      | PcPdSleep \<Rightarrow> (t\<lparr>mpc := PcPuCheck\<rparr>, upd_mde mde_pd_end r)
      | PcPuCheck \<Rightarrow>
          if power_up m \<and> \<not> is_powered_up m then (t\<lparr>mpc := PcPuCal []\<rparr>, upd_mde mde_pu_begin r)
          else (t\<lparr>mpc := PcComm\<rparr>, r)
      | PcPuCal xs \<Rightarrow>
          (let xs = xs @ [imu_get_rot_y (imu r)]
           in if length xs < 100 then (t\<lparr>mpc := PcPuCal xs\<rparr>, r)
              else (t\<lparr>mpc := PcPuSleep\<rparr>, r\<lparr>imu := imu_calibrate xs (imu r)\<rparr>))
      | PcPuSleep \<Rightarrow> (t\<lparr>mpc := PcPuInit2\<rparr>, upd_mde (mde_send_all slave mde_init_words1) r)
      | PcPuInit2 \<Rightarrow> (t\<lparr>mpc := PcPuInit3\<rparr>, upd_mde (mde_send_all slave mde_init_words2) r)
      | PcPuInit3 \<Rightarrow> (t\<lparr>mpc := PcComm\<rparr>, upd_mde (mde_pu_end slave) r)
      | PcComm \<Rightarrow>
          if is_powered_up m \<and> ctrl_is_running r
          then (let (loc, m') = mde_poll slave ub (now r) (now r) (mloc t) m
                in (t\<lparr>mpc := PcTrqAz, mloc := loc\<rparr>, r\<lparr>mde := m'\<rparr>))
          else (t\<lparr>mpc := PcTop\<rparr>, r)
      | PcTrqAz \<Rightarrow>
          (t\<lparr>mpc := PcTrqEl\<rparr>, upd_mde (mde_send_all slave [mde_cmd_set_mot_trq MOTOR_AZ (motor_az m)]) r)
      | PcTrqEl \<Rightarrow>
          (t\<lparr>mpc := PcTrqSk\<rparr>, upd_mde (mde_send_all slave [mde_cmd_set_mot_trq MOTOR_EL (motor_el m)]) r)
      | PcTrqSk \<Rightarrow>
          (t\<lparr>mpc := PcTop\<rparr>, upd_mde (mde_send_all slave [mde_cmd_set_mot_trq MOTOR_SK (motor_sk m)]) r))"

fun mde_thread_run ::
  "slave \<Rightarrow> ub_conv \<Rightarrow> nat \<Rightarrow> mde_thread \<times> 'a robot_scheme \<Rightarrow> mde_thread \<times> 'a robot_scheme" where
  "mde_thread_run slave ub 0 tr = tr"
| "mde_thread_run slave ub (Suc n) tr = mde_thread_run slave ub n (mde_thread_step slave ub tr)"

lemma mde_thread_run_add:
  "mde_thread_run slave ub (m + n) tr = mde_thread_run slave ub n (mde_thread_run slave ub m tr)"
  by (induction m arbitrary: tr) simp_all

section \<open>The power line\<close>

text \<open>
  The power line is on exactly while the drive is powered up or being powered up, apart from
  the second in which it is being powered down.
\<close>

fun powering :: "mde_pc \<Rightarrow> bool" where
  "powering (PcPuCal xs) = True"
| "powering PcPuSleep = True"
| "powering PcPuInit2 = True"
| "powering PcPuInit3 = True"
| "powering pc = False"

fun in_cycle :: "mde_pc \<Rightarrow> bool" where
  "in_cycle PcTrqAz = True"
| "in_cycle PcTrqEl = True"
| "in_cycle PcTrqSk = True"
| "in_cycle pc = False"

definition line_inv :: "mde_pc \<Rightarrow> mde_state \<Rightarrow> bool" where
  "line_inv pc m \<longleftrightarrow>
     (mde_pwr_line m \<longleftrightarrow> powering pc \<or> is_powered_up m \<and> pc \<noteq> PcPdSleep) \<and>
     (powering pc \<longrightarrow> \<not> is_powered_up m) \<and> (in_cycle pc \<longrightarrow> is_powered_up m) \<and>
     (pc = PcPdSleep \<longrightarrow> is_powered_up m \<and> power_dn m) \<and>
     (case pc of PcPuCal xs \<Rightarrow> length xs < 100 | _ \<Rightarrow> True)"

lemma mde_send_all_simps [simp]:
  "power_up (mde_send_all slave ws m) = power_up m" "power_dn (mde_send_all slave ws m) = power_dn m"
  "is_powered_up (mde_send_all slave ws m) = is_powered_up m"
  "mde_pwr_line (mde_send_all slave ws m) = mde_pwr_line m"
  "motor_az (mde_send_all slave ws m) = motor_az m" "motor_el (mde_send_all slave ws m) = motor_el m"
  "motor_sk (mde_send_all slave ws m) = motor_sk m"
  "mde_frames (mde_send_all slave ws m) = mde_frames m @ map frame_of ws"
  by (simp_all add: mde_send_all_state)

lemmas mde_power_blocks = mde_pd_begin_def mde_pd_end_def mde_pu_begin_def mde_pu_end_def

lemma mde_thread_step_line_inv:
  assumes "line_inv (mpc t) (mde r)" and "mde_thread_step slave ub (t, r) = (t', r')"
  shows "line_inv (mpc t') (mde r')"
proof (cases "mpc t")
  case PcComm
  show ?thesis
    using assms PcComm mde_poll_state [of slave ub "now r" "now r" "mloc t" "mde r"]
    by (cases "mde_poll slave ub (now r) (now r) (mloc t) (mde r)")
      (auto simp: mde_thread_step_def line_inv_def Let_def split: if_splits)
qed (use assms in \<open>auto simp: mde_thread_step_def line_inv_def mde_power_blocks mde_exchange_state Let_def
      split: if_splits\<close>)

text \<open>The words each piece of the thread puts on the link.\<close>

fun sent_words :: "mde_pc \<Rightarrow> 'a robot_scheme \<Rightarrow> u16 list" where
  "sent_words PcPuSleep r = mde_init_words1"
| "sent_words PcPuInit2 r = mde_init_words2"
| "sent_words PcPuInit3 r = mde_init_words3"
| "sent_words PcComm r = (if is_powered_up (mde r) \<and> ctrl_is_running r then poll_words else [])"
| "sent_words PcTrqAz r = [mde_cmd_set_mot_trq MOTOR_AZ (motor_az (mde r))]"
| "sent_words PcTrqEl r = [mde_cmd_set_mot_trq MOTOR_EL (motor_el (mde r))]"
| "sent_words PcTrqSk r = [mde_cmd_set_mot_trq MOTOR_SK (motor_sk (mde r))]"
| "sent_words pc r = []"

lemma mde_thread_step_frames:
  assumes "mde_thread_step slave ub (t, r) = (t', r')"
  shows "mde_frames (mde r') = mde_frames (mde r) @ map frame_of (sent_words (mpc t) r)"
proof (cases "mpc t")
  case PcComm
  show ?thesis
    using assms PcComm mde_poll_state [of slave ub "now r" "now r" "mloc t" "mde r"]
    by (cases "mde_poll slave ub (now r) (now r) (mloc t) (mde r)")
      (auto simp: mde_thread_step_def Let_def split: if_splits)
qed (use assms in \<open>auto simp: mde_thread_step_def mde_power_blocks mde_exchange_state Let_def split: if_splits\<close>)

text \<open>Frames are sent only with the power line on.\<close>

lemma sent_powered: "line_inv pc (mde r) \<Longrightarrow> sent_words pc r \<noteq> [] \<Longrightarrow> mde_pwr_line (mde r)"
  by (cases pc) (auto simp: line_inv_def split: if_splits)

text \<open>Four steps without interruption are one communication cycle.\<close>

lemma mde_cycle_steps:
  assumes "mpc t = PcComm" and "is_powered_up (mde r)" and "ctrl_is_running r"
  shows "mde_thread_run slave ub 4 (t, r) =
    (case mde_comm slave ub (now r) (now r) (mloc t) (mde r) of (loc, m) \<Rightarrow> (t\<lparr>mpc := PcTop, mloc := loc\<rparr>, r\<lparr>mde := m\<rparr>))"
  using assms
  by (cases "mde_poll slave ub (now r) (now r) (mloc t) (mde r)")
    (simp add: mde_thread_step_def mde_comm_def numeral_eq_Suc Let_def mde_exchange_state)

section \<open>The power sequence\<close>

lemma cal_steps:
  "length xs + k < 100 \<Longrightarrow> mde_thread_run slave ub k (t\<lparr>mpc := PcPuCal xs\<rparr>, r) =
     (t\<lparr>mpc := PcPuCal (xs @ replicate k (imu_get_rot_y (imu r)))\<rparr>, r)"
proof (induction k arbitrary: xs)
  case (Suc k)
  then show ?case
    using Suc.IH [of "xs @ [imu_get_rot_y (imu r)]"] by (simp add: mde_thread_step_def Let_def)
qed simp

text \<open>
  The power-up sequence, when no other thread writes the shared variables meanwhile: it sends
  the three groups of words, calibrates the rate sensor, and keeps a pending power-down request.
\<close>

lemma power_up_run:
  assumes "mpc t = PcPuCheck" and "power_up (mde r)" and "\<not> is_powered_up (mde r)"
  defines "samples \<equiv> replicate 100 (imu_get_rot_y (imu r))"
  shows "mde_thread_run slave ub 104 (t, r) =
    (t\<lparr>mpc := PcComm\<rparr>,
     r\<lparr>imu := imu_calibrate samples (imu r),
       mde := (mde r)\<lparr>mde_pwr_line := True, power_up := False, is_powered_up := True,
         mde_frames := mde_frames (mde r) @ map frame_of (mde_init_words1 @ mde_init_words2 @ mde_init_words3)\<rparr>\<rparr>)"
proof -
  define r1 where "r1 = upd_mde mde_pu_begin r"
  have i: "imu r1 = imu r" by (simp add: r1_def)
  have 1: "mde_thread_run slave ub 1 (t, r) = (t\<lparr>mpc := PcPuCal []\<rparr>, r1)"
    using assms by (simp add: mde_thread_step_def r1_def Let_def)
  have 2: "mde_thread_run slave ub 99 (t\<lparr>mpc := PcPuCal []\<rparr>, r1) =
      (t\<lparr>mpc := PcPuCal (replicate 99 (imu_get_rot_y (imu r)))\<rparr>, r1)"
    using cal_steps [of "[]" 99 slave ub t r1] by (simp add: i)
  have s: "replicate 99 (imu_get_rot_y (imu r)) @ [imu_get_rot_y (imu r)] = samples"
    unfolding samples_def by (simp add: replicate_append_same flip: replicate_Suc)
  have 3: "mde_thread_run slave ub 1 (t\<lparr>mpc := PcPuCal (replicate 99 (imu_get_rot_y (imu r)))\<rparr>, r1) =
      (t\<lparr>mpc := PcPuSleep\<rparr>, r1\<lparr>imu := imu_calibrate samples (imu r)\<rparr>)"
    by (simp add: mde_thread_step_def Let_def i s)
  have 4: "mde_thread_run slave ub 3 (t\<lparr>mpc := PcPuSleep\<rparr>, r1\<lparr>imu := imu_calibrate samples (imu r)\<rparr>) =
    (t\<lparr>mpc := PcComm\<rparr>,
     r\<lparr>imu := imu_calibrate samples (imu r),
       mde := (mde r)\<lparr>mde_pwr_line := True, power_up := False, is_powered_up := True,
         mde_frames := mde_frames (mde r) @ map frame_of (mde_init_words1 @ mde_init_words2 @ mde_init_words3)\<rparr>\<rparr>)"
    by (simp add: numeral_3_eq_3 mde_thread_step_def Let_def r1_def mde_power_blocks mde_send_all_state)
  have "(104 :: nat) = 1 + (99 + (1 + 3))" by simp
  then show ?thesis by (simp only: mde_thread_run_add 1 2 3 4)
qed

text \<open>A power-down request switches the power line off, for at least a second.\<close>

lemma power_down_run:
  assumes "mpc t = PcTop" and "power_dn (mde r)" and "is_powered_up (mde r)"
  shows "mde_thread_run slave ub 1 (t, r) = (t\<lparr>mpc := PcPdSleep\<rparr>, upd_mde (\<lambda>m. m\<lparr>mde_pwr_line := False\<rparr>) r)"
    "mde_thread_run slave ub 2 (t, r) = (t\<lparr>mpc := PcPuCheck\<rparr>,
       upd_mde (\<lambda>m. m\<lparr>mde_pwr_line := False, power_dn := False, is_powered_up := False\<rparr>) r)"
  using assms by (simp_all add: numeral_2_eq_2 mde_thread_step_def Let_def mde_power_blocks)

end
