(* ===== verification/System.thy ===== *)
theory System
  imports Mde_Thread
begin

text \<open>
  The threads that move the antenna, running together: the control thread (normal priority),
  the motor-drive and IMU threads (high priority), and the two network servers (low priority)
  that issue the commands of \<open>ctrl.h\<close>, \<open>mde.h\<close> and \<open>imu.h\<close>. ChibiOS schedules by
  fixed priority: a server runs only while the control thread sleeps, and the high-priority
  threads may run between any two statements of the others.

  The state \<open>sys\<close> extends \<open>robot\<close> by where each thread is. A command of a server is the list
  of its assignments in program order, and another thread may run between two of them.
\<close>

datatype ctrl_pc = CtrlTop | CtrlCal | CtrlCalSleep | CtrlAz | CtrlEl | CtrlSk | CtrlLog

datatype client = ApiClient | HttpClient

datatype command =
    CmdAzTrq s8 | CmdElTrq s8 | CmdSkTrq s8
  | CmdAzSpd s16
  | CmdAzPos u16 | CmdElPos s16 | CmdSkPos s16
  | CmdAzPosSpd s16 | CmdElPosSpd s16
  | CmdAzCalibrate
  | CmdPowerUp | CmdPowerDown
  | CmdAzEncOff u16 | CmdElOff s16
  | CmdEmptyBucket

datatype assign =
    AzFlag bool | AzState motor_state | ElState motor_state | SkState motor_state
  | AzTrq s8 | ElTrq s8 | SkTrq s8
  | AzSpd s16 | AzPos u16 | AzPosSpd s16 | AzPosTim
  | ElPos s16 | ElPosSpd s16 | ElPosTim | SkPos s16
  | PowerUp | PowerDn | AzEncOff u16 | ElOff s16 | BucketClear

fun do_assign :: "assign \<Rightarrow> 'a robot_scheme \<Rightarrow> 'a robot_scheme" where
  "do_assign (AzFlag b) r = upd_ctl (\<lambda>c. c\<lparr>az_flag_calibrate := b\<rparr>) r"
| "do_assign (AzState s) r = upd_ctl (\<lambda>c. c\<lparr>az_state := s\<rparr>) r"
| "do_assign (ElState s) r = upd_ctl (\<lambda>c. c\<lparr>el_state := s\<rparr>) r"
| "do_assign (SkState s) r = upd_ctl (\<lambda>c. c\<lparr>sk_state := s\<rparr>) r"
| "do_assign (AzTrq t) r = upd_mde (mde_set_trq_az t) r"
| "do_assign (ElTrq t) r = upd_mde (mde_set_trq_el t) r"
| "do_assign (SkTrq t) r = upd_mde (mde_set_trq_sk t) r"
| "do_assign (AzSpd v) r = upd_ctl (\<lambda>c. c\<lparr>az_tgt_spd := v\<rparr>) r"
| "do_assign (AzPos p) r = upd_ctl (\<lambda>c. c\<lparr>az_tgt_pos := p\<rparr>) r"
| "do_assign (AzPosSpd v) r = upd_ctl (\<lambda>c. c\<lparr>az_tgt_pos_spd := v\<rparr>) r"
| "do_assign AzPosTim r = upd_ctl (\<lambda>c. c\<lparr>az_tgt_pos_tim := now r\<rparr>) r"
| "do_assign (ElPos p) r = upd_ctl (\<lambda>c. c\<lparr>el_tgt_pos := p\<rparr>) r"
| "do_assign (ElPosSpd v) r = upd_ctl (\<lambda>c. c\<lparr>el_tgt_pos_spd := v\<rparr>) r"
| "do_assign ElPosTim r = upd_ctl (\<lambda>c. c\<lparr>el_tgt_pos_tim := now r\<rparr>) r"
| "do_assign (SkPos p) r = upd_ctl (\<lambda>c. c\<lparr>sk_tgt_pos := p\<rparr>) r"
| "do_assign PowerUp r = upd_mde mde_power_up r"
| "do_assign PowerDn r = upd_mde mde_power_down r"
| "do_assign (AzEncOff v) r = upd_mde (mde_set_az_enc_off v) r"
| "do_assign (ElOff v) r = r\<lparr>imu := imu_set_el_off v (imu r)\<rparr>"
| "do_assign BucketClear r = r\<lparr>bucket := (bucket r)[0 := NUL]\<rparr>"

fun cmd_assigns :: "command \<Rightarrow> assign list" where
  "cmd_assigns (CmdAzTrq t) = [AzFlag False, AzState MOTOR_STATE_CONST_TORQUE, AzTrq t]"
| "cmd_assigns (CmdElTrq t) = [ElTrq t, ElState MOTOR_STATE_CONST_TORQUE]"
| "cmd_assigns (CmdSkTrq t) = [SkTrq t, SkState MOTOR_STATE_CONST_TORQUE]"
| "cmd_assigns (CmdAzSpd v) = [AzSpd v, AzFlag False, AzState MOTOR_STATE_CONST_SPEED]"
| "cmd_assigns (CmdAzPos p) = [AzPos p, AzFlag False, AzPosTim, AzState MOTOR_STATE_TARGET_POSITION]"
| "cmd_assigns (CmdElPos p) = [ElPos p, ElPosTim, ElState MOTOR_STATE_TARGET_POSITION]"
| "cmd_assigns (CmdSkPos p) = [SkPos p, SkState MOTOR_STATE_TARGET_POSITION]"
| "cmd_assigns (CmdAzPosSpd v) = [AzPosSpd v]"
| "cmd_assigns (CmdElPosSpd v) = [ElPosSpd v]"
| "cmd_assigns CmdAzCalibrate = [AzFlag True]"
| "cmd_assigns CmdPowerUp = [PowerUp]"
| "cmd_assigns CmdPowerDown = [PowerDn]"
| "cmd_assigns (CmdAzEncOff v) = [AzEncOff v]"
| "cmd_assigns (CmdElOff v) = [ElOff v]"
| "cmd_assigns CmdEmptyBucket = [BucketClear]"

text \<open>The commands as the modules define them.\<close>

fun do_command :: "command \<Rightarrow> 'a robot_scheme \<Rightarrow> 'a robot_scheme" where
  "do_command (CmdAzTrq t) r = az_set_const_trq t r"
| "do_command (CmdElTrq t) r = el_set_const_trq t r"
| "do_command (CmdSkTrq t) r = sk_set_const_trq t r"
| "do_command (CmdAzSpd v) r = az_set_const_spd v r"
| "do_command (CmdAzPos p) r = az_set_tgt_pos p r"
| "do_command (CmdElPos p) r = el_set_tgt_pos p r"
| "do_command (CmdSkPos p) r = sk_set_tgt_pos p r"
| "do_command (CmdAzPosSpd v) r = az_set_tgt_pos_spd v r"
| "do_command (CmdElPosSpd v) r = el_set_tgt_pos_spd v r"
| "do_command CmdAzCalibrate r = az_calibrate r"
| "do_command CmdPowerUp r = upd_mde mde_power_up r"
| "do_command CmdPowerDown r = upd_mde mde_power_down r"
| "do_command (CmdAzEncOff v) r = upd_mde (mde_set_az_enc_off v) r"
| "do_command (CmdElOff v) r = r\<lparr>imu := imu_set_el_off v (imu r)\<rparr>"
| "do_command CmdEmptyBucket r = r\<lparr>bucket := (bucket r)[0 := NUL]\<rparr>"

lemma cmd_assigns_do_command: "fold do_assign (cmd_assigns c) r = do_command c r"
  by (cases c) (simp_all add: ctrl_commands Let_def)

text \<open>The commands each server can issue: see the dispatchers of \<open>api.c\<close> and \<open>http.c\<close>.\<close>

fun client_may :: "client \<Rightarrow> command \<Rightarrow> bool" where
  "client_may ApiClient (CmdAzPos p) = True"
| "client_may ApiClient (CmdElPos p) = True"
| "client_may ApiClient (CmdAzPosSpd v) = (v = 0)"
| "client_may ApiClient (CmdElPosSpd v) = (v = 0)"
| "client_may HttpClient (CmdAzTrq t) = True"
| "client_may HttpClient (CmdElTrq t) = True"
| "client_may HttpClient (CmdSkTrq t) = True"
| "client_may HttpClient (CmdAzPos p) = True"
| "client_may HttpClient (CmdElPos p) = True"
| "client_may HttpClient (CmdSkPos p) = True"
| "client_may HttpClient (CmdAzEncOff v) = True"
| "client_may HttpClient (CmdElOff v) = True"
| "client_may HttpClient CmdAzCalibrate = True"
| "client_may HttpClient CmdPowerUp = True"
| "client_may HttpClient CmdPowerDown = True"
| "client_may HttpClient CmdEmptyBucket = True"
| "client_may c cmd = False"

record sys = robot +
  cpc :: ctrl_pc
  cloc :: ctrl_locals
  mth :: mde_thread
  iloc :: imu_locals
  ipc :: nat
  pend :: "client \<Rightarrow> assign list"

text \<open>
  The control thread between two points where another thread can run; \<open>None\<close> is a write
  outside an object.
\<close>

definition ctrl_step :: "ub_conv \<Rightarrow> sys \<Rightarrow> sys option" where
  "ctrl_step ub s =
     (case cpc s of
        CtrlTop \<Rightarrow> Some ((ctrl_failsafe s)\<lparr>cpc := CtrlCal\<rparr>)
      | CtrlCal \<Rightarrow>
          if cal_needs_start s then Some ((ctrl_cal_start s)\<lparr>cpc := CtrlCalSleep\<rparr>)
          else (let (loc, s') = ctrl_cal_watch (cloc s) s in Some (s'\<lparr>cloc := loc, cpc := CtrlAz\<rparr>))
      | CtrlCalSleep \<Rightarrow>
          (let (loc, s') = ctrl_cal_resume (cloc s) s in Some (s'\<lparr>cloc := loc, cpc := CtrlAz\<rparr>))
      | CtrlAz \<Rightarrow> Some ((ctrl_az ub s)\<lparr>cpc := CtrlEl\<rparr>)
      | CtrlEl \<Rightarrow> (let (loc, s') = ctrl_el ub (cloc s) s in Some (s'\<lparr>cloc := loc, cpc := CtrlSk\<rparr>))
      | CtrlSk \<Rightarrow> Some ((ctrl_sk s)\<lparr>cpc := CtrlLog\<rparr>)
      | CtrlLog \<Rightarrow>
          do { (loc, s') \<leftarrow> ctrl_log ub (cloc s) s;
               Some ((ctrl_stamp s')\<lparr>cloc := loc, cpc := CtrlTop\<rparr>) })"

definition ctrl_sleeping :: "sys \<Rightarrow> bool" where
  "ctrl_sleeping s \<longleftrightarrow> cpc s = CtrlTop \<or> cpc s = CtrlCalSleep"

inductive sys_step :: "slave \<Rightarrow> imu_bus \<Rightarrow> (fp \<Rightarrow> fp) \<Rightarrow> ub_conv \<Rightarrow> sys \<Rightarrow> sys \<Rightarrow> bool"
  for slave bus atan ub where
  Tick: "sys_step slave bus atan ub s (s\<lparr>now := now s + 1\<rparr>)"
| Ctrl: "ctrl_step ub s = Some s' \<Longrightarrow> sys_step slave bus atan ub s s'"
| Mde: "mde_thread_step slave ub (mth s, s) = (t, s') \<Longrightarrow> sys_step slave bus atan ub s (s'\<lparr>mth := t\<rparr>)"
| Imu: "imu_block bus atan ub (ipc s) (iloc s, imu s) = (loc, i) \<Longrightarrow>
    sys_step slave bus atan ub s (s\<lparr>imu := i, iloc := loc, ipc := Suc (ipc s) mod 7\<rparr>)"
| Issue: "ctrl_sleeping s \<Longrightarrow> pend s c = [] \<Longrightarrow> client_may c cmd \<Longrightarrow>
    sys_step slave bus atan ub s (s\<lparr>pend := (pend s)(c := cmd_assigns cmd)\<rparr>)"
| Assign: "ctrl_sleeping s \<Longrightarrow> pend s c = a # as \<Longrightarrow>
    sys_step slave bus atan ub s ((do_assign a s)\<lparr>pend := (pend s)(c := as)\<rparr>)"

inductive_cases sys_stepE: "sys_step slave bus atan ub s s'"

text \<open>
  The state after \<open>init\<close>: the local variables that C leaves uninitialised are arbitrary.
\<close>

definition sys_init :: "imu_bus \<Rightarrow> u16 \<Rightarrow> mde_locals \<Rightarrow> sys" where
  "sys_init bus old0 mloc0 =
     \<lparr>ctl = ctrl_state_init, mde = mde_init mde_state_init, imu = imu_init bus imu_state_init,
      bucket = bucket_init, now = 0,
      cpc = CtrlTop, cloc = \<lparr>old_az = old0, dir_el = 0, loop_cntr = 0\<rparr>,
      mth = \<lparr>mpc = PcTop, mloc = mloc0\<rparr>, iloc = imu_locals_init, ipc = 0, pend = (\<lambda>c. [])\<rparr>"

inductive reachable :: "slave \<Rightarrow> imu_bus \<Rightarrow> (fp \<Rightarrow> fp) \<Rightarrow> ub_conv \<Rightarrow> sys \<Rightarrow> bool"
  for slave bus atan ub where
  Init: "reachable slave bus atan ub (sys_init bus old0 mloc0)"
| Step: "reachable slave bus atan ub s \<Longrightarrow> sys_step slave bus atan ub s s' \<Longrightarrow>
    reachable slave bus atan ub s'"

text \<open>A schedule as data: \<open>sys_exec\<close> runs one step of the chosen thread.\<close>

datatype event = ETick | ECtrl | EMde | EImu | EIssue client command | EAssign client

fun sys_exec :: "slave \<Rightarrow> imu_bus \<Rightarrow> (fp \<Rightarrow> fp) \<Rightarrow> ub_conv \<Rightarrow> sys \<Rightarrow> event \<Rightarrow> sys option" where
  "sys_exec slave bus atan ub s ETick = Some (s\<lparr>now := now s + 1\<rparr>)"
| "sys_exec slave bus atan ub s ECtrl = ctrl_step ub s"
| "sys_exec slave bus atan ub s EMde =
     (let (t, s') = mde_thread_step slave ub (mth s, s) in Some (s'\<lparr>mth := t\<rparr>))"
| "sys_exec slave bus atan ub s EImu =
     (let (loc, i) = imu_block bus atan ub (ipc s) (iloc s, imu s)
      in Some (s\<lparr>imu := i, iloc := loc, ipc := Suc (ipc s) mod 7\<rparr>))"
| "sys_exec slave bus atan ub s (EIssue c cmd) =
     (if ctrl_sleeping s \<and> pend s c = [] \<and> client_may c cmd
      then Some (s\<lparr>pend := (pend s)(c := cmd_assigns cmd)\<rparr>) else None)"
| "sys_exec slave bus atan ub s (EAssign c) =
     (if ctrl_sleeping s
      then case pend s c of [] \<Rightarrow> None
           | a # as \<Rightarrow> Some ((do_assign a s)\<lparr>pend := (pend s)(c := as)\<rparr>)
      else None)"

lemma sys_step_exec: "sys_step slave bus atan ub s s' \<longleftrightarrow> (\<exists>ev. sys_exec slave bus atan ub s ev = Some s')"
proof
  assume "sys_step slave bus atan ub s s'"
  then show "\<exists>ev. sys_exec slave bus atan ub s ev = Some s'"
  proof cases
    case Tick then show ?thesis by (intro exI [of _ ETick]) simp
  next
    case Ctrl then show ?thesis by (intro exI [of _ ECtrl]) simp
  next
    case Mde then show ?thesis by (intro exI [of _ EMde]) simp
  next
    case Imu then show ?thesis by (intro exI [of _ EImu]) simp
  next
    case (Issue c cmd) then show ?thesis by (intro exI [of _ "EIssue c cmd"]) simp
  next
    case (Assign c a as) then show ?thesis by (intro exI [of _ "EAssign c"]) simp
  qed
next
  assume "\<exists>ev. sys_exec slave bus atan ub s ev = Some s'"
  then obtain ev where "sys_exec slave bus atan ub s ev = Some s'" by blast
  then show "sys_step slave bus atan ub s s'"
    by (cases ev) (auto intro: sys_step.intros split: prod.splits if_splits list.splits)
qed

lemma sys_exec_step: "sys_exec slave bus atan ub s ev = Some s' \<Longrightarrow> sys_step slave bus atan ub s s'"
  using sys_step_exec by blast

abbreviation sys_run :: "slave \<Rightarrow> imu_bus \<Rightarrow> (fp \<Rightarrow> fp) \<Rightarrow> ub_conv \<Rightarrow> sys \<Rightarrow> event list \<Rightarrow> sys option" where
  "sys_run slave bus atan ub \<equiv> run_calls (sys_exec slave bus atan ub)"

lemma sys_run_reachable:
  "reachable slave bus atan ub s \<Longrightarrow> sys_run slave bus atan ub s evs = Some s' \<Longrightarrow>
     reachable slave bus atan ub s'"
proof (induction evs arbitrary: s)
  case (Cons ev evs)
  from Cons.prems(2) obtain s1 where "sys_exec slave bus atan ub s ev = Some s1"
    "sys_run slave bus atan ub s1 evs = Some s'" by (auto split: Option.bind_splits)
  then show ?case using Cons.prems(1) by (blast intro: Cons.IH reachable.Step sys_exec_step)
qed simp

section \<open>Invariants\<close>

text \<open>What every invariant of the system provides, and what it gives.\<close>

locale sys_invariant =
  fixes I :: "sys \<Rightarrow> bool"
  assumes at_start: "I (sys_init bus old0 mloc0)"
    and kept: "sys_step slave bus atan ub s s' \<Longrightarrow> I s \<Longrightarrow> I s'"
begin

lemma always: "reachable slave bus atan ub s \<Longrightarrow> I s"
  by (induction rule: reachable.induct) (auto intro: at_start kept)

lemma along: "sys_run slave bus atan ub s evs = Some s' \<Longrightarrow> I s \<Longrightarrow> I s'"
proof (induction evs arbitrary: s)
  case (Cons ev evs)
  from Cons.prems(1) obtain s1 where "sys_exec slave bus atan ub s ev = Some s1"
    "sys_run slave bus atan ub s1 evs = Some s'" by (auto split: Option.bind_splits)
  then show ?case using Cons.prems(2) by (blast intro: Cons.IH kept sys_exec_step)
qed simp

end

lemma mde_thread_step_frame:
  assumes "mde_thread_step slave ub (t, r) = (t', r')"
  obtains m i where "r' = r\<lparr>mde := m, imu := i\<rparr>" "motor_az m = motor_az (mde r)"
    "motor_el m = motor_el (mde r)" "motor_sk m = motor_sk (mde r)"
proof -
  have "r' = r\<lparr>mde := mde r', imu := imu r'\<rparr> \<and> motor_az (mde r') = motor_az (mde r) \<and>
      motor_el (mde r') = motor_el (mde r) \<and> motor_sk (mde r') = motor_sk (mde r)"
  proof (cases "mpc t")
    case PcComm
    then show ?thesis
      using assms mde_poll_state [of slave ub "now r" "now r" "mloc t" "mde r"]
      by (cases "mde_poll slave ub (now r) (now r) (mloc t) (mde r)")
        (auto simp: mde_thread_step_def Let_def split: if_splits)
  qed (use assms in \<open>auto simp: mde_thread_step_def mde_power_blocks mde_exchange_state Let_def split: if_splits\<close>)
  then show thesis using that by metis
qed

subsection \<open>Target speeds stay zero\<close>

fun zero_speed :: "assign \<Rightarrow> bool" where
  "zero_speed (AzPosSpd v) = (v = 0)"
| "zero_speed (ElPosSpd v) = (v = 0)"
| "zero_speed a = True"

definition speeds_zero :: "sys \<Rightarrow> bool" where
  "speeds_zero s \<longleftrightarrow> az_tgt_pos_spd (ctl s) = 0 \<and> el_tgt_pos_spd (ctl s) = 0 \<and>
     (\<forall>c. list_all zero_speed (pend s c))"

lemmas ctrl_blocks =
  ctrl_failsafe_def ctrl_az_def ctrl_az_speed_def ctrl_el_def ctrl_el_speed_def ctrl_sk_def
  ctrl_cal_watch_def ctrl_cal_resume_def ctrl_cal_start_def ctrl_stamp_def mde_accessors

text \<open>What the control thread leaves alone.\<close>

definition ctrl_keeps :: "sys \<Rightarrow> sys \<Rightarrow> bool" where
  "ctrl_keeps s s' \<longleftrightarrow>
     pend s' = pend s \<and> mth s' = mth s \<and> iloc s' = iloc s \<and> imu s' = imu s \<and> now s' = now s \<and>
     az_tgt_pos_spd (ctl s') = az_tgt_pos_spd (ctl s) \<and> el_tgt_pos_spd (ctl s') = el_tgt_pos_spd (ctl s) \<and>
     power_up (mde s') = power_up (mde s) \<and> power_dn (mde s') = power_dn (mde s) \<and>
     is_powered_up (mde s') = is_powered_up (mde s) \<and> mde_pwr_line (mde s') = mde_pwr_line (mde s) \<and>
     mde_frames (mde s') = mde_frames (mde s)"

lemma ctrl_step_keeps:
  assumes "ctrl_step ub s = Some s'"
  shows "ctrl_keeps s s'"
proof (cases "cpc s")
  case CtrlTop
  then show ?thesis using assms
    by (auto simp: ctrl_step_def ctrl_keeps_def ctrl_blocks ctrl_commands Let_def split: if_splits)
next
  case CtrlCal
  then show ?thesis using assms
    by (auto simp: ctrl_step_def ctrl_keeps_def ctrl_blocks ctrl_commands Let_def split: if_splits)
next
  case CtrlCalSleep
  then show ?thesis using assms
    by (auto simp: ctrl_step_def ctrl_keeps_def ctrl_blocks Let_def)
next
  case CtrlAz
  then show ?thesis using assms
    by (auto simp: ctrl_step_def ctrl_keeps_def ctrl_blocks Let_def split: motor_state.splits if_splits)
next
  case CtrlEl
  then show ?thesis using assms
    by (auto simp: ctrl_step_def ctrl_keeps_def ctrl_blocks Let_def split: motor_state.splits prod.splits)
next
  case CtrlSk
  then show ?thesis using assms
    by (auto simp: ctrl_step_def ctrl_keeps_def ctrl_blocks split: motor_state.splits)
next
  case CtrlLog
  then show ?thesis using assms
    by (auto simp: ctrl_step_def ctrl_keeps_def ctrl_log_def ctrl_blocks Let_def
        split: Option.bind_splits if_splits)
qed

lemma cmd_zero_speed: "client_may c cmd \<Longrightarrow> list_all zero_speed (cmd_assigns cmd)"
  by (cases cmd; cases c) auto

interpretation speeds: sys_invariant speeds_zero
proof
  show "speeds_zero (sys_init bus old0 mloc0)" for bus old0 mloc0
    by (simp add: speeds_zero_def sys_init_def ctrl_state_init_def)
next
  fix slave bus atan ub s s'
  assume "sys_step slave bus atan ub s s'" and I: "speeds_zero s"
  then show "speeds_zero s'"
  proof cases
    case Ctrl
    then show ?thesis using I by (auto simp: speeds_zero_def ctrl_keeps_def dest: ctrl_step_keeps)
  next
    case (Mde t r')
    then show ?thesis using I by (auto simp: speeds_zero_def elim: mde_thread_step_frame)
  next
    case (Issue c cmd)
    then show ?thesis using I cmd_zero_speed by (auto simp: speeds_zero_def)
  next
    case (Assign c a as)
    then have "list_all zero_speed (a # as)" using I by (metis speeds_zero_def)
    then show ?thesis using I Assign
      by (cases a) (auto simp: speeds_zero_def)
  qed (use I in \<open>simp_all add: speeds_zero_def\<close>)
qed

subsection \<open>The debug buffer stays a string, and the control loop never faults\<close>

lemma bucket_clear_ok: "bucket_ok b \<Longrightarrow> bucket_ok (b[0 := NUL])"
  by (cases b) (simp_all add: bucket_ok_def terminated_def DEBUG_BUCKET_SIZE_def)

lemma ctrl_step_bucket:
  assumes "ctrl_step ub s = Some s'" and "bucket_ok (bucket s)"
  shows "bucket_ok (bucket s')"
proof (cases "cpc s = CtrlLog")
  case True
  obtain b where "ctrl_log ub (cloc s) s = Some ((cloc s)\<lparr>loop_cntr := loop_cntr (cloc s) + 1\<rparr>, s\<lparr>bucket := b\<rparr>)"
    "bucket_ok b" using ctrl_log_total [OF assms(2)] by blast
  then show ?thesis using assms(1) True by (auto simp: ctrl_step_def ctrl_stamp_def)
next
  case False
  have "bucket s' = bucket s"
    using False assms(1) ctrl_blocks_frame
    by (cases "cpc s")
      (auto simp: ctrl_step_def ctrl_blocks_frame ctrl_cal_start_def ctrl_cal_resume_def
        ctrl_cal_watch_def az_set_const_trq_def Let_def case_prod_beta split: if_splits)
  then show ?thesis using assms(2) by simp
qed

interpretation bucket: sys_invariant "\<lambda>s. bucket_ok (bucket s)"
proof
  show "bucket_ok (bucket (sys_init bus old0 mloc0))" for bus old0 mloc0
    by (simp add: sys_init_def bucket_init_ok)
next
  fix slave bus atan ub s s'
  assume "sys_step slave bus atan ub s s'" and I: "bucket_ok (bucket s)"
  then show "bucket_ok (bucket s')"
  proof cases
    case Ctrl then show ?thesis using I ctrl_step_bucket by blast
  next
    case (Mde t r') then show ?thesis using I by (auto elim: mde_thread_step_frame)
  next
    case (Assign c a as) then show ?thesis using I by (cases a) (auto intro: bucket_clear_ok)
  qed (use I in simp_all)
qed

lemma ctrl_step_total: "bucket_ok (bucket s) \<Longrightarrow> ctrl_step ub s \<noteq> None"
  using ctrl_log_total [of s ub "cloc s"]
  by (auto simp: ctrl_step_def case_prod_beta Let_def split: ctrl_pc.splits)

subsection \<open>The power line\<close>

text \<open>\<open>line_inv\<close> reads only what the drive thread writes, and the request flag it consumes.\<close>

lemma line_inv_cong:
  "mde_pwr_line m' = mde_pwr_line m \<Longrightarrow> is_powered_up m' = is_powered_up m \<Longrightarrow>
     power_dn m \<longrightarrow> power_dn m' \<Longrightarrow> line_inv pc m \<Longrightarrow> line_inv pc m'"
  by (auto simp: line_inv_def)

interpretation line: sys_invariant "\<lambda>s. line_inv (mpc (mth s)) (mde s)"
proof
  show "line_inv (mpc (mth (sys_init bus old0 mloc0))) (mde (sys_init bus old0 mloc0))" for bus old0 mloc0
    by (simp add: sys_init_def line_inv_def mde_init_def mde_state_init_def)
next
  fix slave bus atan ub s s'
  assume "sys_step slave bus atan ub s s'" and I: "line_inv (mpc (mth s)) (mde s)"
  then show "line_inv (mpc (mth s')) (mde s')"
  proof cases
    case Ctrl
    then have "ctrl_keeps s s'" by (rule ctrl_step_keeps)
    then have "line_inv (mpc (mth s)) (mde s')"
      by (intro line_inv_cong [OF _ _ _ I]) (auto simp: ctrl_keeps_def)
    then show ?thesis using \<open>ctrl_keeps s s'\<close> by (simp add: ctrl_keeps_def)
  next
    case (Mde t r') then show ?thesis using mde_thread_step_line_inv [OF I] by simp
  next
    case (Assign c a as)
    have "line_inv (mpc (mth s)) (mde (do_assign a s))"
      by (rule line_inv_cong [OF _ _ _ I]) (cases a; simp add: mde_accessors)+
    then show ?thesis using Assign by (cases a) simp_all
  qed (use I in simp_all)
qed

subsection \<open>Torque limits\<close>

text \<open>
  From the moment a motor controller has run until the loop sleeps, a motor under closed-loop
  control has a limited torque, whatever the high-priority threads do meanwhile.
\<close>

definition torque_inv :: "sys \<Rightarrow> bool" where
  "torque_inv s \<longleftrightarrow>
     (cpc s \<in> {CtrlEl, CtrlSk, CtrlLog} \<and> az_state (ctl s) \<noteq> MOTOR_STATE_CONST_TORQUE \<longrightarrow>
        torque_limited (motor_az (mde s))) \<and>
     (cpc s \<in> {CtrlSk, CtrlLog} \<and> el_state (ctl s) \<noteq> MOTOR_STATE_CONST_TORQUE \<longrightarrow>
        torque_limited (motor_el (mde s)))"

lemma ctrl_step_torque:
  assumes "ctrl_step ub s = Some s'" and "torque_inv s"
  shows "torque_inv s'"
proof (cases "cpc s")
  case CtrlAz
  then show ?thesis using assms ctrl_az_limited [of s ub]
    by (auto simp: ctrl_step_def torque_inv_def ctrl_frames)
next
  case CtrlEl
  then show ?thesis using assms ctrl_el_limited [of s ub "cloc s"]
    by (auto simp: ctrl_step_def torque_inv_def ctrl_frames case_prod_beta)
next
  case CtrlSk
  then show ?thesis using assms by (auto simp: ctrl_step_def torque_inv_def ctrl_frames)
next
  case CtrlLog
  then show ?thesis using assms
    by (auto simp: ctrl_step_def torque_inv_def split: Option.bind_splits)
qed (use assms in \<open>auto simp: ctrl_step_def torque_inv_def Let_def case_prod_beta split: if_splits\<close>)

interpretation torque: sys_invariant torque_inv
proof
  show "torque_inv (sys_init bus old0 mloc0)" for bus old0 mloc0
    by (simp add: torque_inv_def sys_init_def)
next
  fix slave bus atan ub s s'
  assume "sys_step slave bus atan ub s s'" and I: "torque_inv s"
  then show "torque_inv s'"
  proof cases
    case Ctrl then show ?thesis using I ctrl_step_torque by blast
  next
    case (Mde t r') then show ?thesis using I by (auto simp: torque_inv_def elim: mde_thread_step_frame)
  next
    case (Assign c a as) then show ?thesis by (cases a) (auto simp: torque_inv_def ctrl_sleeping_def)
  qed (use I in \<open>simp_all add: torque_inv_def\<close>)
qed

section \<open>An undisturbed round is \<open>ctrl_iteration\<close>\<close>

text \<open>The blocks do not see where the threads are.\<close>

definition at_pc :: "ctrl_pc \<Rightarrow> ctrl_locals \<Rightarrow> sys \<Rightarrow> sys" where
  "at_pc pc loc s = s\<lparr>cpc := pc, cloc := loc\<rparr>"

lemma at_simps [simp]:
  "ctl (at_pc pc loc s) = ctl s" "mde (at_pc pc loc s) = mde s" "imu (at_pc pc loc s) = imu s"
  "bucket (at_pc pc loc s) = bucket s" "now (at_pc pc loc s) = now s" "cpc (at_pc pc loc s) = pc"
  "cloc (at_pc pc loc s) = loc" "pend (at_pc pc loc s) = pend s" "mth (at_pc pc loc s) = mth s"
  "at_pc pc loc (at_pc pc' loc' s) = at_pc pc loc s"
  by (simp_all add: at_pc_def)

lemma at_update [simp]:
  "(at_pc pc loc s)\<lparr>cpc := pc'\<rparr> = at_pc pc' loc s"
  "(at_pc pc loc s)\<lparr>cloc := loc', cpc := pc'\<rparr> = at_pc pc' loc' s"
  "(at_pc pc loc s)\<lparr>mde := m\<rparr> = at_pc pc loc (s\<lparr>mde := m\<rparr>)"
  "(at_pc pc loc s)\<lparr>ctl := c\<rparr> = at_pc pc loc (s\<lparr>ctl := c\<rparr>)"
  "(at_pc pc loc s)\<lparr>bucket := b\<rparr> = at_pc pc loc (s\<lparr>bucket := b\<rparr>)"
  by (simp_all add: at_pc_def)

lemma at_self: "cpc s = pc \<Longrightarrow> at_pc pc (cloc s) s = s"
  by (simp add: at_pc_def)

lemma ctrl_blocks_at:
  "ctrl_failsafe (at_pc pc loc s) = at_pc pc loc (ctrl_failsafe s)"
  "cal_needs_start (at_pc pc loc s) = cal_needs_start s"
  "ctrl_cal_start (at_pc pc loc s) = at_pc pc loc (ctrl_cal_start s)"
  "ctrl_cal_resume l (at_pc pc loc s) = (case ctrl_cal_resume l s of (l', s') \<Rightarrow> (l', at_pc pc loc s'))"
  "ctrl_cal_watch l (at_pc pc loc s) = (case ctrl_cal_watch l s of (l', s') \<Rightarrow> (l', at_pc pc loc s'))"
  "ctrl_az ub (at_pc pc loc s) = at_pc pc loc (ctrl_az ub s)"
  "ctrl_el ub l (at_pc pc loc s) = (case ctrl_el ub l s of (l', s') \<Rightarrow> (l', at_pc pc loc s'))"
  "ctrl_sk (at_pc pc loc s) = at_pc pc loc (ctrl_sk s)"
  "ctrl_stamp (at_pc pc loc s) = at_pc pc loc (ctrl_stamp s)"
  by (simp_all add: ctrl_blocks ctrl_commands cal_needs_start_def az_target_def el_target_def Let_def
      split: motor_state.splits prod.splits)

lemma ctrl_log_at:
  "ctrl_log ub l (at_pc pc loc s) = map_option (\<lambda>(l', s'). (l', at_pc pc loc s')) (ctrl_log ub l s)"
  by (simp add: ctrl_log_def ctrl_log_line_def Let_def map_option_bind case_prod_beta comp_def
      split: Option.bind_splits)

lemma ctrl_step_at:
  "ctrl_step ub (at_pc CtrlTop l s) = Some (at_pc CtrlCal l (ctrl_failsafe s))"
  "ctrl_step ub (at_pc CtrlCal l s) =
     (if cal_needs_start s then Some (at_pc CtrlCalSleep l (ctrl_cal_start s))
      else Some (at_pc CtrlAz (fst (ctrl_cal_watch l s)) (snd (ctrl_cal_watch l s))))"
  "ctrl_step ub (at_pc CtrlCalSleep l s) =
     Some (at_pc CtrlAz (fst (ctrl_cal_resume l s)) (snd (ctrl_cal_resume l s)))"
  "ctrl_step ub (at_pc CtrlAz l s) = Some (at_pc CtrlEl l (ctrl_az ub s))"
  "ctrl_step ub (at_pc CtrlEl l s) = Some (at_pc CtrlSk (fst (ctrl_el ub l s)) (snd (ctrl_el ub l s)))"
  "ctrl_step ub (at_pc CtrlSk l s) = Some (at_pc CtrlLog l (ctrl_sk s))"
  "ctrl_step ub (at_pc CtrlLog l s) =
     map_option (\<lambda>(l', s'). at_pc CtrlTop l' (ctrl_stamp s')) (ctrl_log ub l s)"
  by (simp_all add: ctrl_step_def ctrl_blocks_at ctrl_log_at case_prod_beta Let_def)
    (simp add: bind_map_option comp_def case_prod_beta ctrl_blocks_at map_conv_bind_option)?

lemma ctrl_tail_steps:
  "sys_run slave bus atan ub (at_pc CtrlAz l s) [ECtrl, ECtrl, ECtrl, ECtrl] =
     map_option (\<lambda>(l', s'). at_pc CtrlTop l' s') (ctrl_tail ub l s)"
  by (simp add: ctrl_step_at ctrl_tail_def Let_def case_prod_beta map_option_bind comp_def
      map_conv_bind_option)

lemma ctrl_round_steps:
  assumes "cpc s = CtrlTop"
  shows "sys_run slave bus atan ub s
       (replicate (if cal_needs_start (ctrl_failsafe s) then 7 else 6) ECtrl) =
     map_option (\<lambda>(l', s'). s'\<lparr>cpc := CtrlTop, cloc := l'\<rparr>) (ctrl_iteration ub (cloc s) s)"
proof -
  define l where "l = cloc s"
  have s: "s = at_pc CtrlTop l s" using assms by (simp add: at_pc_def l_def)
  define r where "r = ctrl_failsafe s"
  have n: "replicate (if cal_needs_start r then 7 else 6) ECtrl =
      (if cal_needs_start r then [ECtrl, ECtrl, ECtrl] else [ECtrl, ECtrl]) @ [ECtrl, ECtrl, ECtrl, ECtrl]"
    by (simp add: numeral_eq_Suc)
  have h: "sys_run slave bus atan ub s (if cal_needs_start r then [ECtrl, ECtrl, ECtrl] else [ECtrl, ECtrl]) =
      Some (at_pc CtrlAz (fst (ctrl_head l s)) (snd (ctrl_head l s)))"
    unfolding r_def by (subst s) (simp add: ctrl_step_at ctrl_head_def Let_def)
  show ?thesis
    unfolding r_def [symmetric] n run_calls_append h
    by (simp only: bind.bind_lunit ctrl_tail_steps ctrl_iteration_head_tail case_prod_beta l_def)
      (simp only: at_pc_def)
qed

section \<open>The failsafe in the running system\<close>

text \<open>
  Once all motors are stopped, only an assignment of a server can start one again, except when
  the control thread is inside the calibration's sleep.
\<close>

fun no_assign :: "event \<Rightarrow> bool" where
  "no_assign (EAssign c) = False"
| "no_assign ev = True"

definition at_rest :: "sys \<Rightarrow> bool" where
  "at_rest s \<longleftrightarrow> stopped s \<and> cpc s \<noteq> CtrlCalSleep"

lemma stopped_blocks:
  "stopped s \<Longrightarrow> stopped (ctrl_failsafe s)"
  "stopped s \<Longrightarrow> \<not> cal_needs_start s"
  "stopped s \<Longrightarrow> ctrl_cal_watch l s = (l, s)"
  "stopped s \<Longrightarrow> ctrl_az ub s = s"
  "stopped s \<Longrightarrow> ctrl_el ub l s = (l, s)"
  "stopped s \<Longrightarrow> ctrl_sk s = s"
  "stopped s \<Longrightarrow> stopped (ctrl_stamp s)"
  "stopped s \<Longrightarrow> stopped (s\<lparr>bucket := b\<rparr>)"
  by (auto simp: stopped_def ctrl_blocks ctrl_commands cal_needs_start_def Let_def)

lemma ctrl_step_rest:
  assumes "ctrl_step ub s = Some s'" and "at_rest s"
  shows "at_rest s'"
proof -
  have [simp]: "stopped (s\<lparr>cpc := pc, cloc := loc\<rparr>) = stopped s" "stopped (s\<lparr>cpc := pc\<rparr>) = stopped s"
    "stopped (s\<lparr>cloc := loc\<rparr>) = stopped s" for pc loc s
    by (simp_all add: stopped_def)
  have log: "ctrl_log ub (cloc s) s = Some (l', s1) \<Longrightarrow> stopped s1" for l' s1
    using assms(2) stopped_blocks(8) [of s]
    by (auto simp: ctrl_log_def at_rest_def Let_def split: if_splits Option.bind_splits)
  show ?thesis
    using assms stopped_blocks [of s] log stopped_blocks(7)
    by (cases "cpc s") (auto simp: ctrl_step_def at_rest_def Let_def split: Option.bind_splits)
qed

lemma sys_exec_rest:
  assumes "sys_exec slave bus atan ub s ev = Some s'" and "at_rest s" and "no_assign ev"
  shows "at_rest s'"
proof (cases ev)
  case ECtrl
  then show ?thesis using assms ctrl_step_rest by simp
next
  case EMde
  then show ?thesis using assms
    by (auto simp: at_rest_def stopped_def split: prod.splits elim!: mde_thread_step_frame)
qed (use assms in \<open>auto simp: at_rest_def stopped_def split: prod.splits if_splits\<close>)

lemma sys_run_rest:
  "sys_run slave bus atan ub s evs = Some s' \<Longrightarrow> at_rest s \<Longrightarrow> list_all no_assign evs \<Longrightarrow> at_rest s'"
proof (induction evs arbitrary: s)
  case (Cons ev evs)
  from Cons.prems(1) obtain s1 where "sys_exec slave bus atan ub s ev = Some s1"
    "sys_run slave bus atan ub s1 evs = Some s'" by (auto split: Option.bind_splits)
  then show ?case using Cons.prems(2,3) sys_exec_rest [of slave bus atan ub s ev s1]
    by (auto intro: Cons.IH)
qed simp

lemma failsafe_rest:
  "cpc s = CtrlTop \<Longrightarrow> failsafe_tripped (imu s) \<Longrightarrow> ctrl_step ub s = Some s' \<Longrightarrow> at_rest s'"
  using failsafe_stops [of s] by (auto simp: ctrl_step_def at_rest_def stopped_def)

section \<open>The drive falls silent when the control thread does\<close>

fun no_ctrl :: "event \<Rightarrow> bool" where
  "no_ctrl ECtrl = False"
| "no_ctrl ev = True"

fun ticks :: "event list \<Rightarrow> nat" where
  "ticks [] = 0"
| "ticks (ETick # evs) = Suc (ticks evs)"
| "ticks (ev # evs) = ticks evs"

definition since_stamp :: "'a robot_scheme \<Rightarrow> nat" where
  "since_stamp r = unat (now r - last_loop_update (ctl r))"

lemma not_running_iff: "ctrl_is_running r \<longleftrightarrow> since_stamp r \<le> 9900"
  by (simp add: ctrl_is_running_iff since_stamp_def nat_le_iff flip: nat_uint_eq)

definition init_words :: "u16 set" where
  "init_words = set mde_init_words1 \<union> set mde_init_words2 \<union> set mde_init_words3"

lemma silent_exec:
  assumes "sys_exec slave bus atan ub s ev = Some s'" and "no_ctrl ev"
    and "\<not> in_cycle (mpc (mth s))" and "9900 < since_stamp s" and "since_stamp s + ticks [ev] < 2 ^ 32"
  shows "since_stamp s' = since_stamp s + ticks [ev]" and "\<not> in_cycle (mpc (mth s'))"
    and "\<exists>ws. set ws \<subseteq> init_words \<and> mde_frames (mde s') = mde_frames (mde s) @ map frame_of ws"
proof -
  have t: "ticks [ev] = (if ev = ETick then 1 else 0)" by (cases ev) simp_all
  have asn: "since_stamp s' = since_stamp s" "mth s' = mth s" "mde_frames (mde s') = mde_frames (mde s)"
    if "ev = EAssign c" for c
  proof -
    obtain a as where a: "pend s c = a # as" "s' = (do_assign a s)\<lparr>pend := (pend s)(c := as)\<rparr>"
      using assms(1) \<open>ev = EAssign c\<close> by (auto split: if_splits list.splits)
    show "since_stamp s' = since_stamp s" "mth s' = mth s" "mde_frames (mde s') = mde_frames (mde s)"
      using a(2) by (cases a; simp add: since_stamp_def mde_accessors)+
  qed
  have nr: "\<not> ctrl_is_running s" using assms(4) by (simp add: not_running_iff)
  show "since_stamp s' = since_stamp s + ticks [ev]"
  proof (cases ev)
    case ETick
    have "unat (now s - last_loop_update (ctl s) + 1) = unat (now s - last_loop_update (ctl s)) + 1"
      using assms(5) t unfolding ETick since_stamp_def by (simp add: unat_word_ariths(1))
    then show ?thesis using assms(1) ETick t by (auto simp: since_stamp_def algebra_simps)
  next
    case EMde
    then show ?thesis using assms(1) t
      by (auto simp: since_stamp_def split: prod.splits elim!: mde_thread_step_frame)
  next
    case (EAssign c)
    then show ?thesis using asn t by simp
  qed (use assms(1,2) t in \<open>auto simp: since_stamp_def split: prod.splits if_splits\<close>)
  show "\<not> in_cycle (mpc (mth s'))"
  proof (cases ev)
    case EMde
    then show ?thesis using assms(1,3) nr
      by (cases "mpc (mth s)") (auto simp: mde_thread_step_def Let_def split: if_splits)
  next
    case (EAssign c)
    then show ?thesis using asn assms(3) by simp
  qed (use assms(1-3) in \<open>auto split: prod.splits if_splits\<close>)
  have same: "\<exists>ws. set ws \<subseteq> init_words \<and> fs = fs @ map frame_of ws" for fs by (intro exI [of _ "[]"]) simp
  show "\<exists>ws. set ws \<subseteq> init_words \<and> mde_frames (mde s') = mde_frames (mde s) @ map frame_of ws"
  proof (cases ev)
    case EMde
    then obtain t' r' where m: "mde_thread_step slave ub (mth s, s) = (t', r')" "s' = r'\<lparr>mth := t'\<rparr>"
      using assms(1) by (auto split: prod.splits)
    have "set (sent_words (mpc (mth s)) s) \<subseteq> init_words"
      using nr assms(3) by (cases "mpc (mth s)") (auto simp: init_words_def)
    then show ?thesis using mde_thread_step_frames [OF m(1)] m(2) by auto
  next
    case (EAssign c)
    then show ?thesis using same asn by simp
  qed (use assms(1,2) same in \<open>auto split: prod.splits if_splits\<close>)
qed

lemma silent_run:
  assumes "sys_run slave bus atan ub s evs = Some s'" and "list_all no_ctrl evs"
    and "\<not> in_cycle (mpc (mth s))" and "9900 < since_stamp s" and "since_stamp s + ticks evs < 2 ^ 32"
  shows "\<exists>ws. set ws \<subseteq> init_words \<and> mde_frames (mde s') = mde_frames (mde s) @ map frame_of ws"
  using assms
proof (induction evs arbitrary: s)
  case Nil
  then show ?case by (intro exI [of _ "[]"]) simp
next
  case (Cons ev evs)
  from Cons.prems(1) obtain s1 where s1: "sys_exec slave bus atan ub s ev = Some s1"
    "sys_run slave bus atan ub s1 evs = Some s'" by (auto split: Option.bind_splits)
  have t: "ticks (ev # evs) = ticks [ev] + ticks evs" by (cases ev) simp_all
  have "no_ctrl ev" "since_stamp s + ticks [ev] < 2 ^ 32" using Cons.prems(2,5) t by simp_all
  note step = silent_exec [OF s1(1) this(1) Cons.prems(3,4) this(2)]
  obtain ws where "set ws \<subseteq> init_words" "mde_frames (mde s') = mde_frames (mde s1) @ map frame_of ws"
    using Cons.IH [OF s1(2) _ step(2)] Cons.prems(2,4,5) t step(1) by auto
  moreover from step(3) obtain ws1 where "set ws1 \<subseteq> init_words"
    "mde_frames (mde s1) = mde_frames (mde s) @ map frame_of ws1" by blast
  ultimately show ?case by (intro exI [of _ "ws1 @ ws"]) simp
qed

section \<open>Commands that meet the control loop\<close>

lemma sys_run_simps:
  "sys_run slave bus atan ub s [] = Some s"
  "sys_run slave bus atan ub s (ev # evs) =
     (case sys_exec slave bus atan ub s ev of None \<Rightarrow> None | Some s' \<Rightarrow> sys_run slave bus atan ub s' evs)"
  by (simp_all split: Option.bind_splits option.splits)

lemma ctrl_blocks_pend:
  "ctrl_az ub (s\<lparr>pend := p\<rparr>) = (ctrl_az ub s)\<lparr>pend := p\<rparr>"
  "ctrl_el ub l (s\<lparr>pend := p\<rparr>) = (case ctrl_el ub l s of (l', s') \<Rightarrow> (l', s'\<lparr>pend := p\<rparr>))"
  "ctrl_sk (s\<lparr>pend := p\<rparr>) = (ctrl_sk s)\<lparr>pend := p\<rparr>"
  by (simp_all add: ctrl_blocks az_target_def el_target_def Let_def
      split: motor_state.splits prod.splits)

text \<open>
  \<open>el_set_const_trq\<close> stores the torque before it leaves the closed loop. When the control
  thread wakes up in between, the controller overwrites the torque, and the command completes
  with the controller's last torque in effect.
\<close>

lemma el_const_trq_race:
  fixes s :: sys and t :: s8
  defines "r \<equiv> upd_mde (mde_set_trq_el t) s"
  assumes "cpc s = CtrlTop" and "pend s HttpClient = []" and "bucket_ok (bucket s)"
    and "\<not> failsafe_tripped (imu s)" and "\<not> az_flag_calibrate (ctl s)"
  shows "\<exists>s'. sys_run slave bus atan ub s
      ([EIssue HttpClient (CmdElTrq t), EAssign HttpClient] @ replicate 6 ECtrl @ [EAssign HttpClient]) = Some s' \<and>
    pend s' HttpClient = [] \<and> el_state (ctl s') = MOTOR_STATE_CONST_TORQUE \<and>
    motor_el (mde s') = motor_el (mde (ctrl_motors ub (cloc s) r))"
proof -
  define p where "p = (pend s)(HttpClient := [ElState MOTOR_STATE_CONST_TORQUE])"
  define s1 where "s1 = r\<lparr>pend := p\<rparr>"
  have 1: "sys_run slave bus atan ub s [EIssue HttpClient (CmdElTrq t), EAssign HttpClient] = Some s1"
    using assms by (simp add: s1_def p_def ctrl_sleeping_def)
  have f: "ctrl_failsafe s1 = s1" using assms by (simp add: ctrl_failsafe_def s1_def)
  have nc: "\<not> cal_needs_start s1" using assms by (simp add: cal_needs_start_def s1_def)
  have hd: "ctrl_head (cloc s1) s1 = (cloc s1, s1)"
    using assms by (simp add: ctrl_head_def f nc ctrl_cal_watch_def Let_def) (simp add: s1_def)
  obtain l b where it: "ctrl_iteration ub (cloc s1) s1 =
      Some (l, ctrl_stamp ((ctrl_motors ub (cloc s1) s1)\<lparr>bucket := b\<rparr>))"
    using ctrl_iteration_total [of s1 ub "cloc s1"] assms(4) hd by (auto simp: s1_def r_def)
  define s2 where "s2 = (ctrl_stamp ((ctrl_motors ub (cloc s1) s1)\<lparr>bucket := b\<rparr>))\<lparr>cpc := CtrlTop, cloc := l\<rparr>"
  have 2: "sys_run slave bus atan ub s1 (replicate 6 ECtrl) = Some s2"
    using ctrl_round_steps [of s1 slave bus atan ub] nc f it assms(2)
    by (simp only: s2_def) (simp add: s1_def r_def)
  have m: "ctrl_motors ub (cloc s1) s1 = (ctrl_motors ub (cloc s) r)\<lparr>pend := p\<rparr>"
    by (simp add: ctrl_motors_def s1_def ctrl_blocks_pend case_prod_beta) (simp add: r_def)
  have 3: "sys_run slave bus atan ub s2 [EAssign HttpClient] =
      Some (upd_ctl (\<lambda>c. c\<lparr>el_state := MOTOR_STATE_CONST_TORQUE\<rparr>) (s2\<lparr>pend := p(HttpClient := [])\<rparr>))"
    by (simp add: s2_def m p_def ctrl_sleeping_def ctrl_stamp_def)
  show ?thesis
    unfolding run_calls_append 1 2 bind.bind_lunit 3
    by (simp add: s2_def m ctrl_stamp_def)
qed

text \<open>
  A stop command during the calibration's sleep: when the thread wakes up it does not look at
  the flag again, and the azimuth motor runs at constant speed with the calibration cleared.
\<close>

lemma cal_sleep_race:
  assumes "cpc s = CtrlCalSleep" and "pend s HttpClient = []"
  shows "\<exists>s'. sys_run slave bus atan ub s
      ([EIssue HttpClient (CmdAzTrq 0)] @ replicate 3 (EAssign HttpClient) @ [ECtrl, ECtrl]) = Some s' \<and>
    pend s' HttpClient = [] \<and> az_state (ctl s') = MOTOR_STATE_CONST_SPEED \<and>
    \<not> az_flag_calibrate (ctl s') \<and>
    motor_az (mde s') = az_speed_torque 5400 (mde_get_az_enc_spd (mde s))"
  using assms
  by (simp add: numeral_3_eq_3 ctrl_sleeping_def ctrl_step_def ctrl_cal_resume_def ctrl_az_def
      ctrl_az_speed_def mde_accessors)

end
