(* ===== verification/Api.thy ===== *)
theory Api
  imports System
begin

text \<open>
  \<open>api.c\<close>, the rotator server: a TCP connection over which a tracking program reads and
  sets the antenna's position with one-letter commands. The connection is a parameter: the
  list of the network buffers \<open>netconn_recv\<close> delivers before it reports an error, each a list
  of segments with the system time at which the segment is handled. \<open>ac_out\<close> collects the
  strings passed to \<open>netconn_write\<close>.
\<close>

section \<open>Parsing a position command\<close>

text \<open>\<open>while(i<l && msg[i] is not a separator) i++;\<close>\<close>

function skip_to :: "(char \<Rightarrow> bool) \<Rightarrow> char list \<Rightarrow> u8 \<Rightarrow> u8 \<Rightarrow> u8 option" where
  "skip_to sep msg l i =
     (if i < l then do { c \<leftarrow> peek msg (unat i); if sep c then Some i else skip_to sep msg l (i + 1) }
      else Some i)"
  by pat_completeness auto
termination
proof (relation "measure (\<lambda>(sep, msg, l, i). unat l - unat i)")
  fix sep :: "char \<Rightarrow> bool" and msg :: "char list" and l i :: u8 and c
  assume "i < l"
  then have "unat i < unat l" "unat (i + 1) = Suc (unat i)"
    by (simp_all add: word_less_nat_alt unat_inc)
  then show "((sep, msg, l, i + 1), sep, msg, l, i) \<in> measure (\<lambda>(sep, msg, l, i). unat l - unat i)"
    by simp
qed simp

declare skip_to.simps [simp del]

definition is_point :: "char \<Rightarrow> bool" where
  "is_point c \<longleftrightarrow> c = CHR ''.'' \<or> c = CHR '',''"

text \<open>\<open>atoi(whole) + atoi(hundredths)/100.0\<close>, stored in a \<open>float\<close>.\<close>

definition api_number :: "int \<Rightarrow> int \<Rightarrow> fp" where
  "api_number whole hundredths =
     fp_cvt Binary32 (fp_add Binary64 (fp_of_int Binary64 whole)
       (fp_div Binary64 (fp_of_int Binary64 hundredths) (fp_of_int Binary64 100)))"

definition extract_numbers :: "char list \<Rightarrow> (bool \<times> fp \<times> fp) option" where
  "extract_numbers msg =
     do { n \<leftarrow> strlen msg;
          let l = (word_of_int (int n) :: u8);
          i \<leftarrow> skip_to is_point msg l 2;
          msg \<leftarrow> poke msg (unat i) (CHR ''_'');
          let i = i + 1; let n2 = unat i;
          i \<leftarrow> skip_to (\<lambda>c. c = CHR '' '') msg l i;
          msg \<leftarrow> poke msg (unat i) (CHR ''_'');
          let i = i + 1; let n3 = unat i;
          i \<leftarrow> skip_to is_point msg l i;
          msg \<leftarrow> poke msg (unat i) (CHR ''_'');
          let i = i + 1; let n4 = unat i;
          a1 \<leftarrow> atoi (drop 2 msg); a2 \<leftarrow> atoi (drop n2 msg);
          a3 \<leftarrow> atoi (drop n3 msg); a4 \<leftarrow> atoi (drop n4 msg);
          Some (i \<noteq> l, api_number a1 a2, api_number a3 a4) }"

section \<open>Serving a connection\<close>

record api_conn =
  last_az :: fp
  last_el :: fp
  last_cmd :: systime
  ac_out :: "string list"

record api_state =
  connected :: bool
  led_connected :: bool

definition LIT182 :: fp where "LIT182 = fp_lit Binary64 (182044 / 1000)"

definition deg_to_counts :: "fp \<Rightarrow> fp" where
  "deg_to_counts x = fp_mul Binary64 (fp_cvt Binary64 x) LIT182"

definition api_buf :: "char list \<Rightarrow> char list" where
  "api_buf data = take 128 data @ replicate (128 - length data) NUL"

definition api_get_position ::
  "ub_conv \<Rightarrow> char list \<Rightarrow> api_conn \<times> 'a robot_scheme \<Rightarrow> (api_conn \<times> 'a robot_scheme) option" where
  "api_get_position ub buf cr =
     (let (conn, r) = cr;
          az = counts_to_deg (uint (mde_get_az_enc_pos (mde r)) + uint (mde_get_az_enc_off (mde r)));
          el = counts_to_deg (sint (imu_get_el_pos (imu r)));
          el = (if fp_lt el (Zero False) then Zero False else el)
      in do { (_, buf) \<leftarrow> chsnprintf ub buf 128 (''%.2f'' @ [LF] @ ''%.2f'' @ [LF]) [VDbl az, VDbl el];
              _ \<leftarrow> strlen buf;
              Some (conn\<lparr>ac_out := ac_out conn @ [cstr buf]\<rparr>, r) })"

definition api_speed :: "ub_conv \<Rightarrow> fp \<Rightarrow> fp \<Rightarrow> u32 \<Rightarrow> s16" where
  "api_speed ub x prev ms =
     fp_to_s16 ub (fp_div Binary64 (deg_to_counts (fp_sub Binary32 x prev)) (ms_to_s ms))"

definition api_set_position ::
  "ub_conv \<Rightarrow> char list \<Rightarrow> api_conn \<times> 'a robot_scheme \<Rightarrow> (api_conn \<times> 'a robot_scheme) option" where
  "api_set_position ub buf cr =
     (let (conn, r) = cr in
      do { (ok, az, el) \<leftarrow> extract_numbers buf;
           if \<not> ok then Some (conn\<lparr>ac_out := ac_out conn @ [''RPRT 1'' @ [LF]]\<rparr>, r)
           else let r = az_set_tgt_pos (fp_to_u16 ub (deg_to_counts az)) r;
                    r = el_set_tgt_pos (fp_to_s16 ub (deg_to_counts el)) r;
                    ms = TIME_I2MS (now r - last_cmd conn);
                    r = (if uint ms < 3000
                         then let az_spd = api_speed ub az (last_az conn) ms;
                                  el_spd = api_speed ub el (last_el conn) ms
                              in if \<bar>sint az_spd\<bar> < 5 * 182 \<and> \<bar>sint el_spd\<bar> < 5 * 182
                                 then el_set_tgt_pos_spd 0 (az_set_tgt_pos_spd 0 r) else r
                         else r)
                in Some (conn\<lparr>last_az := az, last_el := el, last_cmd := now r,
                             ac_out := ac_out conn @ [''RPRT 0'' @ [LF]]\<rparr>, r) })"

definition api_stop :: "api_conn \<times> 'a robot_scheme \<Rightarrow> api_conn \<times> 'a robot_scheme" where
  "api_stop cr =
     (let (conn, r) = cr;
          r = az_set_tgt_pos (mde_get_az_enc_pos (mde r)) r;
          r = el_set_tgt_pos (imu_get_el_pos (imu r)) r;
          r = az_set_tgt_pos_spd 0 r;
          r = el_set_tgt_pos_spd 0 r
      in (conn\<lparr>ac_out := ac_out conn @ [''S'' @ [LF]]\<rparr>, r))"

text \<open>One segment: whether the command was to quit, and the new state.\<close>

definition api_segment ::
  "ub_conv \<Rightarrow> char list \<Rightarrow> api_conn \<times> 'a robot_scheme \<Rightarrow> (bool \<times> api_conn \<times> 'a robot_scheme) option" where
  "api_segment ub data cr =
     (case data of
        [] \<Rightarrow> Some (False, cr)
      | c # _ \<Rightarrow>
          if c = CHR ''p'' then map_option (Pair False) (api_get_position ub (api_buf data) cr)
          else if c = CHR ''P'' then map_option (Pair False) (api_set_position ub (api_buf data) cr)
          else if c = CHR ''S'' then Some (False, api_stop cr)
          else if c = CHR ''q'' then Some (True, cr)
          else Some (False, cr))"

type_synonym segment = "systime \<times> char list"

fun api_segments ::
  "ub_conv \<Rightarrow> segment list \<Rightarrow> api_conn \<times> 'a robot_scheme \<Rightarrow> (api_conn \<times> 'a robot_scheme) option" where
  "api_segments ub [] cr = Some cr"
| "api_segments ub ((t, data) # segs) cr =
     do { (quit_conn, conn, r) \<leftarrow> api_segment ub data (fst cr, (snd cr)\<lparr>now := t\<rparr>);
          if quit_conn then Some (conn, r) else api_segments ub segs (conn, r) }"

fun api_netbufs ::
  "ub_conv \<Rightarrow> segment list list \<Rightarrow> api_conn \<times> 'a robot_scheme \<Rightarrow> (api_conn \<times> 'a robot_scheme) option" where
  "api_netbufs ub [] cr = Some cr"
| "api_netbufs ub (b # bs) cr = do { cr \<leftarrow> api_segments ub b cr; api_netbufs ub bs cr }"

definition api_server_serve ::
  "ub_conv \<Rightarrow> fp \<times> fp \<Rightarrow> segment list list \<Rightarrow> api_state \<times> 'a robot_scheme \<Rightarrow>
     (string list \<times> api_state \<times> 'a robot_scheme) option" where
  "api_server_serve ub last0 bufs ar =
     (let (a, r) = ar;
          conn = \<lparr>last_az = fst last0, last_el = snd last0, last_cmd = now r, ac_out = []\<rparr>;
          a = a\<lparr>led_connected := True\<rparr>;
          a = a\<lparr>connected := True\<rparr>
      in do { (conn, r) \<leftarrow> api_netbufs ub bufs (conn, r);
              let a = a\<lparr>led_connected := False\<rparr>;
              Some (ac_out conn, a\<lparr>connected := False\<rparr>, r) })"

definition api_is_connected :: "api_state \<Rightarrow> bool" where
  "api_is_connected a = connected a"

section \<open>A well-formed position command\<close>

lemma skip_to_found:
  assumes "msg = pre @ mid @ c # rest" and "list_all (\<lambda>d. \<not> sep d) mid" and "sep c"
    and "length pre + length mid < unat l" and "unat i = length pre"
  shows "\<exists>j. skip_to sep msg l i = Some j \<and> unat j = length pre + length mid"
  using assms
proof (induction mid arbitrary: pre i)
  case Nil
  then have "i < l" "peek msg (unat i) = Some c" by (simp_all add: word_less_nat_alt peek_def)
  then have "skip_to sep msg l i = Some i" using Nil.prems(3) by (simp add: skip_to.simps [of sep msg l i])
  then show ?case using Nil.prems by simp
next
  case (Cons d mid)
  then have i: "i < l" by (simp add: word_less_nat_alt)
  have p: "peek msg (unat i) = Some d" using Cons.prems by (simp add: peek_def)
  have "\<exists>j. skip_to sep msg l (i + 1) = Some j \<and> unat j = length (pre @ [d]) + length mid"
    using Cons.prems unat_inc [OF i] by (intro Cons.IH) simp_all
  then show ?case using Cons.prems(2) i p by (simp add: skip_to.simps [of sep msg l i])
qed

lemma skip_to_end: "\<not> i < l \<Longrightarrow> skip_to sep msg l i = Some i"
  by (simp add: skip_to.simps)

lemma poke_append: "poke (pre @ c # rest) (length pre) d = Some (pre @ d # rest)"
  by (simp add: poke_def)

text \<open>
  The text of a position command: two numbers with two digits after the decimal point or
  comma, followed by a tail that does not begin with a digit (a line end, say).
\<close>

record pos_fields =
  p_az :: string
  p_az_dot :: char
  p_az_frac :: string
  p_el :: string
  p_el_dot :: char
  p_el_frac :: string
  p_tail :: string

definition pos_text :: "pos_fields \<Rightarrow> string" where
  "pos_text p = ''P '' @ p_az p @ p_az_dot p # p_az_frac p @ '' '' @ p_el p @ p_el_dot p # p_el_frac p @ p_tail p"

definition number_field :: "string \<Rightarrow> bool" where
  "number_field ds \<longleftrightarrow> list_all is_digit ds \<and> ds \<noteq> [] \<and> length ds \<le> 9"

definition pos_ok :: "pos_fields \<Rightarrow> bool" where
  "pos_ok p \<longleftrightarrow>
     number_field (p_az p) \<and> number_field (p_az_frac p) \<and> number_field (p_el p) \<and> number_field (p_el_frac p) \<and>
     is_point (p_az_dot p) \<and> is_point (p_el_dot p) \<and> NUL \<notin> set (p_tail p) \<and>
     (p_tail p = [] \<or> \<not> is_digit (hd (p_tail p))) \<and> length (pos_text p) \<le> 127"

lemma digit_classes: "is_digit c \<Longrightarrow> \<not> is_point c \<and> c \<noteq> CHR '' '' \<and> c \<noteq> NUL"
  by (auto simp: is_digit_def is_point_def less_eq_char_def)

lemma number_field_classes:
  assumes "number_field ds"
  shows "list_all (\<lambda>c. \<not> is_point c) ds" "list_all (\<lambda>c. c \<noteq> CHR '' '') ds" "NUL \<notin> set ds"
  using assms digit_classes by (auto simp: number_field_def list_all_iff)

lemma underscore_not_digit [simp]: "\<not> is_digit (CHR ''_'')"
  by (simp add: is_digit_def less_eq_char_def)

lemma atoi_number_field: "number_field ds \<Longrightarrow> \<not> is_digit c \<Longrightarrow> atoi (ds @ c # r) = Some (dec_val ds)"
  by (rule atoi_number) (auto simp: number_field_def)

lemma unat_add_one: "unat (i :: u8) < 255 \<Longrightarrow> unat (i + 1) = Suc (unat i)"
  by (simp add: unat_word_ariths(1))

lemma extract_numbers_ok:
  assumes ok: "pos_ok p"
  shows "extract_numbers (api_buf (pos_text p)) =
    Some (True, api_number (dec_val (p_az p)) (dec_val (p_az_frac p)), api_number (dec_val (p_el p)) (dec_val (p_el_frac p)))"
proof -
  define a b c d where "a = p_az p" and "b = p_az_frac p" and "c = p_el p" and "d = p_el_frac p"
  note f = a_def b_def c_def d_def
  define t where "t = p_tail p @ replicate (128 - length (pos_text p)) NUL"
  have fields: "number_field a" "number_field b" "number_field c" "number_field d"
    and pts: "is_point (p_az_dot p)" "is_point (p_el_dot p)" and len: "length (pos_text p) \<le> 127"
    and nt: "NUL \<notin> set (p_tail p)"
    using ok by (simp_all add: pos_ok_def f)
  have np: "p_az_dot p \<noteq> NUL" "p_el_dot p \<noteq> NUL" using pts by (auto simp: is_point_def)
  have nuls: "replicate (128 - length (pos_text p)) NUL = NUL # replicate (127 - length (pos_text p)) NUL"
    using len by (simp add: Suc_diff_le flip: replicate_Suc)
  have t: "\<exists>x r. t = x # r \<and> \<not> is_digit x"
  proof (cases "p_tail p")
    case Nil
    then have "t = NUL # replicate (127 - length (pos_text p)) NUL"
      by (simp add: t_def nuls)
    then show ?thesis by simp
  next
    case (Cons x r)
    then show ?thesis using ok by (simp add: pos_ok_def t_def)
  qed
  let ?la = "length a" and ?lb = "length b" and ?lc = "length c" and ?ld = "length d"
  have pos: "0 < ?la" "0 < ?lb" "0 < ?lc" "0 < ?ld" using fields by (auto simp: number_field_def)
  define m0 where "m0 = ''P '' @ a @ p_az_dot p # b @ CHR '' '' # c @ p_el_dot p # d @ t"
  have m0: "api_buf (pos_text p) = m0"
    using len by (simp add: api_buf_def m0_def t_def f pos_text_def)
  have ltx: "length (pos_text p) = 5 + ?la + ?lb + ?lc + ?ld + length (p_tail p)" by (simp add: pos_text_def f)
  have "m0 = pos_text p @ NUL # replicate (127 - length (pos_text p)) NUL"
    using len m0 by (simp add: api_buf_def nuls)
  moreover have "NUL \<notin> set (pos_text p)"
    using number_field_classes(3) fields nt np by (auto simp: pos_text_def f)
  ultimately have sl: "strlen m0 = Some (length (pos_text p))"
    by (simp add: strlen_iff)
  define l :: u8 where "l = word_of_int (int (length (pos_text p)))"
  have l: "unat l = length (pos_text p)" using len by (simp add: l_def unat_of_nat)
  have wl: "word_of_nat (length (pos_text p)) = l" by (simp add: l_def)
  obtain i1 where i1: "skip_to is_point m0 l 2 = Some i1" "unat i1 = 2 + ?la"
    using skip_to_found [of m0 "''P ''" a "p_az_dot p" "b @ CHR '' '' # c @ p_el_dot p # d @ t" is_point l 2]
      number_field_classes(1) [OF fields(1)] pts l ltx by (auto simp: m0_def)
  define m1 where "m1 = ''P '' @ a @ CHR ''_'' # b @ CHR '' '' # c @ p_el_dot p # d @ t"
  have p1: "poke m0 (unat i1) (CHR ''_'') = Some m1"
    using poke_append [of "''P '' @ a" "p_az_dot p" "b @ CHR '' '' # c @ p_el_dot p # d @ t"] by (simp add: i1 m0_def m1_def)
  have j1: "unat (i1 + 1) = 3 + ?la" using i1(2) ltx len by (simp add: unat_add_one)
  obtain i2 where i2: "skip_to (\<lambda>x. x = CHR '' '') m1 l (i1 + 1) = Some i2" "unat i2 = 3 + ?la + ?lb"
    using skip_to_found [of m1 "''P '' @ a @ ''_''" b "CHR '' ''" "c @ p_el_dot p # d @ t" "\<lambda>x. x = CHR '' ''" l "i1 + 1"]
      number_field_classes(2) [OF fields(2)] l ltx j1 by (auto simp: m1_def)
  define m2 where "m2 = ''P '' @ a @ CHR ''_'' # b @ CHR ''_'' # c @ p_el_dot p # d @ t"
  have p2: "poke m1 (unat i2) (CHR ''_'') = Some m2"
    using poke_append [of "''P '' @ a @ CHR ''_'' # b" "CHR '' ''" "c @ p_el_dot p # d @ t"] by (simp add: i2 m1_def m2_def numeral_eq_Suc)
  have j2: "unat (i2 + 1) = 4 + ?la + ?lb" using i2(2) ltx len by (simp add: unat_add_one)
  obtain i3 where i3: "skip_to is_point m2 l (i2 + 1) = Some i3" "unat i3 = 4 + ?la + ?lb + ?lc"
    using skip_to_found [of m2 "''P '' @ a @ CHR ''_'' # b @ ''_''" c "p_el_dot p" "d @ t" is_point l "i2 + 1"]
      number_field_classes(1) [OF fields(3)] pts l ltx j2 pos by (auto simp: m2_def)
  define m3 where "m3 = ''P '' @ a @ CHR ''_'' # b @ CHR ''_'' # c @ CHR ''_'' # d @ t"
  have p3: "poke m2 (unat i3) (CHR ''_'') = Some m3"
    using poke_append [of "''P '' @ a @ CHR ''_'' # b @ CHR ''_'' # c" "p_el_dot p" "d @ t"] by (simp add: i3 m2_def m3_def numeral_eq_Suc add.assoc)
  have j3: "unat (i3 + 1) = 5 + ?la + ?lb + ?lc" using i3(2) ltx len by (simp add: unat_add_one)
  have ne: "i3 + 1 \<noteq> l" using j3 l ltx pos by (metis add_eq_self_zero add_gr_0 less_numeral_extra(3) add.assoc)
  have n: "atoi (drop 2 m3) = Some (dec_val a)" "atoi (drop (unat (i1 + 1)) m3) = Some (dec_val b)"
    "atoi (drop (unat (i2 + 1)) m3) = Some (dec_val c)" "atoi (drop (unat (i3 + 1)) m3) = Some (dec_val d)"
    using t fields by (auto simp: j1 j2 j3 m3_def atoi_number_field numeral_eq_Suc)
  show ?thesis
    unfolding m0 extract_numbers_def by (simp add: sl wl Let_def i1(1) p1 i2(1) p2 i3(1) p3 n ne f)
qed

section \<open>From degrees to counts\<close>

lemma lit182: "fp_val LIT182 = Some (6405103832539333 / 35184372088832)"
  by code_simp

text \<open>A number with two decimals, up to 360, is stored with an error below a 60000th.\<close>

lemma api_number_near:
  assumes "0 \<le> w" "w \<le> 360" "0 \<le> h" "h < 100"
  shows "fp_near (api_number w h) (of_int w + of_int h / 100) (1 / 60000)"
proof -
  have u: "ulp Binary64 0 = 1 / 2 ^ 54" "ulp Binary64 9 = 1 / 2 ^ 45" "ulp Binary32 9 = 1 / 2 ^ 16"
    by (simp_all add: ulp_def power_int_def field_simps)
  have r: "0 \<le> (of_int w :: rat)" "(of_int w :: rat) \<le> 360" "0 \<le> (of_int h :: rat)" "(of_int h :: rat) \<le> 99"
    using assms of_int_le_iff [of w 360, where 'a = rat] of_int_le_iff [of h 99, where 'a = rat] by simp_all
  have ex: "fp_near (fp_of_int Binary64 w) (of_int w) 0" "fp_near (fp_of_int Binary64 h) (of_int h) 0"
    using assms by (auto intro!: fp_near_exact fp_of_int_val)
  have c: "fp_val (fp_of_int Binary64 100) = Some 100" using fp_of_int_val [of 100 Binary64] by simp
  have 1: "fp_near (fp_div Binary64 (fp_of_int Binary64 h) (fp_of_int Binary64 100)) (of_int h / 100) (1 / 2 ^ 54)"
    using fp_near_div [OF ex(2) c, of 0 Binary64] r by (simp add: u)
  have 2: "fp_near (fp_add Binary64 (fp_of_int Binary64 w) (fp_div Binary64 (fp_of_int Binary64 h) (fp_of_int Binary64 100)))
      (of_int w + of_int h / 100) (2 / 2 ^ 45)"
    by (rule fp_near_mono [OF fp_near_add [OF ex(1) 1, where m = 9]]) (use r in \<open>simp_all add: u\<close>)
  show ?thesis
    unfolding api_number_def
    by (rule fp_near_mono [OF fp_near_cvt [OF 2, where m = 9]]) (use r in \<open>simp_all add: u\<close>)
qed

lemma deg_to_counts_near:
  assumes "fp_near x d (1 / 60000)" "0 \<le> d" "d \<le> 361"
  shows "fp_near (deg_to_counts x) (d * 182044 / 1000) (4 / 1000)"
proof -
  define b :: rat where "b = 6405103832539333 / 35184372088832"
  have u: "ulp Binary64 9 = 1 / 2 ^ 45" "ulp Binary64 17 = 1 / 2 ^ 37"
    by (simp_all add: ulp_def power_int_def field_simps)
  have 1: "fp_near (fp_cvt Binary64 x) d (1 / 59999)"
    by (rule fp_near_mono [OF fp_near_cvt [OF assms(1), where m = 9]]) (use assms in \<open>simp_all add: u\<close>)
  have 2: "fp_near (deg_to_counts x) (d * b) (39 / 10000)"
    unfolding deg_to_counts_def
    by (rule fp_near_mono [OF fp_near_mul [OF 1 lit182 [folded b_def], where m = 17]])
      (use assms in \<open>simp_all add: u b_def\<close>)
  have "\<bar>d * b - d * 182044 / 1000\<bar> \<le> 1 / 10000"
    using assms(2,3) by (simp add: b_def abs_le_iff)
  moreover obtain v where v: "fp_val (deg_to_counts x) = Some v" "\<bar>v - d * b\<bar> \<le> 39 / 10000"
    using 2 by (auto simp: fp_near_def)
  ultimately have "\<bar>v - d * 182044 / 1000\<bar> \<le> 4 / 1000" by linarith
  then show ?thesis using v(1) by (auto simp: fp_near_def)
qed

text \<open>Truncating a value known up to an error, when it fits the target type.\<close>

lemma fp_to_int_near:
  assumes "fp_near x d (4 / 1000)" "of_int lo + 1 \<le> d \<or> lo = 0 \<and> 0 \<le> d" "d < of_int hi + 99 / 100" "0 \<le> hi"
  shows "lo \<le> fp_to_int ub lo hi x" "fp_to_int ub lo hi x \<le> hi" "\<bar>of_int (fp_to_int ub lo hi x) - d\<bar> < (101 / 100 :: rat)"
proof -
  obtain v where v: "fp_val x = Some v" "\<bar>v - d\<bar> \<le> 4 / 1000" using assms(1) by (auto simp: fp_near_def)
  have e: "\<bar>of_int (trunc v) - d\<bar> < (101 / 100 :: rat)" using trunc_error [of v] v(2) by linarith
  have lo: "lo \<le> trunc v"
  proof (cases "of_int lo + 1 \<le> d")
    case True
    then have "(of_int lo :: rat) - 1 < of_int (trunc v)"
      using trunc_error [of v] v(2) by linarith
    then have "of_int (lo - 1) < (of_int (trunc v) :: rat)" by simp
    then show ?thesis by (simp only: of_int_less_iff) 
  next
    case False
    then have l: "lo = 0" "0 \<le> d" using assms(2) by auto
    show ?thesis
    proof (cases "0 \<le> v")
      case True
      then show ?thesis using l trunc_sign(1) by simp
    next
      case False
      then have "-1 < v" "v < 0" using v(2) l by linarith+
      then have "trunc v = 0" by (simp add: trunc_def ceiling_eq_iff)
      then show ?thesis using l by simp
    qed
  qed
  have "v < of_int hi + 1" using v(2) assms(3) by linarith
  then have "v < of_int (hi + 1)" by simp
  then have "trunc v \<le> hi"
  proof (cases "0 \<le> v")
    case True
    then have "trunc v = \<lfloor>v\<rfloor>" by (simp add: trunc_def)
    then show ?thesis using \<open>v < of_int (hi + 1)\<close> floor_less_iff [of v "hi + 1"] by linarith
  next
    case False
    then show ?thesis using trunc_sign(2) [of v] assms(4) by simp
  qed
  from fp_to_int_val [OF v(1) lo this] this lo e
  show "lo \<le> fp_to_int ub lo hi x" "fp_to_int ub lo hi x \<le> hi" "\<bar>of_int (fp_to_int ub lo hi x) - d\<bar> < (101 / 100 :: rat)"
    by simp_all
qed

section \<open>What the commands do\<close>

text \<open>Whatever a segment holds, its effect on the antenna is a sequence of commands a server may issue.\<close>

lemma api_segment_commands:
  assumes "api_segment ub data (conn, r) = Some (q, conn', r')"
  shows "\<exists>cmds. list_all (client_may ApiClient) cmds \<and> r' = fold do_command cmds r"
proof -
  have none: "\<exists>cmds. list_all (client_may ApiClient) cmds \<and> r = fold do_command cmds r"
    by (intro exI [of _ "[]"]) simp
  have stop: "snd (api_stop (conn, r)) = fold do_command
      [CmdAzPos (mde_get_az_enc_pos (mde r)), CmdElPos (imu_get_el_pos (imu r)), CmdAzPosSpd 0, CmdElPosSpd 0] r"
    by (simp add: api_stop_def ctrl_commands Let_def)
  have set: "\<exists>cmds. list_all (client_may ApiClient) cmds \<and> r' = fold do_command cmds r"
    if s: "api_set_position ub buf (conn, r) = Some (conn', r')" for buf
  proof -
    obtain ok az el where e: "extract_numbers buf = Some (ok, az, el)"
      using s by (auto simp: api_set_position_def split: Option.bind_splits)
    define c where "c = [CmdAzPos (fp_to_u16 ub (deg_to_counts az)), CmdElPos (fp_to_s16 ub (deg_to_counts el))]"
    have "r' = r \<or> r' = fold do_command c r \<or> r' = fold do_command (c @ [CmdAzPosSpd 0, CmdElPosSpd 0]) r"
      using s by (auto simp: api_set_position_def e c_def Let_def split: if_splits)
    moreover have "list_all (client_may ApiClient) c" by (simp add: c_def)
    ultimately show ?thesis
    proof (elim disjE)
      assume "r' = fold do_command (c @ [CmdAzPosSpd 0, CmdElPosSpd 0]) r" "list_all (client_may ApiClient) c"
      then show ?thesis by (intro exI [of _ "c @ [CmdAzPosSpd 0, CmdElPosSpd 0]"]) simp
    qed (use none in auto)
  qed
  have get: "r' = r" if "api_get_position ub buf (conn, r) = Some (conn', r')" for buf
    using that by (auto simp: api_get_position_def Let_def split: Option.bind_splits)
  show ?thesis
  proof (cases data)
    case Nil
    then show ?thesis using assms none by (simp add: api_segment_def)
  next
    case (Cons c cs)
    then consider "api_get_position ub (api_buf data) (conn, r) = Some (conn', r')"
      | "api_set_position ub (api_buf data) (conn, r) = Some (conn', r')" | "r' = snd (api_stop (conn, r))" | "r' = r"
      using assms by (auto simp: api_segment_def split: if_splits)
    then show ?thesis
    proof cases
      case 3
      then show ?thesis unfolding stop
        by (intro exI [of _ "[CmdAzPos (mde_get_az_enc_pos (mde r)), CmdElPos (imu_get_el_pos (imu r)), CmdAzPosSpd 0, CmdElPosSpd 0]"]) simp
    qed (use none get set in auto)
  qed
qed

lemma number_field_value:
  assumes "number_field ds"
  shows "0 \<le> dec_val ds" "length ds = 2 \<Longrightarrow> dec_val ds < 100"
  using assms dec_val_bounds [of ds] by (auto simp: number_field_def)

text \<open>A position command with two-digit fractions, at most 359.99 and 179.99 degrees.\<close>

lemma set_position_effect:
  assumes ok: "pos_ok p" and two: "length (p_az_frac p) = 2" "length (p_el_frac p) = 2"
    and rng: "dec_val (p_az p) < 360" "dec_val (p_el p) < 180"
  shows "\<exists>conn' r'. api_segment ub (pos_text p) (conn, r) = Some (False, conn', r') \<and>
    ac_out conn' = ac_out conn @ [''RPRT 0'' @ [LF]] \<and>
    az_state (ctl r') = MOTOR_STATE_TARGET_POSITION \<and> el_state (ctl r') = MOTOR_STATE_TARGET_POSITION \<and>
    \<not> az_flag_calibrate (ctl r') \<and>
    \<bar>of_int (uint (az_tgt_pos (ctl r'))) - (of_int (dec_val (p_az p)) + of_int (dec_val (p_az_frac p)) / 100) * 182044 / 1000\<bar> < (101 / 100 :: rat) \<and>
    \<bar>of_int (sint (el_tgt_pos (ctl r'))) - (of_int (dec_val (p_el p)) + of_int (dec_val (p_el_frac p)) / 100) * 182044 / 1000\<bar> < (101 / 100 :: rat)"
proof -
  define az where "az = api_number (dec_val (p_az p)) (dec_val (p_az_frac p))"
  define el where "el = api_number (dec_val (p_el p)) (dec_val (p_el_frac p))"
  have e: "extract_numbers (api_buf (pos_text p)) = Some (True, az, el)"
    using extract_numbers_ok [OF ok] by (simp add: az_def el_def)
  have b: "0 \<le> dec_val (p_az p)" "0 \<le> dec_val (p_el p)" "0 \<le> dec_val (p_az_frac p)" "0 \<le> dec_val (p_el_frac p)"
    "dec_val (p_az_frac p) < 100" "dec_val (p_el_frac p) < 100"
    using ok two number_field_value by (simp_all add: pos_ok_def)
  define A where "A = (of_int (dec_val (p_az p)) + of_int (dec_val (p_az_frac p)) / 100 :: rat)"
  define E where "E = (of_int (dec_val (p_el p)) + of_int (dec_val (p_el_frac p)) / 100 :: rat)"
  have AE: "0 \<le> A" "A \<le> 35999 / 100" "0 \<le> E" "E \<le> 17999 / 100"
    using b rng of_int_le_iff [of "dec_val (p_az p)" 359, where 'a = rat] of_int_le_iff [of "dec_val (p_el p)" 179, where 'a = rat]
      of_int_le_iff [of "dec_val (p_az_frac p)" 99, where 'a = rat] of_int_le_iff [of "dec_val (p_el_frac p)" 99, where 'a = rat]
    by (simp_all add: A_def E_def)
  have na: "fp_near (deg_to_counts az) (A * 182044 / 1000) (4 / 1000)"
    using b rng AE unfolding az_def A_def by (intro deg_to_counts_near api_number_near) auto
  have ne: "fp_near (deg_to_counts el) (E * 182044 / 1000) (4 / 1000)"
    using b rng AE unfolding el_def E_def by (intro deg_to_counts_near api_number_near) auto
  define i where "i = fp_to_int ub 0 65535 (deg_to_counts az)"
  have i: "0 \<le> i" "i \<le> 65535" "\<bar>of_int i - A * 182044 / 1000\<bar> < 101 / 100"
    unfolding i_def using AE by (intro fp_to_int_near [OF na, of 0 65535 ub]; simp)+
  define j where "j = fp_to_int ub (-32768) 32767 (deg_to_counts el)"
  have j: "-32768 \<le> j" "j \<le> 32767" "\<bar>of_int j - E * 182044 / 1000\<bar> < 101 / 100"
    unfolding j_def using AE by (intro fp_to_int_near [OF ne, of "-32768" 32767 ub]; simp)+
  have w: "uint (word_of_int i :: u16) = i" "sint (word_of_int j :: s16) = j"
    using i j by (simp_all add: wrap_simps)
  obtain cs where P: "pos_text p = CHR ''P'' # cs" by (simp add: pos_text_def)
  have seg: "api_segment ub (pos_text p) (conn, r) =
      map_option (Pair False) (api_set_position ub (api_buf (pos_text p)) (conn, r))"
    by (simp add: api_segment_def P)
  define r1 where "r1 = el_set_tgt_pos (word_of_int j) (az_set_tgt_pos (word_of_int i) r)"
  obtain conn' r' where s: "api_set_position ub (api_buf (pos_text p)) (conn, r) = Some (conn', r')"
    "ac_out conn' = ac_out conn @ [''RPRT 0'' @ [LF]]" "r' = r1 \<or> r' = el_set_tgt_pos_spd 0 (az_set_tgt_pos_spd 0 r1)"
    by (auto simp: api_set_position_def e Let_def i_def [symmetric] j_def [symmetric] r1_def)
  from s(3) have st: "az_state (ctl r') = MOTOR_STATE_TARGET_POSITION" "el_state (ctl r') = MOTOR_STATE_TARGET_POSITION"
    "\<not> az_flag_calibrate (ctl r')" "az_tgt_pos (ctl r') = word_of_int i" "el_tgt_pos (ctl r') = word_of_int j"
    by (auto simp: r1_def ctrl_commands)
  have "\<bar>of_int (uint (az_tgt_pos (ctl r'))) - A * 182044 / 1000\<bar> < (101 / 100 :: rat)"
    "\<bar>of_int (sint (el_tgt_pos (ctl r'))) - E * 182044 / 1000\<bar> < (101 / 100 :: rat)"
    using i(3) j(3) by (simp_all only: st w)
  then show ?thesis using s(1,2) st(1-3) unfolding A_def E_def by (intro exI [of _ conn'] exI [of _ r']) (simp only: seg, simp)
qed

text \<open>
  The stop command takes the encoder's position as the target, while the controller compares
  the target with the position plus the offset: it drives the antenna by the offset.
\<close>

lemma stop_distance:
  assumes "api_stop (conn, r) = (conn', r')"
  shows "az_target ub r' - (mde_get_az_enc_pos (mde r') + mde_get_az_enc_off (mde r')) = - mde_get_az_enc_off (mde r)"
    "el_target ub r' - (imu_get_el_pos (imu r') + imu_get_el_off (imu r')) = - imu_get_el_off (imu r)"
proof -
  have "az_tgt_pos_spd (ctl r') = 0" "el_tgt_pos_spd (ctl r') = 0" "mde r' = mde r" "imu r' = imu r"
    "az_tgt_pos (ctl r') = mde_get_az_enc_pos (mde r)" "el_tgt_pos (ctl r') = imu_get_el_pos (imu r)"
    using assms by (auto simp: api_stop_def ctrl_commands Let_def)
  then show "az_target ub r' - (mde_get_az_enc_pos (mde r') + mde_get_az_enc_off (mde r')) = - mde_get_az_enc_off (mde r)"
    "el_target ub r' - (imu_get_el_pos (imu r') + imu_get_el_off (imu r')) = - imu_get_el_off (imu r)"
    by (simp_all add: az_target_still el_target_still)
qed

text \<open>The position report fits its buffer.\<close>

lemma get_position_total:
  assumes "length buf = 128"
  shows "\<exists>conn' s. api_get_position ub buf (conn, r) = Some (conn', r) \<and> ac_out conn' = ac_out conn @ [s] \<and> length s \<le> 30"
proof -
  have em: "emits ub ((''%.2f'' @ [LF] @ ''%.2f'' @ [LF]) @ [NUL]) [VDbl x, VDbl y] (14 + Suc (14 + Suc 0))" for x y
    unfolding append.simps
    by (rule emits_rules emits_lit emits_end | simp only: char.inject simp_thms)+
  define az where "az = counts_to_deg (uint (mde_get_az_enc_pos (mde r)) + uint (mde_get_az_enc_off (mde r)))"
  define el0 where "el0 = counts_to_deg (sint (imu_get_el_pos (imu r)))"
  define el where "el = (if fp_lt el0 (Zero False) then Zero False else el0)"
  have "(0 :: u32) < 128" "unat (128 :: u32) \<le> length buf" using assms by simp_all
  from emits_chsnprintf [OF em [of az el] this]
  obtain out str' where c: "chsnprintf ub buf 128 (''%.2f'' @ [LF] @ ''%.2f'' @ [LF]) [VDbl az, VDbl el] =
      Some (word_of_int (int (length out)), str')" "length out \<le> 30" "terminated str'" "cstr str' = take (unat (128 :: u32) - 1) out"
    by auto
  have "length (cstr str') \<le> 30" using c(2,4) by simp
  then show ?thesis
    unfolding api_get_position_def Let_def prod.case az_def [symmetric] el0_def [symmetric] el_def [symmetric] c(1)
    by (simp add: strlen_terminated [OF c(3)])
qed

text \<open>A number without a decimal point is taken for the azimuth, and the elevation becomes zero.\<close>

lemma skip_to_all:
  assumes "msg = pre @ mid @ rest" and "list_all (\<lambda>d. \<not> sep d) mid"
    and "length pre + length mid = unat l" and "unat i = length pre"
  shows "skip_to sep msg l i = Some l"
  using assms
proof (induction mid arbitrary: pre i)
  case Nil
  then have "i = l" by (simp add: word_unat_eq_iff)
  then show ?case by (simp add: skip_to_end)
next
  case (Cons d mid)
  then have i: "i < l" by (simp add: word_less_nat_alt)
  have p: "peek msg (unat i) = Some d" using Cons.prems by (simp add: peek_def)
  have "skip_to sep msg l (i + 1) = Some l"
    using Cons.prems unat_inc [OF i] by (intro Cons.IH [of "pre @ [d]"]) simp_all
  then show ?case using Cons.prems(2) i p by (simp add: skip_to.simps [of sep msg l i])
qed

lemma atoi_other: "\<not> is_digit c \<Longrightarrow> \<not> is_space c \<Longrightarrow> c \<noteq> CHR ''-'' \<Longrightarrow> c \<noteq> CHR ''+'' \<Longrightarrow> atoi (c # r) = Some 0"
  by (simp add: atoi_def clamp32_def)

lemma extract_numbers_integers:
  assumes a: "number_field a" and t: "list_all (\<lambda>c. \<not> is_point c \<and> c \<noteq> NUL) t" and len: "length a + length t \<le> 120"
  shows "extract_numbers (api_buf (''P '' @ a @ CHR '' '' # t)) = Some (True, api_number (dec_val a) 0, api_number 0 0)"
proof -
  define s where "s = ''P '' @ a @ CHR '' '' # t"
  define n where "n = length s"
  have n: "n = 3 + length a + length t" "n \<le> 123" using len by (simp_all add: n_def s_def)
  define z where "z = replicate (125 - n) NUL"
  have r: "replicate (128 - n) NUL = NUL # NUL # NUL # z"
    using n(2) by (simp add: z_def Suc_diff_le numeral_eq_Suc flip: replicate_Suc)
  have z: "\<exists>y. z = NUL # y" using n(2) by (simp add: z_def Suc_diff_le numeral_eq_Suc)
  have m: "api_buf s = s @ NUL # NUL # NUL # z" using n(2) r by (simp add: api_buf_def n_def)
  have nz: "NUL \<notin> set s" using number_field_classes(3) [OF a] t by (auto simp: s_def list_all_iff)
  have np: "list_all (\<lambda>c. \<not> is_point c) (a @ CHR '' '' # t)"
    using number_field_classes(1) [OF a] t by (auto simp: list_all_iff is_point_def)
  define l :: u8 where "l = word_of_int (int n)"
  have l: "unat l = n" "unat (l + 1) = n + 1" "unat (l + 1 + 1) = n + 2" "unat (l + 1 + 1 + 1) = n + 3"
    using n(2) by (simp_all add: l_def unat_of_nat unat_word_ariths(1))
  have wl: "word_of_nat n = l" by (simp add: l_def)
  have sl: "strlen (api_buf s) = Some n" using nz by (simp add: m strlen_iff n_def)
  have s1: "skip_to is_point (api_buf s) l 2 = Some l"
  proof -
    have "s @ NUL # NUL # NUL # z = ''P '' @ (a @ CHR '' '' # t) @ NUL # NUL # NUL # z" by (simp add: s_def)
    from skip_to_all [OF this np, of l 2] show ?thesis using l(1) n(1) by (simp add: m)
  qed
  have ge: "\<not> l + 1 < l" "\<not> l + 1 + 1 < l" using l by (simp_all only: word_less_nat_alt)
  have ps: "poke (s @ NUL # NUL # NUL # z) n (CHR ''_'') = Some (s @ CHR ''_'' # NUL # NUL # z)"
    "poke (s @ CHR ''_'' # NUL # NUL # z) (n + 1) (CHR ''_'') = Some (s @ CHR ''_'' # CHR ''_'' # NUL # z)"
    "poke (s @ CHR ''_'' # CHR ''_'' # NUL # z) (n + 2) (CHR ''_'') = Some (s @ CHR ''_'' # CHR ''_'' # CHR ''_'' # z)"
    using poke_append [of s NUL "NUL # NUL # z"] poke_append [of "s @ ''_''" NUL "NUL # z"] poke_append [of "s @ ''__''" NUL z]
    by (simp_all add: n_def)
  have us: "atoi (CHR ''_'' # r) = Some 0" "atoi (NUL # r) = Some 0" for r
    by (rule atoi_other; simp add: is_space_def less_eq_char_def)+
  have at: "atoi (drop 2 (s @ CHR ''_'' # CHR ''_'' # CHR ''_'' # z)) = Some (dec_val a)"
    "atoi (drop (n + 1) (s @ CHR ''_'' # CHR ''_'' # CHR ''_'' # z)) = Some 0"
    "atoi (drop (n + 2) (s @ CHR ''_'' # CHR ''_'' # CHR ''_'' # z)) = Some 0"
    "atoi (drop (n + 3) (s @ CHR ''_'' # CHR ''_'' # CHR ''_'' # z)) = Some 0"
    using z us atoi_number_field [OF a, of "CHR '' ''"]
    by (auto simp: n_def numeral_eq_Suc is_digit_def less_eq_char_def) (simp add: s_def numeral_eq_Suc)
  have ne: "l + 1 + 1 + 1 \<noteq> l" using l by (metis add_eq_self_zero zero_neq_numeral)
  obtain l1 l2 l3 where ls: "l + 1 = l1" "l1 + 1 = l2" "l2 + 1 = l3" by blast
  note lx = l [unfolded ls] ge [unfolded ls] ne [unfolded ls]
  show ?thesis
    unfolding s_def [symmetric] extract_numbers_def sl
    by (simp add: wl Let_def s1 [unfolded m] skip_to_end lx ls m ps at del: add_2_eq_Suc' One_nat_def drop_append)
qed

text \<open>A position command that fills the buffer leaves it without a terminator.\<close>

lemma long_segment_fault:
  assumes "128 \<le> length data" and "NUL \<notin> set (take 128 data)" and "data = CHR ''P'' # rest"
  shows "api_segment ub data cr = None"
proof -
  have "strlen (api_buf data) = None"
    using assms(1,2) by (simp add: api_buf_def strlen_iff terminated_def)
  then have "api_set_position ub (api_buf data) cr = None"
    by (cases cr) (simp add: api_set_position_def extract_numbers_def)
  then show ?thesis using assms(3) by (simp add: api_segment_def)
qed

end
