(* ===== verification/Ina3221.thy ===== *)
theory Ina3221
  imports CFloat CString
begin

text \<open>
  \<open>ina3221.c\<close>, the two power monitors on the I2C bus: the bus accesses, the readings of the
  six channels, and the conversion of a reading to millivolts or milliwatts.

  The devices are a parameter \<open>dev\<close>: the status of a transfer and the two bytes found in the
  receive buffer afterwards, as a function of all transfers so far. When a transfer fails,
  these bytes are whatever the buffer held. \<open>ina_xfers\<close> records address and sent bytes.
\<close>

type_synonym i2c_xfer = "u8 \<times> u8 list"
type_synonym i2c_dev = "i2c_xfer list \<Rightarrow> bool \<times> u8 \<times> u8"

record ina3221_mon =
  bus_volt :: s32
  shunt_volt :: s32

record ina3221_chan =
  chan_shunt :: s16
  chan_bus :: s16

record ina_state =
  ina_error :: u32
  mon_ch1 :: ina3221_mon
  mon_ch2 :: ina3221_mon
  mon_ch3 :: ina3221_mon
  mon_ch4 :: ina3221_mon
  mon_ch5 :: ina3221_mon
  mon_ch6 :: ina3221_mon
  ina_xfers :: "i2c_xfer list"

datatype mon_port =
    MON_NO_PORT | MON_PORT_1 | MON_PORT_2 | MON_PORT_3 | MON_PORT_4 | MON_PORT_5 | MON_PORT_6

datatype mon_compute = MON_NMVOLT | MON_NMWATT

record mon_source =
  ports :: mon_port
  compute :: mon_compute

datatype ina_msg = MSG_OK | MSG_ERROR

definition MON_DEV_FAULT :: u32 where "MON_DEV_FAULT = 2"
definition MON_DEV_UNEQUIPPED :: u32 where "MON_DEV_UNEQUIPPED = 4"

definition ina_state_init :: ina_state where
  "ina_state_init =
     (let m = \<lparr>bus_volt = 0, shunt_volt = 0\<rparr>
      in \<lparr>ina_error = MON_DEV_UNEQUIPPED, mon_ch1 = m, mon_ch2 = m, mon_ch3 = m, mon_ch4 = m,
          mon_ch5 = m, mon_ch6 = m, ina_xfers = []\<rparr>)"

definition pcfg_40 :: u8 where "pcfg_40 = 0x40"
definition pcfg_41 :: u8 where "pcfg_41 = 0x41"

definition INA3221_CONFIGURATION :: u8 where "INA3221_CONFIGURATION = 0x00"
definition INA3221_CHAN1_REGS :: u8 where "INA3221_CHAN1_REGS = 0x01"
definition INA3221_CHAN2_REGS :: u8 where "INA3221_CHAN2_REGS = 0x03"
definition INA3221_CHAN3_REGS :: u8 where "INA3221_CHAN3_REGS = 0x05"
definition INA3221_MANUFACTURER_ID :: u8 where "INA3221_MANUFACTURER_ID = 0xFE"
definition INA3221_DIE_ID :: u8 where "INA3221_DIE_ID = 0xFF"

section \<open>Bus accesses\<close>

definition sysReadI2C16 :: "i2c_dev \<Rightarrow> u8 \<Rightarrow> u8 \<Rightarrow> ina_state \<Rightarrow> bool \<times> u16 \<times> ina_state" where
  "sysReadI2C16 dev addr reg st =
     (let xs = ina_xfers st @ [(addr, [reg])];
          (status, rx0, rx1) = dev xs
      in (status, push_bit 8 (ucast rx0) OR ucast rx1, st\<lparr>ina_xfers := xs\<rparr>))"

definition sysWriteI2CN :: "i2c_dev \<Rightarrow> u8 \<Rightarrow> u8 list \<Rightarrow> ina_state \<Rightarrow> bool \<times> ina_state" where
  "sysWriteI2CN dev addr txbuf st =
     (let xs = ina_xfers st @ [(addr, txbuf)];
          (status, _) = dev xs
      in (status, st\<lparr>ina_xfers := xs\<rparr>))"

definition ina3221_get_chan ::
  "i2c_dev \<Rightarrow> u8 \<Rightarrow> u8 \<Rightarrow> ina_state \<Rightarrow> bool \<times> ina3221_chan \<times> ina_state" where
  "ina3221_get_chan dev pcfg addr st =
     (let (ok1, shunt, st) = sysReadI2C16 dev pcfg addr st;
          (ok2, bus, st) = sysReadI2C16 dev pcfg (addr + 1) st
      in (\<not> (\<not> ok1 \<or> \<not> ok2),
          \<lparr>chan_shunt = (if ok1 then shunt else 0), chan_bus = (if ok2 then bus else 0)\<rparr>, st))"

definition ina3221_update_chan ::
  "i2c_dev \<Rightarrow> u8 \<Rightarrow> ina3221_mon \<Rightarrow> u8 \<Rightarrow> ina_state \<Rightarrow> ina3221_mon \<times> ina_state" where
  "ina3221_update_chan dev pcfg mon addr st =
     (let (ok, chan, st) = ina3221_get_chan dev pcfg addr st
      in (if ok then \<lparr>bus_volt = scast (chan_bus chan), shunt_volt = scast (chan_shunt chan)\<rparr> else mon,
          st))"

definition ina3221_hardware_reset :: "i2c_dev \<Rightarrow> u8 \<Rightarrow> ina_state \<Rightarrow> ina_state" where
  "ina3221_hardware_reset dev pcfg st =
     (let (ok, st) = sysWriteI2CN dev pcfg [INA3221_CONFIGURATION, 0x80, 0x00] st
      in if \<not> ok then st\<lparr>ina_error := ina_error st OR 0x2\<rparr> else st)"

definition ina3221_send_config :: "i2c_dev \<Rightarrow> u8 \<Rightarrow> ina_state \<Rightarrow> ina_state" where
  "ina3221_send_config dev pcfg st =
     (let (ok, st) = sysWriteI2CN dev pcfg [INA3221_CONFIGURATION, 0x75, 0x27] st;
          st = (if \<not> ok then st\<lparr>ina_error := ina_error st OR 0x2\<rparr> else st);
          (ok, conf_read, st) = sysReadI2C16 dev pcfg INA3221_CONFIGURATION st
      in if \<not> ok then st\<lparr>ina_error := ina_error st OR 0x2\<rparr>
         else if conf_read \<noteq> 0x7527 then st\<lparr>ina_error := ina_error st OR 0x2\<rparr>
         else st)"

definition ina3221_isAvailable :: "i2c_dev \<Rightarrow> u8 \<Rightarrow> ina_state \<Rightarrow> bool \<times> ina_state" where
  "ina3221_isAvailable dev pcfg st =
     (let (ok1, man, st) = sysReadI2C16 dev pcfg INA3221_MANUFACTURER_ID st
      in if \<not> ok1 then (False, st\<lparr>ina_error := ina_error st OR MON_DEV_UNEQUIPPED\<rparr>)
         else let (ok2, die, st) = sysReadI2C16 dev pcfg INA3221_DIE_ID st
              in if \<not> ok2 then (False, st\<lparr>ina_error := ina_error st OR MON_DEV_UNEQUIPPED\<rparr>)
                 else if man \<noteq> 0x5449 \<or> die \<noteq> 0x3220
                 then (False, st\<lparr>ina_error := ina_error st OR MON_DEV_FAULT\<rparr>)
                 else (True, st))"

section \<open>Readings\<close>

text \<open>
  Power of a channel: \<open>calc\<close> is the current in microamperes over the 0.01 ohm shunt, in a
  \<open>float\<close>; the product with the voltage is formed in \<open>float\<close> and divided in \<open>double\<close>.
\<close>

definition mon_power :: "ub_conv \<Rightarrow> ina3221_mon \<Rightarrow> s32" where
  "mon_power ub mon =
     (let calc = fp_cvt Binary32
            (fp_div Binary64
              (fp_mul Binary64 (fp_cvt Binary64 (fp_of_int Binary32 (sint (shunt_volt mon))))
                (fp_of_int Binary64 5))
              (fp_lit Binary64 (1 / 100)))
      in fp_to_s32 ub
           (fp_div Binary64
             (fp_cvt Binary64 (fp_mul Binary32 calc (fp_of_int Binary32 (sint (bus_volt mon)))))
             (fp_of_int Binary64 1000000)))"

definition mon_of_port :: "mon_port \<Rightarrow> ina_state \<Rightarrow> ina3221_mon option" where
  "mon_of_port p st =
     (case p of
        MON_PORT_1 \<Rightarrow> Some (mon_ch1 st)
      | MON_PORT_2 \<Rightarrow> Some (mon_ch2 st)
      | MON_PORT_3 \<Rightarrow> Some (mon_ch3 st)
      | MON_PORT_4 \<Rightarrow> Some (mon_ch4 st)
      | MON_PORT_5 \<Rightarrow> Some (mon_ch5 st)
      | MON_PORT_6 \<Rightarrow> Some (mon_ch6 st)
      | MON_NO_PORT \<Rightarrow> None)"

definition ina3221_get_current_reading :: "ub_conv \<Rightarrow> mon_source \<Rightarrow> ina_state \<Rightarrow> ina_msg \<times> s32" where
  "ina3221_get_current_reading ub source st =
     (case mon_of_port (ports source) st of
        None \<Rightarrow> (MSG_ERROR, 0xFFFFFFFF)
      | Some mon \<Rightarrow>
          (case compute source of
             MON_NMWATT \<Rightarrow> (MSG_OK, mon_power ub mon)
           | MON_NMVOLT \<Rightarrow> (MSG_OK, bus_volt mon)))"

text \<open>The thread: its start-up, and one round of its loop.\<close>

definition ina3221_thd_start :: "i2c_dev \<Rightarrow> ina_state \<Rightarrow> ina_state" where
  "ina3221_thd_start dev st =
     (let st = ina3221_hardware_reset dev pcfg_40 st;
          st = ina3221_send_config dev pcfg_40 st;
          st = ina3221_hardware_reset dev pcfg_41 st
      in ina3221_send_config dev pcfg_41 st)"

definition ina3221_thd_round :: "i2c_dev \<Rightarrow> ina_state \<Rightarrow> ina_state" where
  "ina3221_thd_round dev st =
     (let (m, st) = ina3221_update_chan dev pcfg_40 (mon_ch1 st) INA3221_CHAN1_REGS st; st = st\<lparr>mon_ch1 := m\<rparr>;
          (m, st) = ina3221_update_chan dev pcfg_40 (mon_ch2 st) INA3221_CHAN2_REGS st; st = st\<lparr>mon_ch2 := m\<rparr>;
          (m, st) = ina3221_update_chan dev pcfg_40 (mon_ch3 st) INA3221_CHAN3_REGS st; st = st\<lparr>mon_ch3 := m\<rparr>;
          (m, st) = ina3221_update_chan dev pcfg_41 (mon_ch4 st) INA3221_CHAN1_REGS st; st = st\<lparr>mon_ch4 := m\<rparr>;
          (m, st) = ina3221_update_chan dev pcfg_41 (mon_ch5 st) INA3221_CHAN2_REGS st; st = st\<lparr>mon_ch5 := m\<rparr>;
          (m, st) = ina3221_update_chan dev pcfg_41 (mon_ch6 st) INA3221_CHAN3_REGS st
      in st\<lparr>mon_ch6 := m\<rparr>)"

section \<open>The readings stay 16-bit values\<close>

definition mon_ok :: "ina3221_mon \<Rightarrow> bool" where
  "mon_ok m \<longleftrightarrow>
     -32768 \<le> sint (bus_volt m) \<and> sint (bus_volt m) \<le> 32767 \<and>
     -32768 \<le> sint (shunt_volt m) \<and> sint (shunt_volt m) \<le> 32767"

definition ina_ok :: "ina_state \<Rightarrow> bool" where
  "ina_ok st \<longleftrightarrow> (\<forall>m \<in> {mon_ch1 st, mon_ch2 st, mon_ch3 st, mon_ch4 st, mon_ch5 st, mon_ch6 st}. mon_ok m)"

lemma ina_ok_init: "ina_ok ina_state_init"
  by (simp add: ina_ok_def ina_state_init_def mon_ok_def Let_def)

lemma sint_scast_s16: "sint (scast (w :: s16) :: s32) = sint w"
  by (rule sint_up_scast) (simp add: is_up)

lemma update_chan_ok: "mon_ok m \<Longrightarrow> mon_ok (fst (ina3221_update_chan dev pcfg m addr st))"
  using word_ranges by (auto simp: ina3221_update_chan_def mon_ok_def sint_scast_s16 split: prod.splits)

text \<open>An update changes only the channel it is given, and the record of transfers.\<close>

lemma get_chan_frame: "\<exists>xs. snd (snd (ina3221_get_chan dev pcfg addr st)) = st\<lparr>ina_xfers := xs\<rparr>"
  by (auto simp: ina3221_get_chan_def sysReadI2C16_def Let_def split: prod.splits)

lemma update_chan_frame: "\<exists>xs. snd (ina3221_update_chan dev pcfg m addr st) = st\<lparr>ina_xfers := xs\<rparr>"
  using get_chan_frame [of dev pcfg addr st] by (auto simp: ina3221_update_chan_def split: prod.splits)

lemma update_chan_obtain:
  obtains m' xs where "ina3221_update_chan dev pcfg m addr st = (m', st\<lparr>ina_xfers := xs\<rparr>)"
    "mon_ok m \<longrightarrow> mon_ok m'"
  using update_chan_frame [of dev pcfg m addr st] update_chan_ok [of m dev pcfg addr st]
  by (metis prod.collapse)

lemma thd_round_ok:
  assumes "ina_ok st"
  shows "ina_ok (ina3221_thd_round dev st)" "ina_error (ina3221_thd_round dev st) = ina_error st"
proof -
  obtain m1 x1 where 1: "ina3221_update_chan dev pcfg_40 (mon_ch1 st) INA3221_CHAN1_REGS st = (m1, st\<lparr>ina_xfers := x1\<rparr>)"
    "mon_ok (mon_ch1 st) \<longrightarrow> mon_ok m1" by (rule update_chan_obtain)
  define s1 where "s1 = st\<lparr>ina_xfers := x1\<rparr>\<lparr>mon_ch1 := m1\<rparr>"
  obtain m2 x2 where 2: "ina3221_update_chan dev pcfg_40 (mon_ch2 s1) INA3221_CHAN2_REGS s1 = (m2, s1\<lparr>ina_xfers := x2\<rparr>)"
    "mon_ok (mon_ch2 s1) \<longrightarrow> mon_ok m2" by (rule update_chan_obtain)
  define s2 where "s2 = s1\<lparr>ina_xfers := x2\<rparr>\<lparr>mon_ch2 := m2\<rparr>"
  obtain m3 x3 where 3: "ina3221_update_chan dev pcfg_40 (mon_ch3 s2) INA3221_CHAN3_REGS s2 = (m3, s2\<lparr>ina_xfers := x3\<rparr>)"
    "mon_ok (mon_ch3 s2) \<longrightarrow> mon_ok m3" by (rule update_chan_obtain)
  define s3 where "s3 = s2\<lparr>ina_xfers := x3\<rparr>\<lparr>mon_ch3 := m3\<rparr>"
  obtain m4 x4 where 4: "ina3221_update_chan dev pcfg_41 (mon_ch4 s3) INA3221_CHAN1_REGS s3 = (m4, s3\<lparr>ina_xfers := x4\<rparr>)"
    "mon_ok (mon_ch4 s3) \<longrightarrow> mon_ok m4" by (rule update_chan_obtain)
  define s4 where "s4 = s3\<lparr>ina_xfers := x4\<rparr>\<lparr>mon_ch4 := m4\<rparr>"
  obtain m5 x5 where 5: "ina3221_update_chan dev pcfg_41 (mon_ch5 s4) INA3221_CHAN2_REGS s4 = (m5, s4\<lparr>ina_xfers := x5\<rparr>)"
    "mon_ok (mon_ch5 s4) \<longrightarrow> mon_ok m5" by (rule update_chan_obtain)
  define s5 where "s5 = s4\<lparr>ina_xfers := x5\<rparr>\<lparr>mon_ch5 := m5\<rparr>"
  obtain m6 x6 where 6: "ina3221_update_chan dev pcfg_41 (mon_ch6 s5) INA3221_CHAN3_REGS s5 = (m6, s5\<lparr>ina_xfers := x6\<rparr>)"
    "mon_ok (mon_ch6 s5) \<longrightarrow> mon_ok m6" by (rule update_chan_obtain)
  have r: "ina3221_thd_round dev st = s5\<lparr>ina_xfers := x6\<rparr>\<lparr>mon_ch6 := m6\<rparr>"
    by (simp only: ina3221_thd_round_def Let_def 1(1) 2(1) 3(1) 4(1) 5(1) 6(1) prod.case
        s1_def [symmetric] s2_def [symmetric] s3_def [symmetric] s4_def [symmetric] s5_def [symmetric])
  note s = s1_def s2_def s3_def s4_def s5_def
  show "ina_ok (ina3221_thd_round dev st)" "ina_error (ina3221_thd_round dev st) = ina_error st"
    using assms 1(2) 2(2) 3(2) 4(2) 5(2) 6(2) by (simp_all add: r s ina_ok_def)
qed

text \<open>With registers that hold still during a round, the channels take their values.\<close>

definition reads_registers :: "i2c_dev \<Rightarrow> (u8 \<Rightarrow> u8 \<Rightarrow> u16) \<Rightarrow> bool" where
  "reads_registers dev R \<longleftrightarrow>
     (\<forall>xs a r. dev (xs @ [(a, [r])]) = (True, ucast (drop_bit 8 (R a r)), ucast (R a r)))"

lemma update_chan_reads:
  assumes "reads_registers dev R"
  shows "\<exists>xs. ina3221_update_chan dev pcfg m addr st =
    (\<lparr>bus_volt = scast (R pcfg (addr + 1)), shunt_volt = scast (R pcfg addr)\<rparr>, st\<lparr>ina_xfers := xs\<rparr>)"
  using assms
  by (auto simp: ina3221_update_chan_def ina3221_get_chan_def sysReadI2C16_def reads_registers_def
      bytes_of_word Let_def)

text \<open>A failed transfer leaves the channel as it was.\<close>

lemma update_chan_failed:
  assumes "\<not> fst (ina3221_get_chan dev pcfg addr st)"
  shows "fst (ina3221_update_chan dev pcfg m addr st) = m"
  using assms by (auto simp: ina3221_update_chan_def split: prod.splits)

section \<open>Power\<close>

lemma lit_centi: "fp_val (fp_lit Binary64 (1 / 100)) = Some (5764607523034235 / 576460752303423488)"
  by code_simp

lemma power_near:
  assumes "\<bar>a\<bar> \<le> 32768" and "\<bar>v\<bar> \<le> 32768"
  defines "b \<equiv> 5764607523034235 / 576460752303423488 :: rat"
  shows "fp_near
    (fp_div Binary64
       (fp_cvt Binary64 (fp_mul Binary32 (fp_cvt Binary32
          (fp_div Binary64 (fp_mul Binary64 (fp_cvt Binary64 (fp_of_int Binary32 a)) (fp_of_int Binary64 5))
            (fp_lit Binary64 (1 / 100)))) (fp_of_int Binary32 v)))
       (fp_of_int Binary64 1000000))
    (of_int a * 5 / b * of_int v / 1000000) (4 / 100)"
proof -
  have u: "ulp Binary64 16 = 1 / 2 ^ 38" "ulp Binary64 18 = 1 / 2 ^ 36" "ulp Binary64 24 = 1 / 2 ^ 30"
    "ulp Binary32 24 = 1 / 2" "ulp Binary32 39 = 2 ^ 14" "ulp Binary64 40 = 1 / 2 ^ 14" "ulp Binary64 20 = 1 / 2 ^ 34"
    by (simp_all add: ulp_def power_int_def field_simps)
  have ra: "\<bar>of_int a :: rat\<bar> \<le> 32768" "\<bar>of_int v :: rat\<bar> \<le> 32768"
    using assms of_int_le_iff [of "\<bar>a\<bar>" 32768, where 'a = rat] of_int_le_iff [of "\<bar>v\<bar>" 32768, where 'a = rat]
    by simp_all
  have c: "fp_val (fp_of_int Binary64 5) = Some 5" "fp_val (fp_of_int Binary64 1000000) = Some 1000000"
    using fp_of_int_val [of 5 Binary64] fp_of_int_val [of 1000000 Binary64] by simp_all
  have ex: "fp_near (fp_of_int Binary32 a) (of_int a) 0" "fp_val (fp_of_int Binary32 v) = Some (of_int v)"
    using assms(1,2) fp_of_int_val [of a Binary32] fp_of_int_val [of v Binary32] by (simp_all add: fp_near_exact)
  have b: "0 < b" "1 / b \<le> 101" "b \<noteq> 0" by (simp_all add: b_def)
  define x1 where "x1 = fp_cvt Binary64 (fp_of_int Binary32 a)"
  define x2 where "x2 = fp_mul Binary64 x1 (fp_of_int Binary64 5)"
  define x3 where "x3 = fp_div Binary64 x2 (fp_lit Binary64 (1 / 100))"
  define x4 where "x4 = fp_cvt Binary32 x3"
  define x5 where "x5 = fp_mul Binary32 x4 (fp_of_int Binary32 v)"
  define x6 where "x6 = fp_cvt Binary64 x5"
  have 1: "fp_near x1 (of_int a) (1 / 2 ^ 38)"
    using fp_near_cvt [OF ex(1), of 16 Binary64] ra by (simp add: x1_def u)
  have 2: "fp_near x2 (of_int a * 5) (6 / 2 ^ 36)"
    unfolding x2_def
    by (rule fp_near_mono [OF fp_near_mul [OF 1 c(1), where m = 18]]) (use ra in \<open>simp_all add: u\<close>)
  have ab: "\<bar>of_int a * 5 / b\<bar> \<le> 16384001"
    using ra(1) by (simp add: b_def abs_mult)
  have 3: "fp_near x3 (of_int a * 5 / b) (1 / 2 ^ 20)"
    unfolding x3_def
    by (rule fp_near_mono [OF fp_near_div [OF 2 lit_centi [folded b_def] b(3), where m = 24]])
      (use ra in \<open>simp_all add: u b_def\<close>)
  have 4: "fp_near x4 (of_int a * 5 / b) (51 / 100)"
    unfolding x4_def
    by (rule fp_near_mono [OF fp_near_cvt [OF 3, where m = 24]]) (use ab in \<open>simp_all add: u\<close>)
  have m5: "(\<bar>of_int a * 5 / b\<bar> + 51 / 100) * \<bar>of_int v :: rat\<bar> \<le> 16384002 * 32768"
    using ab ra(2) by (intro mult_mono) auto
  have e5: "51 / 100 * \<bar>of_int v :: rat\<bar> \<le> 51 / 100 * 32768" using ra(2) by simp
  have 5: "fp_near x5 (of_int a * 5 / b * of_int v) 33100"
    unfolding x5_def
    by (rule fp_near_mono [OF fp_near_mul [OF 4 ex(2), where m = 39]]) (use m5 e5 in \<open>simp_all add: u\<close>)
  have ab5: "\<bar>of_int a * 5 / b * of_int v\<bar> \<le> 16384001 * 32768"
    using ab ra(2) mult_mono [of "\<bar>of_int a * 5 / b\<bar>" 16384001 "\<bar>of_int v :: rat\<bar>" 32768] by (simp add: abs_mult)
  have 6: "fp_near x6 (of_int a * 5 / b * of_int v) 33101"
    unfolding x6_def
    by (rule fp_near_mono [OF fp_near_cvt [OF 5, where m = 40]]) (use ab5 in \<open>simp_all add: u\<close>)
  have "fp_near (fp_div Binary64 x6 (fp_of_int Binary64 1000000)) (of_int a * 5 / b * of_int v / 1000000) (4 / 100)"
    by (rule fp_near_mono [OF fp_near_div [OF 6 c(2), where m = 20]]) (use ab5 in \<open>simp_all add: u\<close>)
  then show ?thesis by (simp only: x1_def x2_def x3_def x4_def x5_def x6_def)
qed

text \<open>
  The power reading is the product of the two registers over 2000 (in milliwatts), with an
  error below 1.05, and never leaves the range of the conversion.
\<close>

lemma mon_power_accurate:
  assumes "mon_ok m"
  shows "\<bar>of_int (sint (mon_power ub m)) - of_int (sint (shunt_volt m) * sint (bus_volt m)) / 2000\<bar> < (105 / 100 :: rat)"
proof -
  define a where "a = sint (shunt_volt m)"
  define v where "v = sint (bus_volt m)"
  define b :: rat where "b = 5764607523034235 / 576460752303423488"
  define P where "P = of_int a * 5 / b * of_int v / 1000000"
  have av: "\<bar>a\<bar> \<le> 32768" "\<bar>v\<bar> \<le> 32768" using assms by (auto simp: mon_ok_def a_def v_def)
  from power_near [OF this] obtain w where w: "\<bar>w - P\<bar> \<le> 4 / 100"
    and pw: "mon_power ub m = word_of_int (fp_to_int ub (-2147483648) 2147483647
      (fp_div Binary64 (fp_cvt Binary64 (fp_mul Binary32 (fp_cvt Binary32
          (fp_div Binary64 (fp_mul Binary64 (fp_cvt Binary64 (fp_of_int Binary32 a)) (fp_of_int Binary64 5))
            (fp_lit Binary64 (1 / 100)))) (fp_of_int Binary32 v))) (fp_of_int Binary64 1000000)))"
    and val: "fp_val (fp_div Binary64 (fp_cvt Binary64 (fp_mul Binary32 (fp_cvt Binary32
          (fp_div Binary64 (fp_mul Binary64 (fp_cvt Binary64 (fp_of_int Binary32 a)) (fp_of_int Binary64 5))
            (fp_lit Binary64 (1 / 100)))) (fp_of_int Binary32 v))) (fp_of_int Binary64 1000000)) = Some w"
    by (auto simp: fp_near_def P_def b_def mon_power_def a_def v_def)
  define X where "X = (of_int (a * v) :: rat)"
  have X: "\<bar>X\<bar> \<le> 32768 * 32768"
    using av mult_mono [of "\<bar>a\<bar>" 32768 "\<bar>v\<bar>" 32768] of_int_le_iff [of "\<bar>a * v\<bar>" "32768 * 32768", where 'a = rat]
    by (simp add: X_def abs_mult)
  have PX: "P = X * (5 / b / 1000000)" by (simp add: P_def X_def)
  have "\<bar>P - X / 2000\<bar> \<le> 1 / 1000"
    using X by (simp add: PX b_def abs_le_iff)
  then have wX: "\<bar>w - X / 2000\<bar> \<le> 41 / 1000" using w by linarith
  then have "\<bar>w\<bar> \<le> 536872" using X by linarith
  then have "\<bar>w\<bar> \<le> of_int 536872" by simp
  then have t: "\<bar>trunc w\<bar> \<le> 536872" by (rule trunc_bounds)
  then have "fp_to_int ub (-2147483648) 2147483647
      (fp_div Binary64 (fp_cvt Binary64 (fp_mul Binary32 (fp_cvt Binary32
          (fp_div Binary64 (fp_mul Binary64 (fp_cvt Binary64 (fp_of_int Binary32 a)) (fp_of_int Binary64 5))
            (fp_lit Binary64 (1 / 100)))) (fp_of_int Binary32 v))) (fp_of_int Binary64 1000000)) = trunc w"
    by (intro fp_to_int_val [OF val]) auto
  then have "sint (mon_power ub m) = trunc w"
    using t by (simp only: pw) (rule sint32_id; simp add: abs_le_iff)
  then have "\<bar>of_int (sint (mon_power ub m)) - X / 2000\<bar> < 105 / 100"
    using trunc_error [of w] wX by linarith
  then show ?thesis by (simp only: X_def a_def v_def)
qed

end
