(* ===== verification/Ocxo.thy ===== *)
theory Ocxo
  imports Debug ChPrintf
begin

text \<open>
  \<open>ocxo.c\<close>, the disciplined reference oscillator: a timer counts the oscillator's cycles
  between two pulses of the GPS receiver (\<open>exti_cb\<close>, an interrupt), and a thread steers the
  oscillator through a DAC when the last three counts agree. \<open>tim2_cnt\<close> is the counter
  register of the timer, \<open>dac_writes\<close> the values given to the DAC, \<open>led_1pps\<close> the pin of
  the pulse LED.
\<close>

record ocxo_state =
  ocxo_cntr :: "s32 list"
  cntr_i :: u32
  out_ocxo_cntr :: s32
  last_pulse :: systime
  dac_val :: u16
  tim2_cnt :: u32
  dac_writes :: "u16 list"
  led_1pps :: bool

definition ocxo_state_init :: ocxo_state where
  "ocxo_state_init =
     \<lparr>ocxo_cntr = [0, 1, 2], cntr_i = 0, out_ocxo_cntr = 0, last_pulse = 0, dac_val = 2050,
      tim2_cnt = 0, dac_writes = [], led_1pps = False\<rparr>"

definition exti_cb :: "systime \<Rightarrow> ocxo_state \<Rightarrow> ocxo_state" where
  "exti_cb now st =
     (let st = st\<lparr>ocxo_cntr := (ocxo_cntr st)[unat (cntr_i st mod 3) := tim2_cnt st],
                 cntr_i := cntr_i st + 1\<rparr>
      in st\<lparr>tim2_cnt := 0, last_pulse := now, led_1pps := True\<rparr>)"

definition ocxo_agree :: "ocxo_state \<Rightarrow> bool" where
  "ocxo_agree st \<longleftrightarrow>
     ocxo_cntr st ! 0 = ocxo_cntr st ! 1 \<and> ocxo_cntr st ! 1 = ocxo_cntr st ! 2"

definition dac_adjust :: "s32 \<Rightarrow> u16 \<Rightarrow> u16" where
  "dac_adjust cntr dac =
     (if sint cntr > 20000001 then dac - 10
      else if sint cntr < 19999999 then dac + 10
      else dac)"

definition ocxo_log_line :: "ub_conv \<Rightarrow> systime \<Rightarrow> s32 \<Rightarrow> (u32 \<times> char list) option" where
  "ocxo_log_line ub now cntr =
     chsnprintf ub (replicate 64 NUL) 64 (''[%.3f] cntr=%d'' @ [LF])
       [VDbl (ms_to_s (TIME_I2MS now)), VInt cntr]"

definition ocxo_steer ::
  "ub_conv \<Rightarrow> systime \<Rightarrow> ocxo_state \<times> char list \<Rightarrow> (ocxo_state \<times> char list) option" where
  "ocxo_steer ub now sb =
     (let (st, bucket) = sb in
      if ocxo_agree st
      then do {
        let st = st\<lparr>out_ocxo_cntr := ocxo_cntr st ! 0\<rparr>;
        let st = st\<lparr>ocxo_cntr := (ocxo_cntr st)[0 := -1]\<rparr>;
        (_, buf) \<leftarrow> ocxo_log_line ub now (out_ocxo_cntr st);
        bucket \<leftarrow> debug_print bucket buf;
        let st = st\<lparr>dac_val := dac_adjust (out_ocxo_cntr st) (dac_val st)\<rparr>;
        Some (st\<lparr>dac_writes := dac_writes st @ [dac_val st]\<rparr>, bucket)
      }
      else Some (st, bucket))"

definition ocxo_led :: "systime \<Rightarrow> ocxo_state \<Rightarrow> ocxo_state" where
  "ocxo_led now st =
     (if uint (TIME_I2MS (now - last_pulse st)) > 100 then st\<lparr>led_1pps := False\<rparr> else st)"

definition ocxo_iteration ::
  "ub_conv \<Rightarrow> systime \<Rightarrow> ocxo_state \<times> char list \<Rightarrow> (ocxo_state \<times> char list) option" where
  "ocxo_iteration ub now sb =
     map_option (\<lambda>(st, bucket). (ocxo_led now st, bucket)) (ocxo_steer ub now sb)"

definition ocxo_init :: "ocxo_state \<Rightarrow> ocxo_state" where
  "ocxo_init st = st\<lparr>led_1pps := False, dac_writes := dac_writes st @ [2050]\<rparr>"

definition ocxo_get_last_pulse :: "ocxo_state \<Rightarrow> systime" where "ocxo_get_last_pulse st = last_pulse st"
definition ocxo_get_cntr :: "ocxo_state \<Rightarrow> s32" where "ocxo_get_cntr st = out_ocxo_cntr st"
definition ocxo_get_dac_val :: "ocxo_state \<Rightarrow> u16" where "ocxo_get_dac_val st = dac_val st"

section \<open>Invariants and the effect of a round\<close>

definition ocxo_ok :: "ocxo_state \<Rightarrow> bool" where
  "ocxo_ok st \<longleftrightarrow> length (ocxo_cntr st) = 3"

lemma ocxo_ok_init: "ocxo_ok ocxo_state_init"
  by (simp add: ocxo_ok_def ocxo_state_init_def)

lemma exti_cb_ok: "ocxo_ok st \<Longrightarrow> ocxo_ok (exti_cb now st)"
  by (simp add: ocxo_ok_def exti_cb_def Let_def)

lemma mod3_index: "unat (i mod 3 :: u32) < 3"
  by (simp add: unat_mod)

lemma ocxo_log_line_total: "\<exists>n buf. ocxo_log_line ub now cntr = Some (n, buf) \<and> terminated buf"
proof -
  have "\<exists>n. emits ub ((''[%.3f] cntr=%d'' @ [LF]) @ [NUL]) [VDbl d, VInt cntr] n" for d
    unfolding append.simps
    by (intro exI) (rule emits_rules emits_lit emits_end | simp only: char.inject simp_thms)+
  then obtain n where "emits ub ((''[%.3f] cntr=%d'' @ [LF]) @ [NUL])
      [VDbl (ms_to_s (TIME_I2MS now)), VInt cntr] n" by blast
  from emits_chsnprintf [OF this, of 64 "replicate 64 NUL"] show ?thesis
    unfolding ocxo_log_line_def by fastforce
qed

lemma ocxo_steer_effect:
  assumes "bucket_ok b" and "ocxo_agree st"
  shows "\<exists>b'. bucket_ok b' \<and> ocxo_steer ub now (st, b) =
    Some (st\<lparr>out_ocxo_cntr := ocxo_cntr st ! 0, ocxo_cntr := (ocxo_cntr st)[0 := -1],
            dac_val := dac_adjust (ocxo_cntr st ! 0) (dac_val st),
            dac_writes := dac_writes st @ [dac_adjust (ocxo_cntr st ! 0) (dac_val st)]\<rparr>, b')"
proof -
  obtain n buf where l: "ocxo_log_line ub now (ocxo_cntr st ! 0) = Some (n, buf)" "terminated buf"
    using ocxo_log_line_total by blast
  obtain b' where "debug_print b buf = Some b'" "bucket_ok b'"
    using debug_print_effect [OF assms(1) l(2)] by blast
  then show ?thesis using assms(2) l(1) by (auto simp: ocxo_steer_def Let_def)
qed

text \<open>After a vote the three counts disagree, so each agreement steers the DAC once.\<close>

lemma vote_consumed:
  "ocxo_ok st \<Longrightarrow> ocxo_cntr st ! 0 \<noteq> -1 \<Longrightarrow> ocxo_agree st \<Longrightarrow>
     \<not> ocxo_agree (st\<lparr>ocxo_cntr := (ocxo_cntr st)[0 := -1]\<rparr>)"
  by (auto simp: ocxo_ok_def ocxo_agree_def)

text \<open>Three pulses with the same count agree.\<close>

definition pulse :: "systime \<Rightarrow> u32 \<Rightarrow> ocxo_state \<Rightarrow> ocxo_state" where
  "pulse now count st = exti_cb now (st\<lparr>tim2_cnt := count\<rparr>)"

lemma pulse_simps:
  "ocxo_cntr (pulse now c st) = (ocxo_cntr st)[unat (cntr_i st mod 3) := c]"
  "cntr_i (pulse now c st) = cntr_i st + 1"
  by (simp_all add: pulse_def exti_cb_def Let_def)

lemma unat_mod3: "unat (x mod 3 :: u32) = unat x mod 3"
  by (simp add: unat_mod)

lemma three_pulses:
  assumes "ocxo_ok st" and "unat (cntr_i st) + 3 \<le> 2 ^ 32"
  shows "ocxo_cntr (pulse t3 c (pulse t2 c (pulse t1 c st))) = [c, c, c]"
proof -
  obtain a0 a1 a2 where a: "ocxo_cntr st = [a0, a1, a2]"
    using assms(1) by (auto simp: ocxo_ok_def length_Suc_conv numeral_3_eq_3)
  define k where "k = unat (cntr_i st)"
  have "unat (cntr_i st + 1) = k + 1" "unat (cntr_i st + 1 + 1) = k + 2"
    using assms(2) by (simp_all add: k_def unat_word_ariths(1))
  then have i: "unat (cntr_i st mod 3) = k mod 3" "unat ((cntr_i st + 1) mod 3) = (k + 1) mod 3"
    "unat ((cntr_i st + 1 + 1) mod 3) = (k + 2) mod 3"
    by (simp_all only: unat_mod3 k_def)
  have "k mod 3 = 0 \<or> k mod 3 = 1 \<or> k mod 3 = 2" by linarith
  then show ?thesis
    unfolding pulse_simps i a by (elim disjE) (simp_all add: mod_Suc numeral_2_eq_2)
qed

text \<open>The DAC value is not limited to the DAC's range.\<close>

lemma dac_adjust_high: "20000001 < sint c \<Longrightarrow> (dac_adjust c ^^ n) dac = dac - 10 * of_nat n"
  by (induction n) (simp_all add: dac_adjust_def algebra_simps)

lemma dac_adjust_low: "sint c < 19999999 \<Longrightarrow> (dac_adjust c ^^ n) dac = dac + 10 * of_nat n"
  by (induction n) (simp_all add: dac_adjust_def algebra_simps)

end
