(* ===== verification/Gps.thy ===== *)
theory Gps
  imports CFloat CString Ocxo
begin

text \<open>
  \<open>gps.c\<close>, the GPS receiver: the thread collects characters of the serial line into a
  128-byte buffer, and \<open>gps_parse\<close> reads the fields of a complete sentence at fixed offsets.
  The buffer is an explicit list, so bytes that an earlier sentence left behind the
  terminator are visible to \<open>gps_parse\<close>, as they are in the code.
\<close>

record gps_state =
  m_date :: u32
  m_time :: u32
  m_lat :: fp
  m_lon :: fp
  m_alt :: s16
  m_sats :: u8
  m_sats_sol :: u8

definition gps_state_init :: gps_state where
  "gps_state_init =
     \<lparr>m_date = 0, m_time = 0, m_lat = Zero False, m_lon = Zero False, m_alt = 0, m_sats = 0,
      m_sats_sol = 0\<rparr>"

text \<open>\<open>(dm/100 + (m + f/10000.0)/60.0) * sign\<close>, stored in a \<open>float\<close>.\<close>

definition gps_coord :: "int \<Rightarrow> int \<Rightarrow> int \<Rightarrow> bool \<Rightarrow> fp" where
  "gps_coord dm m f positive =
     fp_cvt Binary32
       (fp_mul Binary64
         (fp_add Binary64 (fp_of_int Binary64 (dm sdiv 100))
           (fp_div Binary64
             (fp_add Binary64 (fp_of_int Binary64 m)
               (fp_div Binary64 (fp_of_int Binary64 f) (fp_of_int Binary64 10000)))
             (fp_of_int Binary64 60)))
         (fp_of_int Binary64 (if positive then 1 else -1)))"

definition gps_parse_gga :: "char list \<Rightarrow> gps_state \<Rightarrow> gps_state option" where
  "gps_parse_gga str st =
     do { tim \<leftarrow> atoi (drop 7 str);
          lat1 \<leftarrow> atoi (drop 14 str); lat2 \<leftarrow> atoi (drop 16 str); lat3 \<leftarrow> atoi (drop 19 str);
          ns \<leftarrow> peek str 24;
          lon1 \<leftarrow> atoi (drop 26 str); lon2 \<leftarrow> atoi (drop 29 str); lon3 \<leftarrow> atoi (drop 32 str);
          ew \<leftarrow> peek str 37;
          sats \<leftarrow> atoi (drop 41 str);
          alt \<leftarrow> atoi (drop 48 str);
          Some (st\<lparr>m_time := word_of_int tim,
                  m_lat := gps_coord lat1 lat2 lat3 (ns = CHR ''N''),
                  m_lon := gps_coord lon1 lon2 lon3 (ew = CHR ''E''),
                  m_sats_sol := word_of_int sats,
                  m_alt := word_of_int alt\<rparr>) }"

definition gps_parse :: "char list \<Rightarrow> gps_state \<Rightarrow> gps_state option" where
  "gps_parse str st =
     do { gga \<leftarrow> strncmp_eq str ''$GPGGA'' 6;
          st \<leftarrow> (if gga then gps_parse_gga str st else Some st);
          rmf \<leftarrow> strncmp_eq str ''$PGRMF'' 6;
          if rmf
          then do { d \<leftarrow> atoi (drop 18 str); Some (st\<lparr>m_date := word_of_int d\<rparr>) }
          else Some st }"

text \<open>The thread's buffer and index, and what it does with one character.\<close>

record gps_thread =
  gps_buf :: "char list"
  gps_idx :: nat
  gps_st :: gps_state

definition gps_char :: "gps_thread \<Rightarrow> char \<Rightarrow> gps_thread option" where
  "gps_char t c =
     (if c = NUL then Some t
      else if c = LF \<or> c = CR
      then do { buf \<leftarrow> poke (gps_buf t) (gps_idx t) NUL;
                st \<leftarrow> gps_parse buf (gps_st t);
                Some (t\<lparr>gps_buf := buf, gps_st := st, gps_idx := 0\<rparr>) }
      else if gps_idx t < 128 - 1
      then do { buf \<leftarrow> poke (gps_buf t) (gps_idx t) c;
                Some (t\<lparr>gps_buf := buf, gps_idx := gps_idx t + 1\<rparr>) }
      else Some (t\<lparr>gps_idx := 0\<rparr>))"

record gps_data =
  gd_date :: u32
  gd_time :: u32
  gd_lat :: fp
  gd_lon :: fp
  gd_alt :: s16
  gd_sats :: u8
  gd_sats_sol :: u8
  gd_pulse :: bool

definition get_gps_data :: "systime \<Rightarrow> ocxo_state \<Rightarrow> gps_state \<Rightarrow> gps_data" where
  "get_gps_data now ox st =
     \<lparr>gd_date = m_date st, gd_time = m_time st, gd_lat = m_lat st, gd_lon = m_lon st,
      gd_alt = m_alt st, gd_sats = m_sats st, gd_sats_sol = m_sats_sol st,
      gd_pulse = (uint (TIME_I2MS (now - ocxo_get_last_pulse ox)) \<le> 200)\<rparr>"

section \<open>Collecting a line\<close>

definition gps_ok :: "gps_thread \<Rightarrow> bool" where
  "gps_ok t \<longleftrightarrow> length (gps_buf t) = 128 \<and> gps_idx t < 128"

lemma poke_in_range: "i < length buf \<Longrightarrow> poke buf i c = Some (buf[i := c])"
  by (simp add: poke_def)

lemma gps_char_ok: "gps_ok t \<Longrightarrow> gps_char t c = Some t' \<Longrightarrow> gps_ok t'"
  by (auto simp: gps_char_def gps_ok_def poke_in_range split: if_splits Option.bind_splits)

definition line_char :: "char \<Rightarrow> bool" where
  "line_char c \<longleftrightarrow> c \<noteq> NUL \<and> c \<noteq> LF \<and> c \<noteq> CR"

lemma gps_collect:
  assumes "list_all line_char line" and "gps_idx t + length line \<le> 127" and "length (gps_buf t) = 128"
  shows "run_calls gps_char t line = Some (t\<lparr>gps_idx := gps_idx t + length line,
    gps_buf := take (gps_idx t) (gps_buf t) @ line @ drop (gps_idx t + length line) (gps_buf t)\<rparr>)"
  using assms
proof (induction line arbitrary: t)
  case (Cons c line)
  define t1 where "t1 = t\<lparr>gps_buf := (gps_buf t)[gps_idx t := c], gps_idx := gps_idx t + 1\<rparr>"
  have c: "gps_char t c = Some t1"
    using Cons.prems by (simp add: gps_char_def line_char_def poke_in_range t1_def)
  have "take (gps_idx t + 1) ((gps_buf t)[gps_idx t := c]) = take (gps_idx t) (gps_buf t) @ [c]"
    using Cons.prems by (simp add: take_Suc_conv_app_nth)
  then show ?case using Cons.prems Cons.IH [of t1] by (simp add: c t1_def)
qed simp

text \<open>A line of up to 127 characters reaches the parser as it was sent.\<close>

lemma gps_line:
  assumes "list_all line_char line" and "length line \<le> 127" and "length buf = 128" and "nl = LF \<or> nl = CR"
  shows "run_calls gps_char \<lparr>gps_buf = buf, gps_idx = 0, gps_st = st\<rparr> (line @ [nl]) =
    (let buf' = line @ NUL # drop (length line + 1) buf
     in map_option (\<lambda>st'. \<lparr>gps_buf = buf', gps_idx = 0, gps_st = st'\<rparr>) (gps_parse buf' st))"
proof -
  have b: "(line @ drop (length line) buf)[length line := NUL] = line @ NUL # drop (length line + 1) buf"
    using assms(2,3) by (simp add: list_update_append Cons_nth_drop_Suc [symmetric])
  have n: "nl \<noteq> NUL" using assms(4) by auto
  show ?thesis
    unfolding run_calls_append using assms n
    by (subst gps_collect; cases "gps_parse (line @ NUL # drop (Suc (length line)) buf) st")
      (auto simp: gps_char_def poke_in_range b Let_def)
qed

section \<open>Parsing\<close>

text \<open>A sentence that reaches to the last field read is parsed without leaving the buffer.\<close>

lemma gps_parse_total:
  assumes "terminated str" and "48 \<le> length (cstr str)"
  shows "\<exists>st'. gps_parse str st = Some st'"
proof -
  obtain rest where r: "str = cstr str @ NUL # rest" using terminated_split [OF assms(1)] by blast
  have "terminated (drop n str)" if "n \<le> 48" for n
    using assms(2) that by (subst r) simp
  then have a: "\<exists>i. atoi (drop n str) = Some i" if "n \<le> 48" for n
    using atoi_total that by blast
  have p: "peek str n = Some (str ! n)" if "n \<le> 48" for n
    using assms(2) that cstr_length_less [OF assms(1)] by (simp add: peek_def)
  have "\<exists>st'. gps_parse_gga str st = Some st'"
    using a [of 7] a [of 14] a [of 16] a [of 19] a [of 26] a [of 29] a [of 32] a [of 41] a [of 48]
    by (auto simp: gps_parse_gga_def p)
  moreover obtain b1 where "strncmp_eq str ''$GPGGA'' 6 = Some b1"
    using strncmp_eq_total [OF assms(1), of "''$GPGGA''" 6] by auto
  moreover obtain b2 where "strncmp_eq str ''$PGRMF'' 6 = Some b2"
    using strncmp_eq_total [OF assms(1), of "''$PGRMF''" 6] by auto
  ultimately show ?thesis using a [of 18] by (auto simp: gps_parse_def)
qed

text \<open>
  A position sentence whose fields have the widths of the receiver's documented format. The
  fields are digit strings: time, latitude in degrees, minutes and fraction, hemisphere,
  longitude likewise, fix quality, number of satellites, dilution of precision, altitude.
\<close>

record gga_fields =
  f_time :: string
  f_lat_d :: string
  f_lat_m :: string
  f_lat_f :: string
  f_ns :: char
  f_lon_d :: string
  f_lon_m :: string
  f_lon_f :: string
  f_ew :: char
  f_fix :: char
  f_sats :: string
  f_dop :: string
  f_alt :: string

definition gga_sentence :: "gga_fields \<Rightarrow> string \<Rightarrow> string" where
  "gga_sentence f tail =
     ''$GPGGA,'' @ f_time f @ '','' @ f_lat_d f @ f_lat_m f @ ''.'' @ f_lat_f f @ '','' @ [f_ns f] @ '','' @
     f_lon_d f @ f_lon_m f @ ''.'' @ f_lon_f f @ '','' @ [f_ew f] @ '','' @ [f_fix f] @ '','' @
     f_sats f @ '','' @ f_dop f @ '','' @ f_alt f @ ''.'' @ tail"

definition digits :: "nat \<Rightarrow> string \<Rightarrow> bool" where
  "digits n ds \<longleftrightarrow> length ds = n \<and> list_all is_digit ds"

definition gga_ok :: "gga_fields \<Rightarrow> bool" where
  "gga_ok f \<longleftrightarrow>
     digits 6 (f_time f) \<and> digits 2 (f_lat_d f) \<and> digits 2 (f_lat_m f) \<and> digits 4 (f_lat_f f) \<and>
     digits 3 (f_lon_d f) \<and> digits 2 (f_lon_m f) \<and> digits 4 (f_lon_f f) \<and>
     digits 2 (f_sats f) \<and> length (f_dop f) = 3 \<and>
     list_all is_digit (f_alt f) \<and> f_alt f \<noteq> [] \<and> length (f_alt f) \<le> 9"

lemma sep_not_digit [simp]: "\<not> is_digit (CHR '','')" "\<not> is_digit (CHR ''.'')"
  by (simp_all add: is_digit_def less_eq_char_def)

lemma atoi_field:
  assumes "\<exists>r. p = ds @ c # r" and "digits n ds" and "0 < n" and "n \<le> 9" and "\<not> is_digit c"
  shows "atoi p = Some (dec_val ds)"
  using assms by (auto simp: digits_def intro!: atoi_number)

lemma digits_append: "digits m xs \<Longrightarrow> digits n ys \<Longrightarrow> digits (m + n) (xs @ ys)"
  by (simp add: digits_def)

lemma dec_val_append: "dec_val (xs @ ys) = dec_val xs * 10 ^ length ys + dec_val ys"
  by (induction ys rule: rev_induct) (simp_all flip: append_assoc add: algebra_simps)

text \<open>Degrees and minutes run together are split again by the division.\<close>

lemma degrees_of_field:
  assumes "digits m xs" and "digits 2 ys"
  shows "dec_val (xs @ ys) sdiv 100 = dec_val xs"
proof -
  have "0 \<le> dec_val xs" "0 \<le> dec_val ys" "dec_val ys < 100"
    using assms dec_val_bounds [of xs] dec_val_bounds [of ys] by (auto simp: digits_def)
  then show ?thesis using assms by (simp add: dec_val_append digits_def sdiv_nonneg)
qed

lemma gps_parse_gga_fields:
  assumes ok: "gga_ok f" and tail: "str = gga_sentence f tail"
  shows "gps_parse str st = Some (st\<lparr>
    m_time := word_of_int (dec_val (f_time f)),
    m_lat := gps_coord (dec_val (f_lat_d f) * 100) (dec_val (f_lat_m f)) (dec_val (f_lat_f f)) (f_ns f = CHR ''N''),
    m_lon := gps_coord (dec_val (f_lon_d f) * 100) (dec_val (f_lon_m f)) (dec_val (f_lon_f f)) (f_ew f = CHR ''E''),
    m_sats_sol := word_of_int (dec_val (f_sats f)),
    m_alt := word_of_int (dec_val (f_alt f))\<rparr>)"
proof -
  note o = ok [unfolded gga_ok_def]
  have len: "length (f_time f) = 6" "length (f_lat_d f) = 2" "length (f_lat_m f) = 2" "length (f_lat_f f) = 4"
    "length (f_lon_d f) = 3" "length (f_lon_m f) = 2" "length (f_lon_f f) = 4" "length (f_sats f) = 2"
    "length (f_dop f) = 3" using o by (simp_all add: digits_def)
  have d: "\<exists>r. drop 7 str = f_time f @ CHR '','' # r"
    "\<exists>r. drop 14 str = (f_lat_d f @ f_lat_m f) @ CHR ''.'' # r"
    "\<exists>r. drop 16 str = f_lat_m f @ CHR ''.'' # r" "\<exists>r. drop 19 str = f_lat_f f @ CHR '','' # r"
    "\<exists>r. drop 26 str = (f_lon_d f @ f_lon_m f) @ CHR ''.'' # r"
    "\<exists>r. drop 29 str = f_lon_m f @ CHR ''.'' # r" "\<exists>r. drop 32 str = f_lon_f f @ CHR '','' # r"
    "\<exists>r. drop 41 str = f_sats f @ CHR '','' # r" "\<exists>r. drop 48 str = f_alt f @ CHR ''.'' # r"
    by (simp_all add: tail gga_sentence_def len)
  have a: "atoi (drop 7 str) = Some (dec_val (f_time f))"
    "atoi (drop 14 str) = Some (dec_val (f_lat_d f @ f_lat_m f))"
    "atoi (drop 16 str) = Some (dec_val (f_lat_m f))" "atoi (drop 19 str) = Some (dec_val (f_lat_f f))"
    "atoi (drop 26 str) = Some (dec_val (f_lon_d f @ f_lon_m f))"
    "atoi (drop 29 str) = Some (dec_val (f_lon_m f))" "atoi (drop 32 str) = Some (dec_val (f_lon_f f))"
    "atoi (drop 41 str) = Some (dec_val (f_sats f))" "atoi (drop 48 str) = Some (dec_val (f_alt f))"
    using o digits_append [of 2 "f_lat_d f" 2 "f_lat_m f"] digits_append [of 3 "f_lon_d f" 2 "f_lon_m f"]
      atoi_field [OF d(9), of "length (f_alt f)"]
    by (simp_all add: atoi_field [OF d(1), of 6] atoi_field [OF d(2), of 4] atoi_field [OF d(3), of 2]
        atoi_field [OF d(4), of 4] atoi_field [OF d(5), of 5] atoi_field [OF d(6), of 2]
        atoi_field [OF d(7), of 4] atoi_field [OF d(8), of 2] digits_def [of "length (f_alt f)"])
  have p: "peek str 24 = Some (f_ns f)" "peek str 37 = Some (f_ew f)"
    by (simp_all add: peek_def tail gga_sentence_def len nth_append)
  have s: "strncmp_eq str ''$GPGGA'' 6 = Some True" "strncmp_eq str ''$PGRMF'' 6 = Some False"
    by (simp_all add: tail gga_sentence_def numeral_eq_Suc)
  have c: "gps_coord (dec_val (xs @ ys)) m fr pos = gps_coord (dec_val xs * 100) m fr pos"
    if "digits n xs" "digits 2 ys" for n xs ys m fr pos
    using degrees_of_field [OF that] dec_val_bounds [of xs] that
    by (simp add: gps_coord_def sdiv_nonneg digits_def)
  show ?thesis using o
    by (simp add: gps_parse_def gps_parse_gga_def s a p c [of 2 "f_lat_d f"] c [of 3 "f_lon_d f"])
qed

text \<open>A parsed coordinate is the sentence's value up to a hundred-thousandth of a degree.\<close>

definition degrees :: "int \<Rightarrow> int \<Rightarrow> int \<Rightarrow> bool \<Rightarrow> rat" where
  "degrees d m f positive = (of_int d + (of_int m + of_int f / 10000) / 60) * (if positive then 1 else -1)"

lemma gps_coord_near:
  assumes d: "0 \<le> d" "d \<le> 180" and m: "0 \<le> m" "m < 100" and f: "0 \<le> f" "f < 10000"
  shows "fp_near (gps_coord (d * 100) m f positive) (degrees d m f positive) (1 / 100000)"
proof -
  have u: "ulp Binary64 0 = 1 / 2 ^ 54" "ulp Binary64 7 = 1 / 2 ^ 47" "ulp Binary64 (Suc 0) = 1 / 2 ^ 53"
    "ulp Binary64 8 = 1 / 2 ^ 46" "ulp Binary32 8 = 1 / 2 ^ 17"
    by (simp_all add: ulp_def power_int_def field_simps)
  have ex: "fp_val (fp_of_int Binary64 i) = Some (of_int i)" if "\<bar>i\<bar> \<le> 10000" for i
    using that by (intro fp_of_int_val) simp
  have c: "fp_val (fp_of_int Binary64 10000) = Some 10000" "fp_val (fp_of_int Binary64 60) = Some 60"
    using ex [of 10000] ex [of 60] by simp_all
  have ri: "0 \<le> (of_int d :: rat)" "(of_int d :: rat) \<le> 180" "0 \<le> (of_int m :: rat)" "(of_int m :: rat) \<le> 99"
    "0 \<le> (of_int f :: rat)" "(of_int f :: rat) \<le> 9999"
    using assms of_int_le_iff [of d 180, where 'a = rat] of_int_le_iff [of m 99, where 'a = rat]
      of_int_le_iff [of f 9999, where 'a = rat] by simp_all
  have 1: "fp_near (fp_div Binary64 (fp_of_int Binary64 f) (fp_of_int Binary64 10000))
      (of_int f / 10000) (0 / \<bar>10000\<bar> + ulp Binary64 0)"
    using ri f by (intro fp_near_div fp_near_exact ex c) simp_all
  have 2: "fp_near (fp_add Binary64 (fp_of_int Binary64 m)
        (fp_div Binary64 (fp_of_int Binary64 f) (fp_of_int Binary64 10000)))
      (of_int m + of_int f / 10000) (2 / 2 ^ 47)"
    using ri m by (intro fp_near_mono [OF fp_near_add [OF fp_near_exact [OF ex] 1, where m = 7]])
      (simp_all add: u abs_le_iff abs_less_iff field_simps)
  have 3: "fp_near (fp_div Binary64 (fp_add Binary64 (fp_of_int Binary64 m)
        (fp_div Binary64 (fp_of_int Binary64 f) (fp_of_int Binary64 10000))) (fp_of_int Binary64 60))
      ((of_int m + of_int f / 10000) / 60) (3 / 2 ^ 47)"
    using ri by (intro fp_near_mono [OF fp_near_div [OF 2 c(2), where m = 1]])
      (simp_all add: u field_simps)
  have 4: "fp_near (fp_add Binary64 (fp_of_int Binary64 d) (fp_div Binary64 (fp_add Binary64 (fp_of_int Binary64 m)
        (fp_div Binary64 (fp_of_int Binary64 f) (fp_of_int Binary64 10000))) (fp_of_int Binary64 60)))
      (of_int d + (of_int m + of_int f / 10000) / 60) (4 / 2 ^ 46)"
    using ri d by (intro fp_near_mono [OF fp_near_add [OF fp_near_exact [OF ex] 3, where m = 8]])
      (simp_all add: u field_simps)
  let ?s = "if positive then 1 else - 1 :: int"
  have 5: "fp_near (fp_mul Binary64 (fp_add Binary64 (fp_of_int Binary64 d) (fp_div Binary64 (fp_add Binary64 (fp_of_int Binary64 m)
        (fp_div Binary64 (fp_of_int Binary64 f) (fp_of_int Binary64 10000))) (fp_of_int Binary64 60))) (fp_of_int Binary64 ?s))
      ((of_int d + (of_int m + of_int f / 10000) / 60) * of_int ?s) (8 / 2 ^ 46)"
    using ri by (intro fp_near_mono [OF fp_near_mul [OF 4 ex, where m = 8]])
      (simp_all add: u field_simps)
  have 6: "fp_near (gps_coord (d * 100) m f positive)
      ((of_int d + (of_int m + of_int f / 10000) / 60) * of_int ?s) (8 / 2 ^ 46 + ulp Binary32 8)"
    unfolding gps_coord_def using ri d
    by (intro fp_near_cvt) (use 5 in \<open>simp_all add: sdiv_nonneg field_simps\<close>)
  have "degrees d m f positive = (of_int d + (of_int m + of_int f / 10000) / 60) * of_int ?s"
    by (simp add: degrees_def)
  with fp_near_mono [OF 6, of "1 / 100000"] show ?thesis by (simp add: u)
qed

text \<open>No sentence sets the number of satellites in view.\<close>

lemma gps_parse_sats: "gps_parse str st = Some st' \<Longrightarrow> m_sats st' = m_sats st"
  by (auto simp: gps_parse_def gps_parse_gga_def split: Option.bind_splits if_splits)

lemma gps_char_sats: "gps_char t c = Some t' \<Longrightarrow> m_sats (gps_st t') = m_sats (gps_st t)"
  by (auto simp: gps_char_def dest: gps_parse_sats split: Option.bind_splits if_splits)

lemma gps_run_sats:
  "run_calls gps_char t cs = Some t' \<Longrightarrow> m_sats (gps_st t') = m_sats (gps_st t)"
  by (induction cs arbitrary: t) (auto dest: gps_char_sats split: Option.bind_splits)

end
