(* ===== verification/Http.thy ===== *)
theory Http
  imports Api Ina3221 Gps
begin

text \<open>
  \<open>http.c\<close>, the web server: one request per connection, answered from the prefix of its
  first line. The record \<open>station\<close> extends \<open>robot\<close> by the states of the modules the status
  page reports, and by the pins of the power switches.

  \<open>data\<close> is the memory that \<open>netbuf_data\<close> points to; the request is not copied or
  terminated, so a comparison that leaves it is an access outside. The response is the list
  of strings given to \<open>netconn_write\<close>. The page, the script and the icon are constant data
  of the program and a parameter \<open>assets\<close> here.
\<close>

record http_assets =
  as_page :: string
  as_jquery :: string
  as_favicon :: string

record station = robot +
  ocxo_s :: ocxo_state
  gps_s :: gps_state
  ina_s :: ina_state
  api_s :: api_state
  pwr_lna :: bool
  pwr_ext5 :: bool
  pwr_ext24 :: bool

definition CRLF :: string where "CRLF = [CR, LF]"

definition HTTP_PRINT :: "string \<Rightarrow> string list" where
  "HTTP_PRINT str = [str, [LF]]"

definition print_ack :: "string list" where
  "print_ack = HTTP_PRINT (''HTTP/1.1 200 OK'' @ CRLF @ ''Content-type: text/plain'' @ CRLF @ CRLF @ ''OK'')"

definition print_debug :: "char list \<Rightarrow> 'a robot_scheme \<Rightarrow> (string list \<times> 'a robot_scheme) option" where
  "print_debug str r =
     do { (b, str) \<leftarrow> debug_emty_bucket (bucket r) str;
          _ \<leftarrow> strlen str;
          Some (HTTP_PRINT (''HTTP/1.1 200 OK'' @ CRLF @ ''Content-type: text/plain'' @ CRLF) @
                HTTP_PRINT (cstr str), r\<lparr>bucket := b\<rparr>) }"

section \<open>The status document\<close>

text \<open>\<open>len += chsnprintf(&buf[len], sizeof(buf)-len, fmt, ...)\<close>\<close>

definition json_part ::
  "ub_conv \<Rightarrow> string \<Rightarrow> varg list \<Rightarrow> u32 \<times> char list \<Rightarrow> (u32 \<times> char list) option" where
  "json_part ub fmt args lb =
     (let (len, buf) = lb in
      if unat len \<le> length buf
      then do { (n, rest) \<leftarrow> chsnprintf ub (drop (unat len) buf) (1024 - len) fmt args;
                Some (len + n, take (unat len) buf @ rest) }
      else None)"

definition MOTOR_STATE :: "motor_state \<Rightarrow> string" where
  "MOTOR_STATE s =
     (case s of
        MOTOR_STATE_CONST_TORQUE \<Rightarrow> ''CONST_TORQUE''
      | MOTOR_STATE_CONST_SPEED \<Rightarrow> ''CONST_SPEED''
      | MOTOR_STATE_TARGET_POSITION \<Rightarrow> ''TARGET_POSITION'')"

abbreviation VS8 :: "s8 \<Rightarrow> varg" where "VS8 x \<equiv> VInt (word_of_int (sint x))"
abbreviation VS16 :: "s16 \<Rightarrow> varg" where "VS16 x \<equiv> VInt (word_of_int (sint x))"
abbreviation VU16 :: "u16 \<Rightarrow> varg" where "VU16 x \<equiv> VInt (word_of_int (uint x))"
abbreviation VU8 :: "u8 \<Rightarrow> varg" where "VU8 x \<equiv> VInt (word_of_int (uint x))"
abbreviation VBool :: "bool \<Rightarrow> varg" where "VBool b \<equiv> VInt (if b then 1 else 0)"
abbreviation VLit :: "string \<Rightarrow> varg" where "VLit s \<equiv> VStr (Some (s @ [NUL]))"

definition fmt_mde :: string where
  \<open>fmt_mde = ''{"mde":{"mot":[%d,%d,%d],"enc":{"pos":%d,"spd":%d,"off":%d}},''\<close>

definition args_mde :: "'a station_scheme \<Rightarrow> varg list" where
  "args_mde s =
     [VS8 (mde_get_trq_az (mde s)), VS8 (mde_get_trq_el (mde s)), VS8 (mde_get_trq_sk (mde s)),
      VU16 (mde_get_az_enc_pos (mde s)), VS16 (mde_get_az_enc_spd (mde s)), VU16 (mde_get_az_enc_off (mde s))]"

definition fmt_imu :: string where
  \<open>fmt_imu = ''"imu":{"accel":[%d,%d,%d],"rot":[%d,%d,%d],"el":{"pos":%d,"spd":%d,"off":%d}},''\<close>

definition args_imu :: "'a station_scheme \<Rightarrow> varg list" where
  "args_imu s =
     [VS16 (imu_get_accel_x (imu s)), VS16 (imu_get_accel_y (imu s)), VS16 (imu_get_accel_z (imu s)),
      VU16 (imu_get_rot_x (imu s)), VU16 (imu_get_rot_y (imu s)), VU16 (imu_get_rot_z (imu s)),
      VS16 (imu_get_el_pos (imu s)), VS16 (imu_get_el_spd (imu s)), VS16 (imu_get_el_off (imu s))]"

definition fmt_ctrl :: string where
  \<open>fmt_ctrl = ''"ctrl":{"state":["%s","%s","%s"],"tgt":[%d,%d,%d]},''\<close>

definition args_ctrl :: "'a station_scheme \<Rightarrow> varg list" where
  "args_ctrl s =
     [VLit (MOTOR_STATE (az_get_state s)), VLit (MOTOR_STATE (el_get_state s)), VLit (MOTOR_STATE (sk_get_state s)),
      VU16 (az_get_tgt_pos s), VS16 (el_get_tgt_pos s), VS16 (sk_get_tgt_pos s)]"

definition fmt_pwr :: string where
  \<open>fmt_pwr = ''"pwr":{"ext5":[%d,%d],"ext24":[%d,%d],"mde":[%d,%d],"ocxo":[%d,%d],"lna1":[%d,%d],"lna2":[%d,%d]},''\<close>

definition reading :: "ub_conv \<Rightarrow> mon_port \<Rightarrow> mon_compute \<Rightarrow> 'a station_scheme \<Rightarrow> s32" where
  "reading ub p c s = snd (ina3221_get_current_reading ub \<lparr>ports = p, compute = c\<rparr> (ina_s s))"

definition args_pwr :: "ub_conv \<Rightarrow> 'a station_scheme \<Rightarrow> varg list" where
  "args_pwr ub s =
     [VInt (reading ub MON_PORT_1 MON_NMVOLT s), VInt (reading ub MON_PORT_1 MON_NMWATT s),
      VInt (reading ub MON_PORT_2 MON_NMVOLT s), VInt (reading ub MON_PORT_2 MON_NMWATT s),
      VInt (reading ub MON_PORT_3 MON_NMVOLT s), VInt (reading ub MON_PORT_3 MON_NMWATT s),
      VInt (reading ub MON_PORT_6 MON_NMVOLT s), VInt (- reading ub MON_PORT_6 MON_NMWATT s),
      VInt (reading ub MON_PORT_4 MON_NMVOLT s), VInt (reading ub MON_PORT_4 MON_NMWATT s),
      VInt (reading ub MON_PORT_5 MON_NMVOLT s), VInt (reading ub MON_PORT_5 MON_NMWATT s)]"

definition fmt_gps :: string where
  \<open>fmt_gps = ''"gps":{"date":%d,"time":%d,"lat":%.5f,"lon":%.5f,"alt":%d,"sats":%d,"sats_sol":%d,"pulse":%d},''\<close>

definition args_gps :: "'a station_scheme \<Rightarrow> varg list" where
  "args_gps s =
     (let d = get_gps_data (now s) (ocxo_s s) (gps_s s)
      in [VInt (gd_date d), VInt (gd_time d), VDbl (fp_cvt Binary64 (gd_lat d)), VDbl (fp_cvt Binary64 (gd_lon d)),
          VS16 (gd_alt d), VU8 (gd_sats d), VU8 (gd_sats_sol d), VBool (gd_pulse d)])"

definition fmt_ocxo :: string where
  \<open>fmt_ocxo = ''"ocxo":{"cntr":%d,"dac":%d},''\<close>

definition args_ocxo :: "'a station_scheme \<Rightarrow> varg list" where
  "args_ocxo s = [VInt (ocxo_get_cntr (ocxo_s s)), VU16 (ocxo_get_dac_val (ocxo_s s))]"

definition fmt_end :: string where
  \<open>fmt_end = ''"api_connected":%d,"time":%d}''\<close>

definition args_end :: "'a station_scheme \<Rightarrow> varg list" where
  "args_end s = [VBool (api_is_connected (api_s s)), VInt (now s)]"

definition json_text :: "ub_conv \<Rightarrow> char list \<Rightarrow> 'a station_scheme \<Rightarrow> (u32 \<times> char list) option" where
  "json_text ub buf s =
     do { lb \<leftarrow> chsnprintf ub buf 1024 fmt_mde (args_mde s);
          lb \<leftarrow> json_part ub fmt_imu (args_imu s) lb;
          lb \<leftarrow> json_part ub fmt_ctrl (args_ctrl s) lb;
          lb \<leftarrow> json_part ub fmt_pwr (args_pwr ub s) lb;
          lb \<leftarrow> json_part ub fmt_gps (args_gps s) lb;
          lb \<leftarrow> json_part ub fmt_ocxo (args_ocxo s) lb;
          json_part ub fmt_end (args_end s) lb }"

definition print_json :: "ub_conv \<Rightarrow> char list \<Rightarrow> 'a station_scheme \<Rightarrow> string list option" where
  "print_json ub buf s =
     do { (_, buf) \<leftarrow> json_text ub buf s;
          _ \<leftarrow> strlen buf;
          Some (HTTP_PRINT (''HTTP/1.1 200 OK'' @ CRLF @ ''Content-type: application/json'' @ CRLF @ CRLF) @
                HTTP_PRINT (cstr buf)) }"

section \<open>Requests\<close>

text \<open>
  The chain of \<open>if(strncmp(...) == 0) ... else if ...\<close>: the first prefix that matches
  chooses the handler.
\<close>

fun route :: "(string \<times> (char list \<Rightarrow> 'b option)) list \<Rightarrow> (char list \<Rightarrow> 'b option) \<Rightarrow> char list \<Rightarrow> 'b option" where
  "route [] otherwise data = otherwise data"
| "route ((pre, handler) # rs) otherwise data =
     do { m \<leftarrow> strncmp_eq data pre (length pre);
          if m then handler data else route rs otherwise data }"

definition on_number ::
  "nat \<Rightarrow> (int \<Rightarrow> 's \<Rightarrow> 's) \<Rightarrow> 's \<Rightarrow> char list \<Rightarrow> (string list \<times> 's) option" where
  "on_number off f s data = do { i \<leftarrow> atoi (drop off data); Some (print_ack, f i s) }"

definition http_routes ::
  "ub_conv \<Rightarrow> http_assets \<Rightarrow> char list \<Rightarrow> 'a station_scheme \<Rightarrow>
     (string \<times> (char list \<Rightarrow> (string list \<times> 'a station_scheme) option)) list" where
  "http_routes ub assets buf s =
     [(''GET /state.json'', \<lambda>data. map_option (\<lambda>out. (out, s)) (print_json ub buf s)),
      (''GET /favicon.ico'', \<lambda>data. Some ([as_favicon assets], s)),
      (''GET /jquery.js'', \<lambda>data.
         Some (HTTP_PRINT (''HTTP/1.1 200 OK'' @ CRLF @ ''Content-type: text/javascript'' @ CRLF @ CRLF) @
               HTTP_PRINT (as_jquery assets), s)),
      (''GET / '', \<lambda>data. Some (HTTP_PRINT (as_page assets), s)),
      (''GET /set/trq/az/'', on_number 16 (\<lambda>i. az_set_const_trq (word_of_int i)) s),
      (''GET /set/trq/el/'', on_number 16 (\<lambda>i. el_set_const_trq (word_of_int i)) s),
      (''GET /set/trq/sk/'', on_number 16 (\<lambda>i. sk_set_const_trq (word_of_int i)) s),
      (''GET /set/tar/az/'', on_number 16 (\<lambda>i. az_set_tgt_pos (word_of_int i)) s),
      (''GET /set/tar/el/'', on_number 16 (\<lambda>i. el_set_tgt_pos (word_of_int i)) s),
      (''GET /set/tar/sk/'', on_number 16 (\<lambda>i. sk_set_tgt_pos (word_of_int i)) s),
      (''GET /set/off/az/'', on_number 16 (\<lambda>i. upd_mde (mde_set_az_enc_off (word_of_int i))) s),
      (''GET /set/off/el/'', on_number 16 (\<lambda>i s. s\<lparr>imu := imu_set_el_off (word_of_int i) (imu s)\<rparr>) s),
      (''GET /sw/lna/'', on_number 12 (\<lambda>i s. s\<lparr>pwr_lna := i \<noteq> 0\<rparr>) s),
      (''GET /sw/mde/'', on_number 12 (\<lambda>i. upd_mde (if i \<noteq> 0 then mde_power_up else mde_power_down)) s),
      (''GET /sw/ext5/'', on_number 13 (\<lambda>i s. s\<lparr>pwr_ext5 := i \<noteq> 0\<rparr>) s),
      (''GET /sw/ext24/'', on_number 14 (\<lambda>i s. s\<lparr>pwr_ext24 := i \<noteq> 0\<rparr>) s),
      (''GET /calibrate'', \<lambda>data. Some (print_ack, az_calibrate s)),
      (''GET /debug'', \<lambda>data. print_debug (replicate DEBUG_BUCKET_SIZE NUL) s)]"

definition http_not_found :: "'s \<Rightarrow> char list \<Rightarrow> (string list \<times> 's) option" where
  "http_not_found s data =
     Some (HTTP_PRINT (''HTTP/1.1 404 Not Found'' @ CRLF) @ HTTP_PRINT (''404 Not Found'' @ CRLF @ CRLF), s)"

text \<open>\<open>None\<close> for the request stands for an error of \<open>netconn_recv\<close>.\<close>

definition http_server_serve ::
  "ub_conv \<Rightarrow> http_assets \<Rightarrow> char list \<Rightarrow> char list option \<Rightarrow> 'a station_scheme \<Rightarrow>
     (string list \<times> 'a station_scheme) option" where
  "http_server_serve ub assets buf request s =
     (case request of
        None \<Rightarrow> Some ([], s)
      | Some data \<Rightarrow> route (http_routes ub assets buf s) (http_not_found s) data)"

section \<open>The status document fits its buffer\<close>

definition json_holds :: "string \<Rightarrow> u32 \<times> char list \<Rightarrow> bool" where
  "json_holds s lb \<longleftrightarrow>
     unat (fst lb) = length s \<and> length (snd lb) = 1024 \<and> terminated (snd lb) \<and> cstr (snd lb) = s"

lemma json_part_step:
  assumes h: "json_holds s lb" and em: "emits ub (fmt @ [NUL]) args n" and le: "length s + n \<le> 1023"
  shows "\<exists>out lb'. chvprintf ub (fmt @ [NUL]) args = Some out \<and> json_part ub fmt args lb = Some lb' \<and>
    json_holds (s @ out) lb' \<and> length out \<le> n"
proof -
  obtain len buf where lb: "lb = (len, buf)" by fastforce
  have hb: "unat len = length s" "length buf = 1024" "terminated buf" "cstr buf = s"
    using h by (simp_all add: json_holds_def lb)
  obtain rest where buf: "buf = s @ NUL # rest" and nul: "NUL \<notin> set s"
    using terminated_split [OF hb(3)] hb(4) NUL_notin_cstr [of buf] by auto
  obtain out where o: "chvprintf ub (fmt @ [NUL]) args = Some out" "NUL \<notin> set out" "length out \<le> n"
    using em by (auto simp: emits_def)
  have len: "len \<le> 1024" using hb(1) le by (simp add: word_le_nat_alt)
  then have sz: "unat (1024 - len) = 1024 - length s" using hb(1) by (simp add: unat_sub)
  have "0 < (1024 - len :: u32)" "unat (1024 - len) \<le> length (drop (unat len) buf)"
    using sz le hb by (simp_all add: word_less_nat_alt)
  from chvsnprintf_effect [OF this o(1,2)] obtain str' where
    c: "chsnprintf ub (drop (unat len) buf) (1024 - len) fmt args = Some (word_of_int (int (length out)), str')"
      "length str' = length (drop (unat len) buf)" "terminated str'" "cstr str' = take (unat (1024 - len) - 1) out"
    unfolding chsnprintf_def by blast
  have cs: "cstr str' = out" using c(4) sz le o(3) by simp
  obtain r' where s': "str' = out @ NUL # r'" using terminated_split [OF c(3)] cs by auto
  have n: "unat (len + word_of_int (int (length out))) = length s + length out"
    using hb(1) le o(3) by (simp add: unat_word_ariths(1) unat_of_nat)
  have "json_part ub fmt args lb = Some (len + word_of_int (int (length out)), s @ str')"
    using hb c(1) by (simp add: json_part_def lb buf)
  moreover have "json_holds (s @ out) (len + word_of_int (int (length out)), s @ str')"
    using n c(2) hb nul o(2) cstr_append_NUL [of "s @ out" r'] terminated_append_NUL [of "s @ out" r']
    by (simp add: json_holds_def s')
  ultimately show ?thesis using o by blast
qed

lemma emits_le: "emits ub fmt ap n \<Longrightarrow> n \<le> m \<Longrightarrow> emits ub fmt ap m"
  by (auto simp: emits_def intro: le_trans)

lemma emits_state: "emits ub fmt ap n \<Longrightarrow> emits ub (CHR ''%'' # CHR ''s'' # fmt) (VLit (MOTOR_STATE x) # ap) (15 + n)"
  by (rule emits_s) (cases x; simp add: MOTOR_STATE_def terminated_def cstr_def)+

lemma args_emit:
  "emits ub (fmt_mde @ [NUL]) (args_mde s) 115"
  "emits ub (fmt_imu @ [NUL]) (args_imu s) 159"
  "emits ub (fmt_ctrl @ [NUL]) (args_ctrl s) 117"
  "emits ub (fmt_pwr @ [NUL]) (args_pwr ub s) 206"
  "emits ub (fmt_gps @ [NUL]) (args_gps s) 174"
  "emits ub (fmt_ocxo @ [NUL]) (args_ocxo s) 46"
  "emits ub (fmt_end @ [NUL]) (args_end s) 47"
  unfolding fmt_mde_def fmt_imu_def fmt_ctrl_def fmt_pwr_def fmt_gps_def fmt_ocxo_def fmt_end_def append.simps
    args_mde_def args_imu_def args_ctrl_def args_pwr_def args_gps_def args_ocxo_def args_end_def Let_def
  subgoal
    by (rule emits_le, (rule emits_end emits_state emits_d emits_f5 emits_lit | simp only: char.inject simp_thms)+)
  subgoal
    by (rule emits_le, (rule emits_end emits_state emits_d emits_f5 emits_lit | simp only: char.inject simp_thms)+)
  subgoal
    by (rule emits_le, (rule emits_end emits_state emits_d emits_f5 emits_lit | simp only: char.inject simp_thms)+)
  subgoal
    by (rule emits_le, (rule emits_end emits_state emits_d emits_f5 emits_lit | simp only: char.inject simp_thms)+)
  subgoal
    by (rule emits_le, (rule emits_end emits_state emits_d emits_f5 emits_lit | simp only: char.inject simp_thms)+)
  subgoal
    by (rule emits_le, (rule emits_end emits_state emits_d emits_f5 emits_lit | simp only: char.inject simp_thms)+)
  subgoal
    by (rule emits_le, (rule emits_end emits_state emits_d emits_f5 emits_lit | simp only: char.inject simp_thms)+)
  done

text \<open>
  The document is the concatenation of its seven parts, each as \<open>chvprintf\<close> formats it, and
  never reaches the end of the buffer.
\<close>

lemma json_text_complete:
  assumes "length buf = 1024"
  shows "\<exists>t1 t2 t3 t4 t5 t6 t7 lb.
    chvprintf ub (fmt_mde @ [NUL]) (args_mde s) = Some t1 \<and>
    chvprintf ub (fmt_imu @ [NUL]) (args_imu s) = Some t2 \<and>
    chvprintf ub (fmt_ctrl @ [NUL]) (args_ctrl s) = Some t3 \<and>
    chvprintf ub (fmt_pwr @ [NUL]) (args_pwr ub s) = Some t4 \<and>
    chvprintf ub (fmt_gps @ [NUL]) (args_gps s) = Some t5 \<and>
    chvprintf ub (fmt_ocxo @ [NUL]) (args_ocxo s) = Some t6 \<and>
    chvprintf ub (fmt_end @ [NUL]) (args_end s) = Some t7 \<and>
    json_text ub buf s = Some lb \<and> json_holds (t1 @ t2 @ t3 @ t4 @ t5 @ t6 @ t7) lb \<and>
    length (t1 @ t2 @ t3 @ t4 @ t5 @ t6 @ t7) \<le> 864"
proof -
  have "(0 :: u32) < 1024" "unat (1024 :: u32) \<le> length buf" using assms by simp_all
  obtain t1 where t1: "chvprintf ub (fmt_mde @ [NUL]) (args_mde s) = Some t1" "NUL \<notin> set t1" "length t1 \<le> 115"
    using args_emit(1) [of ub s] by (auto simp: emits_def)
  from chvsnprintf_effect [OF \<open>(0 :: u32) < 1024\<close> \<open>unat (1024 :: u32) \<le> length buf\<close> t1(1,2)]
  obtain b1 where b1: "chsnprintf ub buf 1024 fmt_mde (args_mde s) = Some (word_of_int (int (length t1)), b1)"
    "length b1 = 1024" "terminated b1" "cstr b1 = t1"
    using assms t1(3) unfolding chsnprintf_def by auto
  have h1: "json_holds t1 (word_of_int (int (length t1)), b1)"
    using b1 t1(3) by (simp add: json_holds_def unat_of_nat)
  obtain t2 l2 where t2: "chvprintf ub (fmt_imu @ [NUL]) (args_imu s) = Some t2"
    "json_part ub fmt_imu (args_imu s) (word_of_int (int (length t1)), b1) = Some l2" "json_holds (t1 @ t2) l2" "length t2 \<le> 159"
    using json_part_step [OF h1 args_emit(2) [of ub s]] t1(3) by auto
  obtain t3 l3 where t3: "chvprintf ub (fmt_ctrl @ [NUL]) (args_ctrl s) = Some t3"
    "json_part ub fmt_ctrl (args_ctrl s) l2 = Some l3" "json_holds ((t1 @ t2) @ t3) l3" "length t3 \<le> 117"
    using json_part_step [OF t2(3) args_emit(3) [of ub s]] t1(3) t2(4) by auto
  obtain t4 l4 where t4: "chvprintf ub (fmt_pwr @ [NUL]) (args_pwr ub s) = Some t4"
    "json_part ub fmt_pwr (args_pwr ub s) l3 = Some l4" "json_holds (((t1 @ t2) @ t3) @ t4) l4" "length t4 \<le> 206"
    using json_part_step [OF t3(3) args_emit(4) [of ub s]] t1(3) t2(4) t3(4) by auto
  obtain t5 l5 where t5: "chvprintf ub (fmt_gps @ [NUL]) (args_gps s) = Some t5"
    "json_part ub fmt_gps (args_gps s) l4 = Some l5" "json_holds ((((t1 @ t2) @ t3) @ t4) @ t5) l5" "length t5 \<le> 174"
    using json_part_step [OF t4(3) args_emit(5) [of ub s]] t1(3) t2(4) t3(4) t4(4) by auto
  obtain t6 l6 where t6: "chvprintf ub (fmt_ocxo @ [NUL]) (args_ocxo s) = Some t6"
    "json_part ub fmt_ocxo (args_ocxo s) l5 = Some l6" "json_holds (((((t1 @ t2) @ t3) @ t4) @ t5) @ t6) l6" "length t6 \<le> 46"
    using json_part_step [OF t5(3) args_emit(6) [of ub s]] t1(3) t2(4) t3(4) t4(4) t5(4) by auto
  obtain t7 l7 where t7: "chvprintf ub (fmt_end @ [NUL]) (args_end s) = Some t7"
    "json_part ub fmt_end (args_end s) l6 = Some l7" "json_holds ((((((t1 @ t2) @ t3) @ t4) @ t5) @ t6) @ t7) l7" "length t7 \<le> 47"
    using json_part_step [OF t6(3) args_emit(7) [of ub s]] t1(3) t2(4) t3(4) t4(4) t5(4) t6(4) by auto
  have "json_text ub buf s = Some l7"
    unfolding json_text_def by (simp only: bind.bind_lunit b1(1) t2(2) t3(2) t4(2) t5(2) t6(2) t7(2))
  then show ?thesis
    using t1(1,3) t2(1,4) t3(1,4) t4(1,4) t5(1,4) t6(1,4) t7(1,3,4) by (intro exI) auto
qed

lemma print_json_total: "length buf = 1024 \<Longrightarrow> \<exists>out. print_json ub buf s = Some out"
proof -
  assume "length buf = 1024"
  from json_text_complete [OF this, of ub s] obtain t lb where "json_text ub buf s = Some lb" "json_holds t lb"
    by blast
  then show ?thesis
    by (cases lb) (auto simp: print_json_def json_holds_def strlen_terminated)
qed

section \<open>What a request can change\<close>

text \<open>A request acts on the antenna only through the commands of the web client; besides, it switches power pins.\<close>

definition http_effect :: "'a station_scheme \<Rightarrow> 'a station_scheme \<Rightarrow> bool" where
  "http_effect s s' \<longleftrightarrow>
     (\<exists>cmds lna ext5 ext24. list_all (client_may HttpClient) cmds \<and>
        s' = (fold do_command cmds s)\<lparr>pwr_lna := lna, pwr_ext5 := ext5, pwr_ext24 := ext24\<rparr>)"

lemma http_effect_none: "http_effect s s"
  unfolding http_effect_def
  by (intro exI [of _ "[]"] exI [of _ "pwr_lna s"] exI [of _ "pwr_ext5 s"] exI [of _ "pwr_ext24 s"]) simp

lemma pins_same: "s\<lparr>pwr_lna := pwr_lna s, pwr_ext5 := pwr_ext5 s, pwr_ext24 := pwr_ext24 s\<rparr> = s"
  by simp

lemma do_command_pins:
  "pwr_lna (do_command cmd s) = pwr_lna s" "pwr_ext5 (do_command cmd s) = pwr_ext5 s"
  "pwr_ext24 (do_command cmd s) = pwr_ext24 s"
  by (cases cmd; simp add: ctrl_commands Let_def)+

lemma http_effect_command: "client_may HttpClient cmd \<Longrightarrow> http_effect s (do_command cmd s)"
  unfolding http_effect_def
  by (intro exI [of _ "[cmd]"] exI [of _ "pwr_lna s"] exI [of _ "pwr_ext5 s"] exI [of _ "pwr_ext24 s"])
    (simp add: pins_same flip: do_command_pins [of cmd s] del: do_command.simps)

lemma http_effect_pins:
  "http_effect s (s\<lparr>pwr_lna := b\<rparr>)" "http_effect s (s\<lparr>pwr_ext5 := b\<rparr>)" "http_effect s (s\<lparr>pwr_ext24 := b\<rparr>)"
  unfolding http_effect_def
  by (intro exI [of _ "[]"] exI [of _ b] exI [of _ "pwr_lna s"] exI [of _ "pwr_ext5 s"] exI [of _ "pwr_ext24 s"]; simp)+

lemma route_cases:
  "route rs d data = Some x \<Longrightarrow> (\<exists>p h. (p, h) \<in> set rs \<and> h data = Some x) \<or> d data = Some x"
proof (induction rs)
  case (Cons ph rs)
  then show ?case by (cases ph) (auto split: Option.bind_splits if_splits)
qed simp

lemma on_number_effect: "on_number off f s data = Some (out, s') \<Longrightarrow> \<exists>i. s' = f i s"
  by (auto simp: on_number_def split: Option.bind_splits)

lemma print_debug_effect: "print_debug str s = Some (out, s') \<Longrightarrow> s' = do_command CmdEmptyBucket s"
  by (auto simp: print_debug_def debug_emty_bucket_def poke_def split: Option.bind_splits if_splits)

lemma route_effect:
  assumes "(p, h) \<in> set (http_routes ub assets buf s)" and "h data = Some (out, s')"
  shows "http_effect s s'"
proof -
  have c: "http_effect s (az_set_const_trq t s)" "http_effect s (el_set_const_trq t s)" "http_effect s (sk_set_const_trq t s)"
    "http_effect s (az_set_tgt_pos ap s)" "http_effect s (el_set_tgt_pos ep s)" "http_effect s (sk_set_tgt_pos ep s)"
    "http_effect s (upd_mde (mde_set_az_enc_off ap) s)" "http_effect s (s\<lparr>imu := imu_set_el_off ep (imu s)\<rparr>)"
    "http_effect s (upd_mde mde_power_up s)" "http_effect s (upd_mde mde_power_down s)"
    "http_effect s (az_calibrate s)" "http_effect s (do_command CmdEmptyBucket s)" for t ap ep
    using http_effect_command [of "CmdAzTrq t" s] http_effect_command [of "CmdElTrq t" s] http_effect_command [of "CmdSkTrq t" s]
      http_effect_command [of "CmdAzPos ap" s] http_effect_command [of "CmdElPos ep" s] http_effect_command [of "CmdSkPos ep" s]
      http_effect_command [of "CmdAzEncOff ap" s] http_effect_command [of "CmdElOff ep" s] http_effect_command [of CmdPowerUp s]
      http_effect_command [of CmdPowerDown s] http_effect_command [of CmdAzCalibrate s] http_effect_command [of CmdEmptyBucket s]
    by simp_all
  show ?thesis
    using assms unfolding http_routes_def
    by (auto dest!: on_number_effect print_debug_effect simp del: do_command.simps intro: c http_effect_none http_effect_pins)
qed

lemma http_serve_effect:
  "http_server_serve ub assets buf req s = Some (out, s') \<Longrightarrow> http_effect s s'"
  by (auto simp: http_server_serve_def http_not_found_def http_effect_none split: option.splits
      dest!: route_cases intro: route_effect)

section \<open>Numbers in requests\<close>

text \<open>
  The numbers of the status document are read back by the requests: the text printed for a
  position, sent in a set request, sets that position.
\<close>

lemma http_set_number:
  assumes "\<not> is_digit c"
  shows "http_server_serve ub assets buf (Some (''GET /set/tar/az/'' @ dec_text i @ c # rest)) s =
      Some (print_ack, az_set_tgt_pos (word_of_int (sint i)) s)"
    "http_server_serve ub assets buf (Some (''GET /set/tar/el/'' @ dec_text i @ c # rest)) s =
      Some (print_ack, el_set_tgt_pos (word_of_int (sint i)) s)"
    "http_server_serve ub assets buf (Some (''GET /set/trq/az/'' @ dec_text i @ c # rest)) s =
      Some (print_ack, az_set_const_trq (word_of_int (sint i)) s)"
    "http_server_serve ub assets buf (Some (''GET /set/trq/el/'' @ dec_text i @ c # rest)) s =
      Some (print_ack, el_set_const_trq (word_of_int (sint i)) s)"
    "http_server_serve ub assets buf (Some (''GET /set/off/az/'' @ dec_text i @ c # rest)) s =
      Some (print_ack, upd_mde (mde_set_az_enc_off (word_of_int (sint i))) s)"
  using atoi_dec_text [OF assms, of i rest]
  by (simp_all add: http_server_serve_def http_routes_def on_number_def numeral_eq_Suc)

lemma printed_u16: "word_of_int (sint (word_of_int (uint (x :: u16)) :: u32)) = x"
proof -
  have "sint (word_of_int (uint x) :: u32) = uint x" by (rule sint32_id) (use uint16_range [of x] in linarith)+
  then show ?thesis by (simp only: word_of_int_uint)
qed

lemma printed_s16: "word_of_int (sint (word_of_int (sint (x :: s16)) :: u32)) = x"
proof -
  have "sint (word_of_int (sint x) :: u32) = sint x" by (rule sint32_id) (use sint16_range [of x] in linarith)+
  then show ?thesis by (simp only: of_int_sint scast_id id_apply)
qed

lemma printed_s8: "word_of_int (sint (word_of_int (sint (x :: s8)) :: u32)) = x"
proof -
  have "sint (word_of_int (sint x) :: u32) = sint x" by (rule sint32_id) (use sint8_range [of x] in linarith)+
  then show ?thesis by (simp only: of_int_sint scast_id id_apply)
qed

text \<open>Anything that is not a GET request is answered with an error and changes nothing.\<close>

lemma http_unknown:
  assumes "c \<noteq> CHR ''G''"
  shows "http_server_serve ub assets buf (Some (c # data)) s = http_not_found s (c # data)"
  using assms by (simp add: http_server_serve_def http_routes_def)

end
