(* ===== verification/Ring.thy ===== *)
theory Ring
  imports CString "HOL-Library.Sublist"
begin

text \<open>
  Ring buffers: what a buffer of \<open>length buf\<close> slots holds when the next item to read is at
  index \<open>rd\<close> and there are \<open>cnt\<close> of them, and how writing and reading change that. The queues
  of the serial driver and the mailboxes of the kernel are instances. The contract that their
  clients use is the locale \<open>bounded_fifo\<close>.
\<close>

definition ring :: "'a list \<Rightarrow> nat \<Rightarrow> nat \<Rightarrow> 'a list" where
  "ring buf rd cnt = map (\<lambda>k. buf ! ((rd + k) mod length buf)) [0..<cnt]"

text \<open>\<open>p++; if (p >= top) p = buffer;\<close>\<close>

definition advance :: "nat \<Rightarrow> nat \<Rightarrow> nat" where
  "advance n p = (if n \<le> p + 1 then 0 else p + 1)"

lemma advance_mod: "p < n \<Longrightarrow> advance n p = (p + 1) mod n"
  by (cases "p + 1 = n") (auto simp: advance_def)

lemma mod_length_less: "c < length buf \<Longrightarrow> i mod length buf < length buf"
  by (rule mod_less_divisor) linarith

lemma advance_less: "0 < n \<Longrightarrow> advance n p < n"
  by (simp add: advance_def)

lemma length_ring [simp]: "length (ring buf rd cnt) = cnt"
  by (simp add: ring_def)

lemma ring_0 [simp]: "ring buf rd 0 = []"
  by (simp add: ring_def)

lemma mod_add_neq: "(a :: nat) < b \<Longrightarrow> b < n \<Longrightarrow> (r + a) mod n \<noteq> (r + b) mod n"
proof
  assume "a < b" "b < n" "(r + a) mod n = (r + b) mod n"
  then have "n dvd (r + b) - (r + a)" by (metis add_le_cancel_left less_or_eq_imp_le mod_eq_dvd_iff_nat)
  then show False using \<open>a < b\<close> \<open>b < n\<close> by (auto dest: dvd_imp_le)
qed

lemma ring_put:
  assumes "cnt < length buf"
  shows "ring (buf[(rd + cnt) mod length buf := b]) rd (Suc cnt) = ring buf rd cnt @ [b]"
proof -
  have "(rd + cnt) mod length buf < length buf" using assms by (rule mod_length_less)
  then show ?thesis
    using assms mod_add_neq [of _ cnt "length buf" rd, symmetric] by (auto simp: ring_def)
qed

lemma ring_get:
  assumes "0 < cnt"
  shows "ring buf rd cnt = buf ! (rd mod length buf) # ring buf ((rd + 1) mod length buf) (cnt - 1)"
proof -
  obtain c where c: "cnt = Suc c" using assms by (cases cnt) auto
  have "[0..<Suc c] = 0 # map Suc [0..<c]" by (simp add: map_Suc_upt upt_conv_Cons del: upt_Suc)
  then show ?thesis by (simp add: ring_def c mod_simps comp_def del: upt_Suc)
qed

lemma ring_shift: "ring buf (rd mod length buf) cnt = ring buf rd cnt"
  by (simp add: ring_def mod_simps)

lemma ring_split:
  "k \<le> cnt \<Longrightarrow> ring buf rd cnt = ring buf rd k @ ring buf ((rd + k) mod length buf) (cnt - k)"
proof (induction k arbitrary: rd cnt)
  case 0
  then show ?case by (simp add: ring_shift)
next
  case (Suc k)
  have "ring buf ((rd + 1) mod length buf) (cnt - 1) =
      ring buf ((rd + 1) mod length buf) k @ ring buf (((rd + 1) mod length buf + k) mod length buf) (cnt - 1 - k)"
    using Suc.prems by (intro Suc.IH) simp
  then show ?case
    using Suc.prems ring_get [of cnt buf rd] ring_get [of "Suc k" buf rd] by (simp add: mod_simps)
qed

text \<open>A block of items is at most two pieces of the buffer.\<close>

lemma ring_block:
  assumes "rd < length buf" and "k \<le> length buf"
  shows "ring buf rd k =
    (if k \<le> length buf - rd then take k (drop rd buf)
     else drop rd buf @ take (k - (length buf - rd)) buf)"
proof (rule nth_equalityI)
  fix i assume "i < length (ring buf rd k)"
  then have i: "i < k" by simp
  have *: "(rd + i) mod length buf = (if rd + i < length buf then rd + i else rd + i - length buf)"
    using assms i by (simp add: le_mod_geq)
  show "ring buf rd k ! i = (if k \<le> length buf - rd then take k (drop rd buf)
     else drop rd buf @ take (k - (length buf - rd)) buf) ! i"
    using assms i * by (auto simp: ring_def nth_append add.commute)
qed (use assms in auto)

text \<open>Putting an item in front.\<close>

definition retreat :: "nat \<Rightarrow> nat \<Rightarrow> nat" where
  "retreat n p = (if p = 0 then n - 1 else p - 1)"

lemma retreat_less: "p < n \<Longrightarrow> retreat n p < n"
  by (auto simp: retreat_def)

lemma advance_retreat: "p < n \<Longrightarrow> (retreat n p + 1) mod n = p"
  by (auto simp: retreat_def)

lemma ring_put_front:
  assumes "cnt < length buf" and "rd < length buf"
  shows "ring (buf[retreat (length buf) rd := b]) (retreat (length buf) rd) (Suc cnt) = b # ring buf rd cnt"
proof -
  define p where "p = retreat (length buf) rd"
  have p: "p < length buf" "(p + 1) mod length buf = rd"
    unfolding p_def using assms(2) by (rule retreat_less, rule advance_retreat)
  have ne: "(rd + k) mod length buf \<noteq> p" if "k < cnt" for k
  proof -
    have "(p + 0) mod length buf \<noteq> (p + (k + 1)) mod length buf"
      using that assms(1) by (intro mod_add_neq) auto
    moreover have "(p + (k + 1)) mod length buf = (rd + k) mod length buf"
      by (metis p(2) add.commute add.left_commute mod_add_left_eq)
    ultimately show ?thesis using p(1) by simp
  qed
  have "ring (buf[p := b]) rd cnt = ring buf rd cnt"
    using ne [symmetric] by (auto simp: ring_def)
  then show ?thesis
    using p ring_get [of "Suc cnt" "buf[p := b]" p] by (simp add: p_def [symmetric])
qed

text \<open>Writing a block, one item after the other.\<close>

fun ring_write :: "'a list \<Rightarrow> nat \<Rightarrow> 'a list \<Rightarrow> 'a list" where
  "ring_write buf wr [] = buf"
| "ring_write buf wr (b # bs) = ring_write (buf[wr := b]) (advance (length buf) wr) bs"

lemma length_ring_write [simp]: "length (ring_write buf wr bs) = length buf"
  by (induction buf wr bs rule: ring_write.induct) simp_all

lemma ring_write_ring:
  "cnt + length bs \<le> length buf \<Longrightarrow> wr = (rd + cnt) mod length buf \<Longrightarrow>
     ring (ring_write buf wr bs) rd (cnt + length bs) = ring buf rd cnt @ bs"
proof (induction bs arbitrary: buf wr cnt)
  case (Cons b bs)
  have "wr < length buf" using Cons.prems mod_length_less [of cnt buf] by simp
  then have "advance (length buf) wr = (rd + Suc cnt) mod length buf"
    using Cons.prems(2) by (simp add: advance_mod mod_simps)
  then show ?case
    using Cons.prems Cons.IH [of "Suc cnt" "buf[wr := b]" "advance (length buf) wr"] ring_put [of cnt buf rd b]
    by simp
qed simp

lemma ring_write_flat:
  "wr + length bs < length buf \<or> bs \<noteq> [] \<and> wr + length bs = length buf \<or> bs = [] \<Longrightarrow>
     ring_write buf wr bs = take wr buf @ bs @ drop (wr + length bs) buf"
proof (induction bs arbitrary: buf wr)
  case (Cons b bs)
  show ?case
  proof (cases "bs = []")
    case True
    then show ?thesis using Cons.prems by (auto simp: upd_conv_take_nth_drop)
  next
    case False
    then have w: "wr + 1 < length buf" using Cons.prems by (cases bs) auto
    then have "ring_write (buf[wr := b]) (wr + 1) bs =
        take (wr + 1) (buf[wr := b]) @ bs @ drop (wr + 1 + length bs) (buf[wr := b])"
      using Cons.prems False by (intro Cons.IH) auto
    moreover have "take (wr + 1) (buf[wr := b]) = take wr buf @ [b]"
      using w by (simp add: take_Suc_conv_app_nth)
    ultimately show ?thesis using w by (simp add: advance_def)
  qed
qed simp

lemma ring_write_append:
  "ring_write buf wr (xs @ ys) = ring_write (ring_write buf wr xs) ((advance (length buf) ^^ length xs) wr) ys"
  by (induction xs arbitrary: buf wr) (simp_all add: funpow_swap1)

lemma advance_funpow: "wr < n \<Longrightarrow> (advance n ^^ k) wr = (wr + k) mod n"
proof (induction k)
  case (Suc k)
  have "(wr + k) mod n < n" using Suc.prems by simp
  then show ?case using Suc by (simp add: advance_mod mod_simps)
qed simp

text \<open>A block that reaches past the end of the buffer is written in two pieces.\<close>

lemma ring_write_wrap:
  assumes "wr < length buf" and "length buf - wr < length bs" and "length bs \<le> length buf"
  defines "s1 \<equiv> length buf - wr"
  shows "ring_write buf wr bs = drop s1 bs @ drop (length bs - s1) (take wr buf @ take s1 bs)"
proof -
  have f1: "ring_write buf wr (take s1 bs) = take wr buf @ take s1 bs"
    using ring_write_flat [of wr "take s1 bs" buf] assms by (auto simp: s1_def)
  have f2: "ring_write (take wr buf @ take s1 bs) 0 (drop s1 bs) =
      drop s1 bs @ drop (length bs - s1) (take wr buf @ take s1 bs)"
  proof -
    have l: "length (take wr buf @ take s1 bs) = length buf" using assms by (simp add: s1_def)
    have "length (drop s1 bs) < length buf" using assms(1-3) by (simp add: s1_def)
    then show ?thesis using ring_write_flat [of 0 "drop s1 bs" "take wr buf @ take s1 bs"] l by simp
  qed
  have "(advance (length buf) ^^ length (take s1 bs)) wr = 0"
    using advance_funpow [OF assms(1), of s1] assms(1,2) by (simp add: s1_def)
  then show ?thesis
    using ring_write_append [of buf wr "take s1 bs" "drop s1 bs"] by (simp only: append_take_drop_id f1 f2)
qed

section \<open>The contract of a bounded queue\<close>

text \<open>
  Operations are numbered by \<open>Some x\<close> for \<open>put x\<close> and \<open>None\<close> for \<open>get\<close>; \<open>fifo_run\<close>
  returns what was got, what was accepted, and the final queue.
\<close>

fun fifo_run ::
  "('q \<Rightarrow> 'a \<Rightarrow> bool \<times> 'q) \<Rightarrow> ('q \<Rightarrow> 'a option \<times> 'q) \<Rightarrow> 'a option list \<Rightarrow> 'q \<Rightarrow> 'a list \<times> 'a list \<times> 'q" where
  "fifo_run put get [] q = ([], [], q)"
| "fifo_run put get (Some x # ops) q =
     (let (done, q') = put q x; (gs, ps, q'') = fifo_run put get ops q'
      in (gs, if done then x # ps else ps, q''))"
| "fifo_run put get (None # ops) q =
     (let (r, q') = get q; (gs, ps, q'') = fifo_run put get ops q'
      in (case r of None \<Rightarrow> gs | Some x \<Rightarrow> x # gs, ps, q''))"

definition offered :: "'a option list \<Rightarrow> 'a list" where
  "offered ops = map the (filter (\<lambda>op. op \<noteq> None) ops)"

lemma offered_simps [simp]:
  "offered [] = []" "offered (Some x # ops) = x # offered ops" "offered (None # ops) = offered ops"
  by (simp_all add: offered_def)

locale bounded_fifo =
  fixes put :: "'q \<Rightarrow> 'a \<Rightarrow> bool \<times> 'q" and get :: "'q \<Rightarrow> 'a option \<times> 'q"
    and items :: "'q \<Rightarrow> 'a list" and cap :: "'q \<Rightarrow> nat" and ok :: "'q \<Rightarrow> bool"
  assumes put_room: "ok q \<Longrightarrow> length (items q) < cap q \<Longrightarrow>
      \<exists>q'. put q x = (True, q') \<and> ok q' \<and> items q' = items q @ [x] \<and> cap q' = cap q"
    and put_full: "ok q \<Longrightarrow> cap q \<le> length (items q) \<Longrightarrow> put q x = (False, q)"
    and get_item: "ok q \<Longrightarrow> items q = x # xs \<Longrightarrow>
      \<exists>q'. get q = (Some x, q') \<and> ok q' \<and> items q' = xs \<and> cap q' = cap q"
    and get_empty: "ok q \<Longrightarrow> items q = [] \<Longrightarrow> get q = (None, q)"
begin

lemma put_cases:
  assumes "ok q"
  obtains (room) q' where "put q x = (True, q')" "ok q'" "items q' = items q @ [x]" "cap q' = cap q"
  | (full) "put q x = (False, q)" "cap q \<le> length (items q)"
  using put_room [OF assms, of x] put_full [OF assms, of x] by (cases "length (items q) < cap q") auto

lemma get_cases:
  assumes "ok q"
  obtains (item) x q' where "get q = (Some x, q')" "ok q'" "items q = x # items q'" "cap q' = cap q"
  | (empty) "get q = (None, q)" "items q = []"
  using get_item [OF assms] get_empty [OF assms] by (cases "items q") auto

text \<open>Items come out in the order they went in; none is lost, duplicated or made up.\<close>

lemma run_fifo:
  "ok q \<Longrightarrow> fifo_run put get ops q = (gs, ps, q') \<Longrightarrow>
     items q @ ps = gs @ items q' \<and> ok q' \<and> cap q' = cap q \<and> subseq ps (offered ops)"
proof (induction ops arbitrary: q gs ps)
  case (Cons op ops)
  show ?case
  proof (cases op)
    case None
    from Cons.prems(1) show ?thesis
    proof (cases rule: get_cases)
      case (item x q1)
      then show ?thesis using Cons.prems(2) None Cons.IH [OF item(2)]
        by (auto simp: Let_def split: prod.splits)
    next
      case empty
      then show ?thesis using Cons.prems None Cons.IH [OF Cons.prems(1)]
        by (auto simp: Let_def split: prod.splits)
    qed
  next
    case (Some x)
    from Cons.prems(1) show ?thesis
    proof (cases rule: put_cases [where x = x])
      case (room q1)
      then show ?thesis using Cons.prems(2) Some Cons.IH [OF room(2)]
        by (auto simp: Let_def split: prod.splits)
    next
      case full
      then show ?thesis using Cons.prems Some Cons.IH [OF Cons.prems(1)]
        by (auto simp: Let_def split: prod.splits)
    qed
  qed
qed simp

text \<open>While there is room for everything offered, everything offered is accepted.\<close>

lemma run_lossless:
  "ok q \<Longrightarrow> fifo_run put get ops q = (gs, ps, q') \<Longrightarrow> length (items q) + length (offered ops) \<le> cap q \<Longrightarrow>
     ps = offered ops"
proof (induction ops arbitrary: q gs ps)
  case (Cons op ops)
  show ?case
  proof (cases op)
    case None
    from Cons.prems(1) show ?thesis
    proof (cases rule: get_cases)
      case (item x q1)
      then show ?thesis using Cons.prems(2,3) None Cons.IH [OF item(2)]
        by (auto simp: Let_def split: prod.splits)
    next
      case empty
      then show ?thesis using Cons.prems None Cons.IH [OF Cons.prems(1)]
        by (auto simp: Let_def split: prod.splits)
    qed
  next
    case (Some x)
    from Cons.prems(1) show ?thesis
    proof (cases rule: put_cases [where x = x])
      case (room q1)
      then show ?thesis using Cons.prems(2,3) Some Cons.IH [OF room(2)]
        by (auto simp: Let_def split: prod.splits)
    next
      case full
      then show ?thesis using Cons.prems(3) Some by simp
    qed
  qed
qed simp

end

end
