(* ===== verification/Queues.thy ===== *)
theory Queues
  imports Ring
begin

text \<open>
  The I/O queues of the hardware abstraction layer, \<open>hal_queues.c\<close>: ring buffers of bytes
  between an interrupt handler and a thread. In an input queue \<open>q_counter\<close> counts the bytes
  to read, in an output queue the free slots. The pointers \<open>q_wrptr\<close> and \<open>q_rdptr\<close> are
  indices into the buffer \<open>q_buffer\<close>, and \<open>None\<close> is an access outside the buffer or a failed
  debug check, which halts the system.

  \<open>q_waiting\<close> lists the threads that sleep on the queue, \<open>q_woken\<close> those that were made ready,
  with the message they will see, and \<open>q_notified\<close> counts the calls of the notification
  callback (\<open>q_notify\<close> tells whether there is one).
\<close>

type_synonym tid = nat

record io_queue =
  q_waiting :: "tid list"
  q_counter :: nat
  q_buffer :: "u8 list"
  q_wrptr :: nat
  q_rdptr :: nat
  q_notify :: bool
  q_woken :: "(tid \<times> msg) list"
  q_notified :: nat

definition qSizeX :: "io_queue \<Rightarrow> nat" where "qSizeX q = length (q_buffer q)"
definition qSpaceI :: "io_queue \<Rightarrow> nat" where "qSpaceI q = q_counter q"

definition iqGetFullI :: "io_queue \<Rightarrow> nat" where "iqGetFullI q = qSpaceI q"
definition iqGetEmptyI :: "io_queue \<Rightarrow> nat" where "iqGetEmptyI q = qSizeX q - qSpaceI q"
definition iqIsEmptyI :: "io_queue \<Rightarrow> bool" where "iqIsEmptyI q \<longleftrightarrow> qSpaceI q = 0"
definition iqIsFullI :: "io_queue \<Rightarrow> bool" where "iqIsFullI q \<longleftrightarrow> q_wrptr q = q_rdptr q \<and> q_counter q \<noteq> 0"

definition oqGetFullI :: "io_queue \<Rightarrow> nat" where "oqGetFullI q = qSizeX q - qSpaceI q"
definition oqGetEmptyI :: "io_queue \<Rightarrow> nat" where "oqGetEmptyI q = qSpaceI q"
definition oqIsEmptyI :: "io_queue \<Rightarrow> bool" where "oqIsEmptyI q \<longleftrightarrow> q_wrptr q = q_rdptr q \<and> q_counter q \<noteq> 0"
definition oqIsFullI :: "io_queue \<Rightarrow> bool" where "oqIsFullI q \<longleftrightarrow> qSpaceI q = 0"

section \<open>Threads\<close>

text \<open>The services of the kernel the queues use.\<close>

definition osalThreadDequeueNextI :: "msg \<Rightarrow> io_queue \<Rightarrow> io_queue" where
  "osalThreadDequeueNextI m q =
     (case q_waiting q of [] \<Rightarrow> q | t # ts \<Rightarrow> q\<lparr>q_waiting := ts, q_woken := q_woken q @ [(t, m)]\<rparr>)"

definition osalThreadDequeueAllI :: "msg \<Rightarrow> io_queue \<Rightarrow> io_queue" where
  "osalThreadDequeueAllI m q =
     q\<lparr>q_waiting := [], q_woken := q_woken q @ map (\<lambda>t. (t, m)) (q_waiting q)\<rparr>"

definition notify :: "io_queue \<Rightarrow> io_queue" where
  "notify q = (if q_notify q then q\<lparr>q_notified := q_notified q + 1\<rparr> else q)"

section \<open>Input queues\<close>

definition iqObjectInit :: "u8 list \<Rightarrow> bool \<Rightarrow> io_queue" where
  "iqObjectInit bp infy =
     \<lparr>q_waiting = [], q_counter = 0, q_buffer = bp, q_wrptr = 0, q_rdptr = 0, q_notify = infy,
      q_woken = [], q_notified = 0\<rparr>"

definition iqResetI :: "io_queue \<Rightarrow> io_queue" where
  "iqResetI q = osalThreadDequeueAllI MSG_RESET (q\<lparr>q_rdptr := 0, q_wrptr := 0, q_counter := 0\<rparr>)"

definition iqPutI :: "io_queue \<Rightarrow> u8 \<Rightarrow> (msg \<times> io_queue) option" where
  "iqPutI q b =
     (if \<not> iqIsFullI q
      then do { buf \<leftarrow> poke (q_buffer q) (q_wrptr q) b;
                Some (MSG_OK, osalThreadDequeueNextI MSG_OK
                  (q\<lparr>q_counter := q_counter q + 1, q_buffer := buf, q_wrptr := advance (qSizeX q) (q_wrptr q)\<rparr>)) }
      else Some (MSG_TIMEOUT, q))"

text \<open>Taking one byte, the common part of \<open>iqGetI\<close> and \<open>iqGetTimeout\<close>.\<close>

definition iq_take :: "io_queue \<Rightarrow> (u8 \<times> io_queue) option" where
  "iq_take q =
     do { b \<leftarrow> peek (q_buffer q) (q_rdptr q);
          Some (b, notify (q\<lparr>q_counter := q_counter q - 1, q_rdptr := advance (qSizeX q) (q_rdptr q)\<rparr>)) }"

definition iqGetI :: "io_queue \<Rightarrow> ((msg + u8) \<times> io_queue) option" where
  "iqGetI q =
     (if \<not> iqIsEmptyI q then map_option (\<lambda>(b, q). (Inr b, q)) (iq_take q)
      else Some (Inl MSG_TIMEOUT, q))"

definition iq_read :: "nat \<Rightarrow> io_queue \<Rightarrow> (u8 list \<times> io_queue) option" where
  "iq_read n q =
     (if n = 0 then None
      else let n = (if n > iqGetFullI q then iqGetFullI q else n);
               s1 = qSizeX q - q_rdptr q
           in do { (bs, rd) \<leftarrow>
                     (if n < s1 then do { bs \<leftarrow> peeks (q_buffer q) (q_rdptr q) n; Some (bs, q_rdptr q + n) }
                      else if n > s1
                      then do { b1 \<leftarrow> peeks (q_buffer q) (q_rdptr q) s1;
                                let s2 = n - s1;
                                b2 \<leftarrow> peeks (q_buffer q) 0 s2;
                                Some (b1 @ b2, s2) }
                      else do { bs \<leftarrow> peeks (q_buffer q) (q_rdptr q) n; Some (bs, 0) });
                   Some (bs, q\<lparr>q_rdptr := rd, q_counter := q_counter q - n\<rparr>) })"

definition iqReadI :: "nat \<Rightarrow> io_queue \<Rightarrow> (u8 list \<times> io_queue) option" where
  "iqReadI n q = do { (bs, q) \<leftarrow> iq_read n q; Some (bs, if bs \<noteq> [] then notify q else q) }"

section \<open>Output queues\<close>

definition oqObjectInit :: "u8 list \<Rightarrow> bool \<Rightarrow> io_queue" where
  "oqObjectInit bp onfy =
     \<lparr>q_waiting = [], q_counter = length bp, q_buffer = bp, q_wrptr = 0, q_rdptr = 0, q_notify = onfy,
      q_woken = [], q_notified = 0\<rparr>"

definition oqResetI :: "io_queue \<Rightarrow> io_queue" where
  "oqResetI q = osalThreadDequeueAllI MSG_RESET (q\<lparr>q_rdptr := 0, q_wrptr := 0, q_counter := qSizeX q\<rparr>)"

definition oq_put :: "io_queue \<Rightarrow> u8 \<Rightarrow> io_queue option" where
  "oq_put q b =
     do { buf \<leftarrow> poke (q_buffer q) (q_wrptr q) b;
          Some (notify (q\<lparr>q_counter := q_counter q - 1, q_buffer := buf, q_wrptr := advance (qSizeX q) (q_wrptr q)\<rparr>)) }"

definition oqPutI :: "io_queue \<Rightarrow> u8 \<Rightarrow> (msg \<times> io_queue) option" where
  "oqPutI q b =
     (if \<not> oqIsFullI q then map_option (Pair MSG_OK) (oq_put q b) else Some (MSG_TIMEOUT, q))"

definition oqGetI :: "io_queue \<Rightarrow> ((msg + u8) \<times> io_queue) option" where
  "oqGetI q =
     (if \<not> oqIsEmptyI q
      then do { b \<leftarrow> peek (q_buffer q) (q_rdptr q);
                Some (Inr b, osalThreadDequeueNextI MSG_OK
                  (q\<lparr>q_counter := q_counter q + 1, q_rdptr := advance (qSizeX q) (q_rdptr q)\<rparr>)) }
      else Some (Inl MSG_TIMEOUT, q))"

definition oq_write :: "u8 list \<Rightarrow> io_queue \<Rightarrow> (nat \<times> io_queue) option" where
  "oq_write bp q =
     (let n = length bp in
      if n = 0 then None
      else let n = (if n > oqGetEmptyI q then oqGetEmptyI q else n);
               s1 = qSizeX q - q_wrptr q
           in do { (buf, wr) \<leftarrow>
                     (if n < s1 then do { buf \<leftarrow> memcpy (q_buffer q) (q_wrptr q) bp n; Some (buf, q_wrptr q + n) }
                      else if n > s1
                      then do { buf \<leftarrow> memcpy (q_buffer q) (q_wrptr q) bp s1;
                                let s2 = n - s1;
                                buf \<leftarrow> memcpy buf 0 (drop s1 bp) s2;
                                Some (buf, s2) }
                      else do { buf \<leftarrow> memcpy (q_buffer q) (q_wrptr q) bp n; Some (buf, 0) });
                   Some (n, q\<lparr>q_buffer := buf, q_wrptr := wr, q_counter := q_counter q - n\<rparr>) })"

definition oqWriteI :: "u8 list \<Rightarrow> io_queue \<Rightarrow> (nat \<times> io_queue) option" where
  "oqWriteI bp q = do { (n, q) \<leftarrow> oq_write bp q; Some (n, if n > 0 then notify q else q) }"

section \<open>Waiting\<close>

text \<open>
  While a thread sleeps on a queue, or in the short window in which \<open>iqReadTimeout\<close> and
  \<open>oqWriteTimeout\<close> unlock the system, interrupts and other threads use the queue. An execution
  is given what happens at each such point, a list of events.
\<close>

datatype q_event = EvPut u8 | EvGet | EvReset | EvTimeout tid

definition q_timeout :: "tid \<Rightarrow> io_queue \<Rightarrow> io_queue" where
  "q_timeout t q =
     (if t \<in> set (q_waiting q)
      then q\<lparr>q_waiting := remove1 t (q_waiting q), q_woken := q_woken q @ [(t, MSG_TIMEOUT)]\<rparr> else q)"

fun iq_event :: "io_queue \<Rightarrow> q_event \<Rightarrow> io_queue option" where
  "iq_event q (EvPut b) = map_option snd (iqPutI q b)"
| "iq_event q EvGet = map_option snd (iqGetI q)"
| "iq_event q EvReset = Some (iqResetI q)"
| "iq_event q (EvTimeout t) = Some (q_timeout t q)"

fun oq_event :: "io_queue \<Rightarrow> q_event \<Rightarrow> io_queue option" where
  "oq_event q (EvPut b) = map_option snd (oqPutI q b)"
| "oq_event q EvGet = map_option snd (oqGetI q)"
| "oq_event q EvReset = Some (oqResetI q)"
| "oq_event q (EvTimeout t) = Some (q_timeout t q)"

text \<open>
  \<open>osalThreadEnqueueTimeoutS\<close>: with the timeout \<open>TIME_IMMEDIATE\<close> it returns at once; otherwise
  the thread sleeps until an event wakes it, and \<open>None\<close> means that it still sleeps.
\<close>

definition osalThreadEnqueueTimeoutS ::
  "(io_queue \<Rightarrow> q_event \<Rightarrow> io_queue option) \<Rightarrow> tid \<Rightarrow> u32 \<Rightarrow> q_event list list \<Rightarrow> io_queue \<Rightarrow>
     (msg \<times> q_event list list \<times> io_queue) option" where
  "osalThreadEnqueueTimeoutS step self timeout slices q =
     (if timeout = 0 then Some (MSG_TIMEOUT, slices, q)
      else case slices of
             [] \<Rightarrow> None
           | sl # slices \<Rightarrow>
               do { q \<leftarrow> run_calls step (q\<lparr>q_waiting := q_waiting q @ [self], q_woken := []\<rparr>) sl;
                    m \<leftarrow> map_of (q_woken q) self;
                    Some (m, slices, q) })"

text \<open>The window between \<open>osalSysUnlock\<close> and \<open>osalSysLock\<close>.\<close>

definition preempt ::
  "(io_queue \<Rightarrow> q_event \<Rightarrow> io_queue option) \<Rightarrow> q_event list list \<Rightarrow> io_queue \<Rightarrow> (q_event list list \<times> io_queue) option" where
  "preempt step slices q =
     (case slices of [] \<Rightarrow> Some ([], q) | sl # slices \<Rightarrow> map_option (Pair slices) (run_calls step q sl))"

lemma enqueue_shorter:
  "osalThreadEnqueueTimeoutS step self timeout slices q = Some (m, slices', q') \<Longrightarrow> m \<noteq> MSG_TIMEOUT \<Longrightarrow>
     length slices' < length slices"
  by (auto simp: osalThreadEnqueueTimeoutS_def split: if_splits list.splits Option.bind_splits)

lemma enqueue_time_shorter:
  "osalThreadEnqueueTimeoutS step self timeout slices q = Some (m, slices', q') \<Longrightarrow> timeout \<noteq> 0 \<Longrightarrow>
     length slices' < length slices"
  by (auto simp: osalThreadEnqueueTimeoutS_def split: list.splits Option.bind_splits)

lemma preempt_le: "preempt step slices q = Some (slices', q') \<Longrightarrow> length slices' \<le> length slices"
  by (auto simp: preempt_def split: list.splits)

function iqGetTimeout :: "tid \<Rightarrow> u32 \<Rightarrow> q_event list list \<Rightarrow> io_queue \<Rightarrow> ((msg + u8) \<times> q_event list list \<times> io_queue) option" where
  "iqGetTimeout self timeout slices q =
     (if iqIsEmptyI q
      then case osalThreadEnqueueTimeoutS iq_event self timeout slices q of
             None \<Rightarrow> None
           | Some (m, slices', q') \<Rightarrow>
               if m \<noteq> MSG_OK then Some (Inl m, slices', q') else iqGetTimeout self timeout slices' q'
      else map_option (\<lambda>(b, q). (Inr b, slices, q)) (iq_take q))"
  by pat_completeness auto
termination
  by (relation "measure (\<lambda>(self, timeout, slices, q). length slices)") (auto dest: enqueue_shorter)

function oqPutTimeout :: "tid \<Rightarrow> u32 \<Rightarrow> q_event list list \<Rightarrow> io_queue \<Rightarrow> u8 \<Rightarrow> (msg \<times> q_event list list \<times> io_queue) option" where
  "oqPutTimeout self timeout slices q b =
     (if oqIsFullI q
      then case osalThreadEnqueueTimeoutS oq_event self timeout slices q of
             None \<Rightarrow> None
           | Some (m, slices', q') \<Rightarrow>
               if m \<noteq> MSG_OK then Some (m, slices', q') else oqPutTimeout self timeout slices' q' b
      else map_option (\<lambda>q. (MSG_OK, slices, q)) (oq_put q b))"
  by pat_completeness auto
termination
  by (relation "measure (\<lambda>(self, timeout, slices, q, b). length slices)") (auto dest: enqueue_shorter)

text \<open>The loops return what was read, or how much was written.\<close>

function iqReadTimeout_loop ::
  "tid \<Rightarrow> u32 \<Rightarrow> q_event list list \<Rightarrow> nat \<Rightarrow> io_queue \<Rightarrow> (u8 list \<times> q_event list list \<times> io_queue) option" where
  "iqReadTimeout_loop self timeout slices n q =
     (if n = 0 then Some ([], slices, q)
      else case iq_read n q of
             None \<Rightarrow> None
           | Some (bs, q1) \<Rightarrow>
               if bs = []
               then case osalThreadEnqueueTimeoutS iq_event self timeout slices q1 of
                      None \<Rightarrow> None
                    | Some (m, slices', q2) \<Rightarrow>
                        if m \<noteq> MSG_OK then Some ([], slices', q2)
                        else iqReadTimeout_loop self timeout slices' n q2
               else case preempt iq_event slices (notify q1) of
                      None \<Rightarrow> None
                    | Some (slices', q2) \<Rightarrow>
                        map_option (\<lambda>(cs, r). (bs @ cs, r)) (iqReadTimeout_loop self timeout slices' (n - length bs) q2))"
  by pat_completeness auto
termination
proof (relation "measures [\<lambda>(self, timeout, slices, n, q). length slices, \<lambda>(self, timeout, slices, n, q). n]", goal_cases)
  case 1 show ?case by simp
next
  case (2 self timeout slices n q)
  then show ?case by (auto dest: enqueue_shorter)
next
  case (3 self timeout slices n q x2 bs q1 y slices' q2)
  then show ?case using preempt_le [of iq_event slices "notify q1" slices' q2] by (cases bs) auto
qed

function oqWriteTimeout_loop ::
  "tid \<Rightarrow> u32 \<Rightarrow> q_event list list \<Rightarrow> u8 list \<Rightarrow> io_queue \<Rightarrow> (nat \<times> q_event list list \<times> io_queue) option" where
  "oqWriteTimeout_loop self timeout slices bp q =
     (if bp = [] then Some (0, slices, q)
      else case oq_write bp q of
             None \<Rightarrow> None
           | Some (k, q1) \<Rightarrow>
               if k = 0
               then case osalThreadEnqueueTimeoutS oq_event self timeout slices q1 of
                      None \<Rightarrow> None
                    | Some (m, slices', q2) \<Rightarrow>
                        if m \<noteq> MSG_OK then Some (0, slices', q2)
                        else oqWriteTimeout_loop self timeout slices' bp q2
               else case preempt oq_event slices (notify q1) of
                      None \<Rightarrow> None
                    | Some (slices', q2) \<Rightarrow>
                        map_option (\<lambda>(k', r). (k + k', r)) (oqWriteTimeout_loop self timeout slices' (drop k bp) q2))"
  by pat_completeness auto
termination
proof (relation "measures [\<lambda>(self, timeout, slices, bp, q). length slices, \<lambda>(self, timeout, slices, bp, q). length bp]", goal_cases)
  case 1 show ?case by simp
next
  case (2 self timeout slices bp q)
  then show ?case by (auto dest: enqueue_shorter)
next
  case (3 self timeout slices bp q x2 k q1 y slices' q2)
  then show ?case using preempt_le [of oq_event slices "notify q1" slices' q2] by (cases bp) auto
qed

declare iqGetTimeout.simps [simp del] oqPutTimeout.simps [simp del]
  iqReadTimeout_loop.simps [simp del] oqWriteTimeout_loop.simps [simp del]

definition iqReadTimeout ::
  "tid \<Rightarrow> u32 \<Rightarrow> q_event list list \<Rightarrow> nat \<Rightarrow> io_queue \<Rightarrow> (u8 list \<times> q_event list list \<times> io_queue) option" where
  "iqReadTimeout self timeout slices n q =
     (if n = 0 then None else iqReadTimeout_loop self timeout slices n q)"

definition oqWriteTimeout ::
  "tid \<Rightarrow> u32 \<Rightarrow> q_event list list \<Rightarrow> u8 list \<Rightarrow> io_queue \<Rightarrow> (nat \<times> q_event list list \<times> io_queue) option" where
  "oqWriteTimeout self timeout slices bp q =
     (if bp = [] then None else oqWriteTimeout_loop self timeout slices bp q)"

section \<open>The invariant of a queue\<close>

text \<open>\<open>used\<close> bytes are in the queue, from the read pointer on.\<close>

definition q_ok :: "nat \<Rightarrow> io_queue \<Rightarrow> bool" where
  "q_ok used q \<longleftrightarrow> q_rdptr q < qSizeX q \<and> used \<le> qSizeX q \<and> q_wrptr q = (q_rdptr q + used) mod qSizeX q"

definition iq_ok :: "io_queue \<Rightarrow> bool" where
  "iq_ok q \<longleftrightarrow> q_ok (q_counter q) q"

definition iq_items :: "io_queue \<Rightarrow> u8 list" where
  "iq_items q = ring (q_buffer q) (q_rdptr q) (q_counter q)"

definition oq_ok :: "io_queue \<Rightarrow> bool" where
  "oq_ok q \<longleftrightarrow> q_counter q \<le> qSizeX q \<and> q_ok (qSizeX q - q_counter q) q"

definition oq_items :: "io_queue \<Rightarrow> u8 list" where
  "oq_items q = ring (q_buffer q) (q_rdptr q) (qSizeX q - q_counter q)"

lemma add_mod_same: "(r :: nat) < n \<Longrightarrow> c \<le> n \<Longrightarrow> (r + c) mod n = r \<longleftrightarrow> c = 0 \<or> c = n"
  by (cases "r + c < n") (auto simp: le_mod_geq)

lemma mod_read: "k \<le> used \<Longrightarrow> ((rd + k) mod n + (used - k)) mod n = (rd + used) mod (n :: nat)"
  by (metis mod_add_left_eq add.assoc le_add_diff_inverse)

lemma mod_below: "(r :: nat) < n \<Longrightarrow> x mod n < n"
  by (rule mod_less_divisor) linarith

lemma q_ok_wr: "q_ok used q \<Longrightarrow> q_wrptr q < qSizeX q"
  by (auto simp: q_ok_def)

lemma q_ok_meet: "q_ok used q \<Longrightarrow> q_wrptr q = q_rdptr q \<longleftrightarrow> used = 0 \<or> used = qSizeX q"
  unfolding q_ok_def by (metis add_mod_same)

lemma iq_full: "iq_ok q \<Longrightarrow> iqIsFullI q \<longleftrightarrow> length (iq_items q) = qSizeX q"
  using q_ok_meet [of "q_counter q" q] by (auto simp: iq_ok_def iqIsFullI_def iq_items_def q_ok_def)

lemma iq_empty: "iqIsEmptyI q \<longleftrightarrow> iq_items q = []"
  by (simp add: iqIsEmptyI_def qSpaceI_def iq_items_def flip: length_0_conv)

lemma oq_full: "oq_ok q \<Longrightarrow> oqIsFullI q \<longleftrightarrow> length (oq_items q) = qSizeX q"
  by (auto simp: oq_ok_def oqIsFullI_def qSpaceI_def oq_items_def q_ok_def)

lemma oq_empty: "oq_ok q \<Longrightarrow> oqIsEmptyI q \<longleftrightarrow> oq_items q = []"
  using q_ok_meet [of "qSizeX q - q_counter q" q]
  by (auto simp: oq_ok_def oqIsEmptyI_def oq_items_def q_ok_def simp flip: length_0_conv)

text \<open>What only concerns threads and callbacks does not change the contents.\<close>

lemma thread_ops [simp]:
  "q_counter (osalThreadDequeueNextI m q) = q_counter q" "q_buffer (osalThreadDequeueNextI m q) = q_buffer q"
  "q_rdptr (osalThreadDequeueNextI m q) = q_rdptr q" "q_wrptr (osalThreadDequeueNextI m q) = q_wrptr q"
  "q_counter (osalThreadDequeueAllI m q) = q_counter q" "q_buffer (osalThreadDequeueAllI m q) = q_buffer q"
  "q_rdptr (osalThreadDequeueAllI m q) = q_rdptr q" "q_wrptr (osalThreadDequeueAllI m q) = q_wrptr q"
  "q_counter (notify q) = q_counter q" "q_buffer (notify q) = q_buffer q"
  "q_rdptr (notify q) = q_rdptr q" "q_wrptr (notify q) = q_wrptr q"
  "q_counter (q_timeout t q) = q_counter q" "q_buffer (q_timeout t q) = q_buffer q"
  "q_rdptr (q_timeout t q) = q_rdptr q" "q_wrptr (q_timeout t q) = q_wrptr q"
  by (simp_all add: osalThreadDequeueNextI_def osalThreadDequeueAllI_def notify_def q_timeout_def split: list.splits)

lemmas q_contents = iq_ok_def oq_ok_def q_ok_def iq_items_def oq_items_def qSizeX_def

lemma iqPutI_room:
  assumes "iq_ok q" and "length (iq_items q) < qSizeX q"
  shows "\<exists>q'. iqPutI q b = Some (MSG_OK, q') \<and> iq_ok q' \<and> iq_items q' = iq_items q @ [b] \<and> qSizeX q' = qSizeX q"
proof -
  have w: "q_wrptr q < length (q_buffer q)" using assms(1) q_ok_wr by (simp add: iq_ok_def qSizeX_def)
  then show ?thesis
    using assms ring_put [of "q_counter q" "q_buffer q" "q_rdptr q" b] iq_full [OF assms(1)]
    by (simp add: iqPutI_def poke_def advance_mod q_contents mod_simps)
qed

lemma iqPutI_full:
  assumes "iq_ok q" and "qSizeX q \<le> length (iq_items q)"
  shows "iqPutI q b = Some (MSG_TIMEOUT, q)"
  using assms iq_full [OF assms(1)] by (simp add: iqPutI_def q_contents)

lemma iq_take_item:
  assumes "iq_ok q" and "iq_items q = b # bs"
  shows "\<exists>q'. iq_take q = Some (b, q') \<and> iq_ok q' \<and> iq_items q' = bs \<and> qSizeX q' = qSizeX q"
proof -
  have c: "0 < q_counter q" using arg_cong [OF assms(2), of length] by (simp add: iq_items_def)
  have a: "advance (length (q_buffer q)) (q_rdptr q) = (q_rdptr q + 1) mod length (q_buffer q)"
    using assms(1) by (intro advance_mod) (simp add: q_contents)
  have "q_rdptr q mod length (q_buffer q) = q_rdptr q" using assms(1) by (simp add: q_contents)
  then show ?thesis
    using assms c ring_get [OF c, of "q_buffer q" "q_rdptr q"] mod_read [of 1 "q_counter q" "q_rdptr q" "length (q_buffer q)"]
    by (auto simp: iq_take_def peek_def a q_contents intro: mod_below)
qed

lemma iq_read_spec:
  assumes ok: "iq_ok q" and n: "0 < n"
  shows "\<exists>q'. iq_read n q = Some (take n (iq_items q), q') \<and> iq_ok q' \<and> iq_items q' = drop n (iq_items q) \<and>
    qSizeX q' = qSizeX q \<and> q_waiting q' = q_waiting q"
proof -
  define k where "k = min n (q_counter q)"
  define buf where "buf = q_buffer q"
  define rd where "rd = q_rdptr q"
  have r: "rd < length buf" "k \<le> q_counter q" "q_counter q \<le> length buf"
    using ok by (auto simp: q_contents k_def buf_def rd_def)
  have items: "iq_items q = ring buf rd k @ ring buf ((rd + k) mod length buf) (q_counter q - k)"
    unfolding iq_items_def buf_def rd_def by (rule ring_split) (simp add: k_def)
  have t: "take n (iq_items q) = ring buf rd k" "drop n (iq_items q) = ring buf ((rd + k) mod length buf) (q_counter q - k)"
    unfolding items by (cases "n \<le> q_counter q"; simp add: k_def)+
  have blk: "ring buf rd k = (if k \<le> length buf - rd then take k (drop rd buf)
     else drop rd buf @ take (k - (length buf - rd)) buf)"
    using r by (intro ring_block) auto
  have m: "(rd + k) mod length buf =
      (if k < length buf - rd then rd + k else if k > length buf - rd then k - (length buf - rd) else 0)"
    using r by (auto simp: le_mod_geq)
  have "iq_read n q = Some (ring buf rd k, q\<lparr>q_rdptr := (rd + k) mod length buf, q_counter := q_counter q - k\<rparr>)"
    using n r unfolding blk m
    by (auto simp: iq_read_def iqGetFullI_def qSpaceI_def qSizeX_def peeks_def Let_def k_def min_def
        buf_def [symmetric] rd_def [symmetric])
  moreover have "iq_ok (q\<lparr>q_rdptr := (rd + k) mod length buf, q_counter := q_counter q - k\<rparr>)"
    using ok r mod_read [of k "q_counter q" rd "length buf"] by (auto simp: q_contents buf_def rd_def intro: mod_below)
  ultimately show ?thesis unfolding t by (simp add: q_contents buf_def)
qed

lemma oq_put_room:
  assumes "oq_ok q" and "length (oq_items q) < qSizeX q"
  shows "\<exists>q'. oq_put q b = Some q' \<and> oq_ok q' \<and> oq_items q' = oq_items q @ [b] \<and> qSizeX q' = qSizeX q"
proof -
  define used where "used = qSizeX q - q_counter q"
  have u: "used < length (q_buffer q)" "qSizeX q - (q_counter q - 1) = Suc used"
    using assms by (auto simp: q_contents used_def)
  have w: "q_wrptr q < length (q_buffer q)" using assms(1) q_ok_wr [of used q] by (simp add: oq_ok_def used_def qSizeX_def)
  then show ?thesis
    using assms u ring_put [of used "q_buffer q" "q_rdptr q" b]
    by (simp add: oq_put_def poke_def advance_mod q_contents mod_simps used_def)
qed

lemma oqGetI_item:
  assumes "oq_ok q" and "oq_items q = b # bs"
  shows "\<exists>q'. oqGetI q = Some (Inr b, q') \<and> oq_ok q' \<and> oq_items q' = bs \<and> qSizeX q' = qSizeX q"
proof -
  define used where "used = qSizeX q - q_counter q"
  have u: "0 < used" "length (q_buffer q) - Suc (q_counter q) = used - 1" "Suc (q_counter q) \<le> length (q_buffer q)"
    using arg_cong [OF assms(2), of length] assms(1) by (auto simp: q_contents used_def)
  have a: "advance (length (q_buffer q)) (q_rdptr q) = (q_rdptr q + 1) mod length (q_buffer q)"
    using assms(1) by (intro advance_mod) (simp add: q_contents)
  have "q_rdptr q mod length (q_buffer q) = q_rdptr q" using assms(1) by (simp add: q_contents)
  then show ?thesis
    using assms u oq_empty [OF assms(1)] ring_get [OF u(1), of "q_buffer q" "q_rdptr q"]
      mod_read [of 1 used "q_rdptr q" "length (q_buffer q)"]
    by (auto simp: oqGetI_def peek_def a q_contents used_def intro: mod_below)
qed

lemma oq_write_spec:
  assumes ok: "oq_ok q" and n: "bp \<noteq> []"
  defines "k \<equiv> min (length bp) (qSizeX q - length (oq_items q))"
  shows "\<exists>q'. oq_write bp q = Some (k, q') \<and> oq_ok q' \<and> oq_items q' = oq_items q @ take k bp \<and>
    qSizeX q' = qSizeX q \<and> q_waiting q' = q_waiting q"
proof -
  define buf where "buf = q_buffer q"
  define wr where "wr = q_wrptr q"
  define used where "used = length buf - q_counter q"
  have r: "wr < length buf" "q_counter q \<le> length buf" "k = min (length bp) (q_counter q)"
    "wr = (q_rdptr q + used) mod length buf" "used + k \<le> length buf"
    using ok q_ok_wr [of used q] by (auto simp: q_contents k_def buf_def wr_def used_def)
  have kl: "k \<le> length buf" using r(2,3) by simp
  have m: "(wr + k) mod length buf =
      (if k < length buf - wr then wr + k else if k > length buf - wr then k - (length buf - wr) else 0)"
    using r(1) kl by (auto simp: le_mod_geq)
  have kb: "k \<le> length bp" using r(3) by simp
  have nn: "(if length bp > q_counter q then q_counter q else length bp) = k" using r(3) by simp
  note body = oq_write_def oqGetEmptyI_def qSpaceI_def qSizeX_def Let_def buf_def [symmetric] wr_def [symmetric] nn
  have w: "oq_write bp q = Some (k, q\<lparr>q_buffer := ring_write buf wr (take k bp), q_wrptr := (wr + k) mod length buf,
      q_counter := q_counter q - k\<rparr>)"
  proof (cases "k > length buf - wr")
    case True
    then have "ring_write buf wr (take k bp) = drop (length buf - wr) (take k bp) @
        drop (k - (length buf - wr)) (take wr buf @ take (length buf - wr) (take k bp))"
      using ring_write_wrap [of wr buf "take k bp"] r(1,3) kl by simp
    then show ?thesis
      using True r(1) kl kb n unfolding m body by (simp add: memcpy_def drop_take) linarith
  next
    case False
    have "length (take k bp) = k" "wr + k < length buf \<or> wr + k = length buf" using r(1,3) False by auto
    then have "ring_write buf wr (take k bp) = take wr buf @ take k bp @ drop (wr + k) buf"
      using ring_write_flat [of wr "take k bp" buf] r(1) by (cases "take k bp = []") auto
    then show ?thesis
      using False r(1) kl kb n unfolding m body by (auto simp: memcpy_def)
  qed
  have "ring (ring_write buf wr (take k bp)) (q_rdptr q) (used + length (take k bp)) = ring buf (q_rdptr q) used @ take k bp"
    using r by (intro ring_write_ring) auto
  moreover have "length buf - (q_counter q - k) = used + k" "length (take k bp) = k" using r by (auto simp: used_def)
  ultimately show ?thesis
    unfolding w using ok r
    by (simp add: q_contents buf_def [symmetric] used_def [symmetric] mod_simps add.assoc)
qed

section \<open>The queues keep the contract of a bounded queue\<close>

definition iq_put :: "io_queue \<Rightarrow> u8 \<Rightarrow> bool \<times> io_queue" where
  "iq_put q b = (case iqPutI q b of Some (m, q') \<Rightarrow> (m = MSG_OK, q') | None \<Rightarrow> (False, q))"

definition iq_get :: "io_queue \<Rightarrow> u8 option \<times> io_queue" where
  "iq_get q = (case iqGetI q of Some (Inr b, q') \<Rightarrow> (Some b, q') | Some (Inl m, q') \<Rightarrow> (None, q') | None \<Rightarrow> (None, q))"

definition oq_put_total :: "io_queue \<Rightarrow> u8 \<Rightarrow> bool \<times> io_queue" where
  "oq_put_total q b = (case oqPutI q b of Some (m, q') \<Rightarrow> (m = MSG_OK, q') | None \<Rightarrow> (False, q))"

definition oq_get :: "io_queue \<Rightarrow> u8 option \<times> io_queue" where
  "oq_get q = (case oqGetI q of Some (Inr b, q') \<Rightarrow> (Some b, q') | Some (Inl m, q') \<Rightarrow> (None, q') | None \<Rightarrow> (None, q))"

interpretation iq: bounded_fifo iq_put iq_get iq_items qSizeX iq_ok
proof unfold_locales
  fix q b assume "iq_ok q" "length (iq_items q) < qSizeX q"
  then show "\<exists>q'. iq_put q b = (True, q') \<and> iq_ok q' \<and> iq_items q' = iq_items q @ [b] \<and> qSizeX q' = qSizeX q"
    using iqPutI_room [of q b] by (auto simp: iq_put_def)
next
  fix q b assume "iq_ok q" "qSizeX q \<le> length (iq_items q)"
  then show "iq_put q b = (False, q)" by (simp add: iq_put_def iqPutI_full)
next
  fix q b bs assume "iq_ok q" "iq_items q = b # bs"
  then show "\<exists>q'. iq_get q = (Some b, q') \<and> iq_ok q' \<and> iq_items q' = bs \<and> qSizeX q' = qSizeX q"
    using iq_take_item [of q b bs] by (auto simp: iq_get_def iqGetI_def iq_empty)
next
  fix q assume "iq_ok q" "iq_items q = []"
  then show "iq_get q = (None, q)" by (simp add: iq_get_def iqGetI_def iq_empty)
qed

interpretation oq: bounded_fifo oq_put_total oq_get oq_items qSizeX oq_ok
proof unfold_locales
  fix q b assume a: "oq_ok q" "length (oq_items q) < qSizeX q"
  then show "\<exists>q'. oq_put_total q b = (True, q') \<and> oq_ok q' \<and> oq_items q' = oq_items q @ [b] \<and> qSizeX q' = qSizeX q"
    using oq_put_room [of q b] oq_full [OF a(1)] by (auto simp: oq_put_total_def oqPutI_def)
next
  fix q b assume a: "oq_ok q" "qSizeX q \<le> length (oq_items q)"
  then have "oqIsFullI q" by (simp add: oq_full q_contents)
  then show "oq_put_total q b = (False, q)" by (simp add: oq_put_total_def oqPutI_def)
next
  fix q b bs assume "oq_ok q" "oq_items q = b # bs"
  then show "\<exists>q'. oq_get q = (Some b, q') \<and> oq_ok q' \<and> oq_items q' = bs \<and> qSizeX q' = qSizeX q"
    using oqGetI_item [of q b bs] by (auto simp: oq_get_def)
next
  fix q assume "oq_ok q" "oq_items q = []"
  then show "oq_get q = (None, q)" by (simp add: oq_get_def oqGetI_def oq_empty)
qed

section \<open>Waiting operations\<close>

fun arrival :: "q_event \<Rightarrow> bool" where
  "arrival (EvPut b) = True"
| "arrival (EvTimeout t) = True"
| "arrival ev = False"

fun arrived :: "q_event list \<Rightarrow> u8 list" where
  "arrived [] = []"
| "arrived (EvPut b # es) = b # arrived es"
| "arrived (ev # es) = arrived es"

lemma arrived_append [simp]: "arrived (es @ fs) = arrived es @ arrived fs"
  by (induction es rule: arrived.induct) simp_all

text \<open>No event leads outside the buffer.\<close>

lemma iq_ok_cong:
  "q_counter q' = q_counter q \<Longrightarrow> q_buffer q' = q_buffer q \<Longrightarrow> q_rdptr q' = q_rdptr q \<Longrightarrow> q_wrptr q' = q_wrptr q \<Longrightarrow>
     iq_ok q' = iq_ok q \<and> iq_items q' = iq_items q \<and> qSizeX q' = qSizeX q"
  by (simp add: q_contents)

lemma iq_event_ok:
  assumes "iq_ok q"
  shows "\<exists>q'. iq_event q ev = Some q' \<and> iq_ok q' \<and> qSizeX q' = qSizeX q"
proof (cases ev)
  case (EvPut b)
  then show ?thesis
    using iqPutI_room [OF assms, of b] iqPutI_full [OF assms, of b] assms
    by (cases "length (iq_items q) < qSizeX q") auto
next
  case EvGet
  then show ?thesis
    using iq_take_item [OF assms] assms by (cases "iq_items q") (auto simp: iqGetI_def iq_empty)
next
  case EvReset
  then show ?thesis using assms by (auto simp: iqResetI_def q_contents)
next
  case (EvTimeout t)
  then show ?thesis using assms by (simp add: q_contents)
qed

text \<open>
  \<open>iq_moves bs q out q'\<close>: from \<open>q\<close> to \<open>q'\<close>, the bytes \<open>out\<close> were read, and some of the bytes
  \<open>bs\<close> that arrived were put in, all in order.
\<close>

definition iq_moves :: "u8 list \<Rightarrow> io_queue \<Rightarrow> u8 list \<Rightarrow> io_queue \<Rightarrow> bool" where
  "iq_moves bs q out q' \<longleftrightarrow>
     iq_ok q' \<and> (\<exists>acc. subseq acc bs \<and> iq_items q @ acc = out @ iq_items q')"

lemma iq_moves_refl: "iq_ok q \<Longrightarrow> iq_moves [] q [] q"
  by (simp add: iq_moves_def)

lemma iq_moves_trans:
  assumes "iq_moves as q o1 q1" and "iq_moves bs q1 o2 q2"
  shows "iq_moves (as @ bs) q (o1 @ o2) q2"
proof -
  obtain a1 a2 where "subseq a1 as" "iq_items q @ a1 = o1 @ iq_items q1"
    "subseq a2 bs" "iq_items q1 @ a2 = o2 @ iq_items q2" using assms by (auto simp: iq_moves_def)
  then have "subseq (a1 @ a2) (as @ bs)" "iq_items q @ (a1 @ a2) = (o1 @ o2) @ iq_items q2"
    by (simp add: list_emb_append_mono, metis append.assoc)
  then show ?thesis using assms(2) unfolding iq_moves_def by blast
qed

lemma iq_moves_cong:
  "q_counter q1 = q_counter q \<Longrightarrow> q_buffer q1 = q_buffer q \<Longrightarrow> q_rdptr q1 = q_rdptr q \<Longrightarrow>
     iq_moves bs q1 out q' = iq_moves bs q out q'"
  by (simp add: iq_moves_def iq_items_def)

lemma iq_event_moves:
  assumes "iq_ok q" and "arrival ev"
  shows "\<exists>q'. iq_event q ev = Some q' \<and> iq_moves (arrived [ev]) q [] q'"
proof (cases ev)
  case (EvPut b)
  then show ?thesis
    using iqPutI_room [OF assms(1), of b] iqPutI_full [OF assms(1), of b] assms(1)
    by (cases "length (iq_items q) < qSizeX q") (auto simp: iq_moves_def)
next
  case (EvTimeout t)
  then show ?thesis using assms(1) by (simp add: iq_moves_def q_contents)
qed (use assms in simp_all)

lemma iq_slice_moves:
  "iq_ok q \<Longrightarrow> list_all arrival sl \<Longrightarrow> \<exists>q'. run_calls iq_event q sl = Some q' \<and> iq_moves (arrived sl) q [] q'"
proof (induction sl arbitrary: q)
  case Nil
  then show ?case by (simp add: iq_moves_refl)
next
  case (Cons ev sl)
  obtain q1 where q1: "iq_event q ev = Some q1" "iq_moves (arrived [ev]) q [] q1"
    using iq_event_moves [of q ev] Cons.prems by auto
  then obtain q2 where "run_calls iq_event q1 sl = Some q2" "iq_moves (arrived sl) q1 [] q2"
    using Cons.IH [of q1] Cons.prems by (auto simp: iq_moves_def)
  then show ?case using q1 iq_moves_trans [OF q1(2)] arrived_append [of "[ev]" sl] by fastforce
qed

lemma iq_sleep_moves:
  assumes "osalThreadEnqueueTimeoutS iq_event self timeout slices q = Some (m, slices', q')" and "iq_ok q"
    and "list_all (list_all arrival) slices"
  shows "\<exists>past. slices = past @ slices' \<and> iq_moves (arrived (concat past)) q [] q'"
proof (cases "timeout = 0")
  case True
  then show ?thesis using assms
    by (intro exI [of _ "[]"]) (auto simp: osalThreadEnqueueTimeoutS_def iq_moves_refl)
next
  case False
  define q0 where "q0 = q\<lparr>q_waiting := q_waiting q @ [self], q_woken := []\<rparr>"
  obtain sl where sl: "slices = sl # slices'" "run_calls iq_event q0 sl = Some q'"
    using assms(1) False by (auto simp: osalThreadEnqueueTimeoutS_def q0_def split: list.splits Option.bind_splits)
  have "iq_ok q0" using assms(2) by (simp add: q0_def q_contents)
  from iq_slice_moves [OF this, of sl] have "iq_moves (arrived sl) q0 [] q'" using assms(3) sl by auto
  then show ?thesis using sl iq_moves_cong [of q0 q] by (intro exI [of _ "[sl]"]) (auto simp: q0_def)
qed

lemma iq_preempt_moves:
  assumes "iq_ok q" and "list_all (list_all arrival) slices"
  shows "\<exists>past slices' q'. preempt iq_event slices q = Some (slices', q') \<and> slices = past @ slices' \<and>
    iq_moves (arrived (concat past)) q [] q'"
proof (cases slices)
  case Nil
  then show ?thesis using assms(1) by (simp add: preempt_def iq_moves_refl)
next
  case (Cons sl slices1)
  then show ?thesis
    using iq_slice_moves [OF assms(1), of sl] assms(2) by (auto simp: preempt_def intro!: exI [of _ "[sl]"])
qed

lemma iq_read_moves:
  assumes "iq_ok q" and "0 < n"
  shows "\<exists>q'. iq_read n q = Some (take n (iq_items q), q') \<and> iq_moves [] q (take n (iq_items q)) q'"
  using iq_read_spec [OF assms] by (auto simp: iq_moves_def)

text \<open>
  Reading with a timeout returns the bytes of the queue and of the arrivals it waited for, in
  order, and leaves the rest in the queue.
\<close>

lemma iqReadTimeout_loop_spec:
  "iqReadTimeout_loop self timeout slices n q = Some (out, slices', q') \<Longrightarrow> iq_ok q \<Longrightarrow>
     list_all (list_all arrival) slices \<Longrightarrow>
     \<exists>past. slices = past @ slices' \<and> iq_moves (arrived (concat past)) q out q' \<and> length out \<le> n"
proof (induction self timeout slices n q arbitrary: out rule: iqReadTimeout_loop.induct)
  case (1 self timeout slices n q)
  show ?case
  proof (cases "n = 0")
    case True
    then show ?thesis using "1.prems" by (simp add: iqReadTimeout_loop.simps iq_moves_refl)
  next
    case False
    define bs where "bs = take n (iq_items q)"
    obtain q1 where q1: "iq_read n q = Some (bs, q1)" "iq_moves [] q bs q1" "iq_ok q1"
      using iq_read_moves [OF "1.prems"(2), of n] False by (auto simp: bs_def iq_moves_def)
    show ?thesis
    proof (cases "bs = []")
      case True
      obtain m slices1 q2 where s: "osalThreadEnqueueTimeoutS iq_event self timeout slices q1 = Some (m, slices1, q2)"
        and rest: "if m \<noteq> MSG_OK then out = [] \<and> slices' = slices1 \<and> q' = q2
           else iqReadTimeout_loop self timeout slices1 n q2 = Some (out, slices', q')"
        using "1.prems"(1) False q1(1) True
        by (subst (asm) iqReadTimeout_loop.simps) (auto split: option.splits if_splits)
      obtain d1 where d1: "slices = d1 @ slices1" "iq_moves (arrived (concat d1)) q1 [] q2"
        using iq_sleep_moves [OF s q1(3) "1.prems"(3)] by blast
      note m1 = iq_moves_trans [OF q1(2) d1(2), unfolded True, simplified]
      show ?thesis
      proof (cases "m = MSG_OK")
        case m: True
        have "iq_ok q2" using m1 by (simp add: iq_moves_def)
        then obtain d2 where d2: "slices1 = d2 @ slices'" "iq_moves (arrived (concat d2)) q2 out q'" "length out \<le> n"
          using "1.IH"(1) [OF False q1(1) refl True s refl refl] m rest "1.prems"(3) d1(1) by auto
        then show ?thesis using d1(1) iq_moves_trans [OF m1 d2(2)] by (intro exI [of _ "d1 @ d2"]) simp
      next
        case m: False
        then show ?thesis using rest d1(1) m1 by auto
      qed
    next
      case ne: False
      have ok: "iq_ok (notify q1)" using q1(3) by (simp add: q_contents)
      obtain d1 slices1 q2 where p: "preempt iq_event slices (notify q1) = Some (slices1, q2)" "slices = d1 @ slices1"
        "iq_moves (arrived (concat d1)) q1 [] q2"
        using iq_preempt_moves [OF ok "1.prems"(3)] iq_moves_cong [of "notify q1" q1] by auto
      obtain cs where cs: "iqReadTimeout_loop self timeout slices1 (n - length bs) q2 = Some (cs, slices', q')" "out = bs @ cs"
        using "1.prems"(1) False q1(1) ne p(1) by (subst (asm) iqReadTimeout_loop.simps) auto
      obtain d2 where d2: "slices1 = d2 @ slices'" "iq_moves (arrived (concat d2)) q2 cs q'" "length cs \<le> n - length bs"
        using "1.IH"(2) [OF False q1(1) refl ne p(1) refl cs(1)] "1.prems"(3) p(2,3) by (auto simp: iq_moves_def)
      show ?thesis
        using iq_moves_trans [OF iq_moves_trans [OF q1(2) p(3)] d2(2)] d2 p(2) cs(2)
        by (intro exI [of _ "d1 @ d2"]) (auto simp: bs_def)
    qed
  qed
qed

lemma iq_take_moves:
  assumes "iq_ok q" and "\<not> iqIsEmptyI q"
  shows "\<exists>b q'. iq_take q = Some (b, q') \<and> iq_moves [] q [b] q'"
proof -
  obtain b bs where "iq_items q = b # bs" using assms(2) by (cases "iq_items q") (auto simp: iq_empty)
  then show ?thesis using iq_take_item [OF assms(1)] by (auto simp: iq_moves_def)
qed

lemma iqGetTimeout_spec:
  "iqGetTimeout self timeout slices q = Some (r, slices', q') \<Longrightarrow> iq_ok q \<Longrightarrow> list_all (list_all arrival) slices \<Longrightarrow>
     \<exists>past. slices = past @ slices' \<and>
       iq_moves (arrived (concat past)) q (case r of Inl m \<Rightarrow> [] | Inr b \<Rightarrow> [b]) q'"
proof (induction self timeout slices q rule: iqGetTimeout.induct)
  case (1 self timeout slices q)
  show ?case
  proof (cases "iqIsEmptyI q")
    case True
    obtain m slices1 q1 where s: "osalThreadEnqueueTimeoutS iq_event self timeout slices q = Some (m, slices1, q1)"
      and rest: "if m \<noteq> MSG_OK then r = Inl m \<and> slices' = slices1 \<and> q' = q1
         else iqGetTimeout self timeout slices1 q1 = Some (r, slices', q')"
      using "1.prems"(1) True by (subst (asm) iqGetTimeout.simps) (auto split: option.splits if_splits)
    obtain d1 where d1: "slices = d1 @ slices1" "iq_moves (arrived (concat d1)) q [] q1"
      using iq_sleep_moves [OF s "1.prems"(2,3)] by blast
    show ?thesis
    proof (cases "m = MSG_OK")
      case m: True
      obtain d2 where d2: "slices1 = d2 @ slices'"
        "iq_moves (arrived (concat d2)) q1 (case r of Inl m \<Rightarrow> [] | Inr b \<Rightarrow> [b]) q'"
        using "1.IH" [OF True s refl refl] m rest "1.prems"(3) d1 by (auto simp: iq_moves_def)
      then show ?thesis using d1(1) iq_moves_trans [OF d1(2) d2(2)] by (intro exI [of _ "d1 @ d2"]) simp
    next
      case m: False
      then show ?thesis using rest d1 by auto
    qed
  next
    case False
    then show ?thesis
      using iq_take_moves [OF "1.prems"(2) False] "1.prems"(1) by (subst (asm) iqGetTimeout.simps) auto
  qed
qed

text \<open>A byte in the queue is returned at once; a sleeping thread is woken by the first byte.\<close>

lemma iqGetTimeout_ready:
  assumes "iq_ok q" and "iq_items q = b # bs"
  shows "\<exists>q'. iqGetTimeout self timeout slices q = Some (Inr b, slices, q') \<and> iq_ok q' \<and> iq_items q' = bs \<and>
    qSizeX q' = qSizeX q \<and> q_waiting q' = q_waiting q"
proof -
  have "q_waiting (notify q) = q_waiting q" for q by (simp add: notify_def)
  then show ?thesis
    using iq_take_item [OF assms] assms(2) by (subst iqGetTimeout.simps) (auto simp: iq_empty iq_take_def split: Option.bind_splits)
qed

lemma arrivals_awake:
  assumes "iq_ok q" and "list_all arrival sl" and "q_waiting q = []" and "run_calls iq_event q sl = Some q'"
  shows "q_waiting q' = [] \<and> q_woken q' = q_woken q"
  using assms
proof (induction sl arbitrary: q)
  case (Cons ev sl)
  obtain q1 where q1: "iq_event q ev = Some q1" "iq_ok q1" "run_calls iq_event q1 sl = Some q'"
    using iq_event_ok [OF Cons.prems(1), of ev] Cons.prems(4) by auto
  have "q_waiting q1 = [] \<and> q_woken q1 = q_woken q"
    using q1(1) Cons.prems(2,3)
    by (cases ev)
      (auto simp: iqPutI_def q_timeout_def osalThreadDequeueNextI_def split: if_splits Option.bind_splits)
  then show ?case using Cons.IH [OF q1(2)] Cons.prems(2) q1(3) by auto
qed simp

lemma iqGetTimeout_wakes:
  assumes "iq_ok q" and "iq_items q = []" and "q_waiting q = []" and "timeout \<noteq> 0" and "list_all arrival sl"
  shows "\<exists>q' acc. iqGetTimeout self timeout ((EvPut b # sl) # slices) q = Some (Inr b, slices, q') \<and> iq_ok q' \<and>
    subseq acc (arrived sl) \<and> iq_items q' = acc \<and> q_waiting q' = []"
proof -
  define q0 where "q0 = q\<lparr>q_waiting := [self], q_woken := []\<rparr>"
  have o: "iq_ok q0" "iq_items q0 = []" "length (iq_items q0) < qSizeX q0"
    using assms(1,2) by (auto simp: q0_def q_contents)
  obtain q1 where q1: "iqPutI q0 b = Some (MSG_OK, q1)" "iq_ok q1" "iq_items q1 = [b]"
    using iqPutI_room [OF o(1,3), of b] o(2) by auto
  have w: "q_waiting q1 = []" "q_woken q1 = [(self, MSG_OK)]"
    using q1(1) by (auto simp: iqPutI_def osalThreadDequeueNextI_def q0_def split: if_splits Option.bind_splits)
  obtain q2 where q2: "run_calls iq_event q1 sl = Some q2" "iq_moves (arrived sl) q1 [] q2"
    using iq_slice_moves [OF q1(2) assms(5)] by blast
  have w2: "q_waiting q2 = []" "q_woken q2 = [(self, MSG_OK)]" using arrivals_awake [OF q1(2) assms(5) w(1) q2(1)] w by auto
  obtain acc where acc: "iq_ok q2" "subseq acc (arrived sl)" "iq_items q2 = b # acc"
    using q2(2) q1(3) by (auto simp: iq_moves_def)
  obtain q3 where q3: "iqGetTimeout self timeout slices q2 = Some (Inr b, slices, q3)" "iq_ok q3" "iq_items q3 = acc"
    "q_waiting q3 = []"
    using iqGetTimeout_ready [OF acc(1,3), of self timeout slices] w2(1) by auto
  have "osalThreadEnqueueTimeoutS iq_event self timeout ((EvPut b # sl) # slices) q = Some (MSG_OK, slices, q2)"
    using assms(3,4) q1(1) q2(1) w2(2) by (simp add: osalThreadEnqueueTimeoutS_def q0_def)
  then show ?thesis
    using q3 acc(2) assms(2) by (subst iqGetTimeout.simps) (simp add: iq_empty)
qed

section \<open>Writing with a timeout\<close>

fun departure :: "q_event \<Rightarrow> bool" where
  "departure EvGet = True"
| "departure (EvTimeout t) = True"
| "departure ev = False"

text \<open>\<open>oq_moves bs q q'\<close>: the bytes \<open>bs\<close> were put in, and some bytes were taken out, in order.\<close>

definition oq_moves :: "u8 list \<Rightarrow> io_queue \<Rightarrow> io_queue \<Rightarrow> bool" where
  "oq_moves bs q q' \<longleftrightarrow> oq_ok q' \<and> (\<exists>taken. oq_items q @ bs = taken @ oq_items q')"

lemma oq_moves_refl: "oq_ok q \<Longrightarrow> oq_moves [] q q"
  by (simp add: oq_moves_def)

lemma oq_moves_trans: "oq_moves as q q1 \<Longrightarrow> oq_moves bs q1 q2 \<Longrightarrow> oq_moves (as @ bs) q q2"
  unfolding oq_moves_def by (metis append.assoc)

lemma oq_moves_cong:
  "q_counter q1 = q_counter q \<Longrightarrow> q_buffer q1 = q_buffer q \<Longrightarrow> q_rdptr q1 = q_rdptr q \<Longrightarrow>
     oq_moves bs q1 q' = oq_moves bs q q'"
  by (simp add: oq_moves_def oq_items_def qSizeX_def)

lemma oq_event_moves:
  assumes "oq_ok q" and "departure ev"
  shows "\<exists>q'. oq_event q ev = Some q' \<and> oq_moves [] q q'"
proof (cases ev)
  case EvGet
  then show ?thesis
  proof (cases "oq_items q")
    case Nil
    then show ?thesis using assms(1) EvGet by (simp add: oqGetI_def oq_empty oq_moves_def)
  next
    case (Cons b bs)
    then show ?thesis using oqGetI_item [OF assms(1) Cons] EvGet
      by (auto simp: oq_moves_def intro!: exI [of _ "[b]"])
  qed
next
  case (EvTimeout t)
  then show ?thesis using assms(1) by (simp add: oq_moves_def q_contents)
qed (use assms in simp_all)

lemma oq_slice_moves:
  "oq_ok q \<Longrightarrow> list_all departure sl \<Longrightarrow> \<exists>q'. run_calls oq_event q sl = Some q' \<and> oq_moves [] q q'"
proof (induction sl arbitrary: q)
  case Nil
  then show ?case by (simp add: oq_moves_refl)
next
  case (Cons ev sl)
  obtain q1 where q1: "oq_event q ev = Some q1" "oq_moves [] q q1" using oq_event_moves [of q ev] Cons.prems by auto
  then obtain q2 where "run_calls oq_event q1 sl = Some q2" "oq_moves [] q1 q2"
    using Cons.IH [of q1] Cons.prems by (auto simp: oq_moves_def)
  then show ?case using q1 oq_moves_trans [OF q1(2)] by fastforce
qed

lemma oq_sleep_moves:
  assumes "osalThreadEnqueueTimeoutS oq_event self timeout slices q = Some (m, slices', q')" and "oq_ok q"
    and "list_all (list_all departure) slices"
  shows "oq_moves [] q q' \<and> list_all (list_all departure) slices'"
proof (cases "timeout = 0")
  case True
  then show ?thesis using assms by (auto simp: osalThreadEnqueueTimeoutS_def oq_moves_refl)
next
  case False
  define q0 where "q0 = q\<lparr>q_waiting := q_waiting q @ [self], q_woken := []\<rparr>"
  obtain sl where sl: "slices = sl # slices'" "run_calls oq_event q0 sl = Some q'"
    using assms(1) False by (auto simp: osalThreadEnqueueTimeoutS_def q0_def split: list.splits Option.bind_splits)
  have "oq_ok q0" using assms(2) by (simp add: q0_def q_contents)
  from oq_slice_moves [OF this, of sl] have "oq_moves [] q0 q'" using assms(3) sl by auto
  then show ?thesis using sl assms(3) oq_moves_cong [of q0 q] by (auto simp: q0_def)
qed

lemma oq_preempt_moves:
  assumes "oq_ok q" and "list_all (list_all departure) slices"
  shows "\<exists>slices' q'. preempt oq_event slices q = Some (slices', q') \<and> oq_moves [] q q' \<and> list_all (list_all departure) slices'"
  using assms oq_slice_moves [OF assms(1)] by (cases slices) (auto simp: preempt_def oq_moves_refl)

lemma oqWriteTimeout_loop_spec:
  "oqWriteTimeout_loop self timeout slices bp q = Some (k, slices', q') \<Longrightarrow> oq_ok q \<Longrightarrow>
     list_all (list_all departure) slices \<Longrightarrow> k \<le> length bp \<and> oq_moves (take k bp) q q'"
proof (induction self timeout slices bp q arbitrary: k rule: oqWriteTimeout_loop.induct)
  case (1 self timeout slices bp q)
  show ?case
  proof (cases "bp = []")
    case True
    then show ?thesis using "1.prems" by (simp add: oqWriteTimeout_loop.simps oq_moves_refl)
  next
    case False
    define j where "j = min (length bp) (qSizeX q - length (oq_items q))"
    obtain q1 where q1: "oq_write bp q = Some (j, q1)" "oq_moves (take j bp) q q1" "oq_ok q1"
      using oq_write_spec [OF "1.prems"(2) False] by (auto simp: j_def oq_moves_def)
    show ?thesis
    proof (cases "j = 0")
      case True
      obtain m slices1 q2 where s: "osalThreadEnqueueTimeoutS oq_event self timeout slices q1 = Some (m, slices1, q2)"
        and rest: "if m \<noteq> MSG_OK then k = 0 \<and> q' = q2
           else oqWriteTimeout_loop self timeout slices1 bp q2 = Some (k, slices', q')"
        using "1.prems"(1) False q1(1) True
        by (subst (asm) oqWriteTimeout_loop.simps) (auto split: option.splits if_splits)
      have m1: "oq_moves [] q q2" "list_all (list_all departure) slices1"
        using oq_sleep_moves [OF s q1(3) "1.prems"(3)] oq_moves_trans [OF q1(2), of "[]" q2] True by auto
      show ?thesis
      proof (cases "m = MSG_OK")
        case m: True
        have "k \<le> length bp \<and> oq_moves (take k bp) q2 q'"
          using "1.IH"(1) [OF False q1(1) refl True s refl refl] m rest m1 by (auto simp: oq_moves_def)
        then show ?thesis using oq_moves_trans [OF m1(1), of "take k bp" q'] by simp
      next
        case m: False
        then show ?thesis using rest m1 by auto
      qed
    next
      case ne: False
      have ok: "oq_ok (notify q1)" using q1(3) by (simp add: q_contents)
      obtain slices1 q2 where p: "preempt oq_event slices (notify q1) = Some (slices1, q2)" "oq_moves [] q1 q2"
        "list_all (list_all departure) slices1"
        using oq_preempt_moves [OF ok "1.prems"(3)] oq_moves_cong [of "notify q1" q1] by auto
      obtain k' where k': "oqWriteTimeout_loop self timeout slices1 (drop j bp) q2 = Some (k', slices', q')" "k = j + k'"
        using "1.prems"(1) False q1(1) ne p(1) by (subst (asm) oqWriteTimeout_loop.simps) auto
      have "k' \<le> length (drop j bp) \<and> oq_moves (take k' (drop j bp)) q2 q'"
        using "1.IH"(2) [OF False q1(1) refl ne p(1) refl k'(1)] p(2,3) by (auto simp: oq_moves_def)
      then show ?thesis
        using oq_moves_trans [OF oq_moves_trans [OF q1(2) p(2)], of "take k' (drop j bp)" q'] k'(2)
        by (auto simp: take_add j_def)
    qed
  qed
qed

section \<open>Returning\<close>

lemma iq_slice_ok: "iq_ok q \<Longrightarrow> \<exists>q'. run_calls iq_event q sl = Some q' \<and> iq_ok q' \<and> qSizeX q' = qSizeX q"
proof (induction sl arbitrary: q)
  case (Cons ev sl)
  then show ?case using iq_event_ok [OF Cons.prems, of ev] by fastforce
qed simp

lemma oq_event_ok:
  assumes "oq_ok q"
  shows "\<exists>q'. oq_event q ev = Some q' \<and> oq_ok q' \<and> qSizeX q' = qSizeX q"
proof (cases ev)
  case (EvPut b)
  then show ?thesis
  proof (cases "oqIsFullI q")
    case True
    then show ?thesis using assms EvPut by (simp add: oqPutI_def)
  next
    case False
    have "length (oq_items q) \<le> qSizeX q" by (simp add: oq_items_def)
    then have "length (oq_items q) < qSizeX q" using False oq_full [OF assms] by simp
    then show ?thesis using oq_put_room [OF assms, of b] False EvPut by (auto simp: oqPutI_def)
  qed
next
  case EvGet
  then show ?thesis
    using oqGetI_item [OF assms] assms by (cases "oq_items q") (auto simp: oqGetI_def oq_empty)
next
  case EvReset
  then show ?thesis using assms by (auto simp: oqResetI_def q_contents)
next
  case (EvTimeout t)
  then show ?thesis using assms by (simp add: q_contents)
qed

lemma oq_slice_ok: "oq_ok q \<Longrightarrow> \<exists>q'. run_calls oq_event q sl = Some q' \<and> oq_ok q' \<and> qSizeX q' = qSizeX q"
proof (induction sl arbitrary: q)
  case (Cons ev sl)
  then show ?case using oq_event_ok [OF Cons.prems, of ev] by fastforce
qed simp

text \<open>Reading with \<open>TIME_IMMEDIATE\<close> always returns, whatever happens in the windows between the blocks.\<close>

lemma iqReadTimeout_immediate:
  "iq_ok q \<Longrightarrow> timeout = 0 \<Longrightarrow> \<exists>r. iqReadTimeout_loop self timeout slices n q = Some r"
proof (induction self timeout slices n q rule: iqReadTimeout_loop.induct)
  case (1 self timeout slices n q)
  show ?case
  proof (cases "n = 0")
    case True
    then show ?thesis by (simp add: iqReadTimeout_loop.simps)
  next
    case False
    define bs where "bs = take n (iq_items q)"
    obtain q1 where q1: "iq_read n q = Some (bs, q1)" "iq_ok q1"
      using iq_read_spec [OF "1.prems"(1), of n] False by (auto simp: bs_def)
    show ?thesis
    proof (cases "bs = []")
      case True
      then show ?thesis
        using False q1(1) "1.prems"(2) by (subst iqReadTimeout_loop.simps) (simp add: osalThreadEnqueueTimeoutS_def)
    next
      case ne: False
      have "iq_ok (notify q1)" using q1(2) by (simp add: q_contents)
      then obtain slices1 q2 where p: "preempt iq_event slices (notify q1) = Some (slices1, q2)" "iq_ok q2"
        using iq_slice_ok [of "notify q1"] by (cases slices) (auto simp: preempt_def)
      then obtain r where "iqReadTimeout_loop self timeout slices1 (n - length bs) q2 = Some r"
        using "1.IH"(2) [OF False q1(1) refl ne p(1) refl p(2) "1.prems"(2)] by blast
      then show ?thesis using False q1(1) ne p(1) by (subst iqReadTimeout_loop.simps) (cases r, simp)
    qed
  qed
qed

end
