(* ===== verification/Serial.thy ===== *)
theory Serial
  imports Queues Gps
begin

text \<open>
  The serial driver: \<open>hal_serial.c\<close> with its low level part for the USART of the
  microcontroller, \<open>USARTv1/hal_serial_lld.c\<close>, and the thread of \<open>gps.c\<close> that reads from it.

  The registers the driver writes are the record \<open>usart\<close>; what it reads from the status and
  data registers comes from the line and is an argument of the interrupt handler. \<open>sd_event\<close>
  lists the flags broadcast to the listeners of the driver.
\<close>

section \<open>The driver\<close>

datatype sdstate = SD_UNINIT | SD_STOP | SD_READY

record SerialConfig =
  sc_speed :: u32
  sc_cr1 :: u16
  sc_cr2 :: u16
  sc_cr3 :: u16

record usart =
  u_CR1 :: u32
  u_CR2 :: u32
  u_CR3 :: u32
  u_BRR :: u32
  u_sent :: "u8 list"

record SerialDriver =
  sd_event :: "u32 list"
  sd_state :: sdstate
  sd_iqueue :: io_queue
  sd_oqueue :: io_queue
  sd_usart :: usart
  sd_clock :: u32
  sd_rxmask :: u8
  sd_rcc :: bool

definition SERIAL_BUFFERS_SIZE :: nat where "SERIAL_BUFFERS_SIZE = 16"

definition CHN_INPUT_AVAILABLE :: u32 where "CHN_INPUT_AVAILABLE = 4"
definition CHN_OUTPUT_EMPTY :: u32 where "CHN_OUTPUT_EMPTY = 8"
definition CHN_TRANSMISSION_END :: u32 where "CHN_TRANSMISSION_END = 16"
definition SD_PARITY_ERROR :: u32 where "SD_PARITY_ERROR = 32"
definition SD_FRAMING_ERROR :: u32 where "SD_FRAMING_ERROR = 64"
definition SD_NOISE_ERROR :: u32 where "SD_NOISE_ERROR = 128"
definition SD_OVERRUN_ERROR :: u32 where "SD_OVERRUN_ERROR = 256"
definition SD_BREAK_DETECTED :: u32 where "SD_BREAK_DETECTED = 1024"
definition SD_QUEUE_FULL_ERROR :: u32 where "SD_QUEUE_FULL_ERROR = 2048"

definition USART_CR1_RE :: u32 where "USART_CR1_RE = 0x4"
definition USART_CR1_TE :: u32 where "USART_CR1_TE = 0x8"
definition USART_CR1_RXNEIE :: u32 where "USART_CR1_RXNEIE = 0x20"
definition USART_CR1_TCIE :: u32 where "USART_CR1_TCIE = 0x40"
definition USART_CR1_TXEIE :: u32 where "USART_CR1_TXEIE = 0x80"
definition USART_CR1_PEIE :: u32 where "USART_CR1_PEIE = 0x100"
definition USART_CR1_PCE :: u32 where "USART_CR1_PCE = 0x400"
definition USART_CR1_M :: u32 where "USART_CR1_M = 0x1000"
definition USART_CR1_UE :: u32 where "USART_CR1_UE = 0x2000"
definition USART_CR1_OVER8 :: u32 where "USART_CR1_OVER8 = 0x8000"
definition USART_CR2_LBDIE :: u32 where "USART_CR2_LBDIE = 0x40"
definition USART_CR3_EIE :: u32 where "USART_CR3_EIE = 0x1"
definition USART_SR_PE :: u32 where "USART_SR_PE = 0x1"
definition USART_SR_FE :: u32 where "USART_SR_FE = 0x2"
definition USART_SR_NE :: u32 where "USART_SR_NE = 0x4"
definition USART_SR_ORE :: u32 where "USART_SR_ORE = 0x8"
definition USART_SR_RXNE :: u32 where "USART_SR_RXNE = 0x20"
definition USART_SR_TC :: u32 where "USART_SR_TC = 0x40"
definition USART_SR_TXE :: u32 where "USART_SR_TXE = 0x80"
definition USART_SR_LBD :: u32 where "USART_SR_LBD = 0x100"

lemmas usart_bits = USART_CR1_RE_def USART_CR1_TE_def USART_CR1_RXNEIE_def USART_CR1_TCIE_def USART_CR1_TXEIE_def
  USART_CR1_PEIE_def USART_CR1_PCE_def USART_CR1_M_def USART_CR1_UE_def USART_CR1_OVER8_def USART_CR2_LBDIE_def
  USART_CR3_EIE_def USART_SR_PE_def USART_SR_FE_def USART_SR_NE_def USART_SR_ORE_def USART_SR_RXNE_def
  USART_SR_TC_def USART_SR_TXE_def USART_SR_LBD_def

definition chnAddFlagsI :: "u32 \<Rightarrow> SerialDriver \<Rightarrow> SerialDriver" where
  "chnAddFlagsI flags sdp = sdp\<lparr>sd_event := sd_event sdp @ [flags]\<rparr>"

text \<open>The low level part. \<open>None\<close> is a failed assertion or a division by zero.\<close>

definition default_config :: SerialConfig where
  "default_config = \<lparr>sc_speed = 38400, sc_cr1 = 0, sc_cr2 = 0, sc_cr3 = 0\<rparr>"

definition usart_brr :: "u32 \<Rightarrow> u32 \<Rightarrow> u32" where
  "usart_brr clock spd = (clock + spd div 2) div spd"

definition usart_init :: "SerialConfig \<Rightarrow> SerialDriver \<Rightarrow> SerialDriver option" where
  "usart_init config sdp =
     (if sc_speed config = 0 then None
      else let brr = usart_brr (sd_clock sdp) (sc_speed config);
               brr = (if (ucast (sc_cr1 config) AND USART_CR1_OVER8) \<noteq> 0
                      then ((brr AND NOT 7) * 2) OR (brr AND 7) else brr)
           in if \<not> brr < 0x10000 then None
              else Some (sdp\<lparr>sd_usart := (sd_usart sdp)\<lparr>
                       u_BRR := brr,
                       u_CR2 := ucast (sc_cr2 config) OR USART_CR2_LBDIE,
                       u_CR3 := ucast (sc_cr3 config) OR USART_CR3_EIE,
                       u_CR1 := ucast (sc_cr1 config) OR USART_CR1_UE OR USART_CR1_PEIE OR USART_CR1_RXNEIE OR
                                USART_CR1_TE OR USART_CR1_RE\<rparr>,
                     sd_rxmask := (if (ucast (sc_cr1 config) AND (USART_CR1_M OR USART_CR1_PCE)) = USART_CR1_PCE
                                   then 0x7F else 0xFF)\<rparr>))"

definition usart_deinit :: "usart \<Rightarrow> usart" where
  "usart_deinit u = u\<lparr>u_CR1 := 0, u_CR2 := 0, u_CR3 := 0\<rparr>"

definition set_error :: "u32 \<Rightarrow> SerialDriver \<Rightarrow> SerialDriver" where
  "set_error sr sdp =
     (let sts = 0;
          sts = (if (sr AND USART_SR_ORE) \<noteq> 0 then sts OR SD_OVERRUN_ERROR else sts);
          sts = (if (sr AND USART_SR_PE) \<noteq> 0 then sts OR SD_PARITY_ERROR else sts);
          sts = (if (sr AND USART_SR_FE) \<noteq> 0 then sts OR SD_FRAMING_ERROR else sts);
          sts = (if (sr AND USART_SR_NE) \<noteq> 0 then sts OR SD_NOISE_ERROR else sts)
      in chnAddFlagsI sts sdp)"

definition notify3 :: "usart \<Rightarrow> usart" where
  "notify3 u = u\<lparr>u_CR1 := u_CR1 u OR (USART_CR1_TXEIE OR USART_CR1_TCIE)\<rparr>"

definition sd_lld_start :: "SerialConfig option \<Rightarrow> SerialDriver \<Rightarrow> SerialDriver option" where
  "sd_lld_start config sdp =
     (let config = (case config of None \<Rightarrow> default_config | Some c \<Rightarrow> c)
      in usart_init config (if sd_state sdp = SD_STOP then sdp\<lparr>sd_rcc := True\<rparr> else sdp))"

definition sd_lld_stop :: "SerialDriver \<Rightarrow> SerialDriver" where
  "sd_lld_stop sdp =
     (if sd_state sdp = SD_READY then sdp\<lparr>sd_usart := usart_deinit (sd_usart sdp), sd_rcc := False\<rparr> else sdp)"

section \<open>The portable part\<close>

definition sdObjectInit :: "bool \<Rightarrow> bool \<Rightarrow> u8 list \<Rightarrow> u8 list \<Rightarrow> SerialDriver \<Rightarrow> SerialDriver" where
  "sdObjectInit inotify onotify ib ob sdp =
     sdp\<lparr>sd_event := [], sd_state := SD_STOP,
         sd_iqueue := iqObjectInit (take SERIAL_BUFFERS_SIZE ib) inotify,
         sd_oqueue := oqObjectInit (take SERIAL_BUFFERS_SIZE ob) onotify\<rparr>"

definition sd_lld_init :: "u32 \<Rightarrow> u8 list \<Rightarrow> u8 list \<Rightarrow> usart \<Rightarrow> SerialDriver \<Rightarrow> SerialDriver" where
  "sd_lld_init STM32_PCLK1 ib ob u SD3 = (sdObjectInit False True ib ob SD3)\<lparr>sd_usart := u, sd_clock := STM32_PCLK1\<rparr>"

definition sdStart :: "SerialConfig option \<Rightarrow> SerialDriver \<Rightarrow> (msg \<times> SerialDriver) option" where
  "sdStart config sdp =
     (if \<not> (sd_state sdp = SD_STOP \<or> sd_state sdp = SD_READY) then None
      else map_option (\<lambda>sdp. (MSG_OK, sdp\<lparr>sd_state := SD_READY\<rparr>)) (sd_lld_start config sdp))"

definition sdStop :: "SerialDriver \<Rightarrow> SerialDriver option" where
  "sdStop sdp =
     (if \<not> (sd_state sdp = SD_STOP \<or> sd_state sdp = SD_READY) then None
      else let sdp = (sd_lld_stop sdp)\<lparr>sd_state := SD_STOP\<rparr>
           in Some (sdp\<lparr>sd_oqueue := oqResetI (sd_oqueue sdp), sd_iqueue := iqResetI (sd_iqueue sdp)\<rparr>))"

definition sdIncomingDataI :: "u8 \<Rightarrow> SerialDriver \<Rightarrow> SerialDriver option" where
  "sdIncomingDataI b sdp =
     (let sdp = (if iqIsEmptyI (sd_iqueue sdp) then chnAddFlagsI CHN_INPUT_AVAILABLE sdp else sdp)
      in do { (m, q) \<leftarrow> iqPutI (sd_iqueue sdp) b;
              let sdp = sdp\<lparr>sd_iqueue := q\<rparr>;
              Some (if m \<noteq> MSG_OK then chnAddFlagsI SD_QUEUE_FULL_ERROR sdp else sdp) })"

definition sdRequestDataI :: "SerialDriver \<Rightarrow> ((msg + u8) \<times> SerialDriver) option" where
  "sdRequestDataI sdp =
     do { (b, q) \<leftarrow> oqGetI (sd_oqueue sdp);
          let sdp = sdp\<lparr>sd_oqueue := q\<rparr>;
          Some (b, if isl b then chnAddFlagsI CHN_OUTPUT_EMPTY sdp else sdp) }"

definition sdPutWouldBlock :: "SerialDriver \<Rightarrow> bool" where
  "sdPutWouldBlock sdp = oqIsFullI (sd_oqueue sdp)"

definition sdGetWouldBlock :: "SerialDriver \<Rightarrow> bool" where
  "sdGetWouldBlock sdp = iqIsEmptyI (sd_iqueue sdp)"

datatype ctl_result = HAL_RET_SUCCESS | HAL_RET_UNKNOWN_CTL

text \<open>\<open>_ctl\<close>: \<open>CHN_CTL_INVALID\<close> is 0, \<open>CHN_CTL_NOP\<close> is 1 and has no argument.\<close>

definition sdControl :: "nat \<Rightarrow> 'a option \<Rightarrow> ctl_result option" where
  "sdControl operation arg =
     (if operation = 1 then (if arg = None then Some HAL_RET_SUCCESS else None)
      else Some HAL_RET_UNKNOWN_CTL)"

text \<open>
  Reading and writing. The input queue has no notification callback; that of the output queue
  is \<open>notify3\<close>, which enables the transmitter interrupts.
\<close>

definition on_iqueue :: "SerialDriver \<Rightarrow> ('a \<times> q_event list list \<times> io_queue) option \<Rightarrow> ('a \<times> q_event list list \<times> SerialDriver) option" where
  "on_iqueue sdp r = map_option (\<lambda>(x, slices, q). (x, slices, sdp\<lparr>sd_iqueue := q\<rparr>)) r"

definition sd_get :: "tid \<Rightarrow> q_event list list \<Rightarrow> SerialDriver \<Rightarrow> ((msg + u8) \<times> q_event list list \<times> SerialDriver) option" where
  "sd_get self slices sdp = on_iqueue sdp (iqGetTimeout self TIME_INFINITE slices (sd_iqueue sdp))"

definition sd_gett :: "tid \<Rightarrow> u32 \<Rightarrow> q_event list list \<Rightarrow> SerialDriver \<Rightarrow> ((msg + u8) \<times> q_event list list \<times> SerialDriver) option" where
  "sd_gett self timeout slices sdp = on_iqueue sdp (iqGetTimeout self timeout slices (sd_iqueue sdp))"

definition sd_read :: "tid \<Rightarrow> q_event list list \<Rightarrow> nat \<Rightarrow> SerialDriver \<Rightarrow> (u8 list \<times> q_event list list \<times> SerialDriver) option" where
  "sd_read self slices n sdp = on_iqueue sdp (iqReadTimeout self TIME_INFINITE slices n (sd_iqueue sdp))"

definition sd_readt :: "tid \<Rightarrow> u32 \<Rightarrow> q_event list list \<Rightarrow> nat \<Rightarrow> SerialDriver \<Rightarrow> (u8 list \<times> q_event list list \<times> SerialDriver) option" where
  "sd_readt self timeout slices n sdp = on_iqueue sdp (iqReadTimeout self timeout slices n (sd_iqueue sdp))"

definition sdAsynchronousRead :: "tid \<Rightarrow> nat \<Rightarrow> SerialDriver \<Rightarrow> (u8 list \<times> q_event list list \<times> SerialDriver) option" where
  "sdAsynchronousRead self n sdp = on_iqueue sdp (iqReadTimeout self TIME_IMMEDIATE [] n (sd_iqueue sdp))"

definition on_oqueue :: "SerialDriver \<Rightarrow> io_queue \<Rightarrow> SerialDriver" where
  "on_oqueue sdp q =
     sdp\<lparr>sd_oqueue := q,
         sd_usart := (if q_notified q \<noteq> q_notified (sd_oqueue sdp) then notify3 (sd_usart sdp) else sd_usart sdp)\<rparr>"

definition sdPutI :: "u8 \<Rightarrow> SerialDriver \<Rightarrow> (msg \<times> SerialDriver) option" where
  "sdPutI b sdp = map_option (\<lambda>(m, q). (m, on_oqueue sdp q)) (oqPutI (sd_oqueue sdp) b)"

definition sdWriteI :: "u8 list \<Rightarrow> SerialDriver \<Rightarrow> (nat \<times> SerialDriver) option" where
  "sdWriteI bp sdp = map_option (\<lambda>(n, q). (n, on_oqueue sdp q)) (oqWriteI bp (sd_oqueue sdp))"

definition sd_putt :: "tid \<Rightarrow> u32 \<Rightarrow> q_event list list \<Rightarrow> SerialDriver \<Rightarrow> u8 \<Rightarrow> (msg \<times> q_event list list \<times> SerialDriver) option" where
  "sd_putt self timeout slices sdp b =
     map_option (\<lambda>(m, slices, q). (m, slices, on_oqueue sdp q)) (oqPutTimeout self timeout slices (sd_oqueue sdp) b)"

section \<open>The interrupt handler\<close>

text \<open>
  The handler reads the status register, then, as long as there is something to receive, the
  data register and the status register again: \<open>rx\<close> is what these reads return. \<open>None\<close> means
  that the line still delivers after them. \<open>cr1\<close> and \<open>sr\<close> are 16-bit variables of the handler.
\<close>

definition SR_RECEIVE :: u32 where
  "SR_RECEIVE = (((USART_SR_RXNE OR USART_SR_ORE) OR USART_SR_NE) OR USART_SR_FE) OR USART_SR_PE"

definition SR_ERROR :: u32 where
  "SR_ERROR = ((USART_SR_ORE OR USART_SR_NE) OR USART_SR_FE) OR USART_SR_PE"

fun rx_loop :: "u32 \<Rightarrow> (u32 \<times> u32) list \<Rightarrow> SerialDriver \<Rightarrow> (u32 \<times> SerialDriver) option" where
  "rx_loop sr rx sdp =
     (if (sr AND SR_RECEIVE) = 0 then Some (sr, sdp)
      else case rx of
             [] \<Rightarrow> None
           | (dr, sr') # rx' \<Rightarrow>
               do { let sdp = (if (sr AND SR_ERROR) \<noteq> 0 then set_error sr sdp else sdp);
                    let b = ucast dr AND sd_rxmask sdp;
                    sdp \<leftarrow> (if (sr AND USART_SR_RXNE) \<noteq> 0 then sdIncomingDataI b sdp else Some sdp);
                    rx_loop (take_bit 16 sr') rx' sdp })"

declare rx_loop.simps [simp del]

definition tx_ready :: "u32 \<Rightarrow> u32 \<Rightarrow> SerialDriver \<Rightarrow> SerialDriver option" where
  "tx_ready cr1 sr sdp =
     (if (cr1 AND USART_CR1_TXEIE) \<noteq> 0 \<and> (sr AND USART_SR_TXE) \<noteq> 0
      then do { (r, q) \<leftarrow> oqGetI (sd_oqueue sdp);
                let sdp = sdp\<lparr>sd_oqueue := q\<rparr>;
                Some (case r of
                        Inl m \<Rightarrow> (chnAddFlagsI CHN_OUTPUT_EMPTY sdp)\<lparr>sd_usart := (sd_usart sdp)\<lparr>u_CR1 := cr1 AND NOT USART_CR1_TXEIE\<rparr>\<rparr>
                      | Inr b \<Rightarrow> sdp\<lparr>sd_usart := (sd_usart sdp)\<lparr>u_sent := u_sent (sd_usart sdp) @ [b]\<rparr>\<rparr>) }
      else Some sdp)"

definition tx_end :: "u32 \<Rightarrow> u32 \<Rightarrow> SerialDriver \<Rightarrow> SerialDriver" where
  "tx_end cr1 sr sdp =
     (if (cr1 AND USART_CR1_TCIE) \<noteq> 0 \<and> (sr AND USART_SR_TC) \<noteq> 0
      then if oqIsEmptyI (sd_oqueue sdp)
           then (chnAddFlagsI CHN_TRANSMISSION_END sdp)\<lparr>sd_usart := (sd_usart sdp)\<lparr>u_CR1 := cr1 AND NOT USART_CR1_TCIE\<rparr>\<rparr>
           else sdp
      else sdp)"

definition sd_lld_serve_interrupt :: "u32 \<Rightarrow> (u32 \<times> u32) list \<Rightarrow> SerialDriver \<Rightarrow> SerialDriver option" where
  "sd_lld_serve_interrupt sr rx sdp =
     do { let cr1 = take_bit 16 (u_CR1 (sd_usart sdp));
          let sr = take_bit 16 sr;
          let sdp = (if (sr AND USART_SR_LBD) \<noteq> 0 then chnAddFlagsI SD_BREAK_DETECTED sdp else sdp);
          (sr, sdp) \<leftarrow> rx_loop sr rx sdp;
          sdp \<leftarrow> tx_ready cr1 sr sdp;
          Some (tx_end cr1 sr sdp) }"

section \<open>Receiving\<close>

definition sd_ok :: "SerialDriver \<Rightarrow> bool" where
  "sd_ok s \<longleftrightarrow> iq_ok (sd_iqueue s) \<and> oq_ok (sd_oqueue s) \<and>
     qSizeX (sd_iqueue s) = SERIAL_BUFFERS_SIZE \<and> qSizeX (sd_oqueue s) = SERIAL_BUFFERS_SIZE"

abbreviation rx_items :: "SerialDriver \<Rightarrow> u8 list" where "rx_items s \<equiv> iq_items (sd_iqueue s)"
abbreviation tx_items :: "SerialDriver \<Rightarrow> u8 list" where "tx_items s \<equiv> oq_items (sd_oqueue s)"

text \<open>\<open>sd_same_tx s s'\<close>: the receiving side leaves everything of the transmitter as it is.\<close>

definition sd_same_tx :: "SerialDriver \<Rightarrow> SerialDriver \<Rightarrow> bool" where
  "sd_same_tx s s' \<longleftrightarrow> sd_oqueue s' = sd_oqueue s \<and> sd_usart s' = sd_usart s \<and> sd_rxmask s' = sd_rxmask s \<and>
     sd_state s' = sd_state s"

lemma chnAddFlagsI_fields [simp]:
  "sd_iqueue (chnAddFlagsI f s) = sd_iqueue s" "sd_oqueue (chnAddFlagsI f s) = sd_oqueue s"
  "sd_usart (chnAddFlagsI f s) = sd_usart s" "sd_rxmask (chnAddFlagsI f s) = sd_rxmask s"
  "sd_state (chnAddFlagsI f s) = sd_state s" "sd_event (chnAddFlagsI f s) = sd_event s @ [f]"
  by (simp_all add: chnAddFlagsI_def)

lemma set_error_fields [simp]:
  "sd_iqueue (set_error sr s) = sd_iqueue s" "sd_oqueue (set_error sr s) = sd_oqueue s"
  "sd_usart (set_error sr s) = sd_usart s" "sd_rxmask (set_error sr s) = sd_rxmask s"
  "sd_state (set_error sr s) = sd_state s" "set (sd_event s) \<subseteq> set (sd_event (set_error sr s))"
  by (auto simp: set_error_def Let_def)

lemma sdIncomingDataI_spec:
  assumes "sd_ok s"
  shows "\<exists>s'. sdIncomingDataI b s = Some s' \<and> sd_ok s' \<and> sd_same_tx s s' \<and>
    rx_items s' = take SERIAL_BUFFERS_SIZE (rx_items s @ [b]) \<and> set (sd_event s) \<subseteq> set (sd_event s') \<and>
    (length (rx_items s) = SERIAL_BUFFERS_SIZE \<longrightarrow> SD_QUEUE_FULL_ERROR \<in> set (sd_event s'))"
proof (cases "length (rx_items s) < SERIAL_BUFFERS_SIZE")
  case True
  then show ?thesis using assms iqPutI_room [of "sd_iqueue s" b]
    by (auto simp: sdIncomingDataI_def sd_ok_def sd_same_tx_def Let_def)
next
  case False
  then have "length (rx_items s) = SERIAL_BUFFERS_SIZE" using assms by (auto simp: sd_ok_def q_contents)
  then show ?thesis using assms iqPutI_full [of "sd_iqueue s" b]
    by (auto simp: sdIncomingDataI_def sd_ok_def sd_same_tx_def Let_def)
qed

text \<open>The bytes the line delivers in one interrupt.\<close>

fun rx_bytes :: "u8 \<Rightarrow> u32 \<Rightarrow> (u32 \<times> u32) list \<Rightarrow> u8 list" where
  "rx_bytes rxmask sr [] = []"
| "rx_bytes rxmask sr ((dr, sr') # rx) =
     (if (sr AND SR_RECEIVE) = 0 then []
      else (if (sr AND USART_SR_RXNE) \<noteq> 0 then [ucast dr AND rxmask] else []) @ rx_bytes rxmask (take_bit 16 sr') rx)"

lemma take_take_append: "take n (take n xs @ ys) = take n (xs @ ys)"
  by (cases "n \<le> length xs") simp_all

lemma rx_loop_Cons:
  "(sr AND SR_RECEIVE) \<noteq> 0 \<Longrightarrow> rx_loop sr ((dr, sr1) # rx) s =
     (let s0 = (if (sr AND SR_ERROR) \<noteq> 0 then set_error sr s else s)
      in Option.bind (if (sr AND USART_SR_RXNE) \<noteq> 0 then sdIncomingDataI (ucast dr AND sd_rxmask s0) s0 else Some s0)
           (rx_loop (take_bit 16 sr1) rx))"
  by (subst rx_loop.simps) (simp add: Let_def)

lemma rx_loop_spec:
  "sd_ok s \<Longrightarrow> rx_loop sr rx s = Some (sr', s') \<Longrightarrow>
     sd_ok s' \<and> sd_same_tx s s' \<and> (sr' AND SR_RECEIVE) = 0 \<and>
     rx_items s' = take SERIAL_BUFFERS_SIZE (rx_items s @ rx_bytes (sd_rxmask s) sr rx) \<and>
     set (sd_event s) \<subseteq> set (sd_event s') \<and>
     (SERIAL_BUFFERS_SIZE < length (rx_items s @ rx_bytes (sd_rxmask s) sr rx) \<longrightarrow> SD_QUEUE_FULL_ERROR \<in> set (sd_event s'))"
proof (induction rx arbitrary: sr s)
  case Nil
  then have "length (rx_items s) \<le> SERIAL_BUFFERS_SIZE" by (auto simp: sd_ok_def q_contents)
  then show ?case using Nil by (auto simp: rx_loop.simps sd_same_tx_def split: if_splits)
next
  case (Cons d rx)
  obtain dr sr1 where d: "d = (dr, sr1)" by (cases d)
  have le: "length (rx_items s) \<le> SERIAL_BUFFERS_SIZE" using Cons.prems(1) by (auto simp: sd_ok_def q_contents)
  show ?case
  proof (cases "(sr AND SR_RECEIVE) = 0")
    case True
    then show ?thesis using Cons.prems le by (subst (asm) rx_loop.simps) (auto simp: d sd_same_tx_def)
  next
    case False
    define s0 where "s0 = (if (sr AND SR_ERROR) \<noteq> 0 then set_error sr s else s)"
    have s0: "sd_iqueue s0 = sd_iqueue s" "sd_same_tx s s0" "sd_ok s0" "sd_rxmask s0 = sd_rxmask s" "set (sd_event s) \<subseteq> set (sd_event s0)"
      using Cons.prems(1) by (auto simp: s0_def sd_same_tx_def sd_ok_def)
    define bs where "bs = (if (sr AND USART_SR_RXNE) \<noteq> 0 then [ucast dr AND sd_rxmask s] else [])"
    obtain s1 where s1: "(if (sr AND USART_SR_RXNE) \<noteq> 0 then sdIncomingDataI (ucast dr AND sd_rxmask s0) s0 else Some s0) = Some s1"
      and loop: "rx_loop (take_bit 16 sr1) rx s1 = Some (sr', s')"
      using Cons.prems(2) unfolding d rx_loop_Cons [OF False] Let_def s0_def by (auto split: Option.bind_splits)
    define r where "r = rx_bytes (sd_rxmask s) (take_bit 16 sr1) rx"
    have b: "rx_bytes (sd_rxmask s) sr (d # rx) = bs @ r" using False by (simp add: d bs_def r_def)
    have i1: "sd_ok s1" "sd_same_tx s0 s1" "rx_items s1 = take SERIAL_BUFFERS_SIZE (rx_items s @ bs)"
        "set (sd_event s0) \<subseteq> set (sd_event s1)"
        "SERIAL_BUFFERS_SIZE < length (rx_items s @ bs) \<longrightarrow> SD_QUEUE_FULL_ERROR \<in> set (sd_event s1)"
      using s1 s0 sdIncomingDataI_spec [OF s0(3), of "ucast dr AND sd_rxmask s"] le
      by (auto simp: bs_def sd_same_tx_def split: if_splits)
    have m: "sd_rxmask s1 = sd_rxmask s" using i1(2) s0(4) by (simp add: sd_same_tx_def)
    note i2 = Cons.IH [OF i1(1) loop, unfolded m, folded r_def]
    have "rx_items s' = take SERIAL_BUFFERS_SIZE (rx_items s @ bs @ r)"
      using i2 i1(3) take_take_append [of SERIAL_BUFFERS_SIZE "rx_items s @ bs" r] by (simp del: take_append)
    moreover have "SD_QUEUE_FULL_ERROR \<in> set (sd_event s')" if "SERIAL_BUFFERS_SIZE < length (rx_items s @ bs @ r)"
      using that i1(3,5) i2 by (cases "SERIAL_BUFFERS_SIZE < length (rx_items s @ bs)") auto
    moreover have "sd_same_tx s s'" using s0(2) i1(2) i2 by (simp add: sd_same_tx_def)
    ultimately show ?thesis using i2 i1(4) s0(5) unfolding b by blast
  qed
qed

lemma rx_loop_ends:
  "sd_ok s \<Longrightarrow> list_ex (\<lambda>(dr, sr). (take_bit 16 sr AND SR_RECEIVE) = 0) rx \<Longrightarrow> \<exists>r. rx_loop sr rx s = Some r"
proof (induction rx arbitrary: sr s)
  case (Cons d rx)
  obtain dr sr1 where d: "d = (dr, sr1)" by (cases d)
  define s0 where "s0 = (if (sr AND SR_ERROR) \<noteq> 0 then set_error sr s else s)"
  have "sd_ok s0" using Cons.prems(1) by (auto simp: s0_def sd_ok_def)
  then obtain s1 where s1: "(if (sr AND USART_SR_RXNE) \<noteq> 0 then sdIncomingDataI (ucast dr AND sd_rxmask s0) s0 else Some s0) = Some s1" "sd_ok s1"
    using sdIncomingDataI_spec by (metis (full_types))
  have "\<exists>r. rx_loop (take_bit 16 sr1) rx s1 = Some r"
  proof (cases "(take_bit 16 sr1 AND SR_RECEIVE) = 0")
    case True
    then show ?thesis by (simp add: rx_loop.simps)
  next
    case False
    then show ?thesis using Cons.IH [OF s1(2)] Cons.prems(2) by (auto simp: d)
  qed
  then show ?case
    using s1(1) rx_loop_Cons [of sr dr sr1 rx s] unfolding d s0_def Let_def
    by (cases "(sr AND SR_RECEIVE) = 0") (simp_all add: rx_loop.simps [of sr])
qed simp

text \<open>No interrupt that ends leads outside a buffer; one that only receives leaves the transmitter alone.\<close>

lemma take_bit_masks:
  "(take_bit 16 w AND USART_CR1_TXEIE) = (w AND USART_CR1_TXEIE)"
  "(take_bit 16 w AND USART_CR1_TCIE) = (w AND USART_CR1_TCIE)"
  "(take_bit 16 w AND USART_SR_TXE) = (w AND USART_SR_TXE)"
  "(take_bit 16 w AND USART_SR_TC) = (w AND USART_SR_TC)"
  "(take_bit 16 w AND USART_SR_RXNE) = (w AND USART_SR_RXNE)"
  "(take_bit 16 w AND SR_RECEIVE) = (w AND SR_RECEIVE)"
  by (simp_all add: usart_bits SR_RECEIVE_def take_bit_eq_mask ac_simps mask_eq_exp_minus_1)

lemma tx_ready_spec:
  assumes "sd_ok s" and "(c AND USART_CR1_TXEIE) \<noteq> 0" and "(sr AND USART_SR_TXE) \<noteq> 0"
  shows "case tx_items s of
      [] \<Rightarrow> tx_ready c sr s = Some ((chnAddFlagsI CHN_OUTPUT_EMPTY s)\<lparr>sd_usart := (sd_usart s)\<lparr>u_CR1 := c AND NOT USART_CR1_TXEIE\<rparr>\<rparr>)
    | b # bs \<Rightarrow> \<exists>q. tx_ready c sr s = Some (s\<lparr>sd_oqueue := q, sd_usart := (sd_usart s)\<lparr>u_sent := u_sent (sd_usart s) @ [b]\<rparr>\<rparr>) \<and>
        oq_ok q \<and> oq_items q = bs \<and> qSizeX q = qSizeX (sd_oqueue s)"
proof (cases "tx_items s")
  case Nil
  then have "oqGetI (sd_oqueue s) = Some (Inl MSG_TIMEOUT, sd_oqueue s)"
    using assms(1) by (simp add: oqGetI_def oq_empty sd_ok_def)
  then show ?thesis using Nil assms by (simp add: tx_ready_def)
next
  case (Cons b bs)
  then show ?thesis using oqGetI_item [of "sd_oqueue s" b bs] assms by (auto simp: tx_ready_def sd_ok_def)
qed

text \<open>One transmitter interrupt: the next byte, or, when there is none, the interrupt is switched off.\<close>

definition tx_only :: "u32 \<Rightarrow> bool" where
  "tx_only sr \<longleftrightarrow> (sr AND USART_SR_TXE) \<noteq> 0 \<and> (sr AND SR_RECEIVE) = 0 \<and> (sr AND USART_SR_TC) = 0"

lemma transmit_byte:
  assumes "sd_ok s" and "(u_CR1 (sd_usart s) AND USART_CR1_TXEIE) \<noteq> 0" and "tx_only sr" and "tx_items s = b # bs"
  shows "\<exists>s'. sd_lld_serve_interrupt sr [] s = Some s' \<and> sd_ok s' \<and> tx_items s' = bs \<and>
    u_sent (sd_usart s') = u_sent (sd_usart s) @ [b] \<and> u_CR1 (sd_usart s') = u_CR1 (sd_usart s)"
proof -
  define s0 where "s0 = (if (take_bit 16 sr AND USART_SR_LBD) \<noteq> 0 then chnAddFlagsI SD_BREAK_DETECTED s else s)"
  have s0: "sd_ok s0" "tx_items s0 = b # bs" "sd_usart s0 = sd_usart s" "qSizeX (sd_oqueue s0) = SERIAL_BUFFERS_SIZE"
    using assms(1,4) by (simp_all add: s0_def sd_ok_def)
  have rx: "rx_loop (take_bit 16 sr) [] s0 = Some (take_bit 16 sr, s0)"
    using assms(3) by (simp add: rx_loop.simps tx_only_def take_bit_masks)
  obtain q where q: "tx_ready (take_bit 16 (u_CR1 (sd_usart s))) (take_bit 16 sr) s0 =
      Some (s0\<lparr>sd_oqueue := q, sd_usart := (sd_usart s0)\<lparr>u_sent := u_sent (sd_usart s0) @ [b]\<rparr>\<rparr>)"
    "oq_ok q" "oq_items q = bs" "qSizeX q = SERIAL_BUFFERS_SIZE"
    using tx_ready_spec [OF s0(1), of "take_bit 16 (u_CR1 (sd_usart s))" "take_bit 16 sr"] assms(2,3) s0(2,4)
    by (auto simp: take_bit_masks tx_only_def)
  have "tx_end (take_bit 16 (u_CR1 (sd_usart s))) (take_bit 16 sr) t = t" for t
    using assms(3) by (simp add: tx_end_def take_bit_masks tx_only_def)
  then show ?thesis
    using rx q s0 by (auto simp: sd_lld_serve_interrupt_def Let_def s0_def [symmetric] sd_ok_def)
qed

lemma transmit_done:
  assumes "sd_ok s" and "(u_CR1 (sd_usart s) AND USART_CR1_TXEIE) \<noteq> 0" and "tx_only sr" and "tx_items s = []"
  shows "\<exists>s'. sd_lld_serve_interrupt sr [] s = Some s' \<and> sd_ok s' \<and> tx_items s' = [] \<and>
    u_sent (sd_usart s') = u_sent (sd_usart s) \<and> (u_CR1 (sd_usart s') AND USART_CR1_TXEIE) = 0"
proof -
  define s0 where "s0 = (if (take_bit 16 sr AND USART_SR_LBD) \<noteq> 0 then chnAddFlagsI SD_BREAK_DETECTED s else s)"
  have s0: "sd_ok s0" "tx_items s0 = []" "sd_usart s0 = sd_usart s"
    using assms(1,4) by (simp_all add: s0_def sd_ok_def)
  have rx: "rx_loop (take_bit 16 sr) [] s0 = Some (take_bit 16 sr, s0)"
    using assms(3) by (simp add: rx_loop.simps tx_only_def take_bit_masks)
  have t: "tx_end (take_bit 16 (u_CR1 (sd_usart s))) (take_bit 16 sr) t = t" for t
    using assms(3) by (simp add: tx_end_def take_bit_masks tx_only_def)
  have "((c AND NOT USART_CR1_TXEIE) AND USART_CR1_TXEIE) = 0" for c by (simp add: and.assoc)
  then show ?thesis
    using rx s0 t tx_ready_spec [OF s0(1), of "take_bit 16 (u_CR1 (sd_usart s))" "take_bit 16 sr"] assms(2,3)
    by (auto simp: sd_lld_serve_interrupt_def Let_def s0_def [symmetric] sd_ok_def take_bit_masks tx_only_def)
qed

lemma transmit_all:
  "sd_ok s \<Longrightarrow> (u_CR1 (sd_usart s) AND USART_CR1_TXEIE) \<noteq> 0 \<Longrightarrow> list_all tx_only srs \<Longrightarrow>
     length srs = Suc (length (tx_items s)) \<Longrightarrow>
     \<exists>s'. run_calls (\<lambda>s sr. sd_lld_serve_interrupt sr [] s) s srs = Some s' \<and> sd_ok s' \<and> tx_items s' = [] \<and>
       u_sent (sd_usart s') = u_sent (sd_usart s) @ tx_items s \<and> (u_CR1 (sd_usart s') AND USART_CR1_TXEIE) = 0"
proof (induction "tx_items s" arbitrary: s srs)
  case Nil
  then show ?case using transmit_done [of s "hd srs"] by (cases srs) auto
next
  case (Cons b bs)
  obtain sr srs' where srs: "srs = sr # srs'" using Cons.prems(4) by (cases srs) auto
  obtain s1 where s1: "sd_lld_serve_interrupt sr [] s = Some s1" "sd_ok s1" "tx_items s1 = bs"
    "u_sent (sd_usart s1) = u_sent (sd_usart s) @ [b]" "u_CR1 (sd_usart s1) = u_CR1 (sd_usart s)"
    using transmit_byte [OF Cons.prems(1,2) _ Cons.hyps(2) [symmetric], of sr] Cons.prems(3) srs by auto
  show ?case
    using Cons.hyps(1) [OF s1(3) [symmetric] s1(2), of srs'] s1 srs Cons.prems(2-4) Cons.hyps(2) [symmetric] by auto
qed

text \<open>
  With an empty output queue and both transmitter conditions pending, the second of the two
  writes of the control register undoes the first: the interrupt stays on and comes once more.
\<close>

lemma tx_interrupt_restored:
  assumes "sd_ok s" and "tx_items s = []" and "(sr AND USART_SR_TXE) \<noteq> 0" and "(sr AND USART_SR_TC) \<noteq> 0"
    and "(sr AND SR_RECEIVE) = 0" and "(u_CR1 (sd_usart s) AND USART_CR1_TXEIE) \<noteq> 0"
    and "(u_CR1 (sd_usart s) AND USART_CR1_TCIE) \<noteq> 0"
  shows "\<exists>s'. sd_lld_serve_interrupt sr [] s = Some s' \<and> u_CR1 (sd_usart s') = take_bit 16 (u_CR1 (sd_usart s)) AND NOT USART_CR1_TCIE"
proof -
  define s0 where "s0 = (if (take_bit 16 sr AND USART_SR_LBD) \<noteq> 0 then chnAddFlagsI SD_BREAK_DETECTED s else s)"
  have s0: "sd_ok s0" "tx_items s0 = []" "sd_usart s0 = sd_usart s" "oqIsEmptyI (sd_oqueue s0)"
    using assms(1,2) by (simp_all add: s0_def sd_ok_def oq_empty)
  have rx: "rx_loop (take_bit 16 sr) [] s0 = Some (take_bit 16 sr, s0)"
    using assms(5) by (simp add: rx_loop.simps take_bit_masks)
  then show ?thesis
    using s0 tx_ready_spec [OF s0(1), of "take_bit 16 (u_CR1 (sd_usart s))" "take_bit 16 sr"] assms
    by (auto simp: sd_lld_serve_interrupt_def Let_def s0_def [symmetric] take_bit_masks tx_end_def)
qed

section \<open>Baud rate\<close>

lemma usart_brr_nearest:
  assumes "0 < uint spd" and "uint clock + uint spd div 2 < 2 ^ 32"
  shows "\<bar>uint (usart_brr clock spd) * uint spd - uint clock\<bar> \<le> uint spd div 2"
proof -
  define c where "c = uint clock" define p where "p = uint spd"
  have c: "0 \<le> c" "0 < p" using assms by (simp_all add: c_def p_def)
  have "uint (clock + spd div 2) = c + p div 2"
    using assms by (simp add: uint_plus_if_size word_size uint_div c_def p_def)
  then have b: "uint (usart_brr clock spd) = (c + p div 2) div p"
    by (simp add: usart_brr_def uint_div p_def)
  have "(c + p div 2) div p * p = c + p div 2 - (c + p div 2) mod p" by (simp add: minus_mod_eq_div_mult)
  moreover have "0 \<le> (c + p div 2) mod p" "(c + p div 2) mod p < p" using c by simp_all
  moreover have "p - 1 - p div 2 \<le> p div 2" by linarith
  ultimately show ?thesis unfolding b c_def [symmetric] p_def [symmetric] by linarith
qed

section \<open>The GPS thread\<close>

text \<open>
  One round of the thread of \<open>gps.c\<close>: \<open>sdGet\<close> returns a byte, or a negative message, which
  becomes a character; for a zero byte the thread sleeps 50 ms. While it works or sleeps, the
  events of the next slice happen.
\<close>

definition sdGet_char :: "msg + u8 \<Rightarrow> char" where
  "sdGet_char r =
     (case r of Inr b \<Rightarrow> char_of (unat b)
      | Inl m \<Rightarrow> char_of (case m of MSG_OK \<Rightarrow> 0 | MSG_TIMEOUT \<Rightarrow> 255 | MSG_RESET \<Rightarrow> (254 :: nat)))"

definition gps_round ::
  "tid \<Rightarrow> q_event list list \<Rightarrow> io_queue \<Rightarrow> gps_thread \<Rightarrow> (q_event list list \<times> io_queue \<times> gps_thread) option" where
  "gps_round self slices q t =
     do { (r, slices, q) \<leftarrow> iqGetTimeout self TIME_INFINITE slices q;
          t \<leftarrow> gps_char t (sdGet_char r);
          (slices, q) \<leftarrow> preempt iq_event slices q;
          Some (slices, q, t) }"

fun gps_rounds ::
  "nat \<Rightarrow> tid \<Rightarrow> q_event list list \<Rightarrow> io_queue \<Rightarrow> gps_thread \<Rightarrow> (q_event list list \<times> io_queue \<times> gps_thread) option" where
  "gps_rounds 0 self slices q t = Some (slices, q, t)"
| "gps_rounds (Suc n) self slices q t =
     do { (slices, q, t) \<leftarrow> gps_round self slices q t; gps_rounds n self slices q t }"

text \<open>Only arrivals happen (nothing stops the driver, nobody else reads): no message is returned but bytes.\<close>

fun put_event :: "q_event \<Rightarrow> bool" where
  "put_event (EvPut b) = True"
| "put_event ev = False"

lemma put_arrival: "put_event ev \<Longrightarrow> arrival ev"
  by (cases ev) simp_all

lemma puts_arrivals: "list_all (list_all put_event) slices \<Longrightarrow> list_all (list_all arrival) slices"
  by (auto simp: list_all_iff intro: put_arrival)

lemma puts_wake_ok:
  "run_calls iq_event q sl = Some q' \<Longrightarrow> list_all put_event sl \<Longrightarrow> \<forall>(t, m) \<in> set (q_woken q). m = MSG_OK \<Longrightarrow>
     \<forall>(t, m) \<in> set (q_woken q'). m = MSG_OK"
proof (induction sl arbitrary: q)
  case (Cons ev sl)
  obtain b where ev: "ev = EvPut b" using Cons.prems(2) by (cases ev) auto
  obtain q1 where q1: "iq_event q ev = Some q1" "run_calls iq_event q1 sl = Some q'"
    using Cons.prems(1) by (auto split: Option.bind_splits)
  have "\<forall>(t, m) \<in> set (q_woken q1). m = MSG_OK"
    using q1(1) Cons.prems(3)
    by (auto simp: ev iqPutI_def osalThreadDequeueNextI_def split: if_splits Option.bind_splits list.splits)
  then show ?case using Cons.IH [OF q1(2)] Cons.prems(2) by simp
qed simp

lemma sleep_ok:
  assumes "osalThreadEnqueueTimeoutS iq_event self timeout slices q = Some (m, slices', q')" and "timeout \<noteq> 0"
    and "list_all (list_all put_event) slices"
  shows "m = MSG_OK \<and> list_all (list_all put_event) slices'"
proof -
  define q0 where "q0 = q\<lparr>q_waiting := q_waiting q @ [self], q_woken := []\<rparr>"
  obtain sl where sl: "slices = sl # slices'" "run_calls iq_event q0 sl = Some q'" "map_of (q_woken q') self = Some m"
    using assms(1,2) by (auto simp: osalThreadEnqueueTimeoutS_def q0_def split: list.splits Option.bind_splits)
  have "\<forall>(t, m) \<in> set (q_woken q'). m = MSG_OK"
    using puts_wake_ok [OF sl(2)] assms(3) sl(1) by (simp add: q0_def)
  then show ?thesis using map_of_SomeD [OF sl(3)] assms(3) sl(1) by auto
qed

lemma iqGetTimeout_byte:
  "iqGetTimeout self timeout slices q = Some (r, slices', q') \<Longrightarrow> timeout \<noteq> 0 \<Longrightarrow> list_all (list_all put_event) slices \<Longrightarrow>
     (\<exists>b. r = Inr b) \<and> list_all (list_all put_event) slices'"
proof (induction self timeout slices q rule: iqGetTimeout.induct)
  case (1 self timeout slices q)
  show ?case
  proof (cases "iqIsEmptyI q")
    case True
    then obtain m slices1 q1 where s: "osalThreadEnqueueTimeoutS iq_event self timeout slices q = Some (m, slices1, q1)"
      using "1.prems"(1) by (subst (asm) iqGetTimeout.simps) (auto split: option.splits)
    note m = sleep_ok [OF s "1.prems"(2,3)]
    have "iqGetTimeout self timeout slices1 q1 = Some (r, slices', q')"
      using "1.prems"(1) True s m by (subst (asm) iqGetTimeout.simps) simp
    then show ?thesis using "1.IH" [OF True s refl refl] m "1.prems"(2) by simp
  next
    case False
    then show ?thesis using "1.prems" by (subst (asm) iqGetTimeout.simps) auto
  qed
qed

lemma preempt_puts:
  "preempt step slices q = Some (slices', q') \<Longrightarrow> list_all (list_all P) slices \<Longrightarrow> list_all (list_all P) slices'"
  by (cases slices) (auto simp: preempt_def)

lemma gps_round_spec:
  assumes "gps_round self slices q t = Some (slices', q', t')" and "iq_ok q" and "list_all (list_all put_event) slices"
  shows "\<exists>past b. slices = past @ slices' \<and> list_all (list_all put_event) slices' \<and>
    iq_moves (arrived (concat past)) q [b] q' \<and> gps_char t (char_of (unat b)) = Some t'"
proof -
  obtain r slices1 q1 where g: "iqGetTimeout self TIME_INFINITE slices q = Some (r, slices1, q1)"
    and c: "gps_char t (sdGet_char r) = Some t'" and p: "preempt iq_event slices1 q1 = Some (slices', q')"
    using assms(1) by (auto simp: gps_round_def split: Option.bind_splits)
  obtain b where b: "r = Inr b" "list_all (list_all put_event) slices1"
    using iqGetTimeout_byte [OF g _ assms(3)] by (auto simp: TIME_INFINITE_def)
  obtain d1 where d1: "slices = d1 @ slices1" "iq_moves (arrived (concat d1)) q [b] q1"
    using iqGetTimeout_spec [OF g assms(2) puts_arrivals [OF assms(3)]] b(1) by auto
  have "iq_ok q1" using d1(2) by (simp add: iq_moves_def)
  from iq_preempt_moves [OF this puts_arrivals [OF b(2)]]
  obtain d2 where d2: "slices1 = d2 @ slices'" "iq_moves (arrived (concat d2)) q1 [] q'" using p by auto
  show ?thesis
    using d1(1) d2(1) iq_moves_trans [OF d1(2) d2(2)] c b preempt_puts [OF p b(2)]
    by (intro exI [of _ "d1 @ d2"] exI [of _ b]) (simp add: sdGet_char_def)
qed

text \<open>The thread processes the accepted bytes, all of them and in order.\<close>

lemma gps_rounds_spec:
  "gps_rounds n self slices q t = Some (slices', q', t') \<Longrightarrow> iq_ok q \<Longrightarrow> list_all (list_all put_event) slices \<Longrightarrow>
     \<exists>past out. slices = past @ slices' \<and> iq_moves (arrived (concat past)) q out q' \<and> length out = n \<and>
       run_calls gps_char t (map (\<lambda>b. char_of (unat b)) out) = Some t'"
proof (induction n arbitrary: slices q t)
  case 0
  then show ?case by (intro exI [of _ "[]"]) (simp add: iq_moves_refl)
next
  case (Suc n)
  obtain slices1 q1 t1 where r: "gps_round self slices q t = Some (slices1, q1, t1)"
    and rs: "gps_rounds n self slices1 q1 t1 = Some (slices', q', t')"
    using Suc.prems(1) by (auto split: Option.bind_splits)
  obtain d1 b where d1: "slices = d1 @ slices1" "list_all (list_all put_event) slices1"
    "iq_moves (arrived (concat d1)) q [b] q1" "gps_char t (char_of (unat b)) = Some t1"
    using gps_round_spec [OF r Suc.prems(2,3)] by blast
  have "iq_ok q1" using d1(3) by (simp add: iq_moves_def)
  from Suc.IH [OF rs this d1(2)]
  obtain d2 out where d2: "slices1 = d2 @ slices'" "iq_moves (arrived (concat d2)) q1 out q'" "length out = n"
    "run_calls gps_char t1 (map (\<lambda>b. char_of (unat b)) out) = Some t'" by blast
  show ?case
    using d1 d2 iq_moves_trans [OF d1(3) d2(2)] by (intro exI [of _ "d1 @ d2"] exI [of _ "b # out"]) simp
qed

text \<open>
  A line at its speed: each byte comes while the thread waits for it, none while it works.
\<close>

definition byte_of_char :: "char \<Rightarrow> u8" where "byte_of_char c = word_of_nat (of_char c)"

definition paced :: "char list \<Rightarrow> q_event list list" where
  "paced cs = concat (map (\<lambda>c. [[EvPut (byte_of_char c)], []]) cs)"

lemma char_of_byte [simp]: "char_of (unat (byte_of_char c)) = c"
proof -
  have "(of_char c :: nat) < 256" using nat_of_char_less_256 [of c] by simp
  then show ?thesis by (simp add: byte_of_char_def unat_of_nat take_bit_nat_eq_self)
qed

lemma gps_paced:
  "iq_ok q \<Longrightarrow> iq_items q = [] \<Longrightarrow> q_waiting q = [] \<Longrightarrow> run_calls gps_char t cs = Some t' \<Longrightarrow>
     \<exists>q'. gps_rounds (length cs) self (paced cs) q t = Some ([], q', t') \<and> iq_ok q' \<and> iq_items q' = [] \<and> q_waiting q' = []"
proof (induction cs arbitrary: q t)
  case Nil
  then show ?case by (simp add: paced_def)
next
  case (Cons c cs)
  obtain t1 where t1: "gps_char t c = Some t1" "run_calls gps_char t1 cs = Some t'"
    using Cons.prems(4) by (auto split: Option.bind_splits)
  obtain q1 where q1: "iqGetTimeout self TIME_INFINITE ([EvPut (byte_of_char c)] # [] # paced cs) q =
      Some (Inr (byte_of_char c), [] # paced cs, q1)" "iq_ok q1" "iq_items q1 = []" "q_waiting q1 = []"
    using iqGetTimeout_wakes [OF Cons.prems(1-3), of TIME_INFINITE "[]" self "byte_of_char c" "[] # paced cs"]
    by (auto simp: TIME_INFINITE_def)
  have "gps_round self (paced (c # cs)) q t = Some (paced cs, q1, t1)"
    using q1(1) t1(1) by (simp add: gps_round_def paced_def preempt_def sdGet_char_def)
  then show ?case using Cons.IH [OF q1(2-4) t1(2)] by simp
qed

section \<open>Whole interrupts\<close>

lemma tx_ready_rx:
  assumes "sd_ok s"
  shows "\<exists>s'. tx_ready c sr s = Some s' \<and> sd_ok s' \<and> sd_iqueue s' = sd_iqueue s \<and> set (sd_event s) \<subseteq> set (sd_event s')"
proof (cases "(c AND USART_CR1_TXEIE) \<noteq> 0 \<and> (sr AND USART_SR_TXE) \<noteq> 0")
  case True
  then show ?thesis
    using tx_ready_spec [OF assms, of c sr] assms by (cases "tx_items s") (auto simp: sd_ok_def)
next
  case False
  then have "tx_ready c sr s = Some s" by (auto simp: tx_ready_def)
  then show ?thesis using assms by simp
qed

lemma tx_end_rx:
  "sd_ok s \<Longrightarrow> sd_ok (tx_end c sr s) \<and> sd_iqueue (tx_end c sr s) = sd_iqueue s \<and> set (sd_event s) \<subseteq> set (sd_event (tx_end c sr s))"
  by (auto simp: tx_end_def sd_ok_def)

lemma serve_receives:
  fixes sr :: u32
  assumes "sd_ok s" and "list_ex (\<lambda>(dr, sr). (take_bit 16 sr AND SR_RECEIVE) = 0) rx"
  defines "bytes \<equiv> rx_bytes (sd_rxmask s) (take_bit 16 sr) rx"
  shows "\<exists>s'. sd_lld_serve_interrupt sr rx s = Some s' \<and> sd_ok s' \<and>
    rx_items s' = take SERIAL_BUFFERS_SIZE (rx_items s @ bytes) \<and>
    (SERIAL_BUFFERS_SIZE < length (rx_items s @ bytes) \<longrightarrow> SD_QUEUE_FULL_ERROR \<in> set (sd_event s'))"
proof -
  define s0 where "s0 = (if (take_bit 16 sr AND USART_SR_LBD) \<noteq> 0 then chnAddFlagsI SD_BREAK_DETECTED s else s)"
  have s0: "sd_ok s0" "rx_items s0 = rx_items s" "sd_rxmask s0 = sd_rxmask s" using assms(1) by (simp_all add: s0_def sd_ok_def)
  obtain sr1 s1 where r: "rx_loop (take_bit 16 sr) rx s0 = Some (sr1, s1)" using rx_loop_ends [OF s0(1) assms(2)] by fastforce
  note i = rx_loop_spec [OF s0(1) r, unfolded s0(2,3), folded bytes_def]
  define c where "c = take_bit 16 (u_CR1 (sd_usart s))"
  obtain s2 where t: "tx_ready c sr1 s1 = Some s2" "sd_ok s2" "sd_iqueue s2 = sd_iqueue s1" "set (sd_event s1) \<subseteq> set (sd_event s2)"
    using tx_ready_rx [of s1 c sr1] i by blast
  have "sd_lld_serve_interrupt sr rx s = Some (tx_end c sr1 s2)"
    using r t(1) by (simp add: sd_lld_serve_interrupt_def Let_def s0_def c_def)
  then show ?thesis using i t tx_end_rx [OF t(2), of c sr1] by auto
qed

text \<open>What is written to the driver is sent.\<close>

lemma sdWriteI_spec:
  assumes "sd_ok s" and "q_notify (sd_oqueue s)" and "bp \<noteq> []" and "length (tx_items s) + length bp \<le> SERIAL_BUFFERS_SIZE"
  shows "\<exists>s'. sdWriteI bp s = Some (length bp, s') \<and> sd_ok s' \<and> tx_items s' = tx_items s @ bp \<and>
    u_sent (sd_usart s') = u_sent (sd_usart s) \<and> (u_CR1 (sd_usart s') AND USART_CR1_TXEIE) \<noteq> 0"
proof -
  have k: "min (length bp) (qSizeX (sd_oqueue s) - length (tx_items s)) = length bp"
    using assms(1,4) by (auto simp: sd_ok_def)
  obtain q where q: "oq_write bp (sd_oqueue s) = Some (length bp, q)" "oq_ok q" "oq_items q = tx_items s @ bp"
    "qSizeX q = SERIAL_BUFFERS_SIZE"
    using oq_write_spec [OF _ assms(3), of "sd_oqueue s"] assms(1) by (auto simp: k sd_ok_def)
  have n: "q_notify q = q_notify (sd_oqueue s)" "q_notified q = q_notified (sd_oqueue s)"
    using q(1) by (auto simp: oq_write_def Let_def split: if_splits Option.bind_splits)
  have e: "oq_ok (notify q)" "oq_items (notify q) = oq_items q" "qSizeX (notify q) = qSizeX q" using q(2) by (simp_all add: q_contents)
  have "((c OR (USART_CR1_TXEIE OR USART_CR1_TCIE)) AND USART_CR1_TXEIE) \<noteq> 0" for c
  proof -
    have "bit ((c OR (USART_CR1_TXEIE OR USART_CR1_TCIE)) AND USART_CR1_TXEIE) 7"
      by (simp add: bit_and_iff bit_or_iff USART_CR1_TXEIE_def)
    then show ?thesis by (metis bit_0_eq bot_apply bot_bool_def)
  qed
  then show ?thesis
    using q(1,3,4) e n assms(1-3) by (simp add: sdWriteI_def oqWriteI_def on_oqueue_def notify3_def sd_ok_def) (simp add: notify_def)
qed

text \<open>The configuration of the GPS line.\<close>

definition gps_cfg :: SerialConfig where
  "gps_cfg = \<lparr>sc_speed = 9600, sc_cr1 = 0, sc_cr2 = 0, sc_cr3 = 0\<rparr>"

lemma sdStart_ok:
  assumes "sd_ok s" and "sdStart cfg s = Some (m, s')"
  shows "sd_ok s' \<and> sd_state s' = SD_READY \<and> rx_items s' = rx_items s \<and> tx_items s' = tx_items s"
  using assms by (auto simp: sdStart_def sd_lld_start_def usart_init_def Let_def sd_ok_def split: if_splits option.splits)

lemma sdStop_ok:
  assumes "sd_ok s" and "sdStop s = Some s'"
  shows "sd_ok s' \<and> sd_state s' = SD_STOP \<and> rx_items s' = [] \<and> tx_items s' = []"
  using assms by (auto simp: sdStop_def sd_lld_stop_def Let_def sd_ok_def iqResetI_def oqResetI_def q_contents split: if_splits)

end
