(* ===== verification/Memcore.thy ===== *)
theory Memcore
  imports Prelude
begin

text \<open>
  The core memory manager, \<open>chmemcore.c\<close>, with the alignment macros of \<open>chalign.h\<close>: memory is
  handed out from the two ends of one region and never given back. Addresses and sizes are
  32-bit values and wrap around as in the code; \<open>None\<close> of the outer option is a failed check.
\<close>

definition MEM_ALIGN_MASK :: "u32 \<Rightarrow> u32" where "MEM_ALIGN_MASK a = a - 1"
definition MEM_ALIGN_PREV :: "u32 \<Rightarrow> u32 \<Rightarrow> u32" where "MEM_ALIGN_PREV p a = p AND NOT (MEM_ALIGN_MASK a)"
definition MEM_ALIGN_NEXT :: "u32 \<Rightarrow> u32 \<Rightarrow> u32" where "MEM_ALIGN_NEXT p a = MEM_ALIGN_PREV (p + MEM_ALIGN_MASK a) a"
definition MEM_IS_ALIGNED :: "u32 \<Rightarrow> u32 \<Rightarrow> bool" where "MEM_IS_ALIGNED p a \<longleftrightarrow> (p AND MEM_ALIGN_MASK a) = 0"
definition MEM_IS_VALID_ALIGNMENT :: "u32 \<Rightarrow> bool" where
  "MEM_IS_VALID_ALIGNMENT a \<longleftrightarrow> a \<noteq> 0 \<and> (a AND (a - 1)) = 0"

record memcore =
  basemem :: u32
  topmem :: u32

definition core_init :: "u32 \<Rightarrow> u32 \<Rightarrow> memcore" where
  "core_init heap_base heap_end = \<lparr>basemem = heap_base, topmem = heap_end\<rparr>"

definition chCoreAllocFromBaseI :: "u32 \<Rightarrow> u32 \<Rightarrow> u32 \<Rightarrow> memcore \<Rightarrow> (u32 option \<times> memcore) option" where
  "chCoreAllocFromBaseI sz align off c =
     (if \<not> MEM_IS_VALID_ALIGNMENT align then None
      else let p = MEM_ALIGN_NEXT (basemem c + off) align;
               nxt = p + sz
           in if nxt > topmem c \<or> nxt < basemem c then Some (None, c)
              else Some (Some p, c\<lparr>basemem := nxt\<rparr>))"

definition chCoreAllocFromTopI :: "u32 \<Rightarrow> u32 \<Rightarrow> u32 \<Rightarrow> memcore \<Rightarrow> (u32 option \<times> memcore) option" where
  "chCoreAllocFromTopI sz align off c =
     (if \<not> MEM_IS_VALID_ALIGNMENT align then None
      else let p = MEM_ALIGN_PREV (topmem c - sz) align;
               prv = p - off
           in if prv < basemem c \<or> prv > topmem c then Some (None, c)
              else Some (Some p, c\<lparr>topmem := prv\<rparr>))"

text \<open>The variants without \<open>I\<close> take the system lock around the same work.\<close>

definition chCoreAllocFromBase :: "u32 \<Rightarrow> u32 \<Rightarrow> u32 \<Rightarrow> memcore \<Rightarrow> (u32 option \<times> memcore) option" where
  "chCoreAllocFromBase sz align off c = chCoreAllocFromBaseI sz align off c"

definition chCoreAllocFromTop :: "u32 \<Rightarrow> u32 \<Rightarrow> u32 \<Rightarrow> memcore \<Rightarrow> (u32 option \<times> memcore) option" where
  "chCoreAllocFromTop sz align off c = chCoreAllocFromTopI sz align off c"

definition chCoreAllocAligned :: "u32 \<Rightarrow> u32 \<Rightarrow> memcore \<Rightarrow> (u32 option \<times> memcore) option" where
  "chCoreAllocAligned sz align c = chCoreAllocFromTop sz align 0 c"

definition chCoreGetStatusX :: "memcore \<Rightarrow> u32 \<times> u32" where
  "chCoreGetStatusX c = (basemem c, topmem c - basemem c)"

section \<open>Alignment\<close>

lemma unat_pow2: "k < 32 \<Longrightarrow> unat ((2 :: u32) ^ k) = 2 ^ k"
proof -
  assume "k < 32"
  then have "(2 :: nat) ^ k < 2 ^ 32" by (intro power_strict_increasing) simp_all
  moreover have "(2 :: u32) ^ k = of_nat (2 ^ k)" by simp
  ultimately show ?thesis unfolding \<open>2 ^ k = of_nat (2 ^ k)\<close> by (simp only: unat_of_nat) (simp add: take_bit_nat_eq_self)
qed

text \<open>A valid alignment is a power of two.\<close>

lemma valid_alignment:
  assumes "MEM_IS_VALID_ALIGNMENT a"
  obtains k where "k < 32" "a = 2 ^ k" "unat a = 2 ^ k"
proof -
  have a: "a \<noteq> 0" "(a AND (a - 1)) = 0" using assms by (simp_all add: MEM_IS_VALID_ALIGNMENT_def)
  have "1 \<le> unat a" using a(1) by (simp add: Suc_le_eq unat_gt_0)
  then obtain k where k: "2 ^ k \<le> unat a" "unat a < 2 ^ (k + 1)" using ex_power_ivl1 [of 2 "unat a"] by auto
  have set_bit: "bit w k" if "2 ^ k \<le> unat w" "unat w < 2 ^ (k + 1)" for w :: u32
  proof -
    have "unat w div 2 ^ k = 1"
      using that by (metis Suc_eq_plus1 div_nat_eqI mult_1 mult.commute one_add_one power_Suc mult_2_right numeral_2_eq_2)
    then have "bit (unat w) k" by (simp add: bit_iff_odd)
    then show ?thesis by (simp add: bit_unsigned_iff)
  qed
  have "unat a = 2 ^ k"
  proof (rule ccontr)
    assume "unat a \<noteq> 2 ^ k"
    then have "2 ^ k \<le> unat (a - 1)" "unat (a - 1) < 2 ^ (k + 1)"
      using k a(1) by (simp_all add: unat_minus_one)
    then have "bit (a AND (a - 1)) k" using set_bit [OF k] set_bit [of "a - 1"] by (simp add: bit_and_iff)
    then show False using a(2) by simp
  qed
  moreover have "(2 :: nat) ^ k < 2 ^ 32" using k(1) unsigned_less [of a, where 'a = nat] by simp
  then have "k < 32" by (rule power_less_imp_less_exp [rotated]) simp
  moreover have "unat a = unat ((2 :: u32) ^ k)" using calculation by (simp add: unat_pow2)
  then have "a = 2 ^ k" by (rule unsigned_word_eqI)
  ultimately show ?thesis using that by blast
qed

lemma MEM_ALIGN_PREV_unat:
  assumes "k < 32"
  shows "unat (MEM_ALIGN_PREV p (2 ^ k)) = unat p div 2 ^ k * 2 ^ k"
proof -
  have "p AND NOT (mask k) = push_bit k (drop_bit k p)"
    by (rule bit_eqI) (auto simp: bit_and_iff bit_not_iff bit_mask_iff bit_push_bit_iff bit_drop_bit_eq)
  moreover have "MEM_ALIGN_MASK (2 ^ k) = mask k" by (simp add: MEM_ALIGN_MASK_def mask_eq_exp_minus_1)
  moreover have "unat p div 2 ^ k * 2 ^ k < 2 ^ 32"
    using unsigned_less [of p, where 'a = nat] div_times_less_eq_dividend [of "unat p" "2 ^ k"] by (simp del: div_times_less_eq_dividend)
  moreover have "unat (push_bit k (drop_bit k p)) = take_bit 32 (push_bit k (drop_bit k (take_bit 32 (unat p))))"
    by (simp only: unsigned_push_bit_eq unsigned_drop_bit_eq) simp
  ultimately show ?thesis
    using unsigned_less [of p, where 'a = nat]
    by (simp only: MEM_ALIGN_PREV_def) (simp add: push_bit_eq_mult drop_bit_eq_div take_bit_nat_eq_self)
qed

lemma MEM_ALIGN_NEXT_unat:
  assumes "k < 32" and "unat p + (2 ^ k - 1) < 2 ^ 32"
  shows "unat (MEM_ALIGN_NEXT p (2 ^ k)) = (unat p + (2 ^ k - 1)) div 2 ^ k * 2 ^ k"
proof -
  have "unat (MEM_ALIGN_MASK (2 ^ k)) = 2 ^ k - 1"
    using assms(1) by (simp add: MEM_ALIGN_MASK_def unat_minus_one unat_pow2)
  then have "unat (p + MEM_ALIGN_MASK (2 ^ k)) = unat p + (2 ^ k - 1)"
    using assms(2) by (simp add: unat_word_ariths(1))
  then show ?thesis unfolding MEM_ALIGN_NEXT_def MEM_ALIGN_PREV_unat [OF assms(1)] by simp
qed

lemma MEM_IS_ALIGNED_unat:
  assumes "k < 32"
  shows "MEM_IS_ALIGNED p (2 ^ k) \<longleftrightarrow> unat p mod 2 ^ k = 0"
proof -
  have "MEM_ALIGN_MASK (2 ^ k) = mask k" by (simp add: MEM_ALIGN_MASK_def mask_eq_exp_minus_1)
  then have "unat (p AND MEM_ALIGN_MASK (2 ^ k)) = unat p mod 2 ^ k"
    by (simp only: take_bit_eq_mask [symmetric] unsigned_take_bit_eq) (simp add: take_bit_eq_mod)
  then show ?thesis by (simp add: MEM_IS_ALIGNED_def unat_eq_0 [symmetric])
qed

section \<open>Handing out memory\<close>

text \<open>
  Memory taken from the top is aligned, lies with its offset between the two ends, and the rest
  of the region is what is below it, as long as the size does not exceed the address of the top.
\<close>

lemma chCoreAllocFromTopI_spec:
  assumes "MEM_IS_VALID_ALIGNMENT align" and "basemem c \<le> topmem c" and "sz \<le> topmem c"
    and "unat (topmem c) + unat off < 2 ^ 32"
  shows "case chCoreAllocFromTopI sz align off c of
      None \<Rightarrow> False
    | Some (None, c') \<Rightarrow> c' = c \<and>
        unat (topmem c) < unat (basemem c) + unat off + unat sz + (unat align - 1)
    | Some (Some p, c') \<Rightarrow> MEM_IS_ALIGNED p align \<and> basemem c' = basemem c \<and> basemem c \<le> topmem c' \<and>
        unat (topmem c') + unat off = unat p \<and> unat p + unat sz \<le> unat (topmem c)"
proof -
  obtain k where k: "k < 32" "align = 2 ^ k" "unat align = 2 ^ k" using valid_alignment [OF assms(1)] .
  define p where "p = MEM_ALIGN_PREV (topmem c - sz) align"
  have d: "unat (topmem c - sz) = unat (topmem c) - unat sz" using assms(3) by (rule unat_sub)
  have p: "unat p = unat (topmem c - sz) div 2 ^ k * 2 ^ k" unfolding p_def k(2) using k(1) by (rule MEM_ALIGN_PREV_unat)
  have al: "MEM_IS_ALIGNED p align" using p k by (simp add: MEM_IS_ALIGNED_unat)
  have le: "unat p \<le> unat (topmem c) - unat sz" unfolding p d by (rule div_times_less_eq_dividend)
  have ge: "unat (topmem c) - unat sz < unat p + 2 ^ k"
    unfolding p d [symmetric] using dividend_less_div_times [of "2 ^ k" "unat (topmem c - sz)"] by simp
  have szle: "unat sz \<le> unat (topmem c)" using assms(3) by (simp add: word_le_nat_alt)
  show ?thesis
  proof (cases "unat off \<le> unat p")
    case True
    then have u: "unat (p - off) = unat p - unat off" by (simp add: unat_sub word_le_nat_alt)
    show ?thesis
      using assms(1,2) al le ge szle u True k(3)
      by (auto simp: chCoreAllocFromTopI_def p_def [symmetric] Let_def word_less_nat_alt word_le_nat_alt)
  next
    case False
    then have "unat (p - off) = 2 ^ 32 + unat p - unat off"
      using unat_sub_if_size [of p off] by (simp add: word_size)
    then have "p - off > topmem c" using assms(4) False by (simp add: word_less_nat_alt)
    then show ?thesis
      using assms(1,2) ge szle False k(3)
      by (auto simp: chCoreAllocFromTopI_def p_def [symmetric] Let_def word_less_nat_alt word_le_nat_alt)
  qed
qed

text \<open>
  The check for numeric overflow is not sufficient: a request just below the size of the address
  space wraps around to an address behind the top, and is granted.
\<close>

lemma chCoreAllocFromTopI_wraps:
  assumes "MEM_IS_ALIGNED (topmem c) 8" and "basemem c \<le> topmem c" and "topmem c < 0x80000000"
  shows "chCoreAllocFromTopI 0xFFFFFFF8 8 8 c = Some (Some (topmem c + 8), c)"
proof -
  have v: "MEM_IS_VALID_ALIGNMENT 8" by (simp add: MEM_IS_VALID_ALIGNMENT_def)
  have t: "topmem c - 0xFFFFFFF8 = topmem c + 8" by simp
  have "unat (topmem c + 8) = unat (topmem c) + 8"
    using assms(3) by (simp add: word_less_nat_alt unat_word_ariths(1))
  moreover have "unat (topmem c) mod 8 = 0" using assms(1) MEM_IS_ALIGNED_unat [of 3 "topmem c"] by simp
  ultimately have "unat (MEM_ALIGN_PREV (topmem c + 8) 8) = unat (topmem c + 8)"
    using MEM_ALIGN_PREV_unat [of 3 "topmem c + 8"] by (simp add: mod_0_imp_dvd)
  then have "MEM_ALIGN_PREV (topmem c + 8) 8 = topmem c + 8" by (rule unsigned_word_eqI)
  then show ?thesis using assms(2) by (simp add: chCoreAllocFromTopI_def v t Let_def)
qed

end
