(* ===== verification/Memheap.thy ===== *)
theory Memheap
  imports Memcore CString
begin

text \<open>
  The heap allocator, \<open>chmemheaps.c\<close>: a list of free blocks in order of their addresses, first
  fit, with splitting and merging. The headers lie in the memory they describe; \<open>h_mem\<close> is that
  memory, and the code's pointers are followed and changed in it. Addresses are counted in
  units of \<open>CH_HEAP_ALIGNMENT\<close> bytes, the size of a header; a block at \<open>a\<close> with \<open>n\<close> pages occupies
  the header \<open>a\<close> and the pages \<open>a + 1\<close> to \<open>a + n\<close>.

  \<open>h_first\<close> is the link in the heap object itself (its \<open>header.free.next\<close>; it has no pages and
  lies outside the managed memory). A \<open>qp\<close> of the code is \<open>None\<close> when it points to that
  header. \<open>h_core\<close> is the provider of the heap, if it has one. A result \<open>None\<close> is a failed check
  or the use of a header that is not there.
\<close>

definition CH_HEAP_ALIGNMENT :: u32 where "CH_HEAP_ALIGNMENT = 8"

datatype heap_header = HFree "nat option" nat | HUsed u32

record memory_heap =
  h_core :: "memcore option"
  h_area :: "nat \<times> nat"
  h_first :: "nat option"
  h_mem :: "nat \<Rightarrow> heap_header option"

type_synonym hptr = "nat option"

definition H_FREE_NEXT :: "memory_heap \<Rightarrow> hptr \<Rightarrow> nat option option" where
  "H_FREE_NEXT h qp =
     (case qp of None \<Rightarrow> Some (h_first h)
      | Some a \<Rightarrow> (case h_mem h a of Some (HFree nxt n) \<Rightarrow> Some nxt | _ \<Rightarrow> None))"

definition H_FREE_PAGES :: "memory_heap \<Rightarrow> nat \<Rightarrow> nat option" where
  "H_FREE_PAGES h a = (case h_mem h a of Some (HFree nxt n) \<Rightarrow> Some n | _ \<Rightarrow> None)"

definition H_USED_SIZE :: "memory_heap \<Rightarrow> nat \<Rightarrow> u32 option" where
  "H_USED_SIZE h a = (case h_mem h a of Some (HUsed sz) \<Rightarrow> Some sz | _ \<Rightarrow> None)"

definition set_header :: "nat \<Rightarrow> heap_header \<Rightarrow> memory_heap \<Rightarrow> memory_heap" where
  "set_header a hdr h = h\<lparr>h_mem := (h_mem h)(a \<mapsto> hdr)\<rparr>"

definition set_next :: "hptr \<Rightarrow> nat option \<Rightarrow> memory_heap \<Rightarrow> memory_heap option" where
  "set_next qp nxt h =
     (case qp of None \<Rightarrow> Some (h\<lparr>h_first := nxt\<rparr>)
      | Some a \<Rightarrow> (case h_mem h a of Some (HFree _ n) \<Rightarrow> Some (set_header a (HFree nxt n) h) | _ \<Rightarrow> None))"

text \<open>\<open>MEM_ALIGN_NEXT\<close> of an address, in units.\<close>

definition align_up :: "nat \<Rightarrow> nat \<Rightarrow> nat" where
  "align_up p m = (p + (m - 1)) div m * m"

definition heap_pages :: "u32 \<Rightarrow> nat" where
  "heap_pages sz = unat (MEM_ALIGN_NEXT sz CH_HEAP_ALIGNMENT div CH_HEAP_ALIGNMENT)"

definition heap_init :: "memcore \<Rightarrow> memory_heap" where
  "heap_init c =
     \<lparr>h_core = Some c, h_area = (unat (basemem c) div 8, unat (topmem c - basemem c) div 8), h_first = None,
      h_mem = (\<lambda>a. None)\<rparr>"

definition chHeapObjectInit :: "u32 \<Rightarrow> u32 \<Rightarrow> memory_heap option" where
  "chHeapObjectInit buf sz =
     (if sz = 0 then None
      else let hp = MEM_ALIGN_NEXT buf CH_HEAP_ALIGNMENT;
               sz = sz - (hp - buf);
               pages = unat ((sz - 8) div CH_HEAP_ALIGNMENT);
               a = unat (hp div 8)
           in Some \<lparr>h_core = None, h_area = (a, pages + 1), h_first = Some a,
                    h_mem = (\<lambda>b. None)(a \<mapsto> HFree None pages)\<rparr>)"

text \<open>Taking \<open>pages\<close> pages behind the header \<open>ahp\<close> out of the free block \<open>hp\<close>, which has \<open>n\<close> pages and follows \<open>qp\<close>.\<close>

definition heap_take :: "u32 \<Rightarrow> nat \<Rightarrow> hptr \<Rightarrow> nat \<Rightarrow> nat \<Rightarrow> nat \<Rightarrow> memory_heap \<Rightarrow> (nat \<times> memory_heap) option" where
  "heap_take sz pages qp hp n ahp h =
     do { nxt \<leftarrow> H_FREE_NEXT h (Some hp);
          let limit = hp + 1 + n;
          if ahp > hp
          then do { let bpages = limit - (ahp + 1);
                    let h = set_header hp (HFree nxt (ahp - (hp + 1))) h;
                    h \<leftarrow> (if bpages > pages
                          then do { let fp = ahp + 1 + pages;
                                    let h = set_header fp (HFree nxt (bpages - pages - 1)) h;
                                    set_next (Some hp) (Some fp) h }
                          else Some h);
                    Some (ahp + 1, set_header ahp (HUsed sz) h) }
          else do { h \<leftarrow> (if n = pages then set_next qp nxt h
                          else do { let fp = hp + 1 + pages;
                                    let h = set_header fp (HFree nxt (limit - (fp + 1))) h;
                                    set_next qp (Some fp) h });
                    Some (hp + 1, set_header hp (HUsed sz) h) } }"

definition heap_fits :: "nat \<Rightarrow> nat \<Rightarrow> nat \<Rightarrow> nat \<Rightarrow> bool" where
  "heap_fits pages align hp n \<longleftrightarrow>
     (let ahp = align_up (hp + 1) align - 1; limit = hp + 1 + n
      in ahp < limit \<and> pages \<le> limit - (ahp + 1))"

partial_function (option) heap_alloc_loop ::
  "u32 \<Rightarrow> nat \<Rightarrow> nat \<Rightarrow> memory_heap \<Rightarrow> hptr \<Rightarrow> (nat option \<times> memory_heap) option" where
  "heap_alloc_loop sz pages align h qp =
     do { nxt \<leftarrow> H_FREE_NEXT h qp;
          case nxt of
            None \<Rightarrow> Some (None, h)
          | Some hp \<Rightarrow>
              do { n \<leftarrow> H_FREE_PAGES h hp;
                   if heap_fits pages align hp n
                   then do { (p, h') \<leftarrow> heap_take sz pages qp hp n (align_up (hp + 1) align - 1) h; Some (Some p, h') }
                   else heap_alloc_loop sz pages align h (Some hp) } }"

definition chHeapAllocAligned :: "u32 \<Rightarrow> u32 \<Rightarrow> memory_heap \<Rightarrow> (nat option \<times> memory_heap) option" where
  "chHeapAllocAligned sz align h =
     (if \<not> (sz > 0 \<and> MEM_IS_VALID_ALIGNMENT align) then None
      else let align = (if align < CH_HEAP_ALIGNMENT then CH_HEAP_ALIGNMENT else align);
               pages = heap_pages sz
           in do { (r, h) \<leftarrow> heap_alloc_loop sz pages (unat (align div CH_HEAP_ALIGNMENT)) h None;
                   case r of
                     Some p \<Rightarrow> Some (Some p, h)
                   | None \<Rightarrow>
                       (case h_core h of
                          None \<Rightarrow> Some (None, h)
                        | Some c \<Rightarrow>
                            do { (q, c) \<leftarrow> chCoreAllocFromTop (of_nat pages * CH_HEAP_ALIGNMENT) align 8 c;
                                 let h = h\<lparr>h_core := Some c\<rparr>;
                                 case q of
                                   None \<Rightarrow> Some (None, h)
                                 | Some ahp \<Rightarrow>
                                     let ap = unat (ahp div 8)
                                     in Some (Some ap, set_header (ap - 1) (HUsed sz) h) }) })"

definition chHeapAlloc :: "u32 \<Rightarrow> memory_heap \<Rightarrow> (nat option \<times> memory_heap) option" where
  "chHeapAlloc sz h = chHeapAllocAligned sz CH_HEAP_ALIGNMENT h"

text \<open>Inserting the block \<open>hp\<close> behind \<open>qp\<close>, merging it with its neighbours.\<close>

definition merge_next :: "nat \<Rightarrow> memory_heap \<Rightarrow> memory_heap option" where
  "merge_next hp h =
     do { n \<leftarrow> H_FREE_PAGES h hp;
          nxt \<leftarrow> H_FREE_NEXT h (Some hp);
          if Some (hp + 1 + n) = nxt
          then do { m \<leftarrow> H_FREE_PAGES h (hp + 1 + n);
                    nxt \<leftarrow> H_FREE_NEXT h nxt;
                    Some (set_header hp (HFree nxt (n + (m + 1))) h) }
          else Some h }"

definition merge_prev :: "hptr \<Rightarrow> nat \<Rightarrow> memory_heap \<Rightarrow> memory_heap option" where
  "merge_prev qp hp h =
     (case qp of
        None \<Rightarrow> Some h
      | Some q \<Rightarrow>
          do { n \<leftarrow> H_FREE_PAGES h q;
               if q + 1 + n = hp
               then do { m \<leftarrow> H_FREE_PAGES h hp;
                         nxt \<leftarrow> H_FREE_NEXT h (Some hp);
                         Some (set_header q (HFree nxt (n + (m + 1))) h) }
               else Some h })"

definition heap_insert :: "nat \<Rightarrow> nat \<Rightarrow> hptr \<Rightarrow> nat option \<Rightarrow> memory_heap \<Rightarrow> memory_heap option" where
  "heap_insert hp pages qp nxt h =
     do { let h = set_header hp (HFree nxt pages) h;
          h \<leftarrow> set_next qp (Some hp) h;
          h \<leftarrow> merge_next hp h;
          merge_prev qp hp h }"

definition within_free :: "nat \<Rightarrow> hptr \<Rightarrow> memory_heap \<Rightarrow> bool option" where
  "within_free hp qp h =
     (case qp of None \<Rightarrow> Some False | Some q \<Rightarrow> do { n \<leftarrow> H_FREE_PAGES h q; Some (\<not> (hp < q \<or> q + 1 + n \<le> hp)) })"

partial_function (option) heap_free_loop :: "nat \<Rightarrow> nat \<Rightarrow> memory_heap \<Rightarrow> hptr \<Rightarrow> memory_heap option" where
  "heap_free_loop hp pages h qp =
     do { bad \<leftarrow> within_free hp qp h;
          if bad then None
          else do { nxt \<leftarrow> H_FREE_NEXT h qp;
                    if (case qp of None \<Rightarrow> True | Some q \<Rightarrow> q < hp) \<and> (case nxt of None \<Rightarrow> True | Some n \<Rightarrow> hp < n)
                    then heap_insert hp pages qp nxt h
                    else case nxt of None \<Rightarrow> None | Some n \<Rightarrow> heap_free_loop hp pages h (Some n) } }"

definition chHeapFree :: "nat \<Rightarrow> memory_heap \<Rightarrow> memory_heap option" where
  "chHeapFree p h =
     (if p = 0 then None
      else do { sz \<leftarrow> H_USED_SIZE h (p - 1); heap_free_loop (p - 1) (heap_pages sz) h None })"

definition chHeapGetSize :: "nat \<Rightarrow> memory_heap \<Rightarrow> u32 option" where
  "chHeapGetSize p h = H_USED_SIZE h (p - 1)"

text \<open>Number of free blocks, their pages, and the pages of the largest.\<close>

partial_function (option) heap_status_loop :: "memory_heap \<Rightarrow> hptr \<Rightarrow> nat \<times> nat \<times> nat \<Rightarrow> (nat \<times> nat \<times> nat) option" where
  "heap_status_loop h qp acc =
     do { nxt \<leftarrow> H_FREE_NEXT h qp;
          case nxt of
            None \<Rightarrow> Some acc
          | Some hp \<Rightarrow>
              do { pages \<leftarrow> H_FREE_PAGES h hp;
                   heap_status_loop h (Some hp)
                     (case acc of (n, tpages, lpages) \<Rightarrow> (n + 1, tpages + pages, if pages > lpages then pages else lpages)) } }"

definition chHeapStatus :: "memory_heap \<Rightarrow> (nat \<times> nat \<times> nat) option" where
  "chHeapStatus h =
     map_option (\<lambda>(n, tpages, lpages). (n, tpages * unat CH_HEAP_ALIGNMENT, lpages * unat CH_HEAP_ALIGNMENT)) (heap_status_loop h None (0, 0, 0))"

definition space_within :: "nat \<times> nat \<Rightarrow> nat \<Rightarrow> nat \<Rightarrow> bool" where
  "space_within area p n \<longleftrightarrow> fst area \<le> p \<and> p + n \<le> fst area + snd area"

partial_function (option) heap_check_loop :: "memory_heap \<Rightarrow> hptr \<Rightarrow> bool option" where
  "heap_check_loop h prevhp =
     do { nxt \<leftarrow> H_FREE_NEXT h prevhp;
          case nxt of
            None \<Rightarrow> Some False
          | Some hp \<Rightarrow>
              if (case prevhp of None \<Rightarrow> False | Some q \<Rightarrow> hp \<le> q) then Some True
              else do { n \<leftarrow> H_FREE_PAGES h hp;
                        if \<not> space_within (h_area h) hp (n + 1) then Some True
                        else heap_check_loop h (Some hp) } }"

definition chHeapIntegrityCheck :: "memory_heap \<Rightarrow> bool option" where
  "chHeapIntegrityCheck h = heap_check_loop h None"

declare heap_alloc_loop.simps [code] heap_free_loop.simps [code] heap_status_loop.simps [code]
  heap_check_loop.simps [code]

section \<open>The free blocks\<close>

text \<open>
  The abstract view: the list of free blocks \<open>(a, n)\<close> in order, no two of them adjacent, and the
  set of units they cover.
\<close>

type_synonym block = "nat \<times> nat"

fun extent :: "block \<Rightarrow> nat set" where
  "extent (a, n) = {a..a + n}"

definition extents :: "block list \<Rightarrow> nat set" where
  "extents bs = (\<Union>b \<in> set bs. extent b)"

lemma extents_simps [simp]:
  "extents [] = {}" "extents (b # bs) = extent b \<union> extents bs" "extents (bs @ cs) = extents bs \<union> extents cs"
  by (auto simp: extents_def)

fun blocks_ok :: "nat \<Rightarrow> block list \<Rightarrow> bool" where
  "blocks_ok lo [] = True"
| "blocks_ok lo ((a, n) # bs) \<longleftrightarrow> lo \<le> a \<and> blocks_ok (a + n + 2) bs"

lemma blocks_ok_mono: "blocks_ok lo bs \<Longrightarrow> lo' \<le> lo \<Longrightarrow> blocks_ok lo' bs"
  by (cases bs) auto

lemma blocks_ok_above: "blocks_ok lo bs \<Longrightarrow> u \<in> extents bs \<Longrightarrow> lo \<le> u"
  by (induction lo bs rule: blocks_ok.induct) fastforce+

lemma blocks_ok_member: "blocks_ok lo bs \<Longrightarrow> (a, n) \<in> set bs \<Longrightarrow> lo \<le> a"
  by (induction lo bs rule: blocks_ok.induct) fastforce+

text \<open>The list is determined by the set it covers.\<close>

lemma blocks_unique_le:
  assumes "blocks_ok lo ((a, n) # bs)" and "blocks_ok lo' cs" and "extents ((a, n) # bs) = extents cs"
  shows "\<exists>m ds. cs = (a, m) # ds"
proof (cases cs)
  case Nil
  then show ?thesis using assms(3) by auto
next
  case (Cons c ds)
  obtain b m where c: "c = (b, m)" by (cases c)
  have "a \<in> extents cs" "b \<in> extents ((a, n) # bs)" using assms(3) Cons c by auto
  then have "b \<le> a" "a \<le> b"
    using assms(1,2) blocks_ok_above [of b cs a] blocks_ok_above [of a "(a, n) # bs" b] Cons c by auto
  then show ?thesis using Cons c by simp
qed

lemma blocks_end:
  assumes "blocks_ok lo ((a, n) # bs)" and "blocks_ok lo' ((a, m) # cs)" and "extents ((a, n) # bs) = extents ((a, m) # cs)"
  shows "n \<le> m"
proof (rule ccontr)
  assume "\<not> n \<le> m"
  then have "a + m + 1 \<in> extents ((a, n) # bs)" by simp
  then have "a + m + 1 \<in> extents ((a, m) # cs)" by (simp only: assms(3))
  then have "a + m + 1 \<in> extents cs" by simp
  then show False using assms(2) blocks_ok_above [of "a + m + 2" cs "a + m + 1"] by simp
qed

lemma blocks_unique:
  "blocks_ok lo bs \<Longrightarrow> blocks_ok lo' cs \<Longrightarrow> extents bs = extents cs \<Longrightarrow> bs = cs"
proof (induction bs arbitrary: cs lo lo')
  case Nil
  then show ?case by (cases cs) auto
next
  case (Cons b bs)
  obtain a n where b: "b = (a, n)" by (cases b)
  obtain m ds where cs: "cs = (a, m) # ds" using blocks_unique_le Cons.prems unfolding b by blast
  have e: "extents ((a, n) # bs) = extents ((a, m) # ds)" using Cons.prems(3) by (simp only: b cs)
  have nm: "n = m" using blocks_end [OF Cons.prems(1,2) [unfolded b cs] e] blocks_end [OF Cons.prems(2,1) [unfolded b cs] e [symmetric]] by simp
  have r: "blocks_ok (a + n + 2) bs" "blocks_ok (a + n + 2) ds" using Cons.prems(1,2) by (auto simp: b cs nm)
  have "extents bs = {u \<in> extents ((a, n) # bs). a + n < u}" using blocks_ok_above [OF r(1)] by fastforce
  also have "\<dots> = {u \<in> extents ((a, m) # ds). a + n < u}" by (simp only: e)
  also have "\<dots> = extents ds" using blocks_ok_above [OF r(2)] by (fastforce simp: nm)
  finally show ?case using Cons.IH [OF r] by (simp add: b cs nm)
qed

text \<open>What remains of a block when \<open>pages\<close> pages behind the header \<open>ahp\<close> are taken from it.\<close>

definition carve :: "nat \<Rightarrow> nat \<Rightarrow> block \<Rightarrow> block list" where
  "carve pages ahp b =
     (case b of (a, n) \<Rightarrow>
        (if ahp > a then [(a, ahp - (a + 1))] else []) @
        (if a + n > ahp + pages then [(ahp + pages + 1, a + n - (ahp + pages + 1))] else []))"

lemma carve_extents:
  assumes "a \<le> ahp" and "ahp + pages \<le> a + n"
  shows "extent (a, n) = extents (carve pages ahp (a, n)) \<union> extent (ahp, pages)"
    and "extents (carve pages ahp (a, n)) \<inter> extent (ahp, pages) = {}"
  using assms by (auto simp: carve_def)

lemma carve_ok:
  assumes "blocks_ok lo ((a, n) # bs)" and "a \<le> ahp" and "ahp + pages \<le> a + n"
  shows "blocks_ok lo (carve pages ahp (a, n) @ bs)"
  using assms blocks_ok_mono [of "a + n + 2" bs] by (auto simp: carve_def)

lemma blocks_ok_append:
  "blocks_ok lo (bs @ cs) \<Longrightarrow> (\<And>lo'. lo \<le> lo' \<Longrightarrow> blocks_ok lo' cs \<Longrightarrow> blocks_ok lo' ds) \<Longrightarrow> blocks_ok lo (bs @ ds)"
  by (induction lo bs rule: blocks_ok.induct) auto

text \<open>Inserting a block, merged with what it touches.\<close>

fun join :: "block \<Rightarrow> block list \<Rightarrow> block list" where
  "join b [] = [b]"
| "join (a, n) ((c, m) # bs) = (if a + n + 1 = c then (a, n + (m + 1)) # bs else (a, n) # (c, m) # bs)"

fun insert_block :: "block \<Rightarrow> block list \<Rightarrow> block list" where
  "insert_block b [] = [b]"
| "insert_block b (c # cs) = (if fst b < fst c then join b (c # cs) else join c (insert_block b cs))"

lemma join_extents: "extents (join b bs) = extent b \<union> extents bs"
  by (induction b bs rule: join.induct) auto

lemma insert_block_extents: "extents (insert_block b bs) = extent b \<union> extents bs"
  by (induction b bs rule: insert_block.induct) (auto simp: join_extents)

lemma join_ok:
  "lo \<le> a \<Longrightarrow> blocks_ok (a + n + 1) bs \<Longrightarrow> blocks_ok lo (join (a, n) bs)"
  by (cases bs) (auto simp: add.assoc)

lemma insert_block_ok:
  "blocks_ok lo bs \<Longrightarrow> lo \<le> a \<Longrightarrow> extent (a, n) \<inter> extents bs = {} \<Longrightarrow> blocks_ok lo (insert_block (a, n) bs)"
proof (induction bs arbitrary: lo)
  case (Cons c bs)
  obtain d m where c: "c = (d, m)" by (cases c)
  show ?case
  proof (cases "a < d")
    case True
    have "d \<notin> extent (a, n)" using Cons.prems(3) by (auto simp: c disjoint_iff)
    then have "a + n < d" using True by simp
    then have "blocks_ok (a + n + 1) (c # bs)" using Cons.prems(1) by (simp add: c)
    then show ?thesis using True Cons.prems(2) by (simp add: c join_ok del: join.simps)
  next
    case False
    have "d + m < a" using Cons.prems(3) False by (auto simp: c disjoint_iff)
    moreover have "blocks_ok (d + m + 1) bs" using Cons.prems(1) blocks_ok_mono [of "d + m + 2" bs "d + m + 1"] by (simp add: c)
    moreover have "extent (a, n) \<inter> extents bs = {}" using Cons.prems(3) by (auto simp: c)
    ultimately have "blocks_ok (d + m + 1) (insert_block (a, n) bs)" by (intro Cons.IH) auto
    then show ?thesis using False Cons.prems(1) by (simp add: c join_ok)
  qed
qed simp

section \<open>The list in memory\<close>

text \<open>\<open>lseg mem p bs q\<close>: following the links from \<open>p\<close> through the blocks \<open>bs\<close> leads to \<open>q\<close>.\<close>

fun lseg :: "(nat \<Rightarrow> heap_header option) \<Rightarrow> nat option \<Rightarrow> block list \<Rightarrow> nat option \<Rightarrow> bool" where
  "lseg mem p [] q \<longleftrightarrow> p = q"
| "lseg mem p ((a, n) # bs) q \<longleftrightarrow> p = Some a \<and> (\<exists>nxt. mem a = Some (HFree nxt n) \<and> lseg mem nxt bs q)"

lemma lseg_append: "lseg mem p (bs @ cs) q \<longleftrightarrow> (\<exists>r. lseg mem p bs r \<and> lseg mem r cs q)"
  by (induction mem p bs q rule: lseg.induct) auto

lemma lseg_cong: "(\<And>a. a \<in> fst ` set bs \<Longrightarrow> mem' a = mem a) \<Longrightarrow> lseg mem' p bs q = lseg mem p bs q"
  by (induction mem p bs q rule: lseg.induct) auto

lemma lseg_other: "\<forall>u. u \<noteq> a \<longrightarrow> mem' u = mem u \<Longrightarrow> a \<notin> fst ` set bs \<Longrightarrow> lseg mem' p bs q = lseg mem p bs q"
  by (rule lseg_cong) metis

lemma lseg_update [simp]: "a \<notin> fst ` set bs \<Longrightarrow> lseg (mem(a \<mapsto> hdr)) p bs q = lseg mem p bs q"
  by (rule lseg_cong) auto

definition heap_ok :: "memory_heap \<Rightarrow> block list \<Rightarrow> bool" where
  "heap_ok h bs \<longleftrightarrow> lseg (h_mem h) (h_first h) bs None \<and> blocks_ok 0 bs"

text \<open>A position in the list: \<open>pre\<close> before it, \<open>qp\<close> its last block (or the heap object itself), \<open>post\<close> behind it.\<close>

definition hpos :: "block list \<Rightarrow> hptr" where
  "hpos pre = (if pre = [] then None else Some (fst (last pre)))"

lemma hpos_simps [simp]: "hpos [] = None" "hpos (pre @ [b]) = Some (fst b)"
  by (simp_all add: hpos_def)

lemma blocks_ok_distinct: "blocks_ok lo bs \<Longrightarrow> distinct (map fst bs)"
proof (induction lo bs rule: blocks_ok.induct)
  case (2 lo a n bs)
  have "a \<notin> fst ` set bs" using blocks_ok_member [of "a + n + 2" bs a] "2.prems" by fastforce
  then show ?case using 2 by simp
qed simp

definition linked :: "memory_heap \<Rightarrow> block list \<Rightarrow> nat option \<Rightarrow> bool" where
  "linked h pre mid \<longleftrightarrow> lseg (h_mem h) (h_first h) pre mid"

lemma next_at: "linked h pre mid \<Longrightarrow> H_FREE_NEXT h (hpos pre) = Some mid"
  by (cases pre rule: rev_cases) (auto simp: linked_def H_FREE_NEXT_def lseg_append)

lemma set_next_at:
  assumes "linked h pre mid" and "distinct (map fst pre)"
  shows "\<exists>h'. set_next (hpos pre) mid' h = Some h' \<and> linked h' pre mid' \<and> h_core h' = h_core h \<and> h_area h' = h_area h \<and>
    (\<forall>a. a \<notin> fst ` set pre \<longrightarrow> h_mem h' a = h_mem h a)"
proof (cases pre rule: rev_cases)
  case Nil
  then show ?thesis by (auto simp: set_next_def linked_def)
next
  case (snoc ps b)
  obtain a n where b: "b = (a, n)" by (cases b)
  have "a \<notin> fst ` set ps" using assms(2) by (simp add: snoc b)
  then show ?thesis
    using assms(1) by (auto simp: snoc b set_next_def linked_def lseg_append set_header_def)
qed

lemma linked_header:
  "a \<notin> fst ` set pre \<Longrightarrow> linked (set_header a hdr h) pre mid = linked h pre mid"
  by (simp add: linked_def set_header_def)

lemma set_header_fields [simp]:
  "h_first (set_header a hdr h) = h_first h" "h_core (set_header a hdr h) = h_core h" "h_area (set_header a hdr h) = h_area h"
  "h_mem (set_header a hdr h) = (h_mem h)(a \<mapsto> hdr)"
  by (simp_all add: set_header_def)

lemma mem_reads:
  "h_mem h a = Some (HFree nxt n) \<Longrightarrow> H_FREE_NEXT h (Some a) = Some nxt \<and> H_FREE_PAGES h a = Some n"
  by (simp add: H_FREE_NEXT_def H_FREE_PAGES_def)

lemma heap_split: "heap_ok h (pre @ post) \<longleftrightarrow> blocks_ok 0 (pre @ post) \<and> (\<exists>mid. linked h pre mid \<and> lseg (h_mem h) mid post None)"
  by (auto simp: heap_ok_def linked_def lseg_append)

section \<open>Allocation\<close>

lemma member_extents: "(a, n) \<in> set bs \<Longrightarrow> a \<in> extents bs"
  by (auto simp: extents_def intro!: bexI [of _ "(a, n)"])

lemma fst_extents: "u \<notin> extents bs \<Longrightarrow> u \<notin> fst ` set bs"
  by (auto dest: member_extents)

lemma blocks_ok_disjoint:
  "blocks_ok lo (pre @ (a, n) # post) \<Longrightarrow> extent (a, n) \<inter> extents pre = {} \<and> extent (a, n) \<inter> extents post = {}"
proof (induction lo pre rule: blocks_ok.induct)
  case (1 lo)
  then show ?case using blocks_ok_above [of "a + n + 2" post] by fastforce
next
  case (2 lo b m pre)
  have "a \<ge> b + m + 2" using "2.prems" blocks_ok_member [of "b + m + 2" "pre @ (a, n) # post" a n] by simp
  then show ?case using 2 by auto
qed

lemma heap_take_spec:
  assumes ok: "heap_ok h (pre @ (a, n) # post)" and ahp: "a \<le> ahp" "ahp + pages \<le> a + n"
  shows "\<exists>h'. heap_take sz pages (hpos pre) a n ahp h = Some (ahp + 1, h') \<and> heap_ok h' (pre @ carve pages ahp (a, n) @ post) \<and>
    h_mem h' ahp = Some (HUsed sz) \<and> h_core h' = h_core h \<and> h_area h' = h_area h \<and>
    (\<forall>u. u \<notin> extent (a, n) \<union> extents pre \<longrightarrow> h_mem h' u = h_mem h u)"
proof -
  obtain nxt where l: "linked h pre (Some a)" "h_mem h a = Some (HFree nxt n)" "lseg (h_mem h) nxt post None"
    using ok by (auto simp: heap_split)
  have bok: "blocks_ok 0 (pre @ (a, n) # post)" using ok by (simp add: heap_ok_def)
  have bok': "blocks_ok 0 (pre @ carve pages ahp (a, n) @ post)"
    using bok carve_ok [OF _ ahp] by (rule blocks_ok_append)
  have dis: "extent (a, n) \<inter> extents pre = {}" "extent (a, n) \<inter> extents post = {}" using blocks_ok_disjoint [OF bok] by auto
  have np: "u \<notin> fst ` set pre" "u \<notin> fst ` set post" if "u \<in> extent (a, n)" for u
    using that dis by (auto dest: member_extents)
  have dp: "distinct (map fst pre)" using blocks_ok_distinct [OF bok] by simp
  note r = mem_reads [OF l(2)]
  show ?thesis
  proof (cases "ahp > a")
    case True
    define fp where "fp = ahp + 1 + pages"
    define h1 where "h1 = set_header a (HFree nxt (ahp - (a + 1))) h"
    define h2 where "h2 = (if a + n > ahp + pages
        then set_header a (HFree (Some fp) (ahp - (a + 1))) (set_header fp (HFree nxt (a + n - fp)) h1) else h1)"
    have t: "heap_take sz pages (hpos pre) a n ahp h = Some (ahp + 1, set_header ahp (HUsed sz) h2)"
      using True ahp r by (auto simp: heap_take_def h2_def h1_def fp_def set_next_def Let_def)
    have lk: "linked (set_header ahp (HUsed sz) h2) pre (Some a)"
      using l(1) np(1) [of ahp] np(1) [of fp] np(1) [of a] True ahp
      by (auto simp: h2_def h1_def linked_header fp_def)
    have "lseg (h_mem (set_header ahp (HUsed sz) h2)) (Some a) (carve pages ahp (a, n) @ post) None"
      using l(3) np(2) [of ahp] np(2) [of fp] np(2) [of a] True ahp
      by (auto simp: h2_def h1_def carve_def fp_def add.commute add.left_commute)
    then have "heap_ok (set_header ahp (HUsed sz) h2) (pre @ carve pages ahp (a, n) @ post)"
      using bok' lk unfolding heap_split [of _ pre] by blast
    then show ?thesis using t True ahp by (auto simp: h2_def h1_def fp_def)
  next
    case False
    then have ae: "ahp = a" using ahp(1) by simp
    define fp where "fp = a + 1 + pages"
    define h1 where "h1 = (if n = pages then h else set_header fp (HFree nxt (a + n - fp)) h)"
    define nxt' where "nxt' = (if n = pages then nxt else Some fp)"
    have l1: "linked h1 pre (Some a)" using l(1) np(1) [of fp] ahp ae by (auto simp: h1_def fp_def linked_header)
    obtain h2 where h2: "set_next (hpos pre) nxt' h1 = Some h2" "linked h2 pre nxt'" "h_core h2 = h_core h1" "h_area h2 = h_area h1"
      "\<forall>u. u \<notin> fst ` set pre \<longrightarrow> h_mem h2 u = h_mem h1 u"
      using set_next_at [OF l1 dp] by blast
    have t: "heap_take sz pages (hpos pre) a n ahp h = Some (a + 1, set_header a (HUsed sz) h2)"
      using h2(1) False r by (cases "n = pages") (simp_all add: heap_take_def Let_def h1_def nxt'_def fp_def)
    have lk: "linked (set_header a (HUsed sz) h2) pre nxt'" using h2(2) np(1) [of a] by (simp add: linked_header)
    have "h_mem h2 u = h_mem h u" if u: "u \<in> fst ` set post" for u
    proof -
      have "u \<notin> fst ` set pre" using u blocks_ok_distinct [OF bok] by auto
      moreover have "n \<noteq> pages \<Longrightarrow> fp \<in> extent (a, n)" using ahp ae by (simp add: fp_def)
      then have "u \<noteq> fp \<or> n = pages" using u np(2) [of fp] by blast
      ultimately show ?thesis using h2(5) by (auto simp: h1_def)
    qed
    then have m2: "lseg (h_mem h2) nxt post None" using l(3) lseg_cong [of post "h_mem h2" "h_mem h"] by blast
    have f2: "h_mem h2 fp = Some (HFree nxt (a + n - fp))" if "n \<noteq> pages"
      using that h2(5) np(1) [of fp] ahp ae by (auto simp: h1_def fp_def)
    have "lseg (h_mem (set_header a (HUsed sz) h2)) nxt' (carve pages ahp (a, n) @ post) None"
      using m2 f2 np(2) [of a] ahp ae by (auto simp: carve_def nxt'_def fp_def)
    then have "heap_ok (set_header a (HUsed sz) h2) (pre @ carve pages ahp (a, n) @ post)"
      using bok' lk unfolding heap_split [of _ pre] by blast
    then show ?thesis using t h2(3-5) ahp ae fst_extents by (auto simp: h1_def fp_def split: if_splits)
  qed
qed

lemma align_up_ge: "0 < m \<Longrightarrow> p \<le> align_up p m"
proof -
  assume m: "0 < m"
  have "p + (m - 1) < (p + (m - 1)) div m * m + m" using dividend_less_div_times [OF m, of "p + (m - 1)"] by simp
  then show ?thesis using m by (simp add: align_up_def)
qed

lemma heap_fits_room:
  assumes "heap_fits pages al a n" and "0 < al"
  shows "a \<le> align_up (a + 1) al - 1 \<and> align_up (a + 1) al - 1 + pages \<le> a + n \<and> 0 < align_up (a + 1) al"
  using assms align_up_ge [OF assms(2), of "a + 1"] by (auto simp: heap_fits_def Let_def)

lemma heap_alloc_loop_spec:
  assumes "0 < al"
  shows "heap_ok h (pre @ post) \<Longrightarrow> \<exists>r h'. heap_alloc_loop sz pages al h (hpos pre) = Some (r, h') \<and>
    (case r of
       None \<Rightarrow> h' = h \<and> (\<forall>(a, n) \<in> set post. \<not> heap_fits pages al a n)
     | Some p \<Rightarrow> \<exists>pre' a n post'. pre @ post = pre' @ (a, n) # post' \<and> heap_fits pages al a n \<and> p = align_up (a + 1) al \<and>
         heap_ok h' (pre' @ carve pages (p - 1) (a, n) @ post') \<and> h_mem h' (p - 1) = Some (HUsed sz) \<and>
         h_core h' = h_core h \<and> h_area h' = h_area h \<and> (\<forall>u. u \<notin> extents (pre @ post) \<longrightarrow> h_mem h' u = h_mem h u))"
proof (induction post arbitrary: pre)
  case Nil
  have "H_FREE_NEXT h (hpos pre) = Some None" using Nil by (auto simp: heap_ok_def linked_def intro!: next_at)
  then show ?case by (subst heap_alloc_loop.simps) simp
next
  case (Cons b post)
  obtain a n where b: "b = (a, n)" by (cases b)
  obtain nxt where l: "linked h pre (Some a)" "h_mem h a = Some (HFree nxt n)"
    using Cons.prems by (auto simp: heap_split b)
  note r = next_at [OF l(1)] mem_reads [OF l(2)]
  show ?case
  proof (cases "heap_fits pages al a n")
    case True
    note f = heap_fits_room [OF True assms]
    obtain h' where h': "heap_take sz pages (hpos pre) a n (align_up (a + 1) al - 1) h = Some (align_up (a + 1) al - 1 + 1, h')"
      "heap_ok h' (pre @ carve pages (align_up (a + 1) al - 1) (a, n) @ post)" "h_mem h' (align_up (a + 1) al - 1) = Some (HUsed sz)"
      "h_core h' = h_core h" "h_area h' = h_area h" "\<forall>u. u \<notin> extent (a, n) \<union> extents pre \<longrightarrow> h_mem h' u = h_mem h u"
      using heap_take_spec [OF Cons.prems [unfolded b], of "align_up (a + 1) al - 1" pages sz] f by auto
    have e: "align_up (a + 1) al - 1 + 1 = align_up (a + 1) al" using f by simp
    have "heap_alloc_loop sz pages al h (hpos pre) = Some (Some (align_up (a + 1) al), h')"
      using r True h'(1) unfolding e by (subst heap_alloc_loop.simps) simp
    moreover have "\<forall>u. u \<notin> extents (pre @ b # post) \<longrightarrow> h_mem h' u = h_mem h u" using h'(6) by (auto simp: b)
    ultimately show ?thesis
      using h'(2-5) True unfolding b
      by (intro exI [of _ "Some (align_up (a + 1) al)"] exI [of _ h'])
        (simp, intro exI [of _ pre] exI [of _ a] exI [of _ n] exI [of _ post], simp)
  next
    case False
    have "heap_alloc_loop sz pages al h (hpos pre) = heap_alloc_loop sz pages al h (Some a)"
      using r False by (subst heap_alloc_loop.simps) simp
    then show ?thesis
      using Cons.IH [of "pre @ [b]"] Cons.prems False by (fastforce simp: b split: option.splits)
  qed
qed

lemma heap_pages_aligned:
  "MEM_IS_VALID_ALIGNMENT align \<Longrightarrow> 0 < unat ((if align < CH_HEAP_ALIGNMENT then CH_HEAP_ALIGNMENT else align) div CH_HEAP_ALIGNMENT)"
  by (auto simp: CH_HEAP_ALIGNMENT_def word_less_nat_alt unat_div div_greater_zero_iff)

text \<open>The search of the free list, in terms of the memory it moves.\<close>

lemma heap_search_spec:
  assumes "heap_ok h bs" and "0 < al"
  shows "\<exists>r h'. heap_alloc_loop sz pages al h None = Some (r, h') \<and>
    (case r of
       None \<Rightarrow> h' = h \<and> (\<forall>(a, n) \<in> set bs. \<not> heap_fits pages al a n)
     | Some p \<Rightarrow> \<exists>bs'. heap_ok h' bs' \<and> 0 < p \<and> p mod al = 0 \<and> extents bs = extents bs' \<union> extent (p - 1, pages) \<and>
         extents bs' \<inter> extent (p - 1, pages) = {} \<and> chHeapGetSize p h' = Some sz \<and> h_core h' = h_core h \<and>
         h_area h' = h_area h \<and> (\<forall>u. u \<notin> extents bs \<longrightarrow> h_mem h' u = h_mem h u))"
proof -
  obtain r h' where l: "heap_alloc_loop sz pages al h None = Some (r, h')" and
    rest: "case r of
       None \<Rightarrow> h' = h \<and> (\<forall>(a, n) \<in> set bs. \<not> heap_fits pages al a n)
     | Some p \<Rightarrow> \<exists>pre' a n post'. bs = pre' @ (a, n) # post' \<and> heap_fits pages al a n \<and> p = align_up (a + 1) al \<and>
         heap_ok h' (pre' @ carve pages (p - 1) (a, n) @ post') \<and> h_mem h' (p - 1) = Some (HUsed sz) \<and>
         h_core h' = h_core h \<and> h_area h' = h_area h \<and> (\<forall>u. u \<notin> extents bs \<longrightarrow> h_mem h' u = h_mem h u)"
    using heap_alloc_loop_spec [OF assms(2), of h "[]" bs sz pages] assms(1) unfolding append_Nil hpos_simps by blast
  show ?thesis
  proof (cases r)
    case None
    then show ?thesis using l rest by auto
  next
    case (Some p)
    then obtain pre a n post where s: "bs = pre @ (a, n) # post" "heap_fits pages al a n" "p = align_up (a + 1) al"
      "heap_ok h' (pre @ carve pages (p - 1) (a, n) @ post)" "h_mem h' (p - 1) = Some (HUsed sz)"
      "h_core h' = h_core h" "h_area h' = h_area h" "\<forall>u. u \<notin> extents bs \<longrightarrow> h_mem h' u = h_mem h u"
      using rest by auto
    note f = heap_fits_room [OF s(2) assms(2), folded s(3)]
    have "blocks_ok 0 (pre @ (a, n) # post)" using assms(1) s(1) by (simp add: heap_ok_def)
    note dis = blocks_ok_disjoint [OF this]
    have ex: "extent (a, n) = extents (carve pages (p - 1) (a, n)) \<union> extent (p - 1, pages)"
      "extents (carve pages (p - 1) (a, n)) \<inter> extent (p - 1, pages) = {}"
      using f by (intro carve_extents; simp)+
    then have "extents bs = extents (pre @ carve pages (p - 1) (a, n) @ post) \<union> extent (p - 1, pages)"
      "extents (pre @ carve pages (p - 1) (a, n) @ post) \<inter> extent (p - 1, pages) = {}"
      using dis unfolding s(1) by auto
    moreover have "p mod al = 0" unfolding s(3) align_up_def by simp
    ultimately show ?thesis
      using l s(4-8) f Some by (auto simp: chHeapGetSize_def H_USED_SIZE_def intro!: exI)
  qed
qed

text \<open>
  Without a provider: the allocator gives memory that was free, aligned and of the requested
  number of pages, and the rest stays free; or it leaves the heap alone and no free block has
  room for the request.
\<close>

lemma chHeapAllocAligned_spec:
  assumes "heap_ok h bs" and "0 < sz" and "MEM_IS_VALID_ALIGNMENT align" and "h_core h = None"
  defines "al \<equiv> unat ((if align < CH_HEAP_ALIGNMENT then CH_HEAP_ALIGNMENT else align) div CH_HEAP_ALIGNMENT)"
  shows "\<exists>r h'. chHeapAllocAligned sz align h = Some (r, h') \<and>
    (case r of
       None \<Rightarrow> h' = h \<and> (\<forall>(a, n) \<in> set bs. \<not> heap_fits (heap_pages sz) al a n)
     | Some p \<Rightarrow> \<exists>bs'. heap_ok h' bs' \<and> 0 < p \<and> p mod al = 0 \<and>
         extents bs = extents bs' \<union> extent (p - 1, heap_pages sz) \<and> extents bs' \<inter> extent (p - 1, heap_pages sz) = {} \<and>
         chHeapGetSize p h' = Some sz \<and> h_core h' = None \<and> h_area h' = h_area h \<and> (\<forall>u. u \<notin> extents bs \<longrightarrow> h_mem h' u = h_mem h u))"
proof -
  have al: "0 < al" unfolding al_def by (rule heap_pages_aligned [OF assms(3)])
  obtain r h' where l: "heap_alloc_loop sz (heap_pages sz) al h None = Some (r, h')" and
    rest: "case r of
       None \<Rightarrow> h' = h \<and> (\<forall>(a, n) \<in> set bs. \<not> heap_fits (heap_pages sz) al a n)
     | Some p \<Rightarrow> \<exists>bs'. heap_ok h' bs' \<and> 0 < p \<and> p mod al = 0 \<and> extents bs = extents bs' \<union> extent (p - 1, heap_pages sz) \<and>
         extents bs' \<inter> extent (p - 1, heap_pages sz) = {} \<and> chHeapGetSize p h' = Some sz \<and> h_core h' = h_core h \<and>
         h_area h' = h_area h \<and> (\<forall>u. u \<notin> extents bs \<longrightarrow> h_mem h' u = h_mem h u)"
    using heap_search_spec [OF assms(1) al, of sz "heap_pages sz"] by blast
  have "chHeapAllocAligned sz align h = Some (r, h')"
    using l rest assms(2-4) by (cases r) (simp_all add: chHeapAllocAligned_def Let_def al_def)
  then show ?thesis using rest assms(4) by (cases r) auto
qed

section \<open>Release\<close>

lemma merge_next_spec:
  assumes "lseg (h_mem h) (Some a) ((a, n) # bs) None" and "a \<notin> fst ` set bs"
  shows "\<exists>h'. merge_next a h = Some h' \<and> lseg (h_mem h') (Some a) (join (a, n) bs) None \<and> h_first h' = h_first h \<and>
    h_core h' = h_core h \<and> h_area h' = h_area h \<and> (\<forall>u. u \<noteq> a \<longrightarrow> h_mem h' u = h_mem h u)"
proof -
  obtain nxt where m: "h_mem h a = Some (HFree nxt n)" "lseg (h_mem h) nxt bs None" using assms(1) by auto
  note r = mem_reads [OF m(1)]
  show ?thesis
  proof (cases bs)
    case Nil
    then show ?thesis using assms(1) m r by (simp add: merge_next_def)
  next
    case (Cons b cs)
    obtain c k where b: "b = (c, k)" by (cases b)
    obtain nxt' where c: "nxt = Some c" "h_mem h c = Some (HFree nxt' k)" "lseg (h_mem h) nxt' cs None"
      using m(2) by (auto simp: Cons b)
    show ?thesis
      using assms m(1) c r mem_reads [OF c(2)] by (auto simp: merge_next_def Cons b)
  qed
qed

lemma merge_prev_next:
  "H_FREE_NEXT h (Some q) = Some (Some hp) \<Longrightarrow> merge_prev (Some q) hp h = merge_next q h"
  by (cases "H_FREE_PAGES h q") (auto simp: merge_prev_def merge_next_def)

lemma join_fst: "\<exists>m cs. join (a, n) bs = (a, m) # cs \<and> fst ` set cs \<subseteq> fst ` set bs"
  by (cases bs) auto

lemma insert_block_at:
  assumes "blocks_ok lo (pre @ post)" and "\<forall>(a, n) \<in> set pre. a + n < hp" and "\<forall>(a, n) \<in> set post. hp < a"
  shows "insert_block (hp, k) (pre @ post) =
    (if pre = [] then join (hp, k) post else butlast pre @ join (last pre) (join (hp, k) post))"
  using assms
proof (induction pre arbitrary: lo)
  case Nil
  then show ?case by (cases post) auto
next
  case (Cons b pre)
  obtain a n where b: "b = (a, n)" by (cases b)
  have i: "insert_block (hp, k) (pre @ post) =
      (if pre = [] then join (hp, k) post else butlast pre @ join (last pre) (join (hp, k) post))"
    using Cons by (auto simp: b)
  show ?case
  proof (cases pre)
    case Nil
    then show ?thesis using i Cons.prems(2) by (auto simp: b)
  next
    case (Cons c pre')
    obtain d m where c: "c = (d, m)" by (cases c)
    have "a + n + 1 \<noteq> d" using Cons.prems(1) by (simp add: b c Cons)
    moreover obtain j cs where "insert_block (hp, k) (pre @ post) = (d, j) # cs"
      using i join_fst [of d m "join (hp, k) post"] by (cases pre') (auto simp: Cons c)
    ultimately have "join (a, n) (insert_block (hp, k) (pre @ post)) = (a, n) # insert_block (hp, k) (pre @ post)" by simp
    then show ?thesis using i Cons.prems(2) by (simp add: b Cons)
  qed
qed

lemma heap_insert_spec:
  assumes ok: "heap_ok h (pre @ post)" and mid: "linked h pre mid" "lseg (h_mem h) mid post None"
    and pre: "\<forall>(a, n) \<in> set pre. a + n < hp" and post: "\<forall>(a, n) \<in> set post. hp < a"
  shows "\<exists>h'. heap_insert hp k (hpos pre) mid h = Some h' \<and>
    lseg (h_mem h') (h_first h') (insert_block (hp, k) (pre @ post)) None \<and> h_core h' = h_core h \<and> h_area h' = h_area h \<and>
    (\<forall>u. u \<notin> insert hp (fst ` set pre) \<longrightarrow> h_mem h' u = h_mem h u)"
proof -
  have bok: "blocks_ok 0 (pre @ post)" using ok by (simp add: heap_ok_def)
  have d: "distinct (map fst pre)" "fst ` set pre \<inter> fst ` set post = {}" using blocks_ok_distinct [OF bok] by auto
  have n: "hp \<notin> fst ` set pre" "hp \<notin> fst ` set post" using pre post by auto
  define h1 where "h1 = set_header hp (HFree mid k) h"
  have "linked h1 pre mid" using mid(1) n(1) by (simp add: h1_def linked_header)
  then obtain h2 where h2: "set_next (hpos pre) (Some hp) h1 = Some h2" "linked h2 pre (Some hp)" "h_core h2 = h_core h" "h_area h2 = h_area h"
    "\<forall>u. u \<notin> fst ` set pre \<longrightarrow> h_mem h2 u = h_mem h1 u"
    using set_next_at [OF _ d(1), of h1 mid "Some hp"] by (auto simp: h1_def)
  have "h_mem h2 u = h_mem h u" if "u \<in> fst ` set post" for u
  proof -
    have "u \<notin> fst ` set pre" "u \<noteq> hp" using that d(2) n(2) by blast+
    then show ?thesis using h2(5) by (simp add: h1_def)
  qed
  then have "lseg (h_mem h2) mid post None" using mid(2) lseg_cong [of post "h_mem h2" "h_mem h"] by blast
  then have "lseg (h_mem h2) (Some hp) ((hp, k) # post) None" using h2(5) n(1) by (simp add: h1_def)
  from merge_next_spec [OF this n(2)]
  obtain h3 where h3: "merge_next hp h2 = Some h3" "lseg (h_mem h3) (Some hp) (join (hp, k) post) None" "h_first h3 = h_first h2"
    "h_core h3 = h_core h2" "h_area h3 = h_area h2" "\<forall>u. u \<noteq> hp \<longrightarrow> h_mem h3 u = h_mem h2 u" by blast
  have l3: "linked h3 pre (Some hp)"
    using h2(2) h3(3) lseg_other [OF h3(6) n(1)] by (simp add: linked_def)
  have ins: "heap_insert hp k (hpos pre) mid h = merge_prev (hpos pre) hp h3"
    using h2(1) h3(1) by (simp add: heap_insert_def h1_def Let_def)
  have ib: "insert_block (hp, k) (pre @ post) = (if pre = [] then join (hp, k) post else butlast pre @ join (last pre) (join (hp, k) post))"
    by (rule insert_block_at [OF bok pre post])
  show ?thesis
  proof (cases pre rule: rev_cases)
    case Nil
    then show ?thesis
      using ins ib l3 h3 h2 by (auto simp: merge_prev_def linked_def h1_def)
  next
    case (snoc ps b)
    obtain c m where b: "b = (c, m)" by (cases b)
    have c: "lseg (h_mem h3) (h_first h3) ps (Some c)" "h_mem h3 c = Some (HFree (Some hp) m)"
      using l3 by (auto simp: snoc b linked_def lseg_append)
    have cps: "c \<notin> fst ` set ps" using d(1) by (simp add: snoc b)
    have cp: "c \<notin> fst ` set post" "c \<noteq> hp" using d(2) n(1) by (auto simp: snoc b)
    have cj: "c \<notin> fst ` set (join (hp, k) post)"
      using join_fst [of hp k post] cp by (metis fst_conv image_insert insert_iff list.set(2) subsetD)
    have "lseg (h_mem h3) (Some c) ((c, m) # join (hp, k) post) None" using c(2) h3(2) by simp
    from merge_next_spec [OF this cj]
    obtain h4 where h4: "merge_next c h3 = Some h4" "lseg (h_mem h4) (Some c) (join (c, m) (join (hp, k) post)) None" "h_first h4 = h_first h3"
      "h_core h4 = h_core h3" "h_area h4 = h_area h3" "\<forall>u. u \<noteq> c \<longrightarrow> h_mem h4 u = h_mem h3 u" by blast
    have "lseg (h_mem h4) (h_first h4) ps (Some c)"
      using c(1) h4(3) lseg_other [OF h4(6) cps] by simp
    then have "lseg (h_mem h4) (h_first h4) (insert_block (hp, k) (pre @ post)) None"
      using ib h4(2) by (auto simp: snoc b lseg_append)
    moreover have "heap_insert hp k (hpos pre) mid h = Some h4"
      using ins h4(1) merge_prev_next [of h3 c hp] mem_reads [OF c(2)] by (simp add: snoc b)
    ultimately show ?thesis
      using h2(3-5) h3(4-6) h4(4-6) by (auto simp: snoc b h1_def)
  qed
qed

lemma blocks_ok_suffix: "blocks_ok lo (pre @ post) \<Longrightarrow> \<exists>lo'. blocks_ok lo' post"
  by (induction lo pre rule: blocks_ok.induct) auto

lemma heap_free_loop_spec:
  assumes "extent (hp, k) \<inter> extents (pre @ post) = {}" and "heap_ok h (pre @ post)" and "\<forall>(a, n) \<in> set pre. a + n < hp"
  shows "\<exists>h'. heap_free_loop hp k h (hpos pre) = Some h' \<and> heap_ok h' (insert_block (hp, k) (pre @ post)) \<and>
    h_core h' = h_core h \<and> h_area h' = h_area h \<and> (\<forall>u. u \<notin> insert hp (extents (pre @ post)) \<longrightarrow> h_mem h' u = h_mem h u)"
  using assms
proof (induction post arbitrary: pre)
  case Nil
  have m: "linked h pre None" using Nil.prems(2) by (simp add: heap_ok_def linked_def)
  have w: "within_free hp (hpos pre) h = Some False \<and> (case hpos pre of None \<Rightarrow> True | Some q \<Rightarrow> q < hp)"
    using m Nil.prems(3) by (cases pre rule: rev_cases) (auto simp: within_free_def linked_def lseg_append H_FREE_PAGES_def)
  obtain h' where h': "heap_insert hp k (hpos pre) None h = Some h'" "lseg (h_mem h') (h_first h') (insert_block (hp, k) (pre @ [])) None"
    "h_core h' = h_core h" "h_area h' = h_area h" "\<forall>u. u \<notin> insert hp (fst ` set pre) \<longrightarrow> h_mem h' u = h_mem h u"
    using heap_insert_spec [OF Nil.prems(2) m _ Nil.prems(3)] by auto
  have "blocks_ok 0 (insert_block (hp, k) (pre @ []))"
    using Nil.prems(1,2) by (intro insert_block_ok) (auto simp: heap_ok_def)
  then show ?case
    using h' w next_at [OF m] fst_extents [of _ pre] by (subst heap_free_loop.simps) (simp add: heap_ok_def)
next
  case (Cons b post)
  obtain a n where b: "b = (a, n)" by (cases b)
  obtain nxt where l: "linked h pre (Some a)" "lseg (h_mem h) (Some a) (b # post) None" "h_mem h a = Some (HFree nxt n)"
    using Cons.prems(2) by (auto simp: heap_split b)
  have w: "within_free hp (hpos pre) h = Some False \<and> (case hpos pre of None \<Rightarrow> True | Some q \<Rightarrow> q < hp)"
    using l(1) Cons.prems(3) by (cases pre rule: rev_cases) (auto simp: within_free_def linked_def lseg_append H_FREE_PAGES_def)
  show ?case
  proof (cases "hp < a")
    case True
    have "\<forall>(c, m) \<in> set (b # post). hp < c"
    proof -
      obtain lo where "blocks_ok lo (b # post)" using Cons.prems(2) blocks_ok_suffix unfolding heap_ok_def by blast
      then show ?thesis using True blocks_ok_member [of "a + n + 2" post] by (fastforce simp: b)
    qed
    then obtain h' where h': "heap_insert hp k (hpos pre) (Some a) h = Some h'"
      "lseg (h_mem h') (h_first h') (insert_block (hp, k) (pre @ b # post)) None" "h_core h' = h_core h" "h_area h' = h_area h"
      "\<forall>u. u \<notin> insert hp (fst ` set pre) \<longrightarrow> h_mem h' u = h_mem h u"
      using heap_insert_spec [OF Cons.prems(2) l(1,2) Cons.prems(3)] by blast
    have "blocks_ok 0 (insert_block (hp, k) (pre @ b # post))"
      using Cons.prems(1,2) by (intro insert_block_ok) (auto simp: heap_ok_def)
    then show ?thesis
      using h' w next_at [OF l(1)] True fst_extents [of _ pre] by (subst heap_free_loop.simps) (simp add: heap_ok_def)
  next
    case False
    have "hp \<notin> extent (a, n)" using Cons.prems(1) by (auto simp: b disjoint_iff)
    then have "a + n < hp" using False by simp
    then have "\<exists>h'. heap_free_loop hp k h (hpos (pre @ [b])) = Some h' \<and> heap_ok h' (insert_block (hp, k) ((pre @ [b]) @ post)) \<and>
        h_core h' = h_core h \<and> h_area h' = h_area h \<and> (\<forall>u. u \<notin> insert hp (extents ((pre @ [b]) @ post)) \<longrightarrow> h_mem h' u = h_mem h u)"
      using Cons.prems by (intro Cons.IH) (auto simp: b)
    moreover have "heap_free_loop hp k h (hpos pre) = heap_free_loop hp k h (Some a)"
      using w next_at [OF l(1)] False by (subst heap_free_loop.simps) simp
    ultimately show ?thesis by (simp add: b)
  qed
qed

text \<open>Freeing a block makes its memory free again, whatever is around it.\<close>

lemma chHeapFree_spec:
  assumes "heap_ok h bs" and "0 < p" and "chHeapGetSize p h = Some sz"
    and "extent (p - 1, heap_pages sz) \<inter> extents bs = {}"
  shows "\<exists>h' bs'. chHeapFree p h = Some h' \<and> heap_ok h' bs' \<and> extents bs' = extents bs \<union> extent (p - 1, heap_pages sz) \<and>
    h_core h' = h_core h \<and> h_area h' = h_area h \<and> (\<forall>u. u \<notin> insert (p - 1) (extents bs) \<longrightarrow> h_mem h' u = h_mem h u)"
  using heap_free_loop_spec [of "p - 1" "heap_pages sz" "[]" bs h] assms insert_block_extents [of "(p - 1, heap_pages sz)" bs]
  by (auto simp: chHeapFree_def chHeapGetSize_def)

lemma heap_blocks_unique: "heap_ok h bs \<Longrightarrow> heap_ok h' bs' \<Longrightarrow> extents bs = extents bs' \<Longrightarrow> bs = bs'"
  unfolding heap_ok_def using blocks_unique by blast

section \<open>Status and integrity\<close>

lemma heap_status_loop_spec:
  "heap_ok h (pre @ post) \<Longrightarrow> heap_status_loop h (hpos pre) (n, t, l) =
     Some (n + length post, t + sum_list (map snd post), fold max (map snd post) l)"
proof (induction post arbitrary: pre n t l)
  case Nil
  then have "H_FREE_NEXT h (hpos pre) = Some None" by (auto simp: heap_ok_def linked_def intro!: next_at)
  then show ?case by (subst heap_status_loop.simps) simp
next
  case (Cons b post)
  obtain a m where b: "b = (a, m)" by (cases b)
  obtain nxt where l: "linked h pre (Some a)" "h_mem h a = Some (HFree nxt m)"
    using Cons.prems by (auto simp: heap_split b)
  have "heap_status_loop h (hpos pre) (n, t, l) = heap_status_loop h (Some a) (n + 1, t + m, max m l)"
    using next_at [OF l(1)] mem_reads [OF l(2)] by (subst heap_status_loop.simps) (simp add: max_def)
  then show ?case using Cons.IH [of "pre @ [b]" "n + 1" "t + m" "max m l"] Cons.prems by (simp add: b)
qed

lemma chHeapStatus_spec:
  "heap_ok h bs \<Longrightarrow> chHeapStatus h =
     Some (length bs, 8 * sum_list (map snd bs), 8 * fold max (map snd bs) 0)"
  using heap_status_loop_spec [of h "[]" bs 0 0 0] by (simp add: chHeapStatus_def CH_HEAP_ALIGNMENT_def)

lemma heap_check_loop_spec:
  "heap_ok h (pre @ post) \<Longrightarrow> (\<forall>(a, n) \<in> set post. space_within (h_area h) a (n + 1)) \<Longrightarrow>
     heap_check_loop h (hpos pre) = Some False"
proof (induction post arbitrary: pre)
  case Nil
  then have "H_FREE_NEXT h (hpos pre) = Some None" by (auto simp: heap_ok_def linked_def intro!: next_at)
  then show ?case by (subst heap_check_loop.simps) simp
next
  case (Cons b post)
  obtain a m where b: "b = (a, m)" by (cases b)
  obtain nxt where l: "linked h pre (Some a)" "h_mem h a = Some (HFree nxt m)"
    using Cons.prems(1) by (auto simp: heap_split b)
  have "case hpos pre of None \<Rightarrow> True | Some q \<Rightarrow> q < a"
  proof (cases pre rule: rev_cases)
    case (snoc ps c)
    obtain lo where "blocks_ok lo (c # b # post)"
      using Cons.prems(1) blocks_ok_suffix [of 0 ps "c # b # post"] by (auto simp: heap_ok_def snoc)
    then show ?thesis by (cases c) (simp add: snoc b)
  qed simp
  then have "heap_check_loop h (hpos pre) = heap_check_loop h (Some a)"
    using next_at [OF l(1)] mem_reads [OF l(2)] Cons.prems(2)
    by (subst heap_check_loop.simps) (auto simp: b split: option.splits)
  then show ?case using Cons.IH [of "pre @ [b]"] Cons.prems by (simp add: b)
qed

lemma chHeapIntegrityCheck_ok:
  assumes "heap_ok h bs" and "\<forall>u \<in> extents bs. fst (h_area h) \<le> u \<and> u < fst (h_area h) + snd (h_area h)"
  shows "chHeapIntegrityCheck h = Some False"
proof -
  have "space_within (h_area h) a (n + 1)" if "(a, n) \<in> set bs" for a n
  proof -
    have "a \<in> extents bs" "a + n \<in> extents bs" using that by (auto simp: extents_def intro!: bexI [of _ "(a, n)"])
    then show ?thesis using assms(2) by (fastforce simp: space_within_def)
  qed
  then show ?thesis using heap_check_loop_spec [of h "[]" bs] assms(1) by (auto simp: chHeapIntegrityCheck_def)
qed

lemma chHeapIntegrityCheck_area:
  assumes "heap_ok h bs" and "extents bs \<subseteq> {fst (h_area h)..<fst (h_area h) + snd (h_area h)}"
  shows "chHeapIntegrityCheck h = Some False"
  using assms(2) by (intro chHeapIntegrityCheck_ok [OF assms(1)]) (force dest: subsetD)

section \<open>Starting and overflow\<close>

lemma chHeapObjectInit_ok:
  assumes "chHeapObjectInit buf sz = Some h"
  shows "\<exists>n. heap_ok h [(fst (h_area h), n)] \<and> snd (h_area h) = n + 1 \<and> h_core h = None"
  using assms by (auto simp: chHeapObjectInit_def Let_def heap_ok_def split: if_splits)

lemma heap_init_ok: "heap_ok (heap_init c) []"
  by (simp add: heap_ok_def heap_init_def)

text \<open>
  A size within seven bytes of the end of the address space is rounded up to zero pages: the
  request succeeds wherever a free block exists, with no memory behind the header.
\<close>

lemma heap_pages_small: "unat sz + 7 < 2 ^ 32 \<Longrightarrow> heap_pages sz = (unat sz + 7) div 8"
  using MEM_ALIGN_NEXT_unat [of 3 sz] by (simp add: heap_pages_def CH_HEAP_ALIGNMENT_def unat_div)

lemma heap_pages_wraps: "unat sz + 7 \<ge> 2 ^ 32 \<Longrightarrow> heap_pages sz = 0"
proof -
  assume a: "unat sz + 7 \<ge> 2 ^ 32"
  have m: "unat (MEM_ALIGN_MASK 8) = 7" by (simp add: MEM_ALIGN_MASK_def)
  have "unat (sz + MEM_ALIGN_MASK 8) = unat sz + 7 - 2 ^ 32"
    using a unat_plus_if_size [of sz "MEM_ALIGN_MASK 8"] m by (simp add: word_size)
  then have "unat (sz + MEM_ALIGN_MASK 8) < 8" using unsigned_less [of sz, where 'a = nat] by simp
  then show ?thesis
    using MEM_ALIGN_PREV_unat [of 3 "sz + MEM_ALIGN_MASK 8"]
    by (simp add: heap_pages_def CH_HEAP_ALIGNMENT_def MEM_ALIGN_NEXT_def unat_div)
qed

section \<open>The heap with its provider\<close>

text \<open>The units the provider still has to give, and those the free list or the provider have.\<close>

definition core_units :: "memcore \<Rightarrow> nat set" where
  "core_units c = {u. unat (basemem c) \<le> 8 * u \<and> 8 * u + 8 \<le> unat (topmem c)}"

definition core_free :: "memory_heap \<Rightarrow> nat set" where
  "core_free h = (case h_core h of None \<Rightarrow> {} | Some c \<Rightarrow> core_units c)"

definition core_ok :: "memory_heap \<Rightarrow> bool" where
  "core_ok h = (case h_core h of None \<Rightarrow> True | Some c \<Rightarrow> basemem c \<le> topmem c \<and> unat (topmem c) + 8 < 2 ^ 32)"

text \<open>A request is below the address of the provider's top; on the target that is any request below 512 MB.\<close>

definition sane_size :: "u32 \<Rightarrow> memory_heap \<Rightarrow> bool" where
  "sane_size sz h = (case h_core h of None \<Rightarrow> True | Some c \<Rightarrow> 8 * heap_pages sz \<le> unat (topmem c))"

lemma core_alloc_units:
  assumes "chCoreAllocFromTop (of_nat n * CH_HEAP_ALIGNMENT) align 8 c = Some (Some p, c')"
    and "basemem c \<le> topmem c" and "unat (topmem c) + 8 < 2 ^ 32" and "8 * n \<le> unat (topmem c)"
    and "MEM_IS_VALID_ALIGNMENT align" and "8 \<le> align"
  defines "ap \<equiv> unat (p div 8)"
  shows "0 < ap \<and> extent (ap - 1, n) \<subseteq> core_units c \<and> core_units c' \<subseteq> core_units c \<and> extent (ap - 1, n) \<inter> core_units c' = {} \<and>
    basemem c' \<le> topmem c' \<and> unat (topmem c') + 8 < 2 ^ 32 \<and> ap mod unat (align div 8) = 0"
proof -
  obtain k where k: "k < 32" "align = 2 ^ k" "unat align = 2 ^ k" using valid_alignment [OF assms(5)] .
  have "(2 :: nat) ^ 3 \<le> 2 ^ k" using assms(6) k(3) by (simp add: word_le_nat_alt)
  then have k3: "3 \<le> k" by (rule power_le_imp_le_exp [rotated]) simp
  then obtain j where j: "k = j + 3" by (metis add.commute le_Suc_ex)
  have sz: "unat (of_nat n * CH_HEAP_ALIGNMENT :: u32) = 8 * n"
  proof -
    have "(of_nat n * CH_HEAP_ALIGNMENT :: u32) = of_nat (8 * n)" by (simp add: CH_HEAP_ALIGNMENT_def mult.commute)
    moreover have "8 * n < 2 ^ 32" using assms(3,4) by linarith
    ultimately show ?thesis by (simp only: unat_of_nat) (simp add: take_bit_nat_eq_self)
  qed
  have "of_nat n * CH_HEAP_ALIGNMENT \<le> topmem c" unfolding word_le_nat_alt sz by (rule assms(4))
  note s = chCoreAllocFromTopI_spec [OF assms(5,2) this, of 8] 
  have r: "MEM_IS_ALIGNED p align" "basemem c' = basemem c" "basemem c \<le> topmem c'" "unat (topmem c') + 8 = unat p"
    "unat p + 8 * n \<le> unat (topmem c)"
    using s assms(1,3) by (simp_all add: chCoreAllocFromTop_def sz)
  have m: "unat p mod 2 ^ k = 0" using r(1) k MEM_IS_ALIGNED_unat [OF k(1), of p] by simp
  then have "2 ^ j * 8 dvd unat p" by (simp add: j power_add mod_0_imp_dvd)
  then obtain d where d: "unat p = 2 ^ j * 8 * d" by (elim dvdE)
  have ap: "ap = 2 ^ j * d" "8 * ap = unat p" using d by (simp_all add: ap_def unat_div)
  have "unat (align div 8) = 2 ^ j" using k(3) by (simp add: unat_div j power_add)
  then have al: "ap mod unat (align div 8) = 0" by (simp add: ap(1))
  have "0 < ap" using ap(2) r(4) by simp
  then show ?thesis
    using r ap(2) al assms(3) by (auto simp: core_units_def word_le_nat_alt)
qed

definition all_free :: "memory_heap \<Rightarrow> block list \<Rightarrow> nat set" where
  "all_free h bs = extents bs \<union> core_free h"

definition free_ok :: "memory_heap \<Rightarrow> block list \<Rightarrow> bool" where
  "free_ok h bs \<longleftrightarrow> heap_ok h bs \<and> core_ok h \<and> extents bs \<inter> core_free h = {}"

text \<open>Allocation, from the free list or from the provider.\<close>

lemma chHeapAllocAligned_moves:
  assumes ok: "free_ok h bs" and v: "0 < sz" "MEM_IS_VALID_ALIGNMENT align" and sane: "sane_size sz h"
  shows "\<exists>r h'. chHeapAllocAligned sz align h = Some (r, h') \<and>
    (case r of
       None \<Rightarrow> h' = h
     | Some p \<Rightarrow> \<exists>bs'. free_ok h' bs' \<and> 0 < p \<and> all_free h' bs' \<union> extent (p - 1, heap_pages sz) \<subseteq> all_free h bs \<and>
         (h_core h' = None \<longleftrightarrow> h_core h = None) \<and> (h_core h = None \<longrightarrow> all_free h' bs' \<union> extent (p - 1, heap_pages sz) = all_free h bs) \<and>
         all_free h' bs' \<inter> extent (p - 1, heap_pages sz) = {} \<and> chHeapGetSize p h' = Some sz \<and>
         h_area h' = h_area h \<and> (\<forall>u. u \<notin> all_free h bs \<longrightarrow> h_mem h' u = h_mem h u))"
proof -
  define align' where "align' = (if align < CH_HEAP_ALIGNMENT then CH_HEAP_ALIGNMENT else align)"
  define al where "al = unat (align' div CH_HEAP_ALIGNMENT)"
  have al: "0 < al" unfolding al_def align'_def by (rule heap_pages_aligned [OF v(2)])
  have v8: "MEM_IS_VALID_ALIGNMENT align'" "8 \<le> align'"
    using v(2) by (auto simp: align'_def CH_HEAP_ALIGNMENT_def MEM_IS_VALID_ALIGNMENT_def)
  note o = ok [unfolded free_ok_def]
  have o1: "heap_ok h bs" using o by blast
  obtain r h' where l: "heap_alloc_loop sz (heap_pages sz) al h None = Some (r, h')" and
    rest: "case r of
       None \<Rightarrow> h' = h \<and> (\<forall>(a, n) \<in> set bs. \<not> heap_fits (heap_pages sz) al a n)
     | Some p \<Rightarrow> \<exists>bs'. heap_ok h' bs' \<and> 0 < p \<and> p mod al = 0 \<and> extents bs = extents bs' \<union> extent (p - 1, heap_pages sz) \<and>
         extents bs' \<inter> extent (p - 1, heap_pages sz) = {} \<and> chHeapGetSize p h' = Some sz \<and> h_core h' = h_core h \<and>
         h_area h' = h_area h \<and> (\<forall>u. u \<notin> extents bs \<longrightarrow> h_mem h' u = h_mem h u)"
    using heap_search_spec [OF o1 al, of sz "heap_pages sz"] by blast
  note body = chHeapAllocAligned_def Let_def align'_def [symmetric] al_def [symmetric]
  show ?thesis
  proof (cases r)
    case (Some p)
    then obtain bs' where b: "heap_ok h' bs'" "0 < p" "extents bs = extents bs' \<union> extent (p - 1, heap_pages sz)"
      "extents bs' \<inter> extent (p - 1, heap_pages sz) = {}" "chHeapGetSize p h' = Some sz" "h_core h' = h_core h"
      "h_area h' = h_area h" "\<forall>u. u \<notin> extents bs \<longrightarrow> h_mem h' u = h_mem h u" using rest by auto
    have c: "core_free h' = core_free h" "core_ok h' = core_ok h" using b(6) by (simp_all add: core_free_def core_ok_def)
    have a: "chHeapAllocAligned sz align h = Some (Some p, h')" using l v Some by (simp add: body)
    have s: "all_free h' bs' \<union> extent (p - 1, heap_pages sz) = all_free h bs" "all_free h' bs' \<inter> extent (p - 1, heap_pages sz) = {}"
      "extents bs' \<inter> core_free h' = {}"
      using b(3,4) o unfolding all_free_def c by blast+
    show ?thesis
      by (rule exI [of _ "Some p"], rule exI [of _ h'], simp only: option.case, intro conjI exI [of _ bs'])
        (use a b s o c in \<open>auto simp: free_ok_def all_free_def\<close>)
  next
    case None
    then have h': "h' = h" using rest by simp
    show ?thesis
    proof (cases "h_core h")
      case n: None
      then have "chHeapAllocAligned sz align h = Some (None, h)" using l v None h' by (simp add: body)
      then show ?thesis by auto
    next
      case (Some c)
      have ck: "basemem c \<le> topmem c" "unat (topmem c) + 8 < 2 ^ 32" "8 * heap_pages sz \<le> unat (topmem c)"
        using o sane Some by (simp_all add: core_ok_def sane_size_def)
      obtain q c' where q: "chCoreAllocFromTop (of_nat (heap_pages sz) * CH_HEAP_ALIGNMENT) align' 8 c = Some (q, c')"
        using v8(1) by (cases "chCoreAllocFromTop (of_nat (heap_pages sz) * CH_HEAP_ALIGNMENT) align' 8 c")
          (auto simp: chCoreAllocFromTop_def chCoreAllocFromTopI_def Let_def split: if_splits)
      show ?thesis
      proof (cases q)
        case qn: None
        then have "c' = c" using q by (auto simp: chCoreAllocFromTop_def chCoreAllocFromTopI_def Let_def split: if_splits)
        moreover have "h\<lparr>h_core := Some c\<rparr> = h" using Some by simp
        ultimately have "chHeapAllocAligned sz align h = Some (None, h)" using l v None h' Some q qn by (simp add: body)
        then show ?thesis by auto
      next
        case (Some p)
        define ap where "ap = unat (p div 8)"
        define h2 where "h2 = set_header (ap - 1) (HUsed sz) (h\<lparr>h_core := Some c'\<rparr>)"
        note u = core_alloc_units [OF q [unfolded Some] ck v8, folded ap_def]
        have cf: "core_free h = core_units c" "core_free h2 = core_units c'"
          using \<open>h_core h = Some c\<close> by (simp_all add: core_free_def h2_def)
        have in_c: "extent (ap - 1, heap_pages sz) \<subseteq> core_free h" using u cf by blast
        then have "ap - 1 \<in> core_free h" by auto
        then have "ap - 1 \<notin> extents bs" using o by blast
        then have "heap_ok h2 bs" using o1 fst_extents [of "ap - 1" bs] by (simp add: h2_def heap_ok_def)
        moreover have "core_ok h2" using u by (simp add: core_ok_def h2_def)
        moreover have "extents bs \<inter> core_free h2 = {}" using o u cf by blast
        ultimately have f2: "free_ok h2 bs" by (simp add: free_ok_def)
        have a: "chHeapAllocAligned sz align h = Some (Some ap, h2)"
          using l v None h' \<open>h_core h = Some c\<close> q Some by (simp add: body h2_def ap_def)
        have s: "all_free h2 bs \<union> extent (ap - 1, heap_pages sz) \<subseteq> all_free h bs" "all_free h2 bs \<inter> extent (ap - 1, heap_pages sz) = {}"
          using u cf o in_c unfolding all_free_def by blast+
        have m: "\<forall>x. x \<notin> all_free h bs \<longrightarrow> h_mem h2 x = h_mem h x"
          using \<open>ap - 1 \<in> core_free h\<close> by (auto simp: h2_def all_free_def)
        have g: "chHeapGetSize ap h2 = Some sz" "h_area h2 = h_area h" by (simp_all add: h2_def chHeapGetSize_def H_USED_SIZE_def)
        show ?thesis
          by (rule exI [of _ "Some ap"], rule exI [of _ h2], simp only: option.case, intro conjI exI [of _ bs])
            (use a f2 s m g u \<open>h_core h = Some c\<close> in \<open>auto simp: h2_def\<close>)
      qed
    qed
  qed
qed

section \<open>Histories\<close>

text \<open>
  What a sequence of allocations and releases does to a heap; \<open>used\<close> are the blocks handed out
  and not yet freed.
\<close>

inductive heap_history :: "memory_heap \<Rightarrow> memory_heap \<Rightarrow> nat set \<Rightarrow> bool" for h0 :: memory_heap where
  Start: "heap_history h0 h0 {}"
| Alloc: "heap_history h0 h used \<Longrightarrow> sane_size sz h \<Longrightarrow> chHeapAllocAligned sz align h = Some (Some p, h') \<Longrightarrow>
    heap_history h0 h' (insert p used)"
| Fail: "heap_history h0 h used \<Longrightarrow> sane_size sz h \<Longrightarrow> chHeapAllocAligned sz align h = Some (None, h') \<Longrightarrow> heap_history h0 h' used"
| Free: "heap_history h0 h used \<Longrightarrow> p \<in> used \<Longrightarrow> chHeapFree p h = Some h' \<Longrightarrow> heap_history h0 h' (used - {p})"

definition owned :: "memory_heap \<Rightarrow> nat \<Rightarrow> nat set" where
  "owned h p = extent (p - 1, heap_pages (the (chHeapGetSize p h)))"

definition heap_inv :: "nat set \<Rightarrow> memory_heap \<Rightarrow> nat set \<Rightarrow> block list \<Rightarrow> bool" where
  "heap_inv U h used bs \<longleftrightarrow> free_ok h bs \<and>
     (\<forall>p \<in> used. 0 < p \<and> (\<exists>sz. chHeapGetSize p h = Some sz) \<and> owned h p \<inter> all_free h bs = {}) \<and>
     (\<forall>p \<in> used. \<forall>q \<in> used. p \<noteq> q \<longrightarrow> owned h p \<inter> owned h q = {}) \<and>
     all_free h bs \<union> (\<Union>p \<in> used. owned h p) \<subseteq> U \<and>
     (h_core h = None \<longrightarrow> all_free h bs \<union> (\<Union>p \<in> used. owned h p) = U)"

lemma heap_invD:
  assumes "heap_inv U h used bs"
  shows "free_ok h bs" "all_free h bs \<union> (\<Union>p \<in> used. owned h p) \<subseteq> U"
    "h_core h = None \<Longrightarrow> all_free h bs \<union> (\<Union>p \<in> used. owned h p) = U"
    "\<And>p. p \<in> used \<Longrightarrow> 0 < p" "\<And>p. p \<in> used \<Longrightarrow> \<exists>sz. chHeapGetSize p h = Some sz"
    "\<And>p. p \<in> used \<Longrightarrow> owned h p \<inter> all_free h bs = {}"
    "\<And>p q. p \<in> used \<Longrightarrow> q \<in> used \<Longrightarrow> p \<noteq> q \<Longrightarrow> owned h p \<inter> owned h q = {}"
  using assms unfolding heap_inv_def by blast+

lemma header_owned: "p - 1 \<in> owned h p"
  by (simp add: owned_def)

lemma owned_frame: "h_mem h' (p - 1) = h_mem h (p - 1) \<Longrightarrow> owned h' p = owned h p \<and> chHeapGetSize p h' = chHeapGetSize p h"
  by (simp add: owned_def chHeapGetSize_def H_USED_SIZE_def)

lemma heap_inv_alloc:
  assumes inv: "heap_inv U h used bs" and sane: "sane_size sz h" and a: "chHeapAllocAligned sz align h = Some (Some p, h')"
  shows "\<exists>bs'. heap_inv U h' (insert p used) bs' \<and> h_area h' = h_area h \<and> (h_core h' = None \<longleftrightarrow> h_core h = None)"
proof -
  note i = heap_invD [OF inv]
  have v: "0 < sz" "MEM_IS_VALID_ALIGNMENT align" using a by (auto simp: chHeapAllocAligned_def split: if_splits)
  obtain bs' where b: "free_ok h' bs'" "0 < p" "all_free h' bs' \<union> extent (p - 1, heap_pages sz) \<subseteq> all_free h bs"
    "all_free h' bs' \<inter> extent (p - 1, heap_pages sz) = {}" "chHeapGetSize p h' = Some sz" "h_area h' = h_area h"
    "\<forall>u. u \<notin> all_free h bs \<longrightarrow> h_mem h' u = h_mem h u" "h_core h' = None \<longleftrightarrow> h_core h = None"
    "h_core h = None \<longrightarrow> all_free h' bs' \<union> extent (p - 1, heap_pages sz) = all_free h bs"
    using chHeapAllocAligned_moves [OF i(1) v sane] a by auto
  have o: "owned h' p = extent (p - 1, heap_pages sz)" using b(5) by (simp add: owned_def)
  have f: "owned h' q = owned h q \<and> chHeapGetSize q h' = chHeapGetSize q h" if "q \<in> used" for q
    using i(6) [OF that] b(7) header_owned [of q h] by (intro owned_frame) blast
  have d: "owned h' q \<inter> owned h' p = {} \<and> owned h' q \<inter> all_free h' bs' = {}" if "q \<in> used" for q
    using i(6) [OF that] b(3) f [OF that] unfolding o by blast
  have us: "(\<Union>q \<in> insert p used. owned h' q) = extent (p - 1, heap_pages sz) \<union> (\<Union>q \<in> used. owned h q)" using f o by auto
  have "heap_inv U h' (insert p used) bs'"
    unfolding heap_inv_def
  proof (intro conjI ballI impI)
    fix q assume "q \<in> insert p used"
    then show "0 < q" "\<exists>sz. chHeapGetSize q h' = Some sz" using b(2,5) f [of q] i(4,5) by auto
    have "owned h' p \<inter> all_free h' bs' = {}" using b(4) unfolding o by (simp only: inf_commute)
    then show "owned h' q \<inter> all_free h' bs' = {}" using d [of q] \<open>q \<in> insert p used\<close> by blast
    fix r assume r: "r \<in> insert p used" "q \<noteq> r"
    have "owned h' q \<inter> owned h' r = {}" if "q \<in> used" "r \<in> used" using i(7) [OF that r(2)] f [OF that(1)] f [OF that(2)] by simp
    then show "owned h' q \<inter> owned h' r = {}" using \<open>q \<in> insert p used\<close> r d [of q] d [of r] by blast
  next
    show "all_free h' bs' \<union> (\<Union>p \<in> insert p used. owned h' p) \<subseteq> U" using i(2) b(3) unfolding us by blast
    assume "h_core h' = None"
    then have "h_core h = None" using b(8) by simp
    then show "all_free h' bs' \<union> (\<Union>p \<in> insert p used. owned h' p) = U"
      using i(3) b(9) unfolding us Un_assoc [symmetric] by simp
  qed (rule b(1))
  with b(6,8) show ?thesis by (intro exI [of _ bs'] conjI)
qed

lemma heap_inv_free:
  assumes inv: "heap_inv U h used bs" and p: "p \<in> used"
  shows "\<exists>h' bs'. chHeapFree p h = Some h' \<and> heap_inv U h' (used - {p}) bs' \<and> h_area h' = h_area h \<and> h_core h' = h_core h"
proof -
  note i = heap_invD [OF inv]
  have ok: "heap_ok h bs" "core_ok h" "extents bs \<inter> core_free h = {}" using i(1) by (simp_all add: free_ok_def)
  obtain sz where sz: "0 < p" "chHeapGetSize p h = Some sz" "owned h p \<inter> all_free h bs = {}"
    using i(4) [OF p] i(5) [OF p] i(6) [OF p] by (elim exE) simp
  have o: "owned h p = extent (p - 1, heap_pages sz)" using sz(2) by (simp add: owned_def)
  have "extent (p - 1, heap_pages sz) \<inter> extents bs = {}" using sz(3) unfolding o all_free_def by blast
  from chHeapFree_spec [OF ok(1) sz(1,2) this, folded o]
  obtain h' bs' where b: "chHeapFree p h = Some h'" "heap_ok h' bs'" "extents bs' = extents bs \<union> owned h p"
    "h_core h' = h_core h" "h_area h' = h_area h" "\<forall>u. u \<notin> insert (p - 1) (extents bs) \<longrightarrow> h_mem h' u = h_mem h u"
    by (elim exE conjE)
  have c: "core_free h' = core_free h" "core_ok h' = core_ok h" using b(4) by (simp_all add: core_free_def core_ok_def)
  have af: "all_free h' bs' = all_free h bs \<union> owned h p" unfolding all_free_def b(3) c by blast
  have fo: "free_ok h' bs'" using b(2) ok sz(3) unfolding free_ok_def b(3) c all_free_def by blast
  have d: "owned h q \<inter> owned h p = {} \<and> owned h q \<inter> all_free h bs = {}" if "q \<in> used" "q \<noteq> p" for q
    using i(6) [OF that(1)] i(7) [OF that(1) p that(2)] by simp
  have f: "owned h' q = owned h q \<and> chHeapGetSize q h' = chHeapGetSize q h" if "q \<in> used" "q \<noteq> p" for q
  proof (rule owned_frame)
    have "q - 1 \<notin> owned h p" "q - 1 \<notin> extents bs" using d [OF that] header_owned [of q h] unfolding all_free_def by blast+
    then show "h_mem h' (q - 1) = h_mem h (q - 1)" using b(6) header_owned [of p h] by (metis insert_iff)
  qed
  have us: "all_free h' bs' \<union> (\<Union>q \<in> used - {p}. owned h' q) = all_free h bs \<union> (\<Union>q \<in> used. owned h q)"
    using f p unfolding af by auto
  have "heap_inv U h' (used - {p}) bs'"
    unfolding heap_inv_def us
  proof (intro conjI ballI impI)
    fix q assume q: "q \<in> used - {p}"
    then show "0 < q" "\<exists>sz. chHeapGetSize q h' = Some sz" using f [of q] i(4,5) by auto
    show "owned h' q \<inter> all_free h' bs' = {}" using f [of q] d [of q] q unfolding af by auto
    fix r assume "r \<in> used - {p}" "q \<noteq> r"
    then show "owned h' q \<inter> owned h' r = {}" using q f [of q] f [of r] i(7) [of q r] by simp
  qed (use fo i(2,3) b(4) in simp_all)
  then show ?thesis using b by blast
qed

lemma heap_history_inv:
  assumes "heap_history h0 h used" and "free_ok h0 bs0"
  shows "\<exists>bs. heap_inv (all_free h0 bs0) h used bs \<and> h_area h = h_area h0 \<and> (h_core h = None \<longleftrightarrow> h_core h0 = None)"
  using assms(1)
proof induction
  case Start
  then show ?case using assms(2) by (auto simp: heap_inv_def)
next
  case (Alloc h used sz align p h')
  obtain bs where bs: "heap_inv (all_free h0 bs0) h used bs" "h_area h = h_area h0" "h_core h = None \<longleftrightarrow> h_core h0 = None"
    using Alloc.IH by (elim exE conjE)
  from heap_inv_alloc [OF bs(1) Alloc.hyps(2,3)] show ?case unfolding bs(2,3) .
next
  case (Fail h used sz align h')
  obtain bs where bs: "heap_inv (all_free h0 bs0) h used bs" "h_area h = h_area h0" "h_core h = None \<longleftrightarrow> h_core h0 = None"
    using Fail.IH by (elim exE conjE)
  have v: "0 < sz" "MEM_IS_VALID_ALIGNMENT align" using Fail.hyps(3) by (auto simp: chHeapAllocAligned_def split: if_splits)
  have "h' = h" using chHeapAllocAligned_moves [OF heap_invD(1) [OF bs(1)] v Fail.hyps(2)] Fail.hyps(3) by auto
  then show ?case using bs by (intro exI [of _ bs]) simp
next
  case (Free h used p h')
  obtain bs where bs: "heap_inv (all_free h0 bs0) h used bs" "h_area h = h_area h0" "h_core h = None \<longleftrightarrow> h_core h0 = None"
    using Free.IH by (elim exE conjE)
  from heap_inv_free [OF bs(1) Free.hyps(2)]
  obtain h2 bs2 where "chHeapFree p h = Some h2" "heap_inv (all_free h0 bs0) h2 (used - {p}) bs2" "h_area h2 = h_area h"
    "h_core h2 = h_core h" by (elim exE conjE)
  then show ?case using Free.hyps(3) bs(2,3) by (intro exI [of _ bs2]) simp
qed

section \<open>The contract of the allocator\<close>

text \<open>What a client may rely on: a block that is handed out is not in use, and a block in use can be freed.\<close>

locale allocator =
  fixes alloc :: "u32 \<Rightarrow> 'h \<Rightarrow> ('p option \<times> 'h) option" and free :: "'p \<Rightarrow> 'h \<Rightarrow> 'h option"
    and request_ok :: "u32 \<Rightarrow> 'h \<Rightarrow> bool" and in_use :: "'h \<Rightarrow> 'p set \<Rightarrow> bool"
  assumes alloc_total: "in_use h used \<Longrightarrow> request_ok sz h \<Longrightarrow> \<exists>r h'. alloc sz h = Some (r, h')"
    and alloc_fresh: "in_use h used \<Longrightarrow> request_ok sz h \<Longrightarrow> alloc sz h = Some (Some p, h') \<Longrightarrow> p \<notin> used \<and> in_use h' (insert p used)"
    and alloc_fails: "in_use h used \<Longrightarrow> request_ok sz h \<Longrightarrow> alloc sz h = Some (None, h') \<Longrightarrow> h' = h"
    and free_used: "in_use h used \<Longrightarrow> p \<in> used \<Longrightarrow> \<exists>h'. free p h = Some h' \<and> in_use h' (used - {p})"
begin

lemma alloc_cases:
  assumes "in_use h used" and "request_ok sz h"
  obtains (block) p h' where "alloc sz h = Some (Some p, h')" "p \<notin> used" "in_use h' (insert p used)"
  | (none) "alloc sz h = Some (None, h)"
proof -
  obtain r h' where a: "alloc sz h = Some (r, h')" using alloc_total [OF assms] by blast
  show ?thesis
    using a alloc_fresh [OF assms] alloc_fails [OF assms] block none by (cases r) blast+
qed

lemma alloc_free:
  assumes "in_use h used" and "request_ok sz h" and "alloc sz h = Some (Some p, h')"
  shows "\<exists>h''. free p h' = Some h'' \<and> in_use h'' used"
  using alloc_fresh [OF assms] free_used [of h' "insert p used" p] by auto

end

definition heap_request_ok :: "u32 \<Rightarrow> memory_heap \<Rightarrow> bool" where
  "heap_request_ok sz h \<longleftrightarrow> 0 < sz \<and> sane_size sz h"

definition heap_in_use :: "memory_heap \<Rightarrow> nat set \<Rightarrow> bool" where
  "heap_in_use h used \<longleftrightarrow> (\<exists>U bs. heap_inv U h used bs)"

lemma heap_alignment_valid: "MEM_IS_VALID_ALIGNMENT CH_HEAP_ALIGNMENT"
  by (simp add: MEM_IS_VALID_ALIGNMENT_def CH_HEAP_ALIGNMENT_def)

interpretation hp: allocator chHeapAlloc chHeapFree heap_request_ok heap_in_use
proof unfold_locales
  fix h used sz
  assume "heap_in_use h used" and r: "heap_request_ok sz h"
  then obtain U bs where inv: "heap_inv U h used bs" by (auto simp: heap_in_use_def)
  have v: "0 < sz" "sane_size sz h" using r by (simp_all add: heap_request_ok_def)
  note moves = chHeapAllocAligned_moves [OF heap_invD(1) [OF inv] v(1) heap_alignment_valid v(2), folded chHeapAlloc_def]
  show "\<exists>r h'. chHeapAlloc sz h = Some (r, h')" using moves by blast
  fix p h'
  show "h' = h" if "chHeapAlloc sz h = Some (None, h')" using moves that by auto
  assume a: "chHeapAlloc sz h = Some (Some p, h')"
  from heap_inv_alloc [OF inv v(2), of CH_HEAP_ALIGNMENT p h'] a
  have "heap_in_use h' (insert p used)" unfolding heap_in_use_def chHeapAlloc_def by blast
  moreover have "p \<notin> used"
  proof
    assume p: "p \<in> used"
    have "p - 1 \<in> all_free h bs" using moves a by auto
    then show False using heap_invD(6) [OF inv p] header_owned [of p h] by blast
  qed
  ultimately show "p \<notin> used \<and> heap_in_use h' (insert p used)" by blast
next
  fix h used p
  assume "heap_in_use h used" "p \<in> used"
  then show "\<exists>h'. chHeapFree p h = Some h' \<and> heap_in_use h' (used - {p})"
    using heap_inv_free unfolding heap_in_use_def by meson
qed

end
