(* ===== verification/Mailbox.thy ===== *)
theory Mailbox
  imports Queues
begin

text \<open>
  The mailboxes of the kernel, \<open>chmboxes.c\<close>: ring buffers of messages between threads, used by
  the binding of lwIP. Pointers into the buffer are indices, \<open>None\<close> is an access outside the
  buffer or a failed debug check. \<open>mb_qw\<close> and \<open>mb_qr\<close> are the threads that wait for a free slot
  and for a message, \<open>mb_woken\<close> those made ready.
\<close>

record 'm mailbox =
  mb_buffer :: "'m list"
  mb_wrptr :: nat
  mb_rdptr :: nat
  mb_cnt :: nat
  mb_reset :: bool
  mb_qw :: "tid list"
  mb_qr :: "tid list"
  mb_woken :: "(tid \<times> msg) list"

definition chMBGetSizeI :: "'m mailbox \<Rightarrow> nat" where "chMBGetSizeI mbp = length (mb_buffer mbp)"
definition chMBGetUsedCountI :: "'m mailbox \<Rightarrow> nat" where "chMBGetUsedCountI mbp = mb_cnt mbp"
definition chMBGetFreeCountI :: "'m mailbox \<Rightarrow> nat" where
  "chMBGetFreeCountI mbp = chMBGetSizeI mbp - chMBGetUsedCountI mbp"
definition chMBPeekI :: "'m mailbox \<Rightarrow> 'm option" where "chMBPeekI mbp = peek (mb_buffer mbp) (mb_rdptr mbp)"
definition chMBResumeX :: "'m mailbox \<Rightarrow> 'm mailbox" where "chMBResumeX mbp = mbp\<lparr>mb_reset := False\<rparr>"

definition wake_reader :: "'m mailbox \<Rightarrow> 'm mailbox" where
  "wake_reader mbp =
     (case mb_qr mbp of [] \<Rightarrow> mbp | t # ts \<Rightarrow> mbp\<lparr>mb_qr := ts, mb_woken := mb_woken mbp @ [(t, MSG_OK)]\<rparr>)"

definition wake_writer :: "'m mailbox \<Rightarrow> 'm mailbox" where
  "wake_writer mbp =
     (case mb_qw mbp of [] \<Rightarrow> mbp | t # ts \<Rightarrow> mbp\<lparr>mb_qw := ts, mb_woken := mb_woken mbp @ [(t, MSG_OK)]\<rparr>)"

definition chMBObjectInit :: "'m list \<Rightarrow> 'm mailbox option" where
  "chMBObjectInit buf =
     (if buf = [] then None
      else Some \<lparr>mb_buffer = buf, mb_wrptr = 0, mb_rdptr = 0, mb_cnt = 0, mb_reset = False,
                 mb_qw = [], mb_qr = [], mb_woken = []\<rparr>)"

definition chMBResetI :: "'m mailbox \<Rightarrow> 'm mailbox" where
  "chMBResetI mbp =
     mbp\<lparr>mb_wrptr := 0, mb_rdptr := 0, mb_cnt := 0, mb_reset := True, mb_qw := [], mb_qr := [],
         mb_woken := mb_woken mbp @ map (\<lambda>t. (t, MSG_RESET)) (mb_qw mbp) @ map (\<lambda>t. (t, MSG_RESET)) (mb_qr mbp)\<rparr>"

definition chMBReset :: "'m mailbox \<Rightarrow> 'm mailbox" where
  "chMBReset mbp = chMBResetI mbp"

definition mb_post :: "'m \<Rightarrow> 'm mailbox \<Rightarrow> 'm mailbox option" where
  "mb_post msg mbp =
     do { buf \<leftarrow> poke (mb_buffer mbp) (mb_wrptr mbp) msg;
          Some (wake_reader (mbp\<lparr>mb_buffer := buf, mb_wrptr := advance (chMBGetSizeI mbp) (mb_wrptr mbp),
                                 mb_cnt := mb_cnt mbp + 1\<rparr>)) }"

definition chMBPostI :: "'m \<Rightarrow> 'm mailbox \<Rightarrow> (msg \<times> 'm mailbox) option" where
  "chMBPostI msg mbp =
     (if mb_reset mbp then Some (MSG_RESET, mbp)
      else if chMBGetFreeCountI mbp > 0 then map_option (Pair MSG_OK) (mb_post msg mbp)
      else Some (MSG_TIMEOUT, mbp))"

definition mb_post_ahead :: "'m \<Rightarrow> 'm mailbox \<Rightarrow> 'm mailbox option" where
  "mb_post_ahead msg mbp =
     do { let rd = retreat (chMBGetSizeI mbp) (mb_rdptr mbp);
          buf \<leftarrow> poke (mb_buffer mbp) rd msg;
          Some (wake_reader (mbp\<lparr>mb_buffer := buf, mb_rdptr := rd, mb_cnt := mb_cnt mbp + 1\<rparr>)) }"

definition chMBPostAheadI :: "'m \<Rightarrow> 'm mailbox \<Rightarrow> (msg \<times> 'm mailbox) option" where
  "chMBPostAheadI msg mbp =
     (if mb_reset mbp then Some (MSG_RESET, mbp)
      else if chMBGetFreeCountI mbp > 0 then map_option (Pair MSG_OK) (mb_post_ahead msg mbp)
      else Some (MSG_TIMEOUT, mbp))"

definition mb_fetch :: "'m mailbox \<Rightarrow> ('m \<times> 'm mailbox) option" where
  "mb_fetch mbp =
     do { msg \<leftarrow> peek (mb_buffer mbp) (mb_rdptr mbp);
          Some (msg, wake_writer (mbp\<lparr>mb_rdptr := advance (chMBGetSizeI mbp) (mb_rdptr mbp), mb_cnt := mb_cnt mbp - 1\<rparr>)) }"

definition chMBFetchI :: "'m mailbox \<Rightarrow> ((msg + 'm) \<times> 'm mailbox) option" where
  "chMBFetchI mbp =
     (if mb_reset mbp then Some (Inl MSG_RESET, mbp)
      else if chMBGetUsedCountI mbp > 0 then map_option (\<lambda>(msg, mbp). (Inr msg, mbp)) (mb_fetch mbp)
      else Some (Inl MSG_TIMEOUT, mbp))"

section \<open>Waiting\<close>

datatype 'm mb_event = MPost 'm | MPostAhead 'm | MFetch | MReset | MResume | MTimeout tid

definition mb_timeout :: "tid \<Rightarrow> 'm mailbox \<Rightarrow> 'm mailbox" where
  "mb_timeout t mbp =
     (if t \<in> set (mb_qr mbp)
      then mbp\<lparr>mb_qr := remove1 t (mb_qr mbp), mb_woken := mb_woken mbp @ [(t, MSG_TIMEOUT)]\<rparr>
      else if t \<in> set (mb_qw mbp)
      then mbp\<lparr>mb_qw := remove1 t (mb_qw mbp), mb_woken := mb_woken mbp @ [(t, MSG_TIMEOUT)]\<rparr>
      else mbp)"

fun mb_do :: "'m mailbox \<Rightarrow> 'm mb_event \<Rightarrow> 'm mailbox option" where
  "mb_do mbp (MPost msg) = map_option snd (chMBPostI msg mbp)"
| "mb_do mbp (MPostAhead msg) = map_option snd (chMBPostAheadI msg mbp)"
| "mb_do mbp MFetch = map_option snd (chMBFetchI mbp)"
| "mb_do mbp MReset = Some (chMBResetI mbp)"
| "mb_do mbp MResume = Some (chMBResumeX mbp)"
| "mb_do mbp (MTimeout t) = Some (mb_timeout t mbp)"

text \<open>
  \<open>chThdEnqueueTimeoutS\<close>: \<open>enq\<close> puts the calling thread in one of the two queues. As for the I/O
  queues, what happens while the thread sleeps is an argument, and \<open>None\<close> means that it still sleeps.
\<close>

definition chThdEnqueueTimeoutS ::
  "('m mailbox \<Rightarrow> 'm mailbox) \<Rightarrow> tid \<Rightarrow> u32 \<Rightarrow> 'm mb_event list list \<Rightarrow> 'm mailbox \<Rightarrow> (msg \<times> 'm mb_event list list \<times> 'm mailbox) option" where
  "chThdEnqueueTimeoutS enq self timeout slices mbp =
     (if timeout = 0 then Some (MSG_TIMEOUT, slices, mbp)
      else case slices of
             [] \<Rightarrow> None
           | sl # slices \<Rightarrow>
               do { mbp \<leftarrow> run_calls mb_do ((enq mbp)\<lparr>mb_woken := []\<rparr>) sl;
                    m \<leftarrow> map_of (mb_woken mbp) self;
                    Some (m, slices, mbp) })"

definition enq_writer :: "tid \<Rightarrow> 'm mailbox \<Rightarrow> 'm mailbox" where
  "enq_writer self mbp = mbp\<lparr>mb_qw := mb_qw mbp @ [self]\<rparr>"

definition enq_reader :: "tid \<Rightarrow> 'm mailbox \<Rightarrow> 'm mailbox" where
  "enq_reader self mbp = mbp\<lparr>mb_qr := mb_qr mbp @ [self]\<rparr>"

lemma mb_sleep_shorter:
  "chThdEnqueueTimeoutS enq self timeout slices mbp = Some (m, slices', mbp') \<Longrightarrow> m \<noteq> MSG_TIMEOUT \<Longrightarrow>
     length slices' < length slices"
  by (auto simp: chThdEnqueueTimeoutS_def split: if_splits list.splits Option.bind_splits)

function chMBPostTimeoutS ::
  "tid \<Rightarrow> u32 \<Rightarrow> 'm mb_event list list \<Rightarrow> 'm \<Rightarrow> 'm mailbox \<Rightarrow> (msg \<times> 'm mb_event list list \<times> 'm mailbox) option" where
  "chMBPostTimeoutS self timeout slices msg mbp =
     (if mb_reset mbp then Some (MSG_RESET, slices, mbp)
      else if chMBGetFreeCountI mbp > 0 then map_option (\<lambda>mbp. (MSG_OK, slices, mbp)) (mb_post msg mbp)
      else case chThdEnqueueTimeoutS (enq_writer self) self timeout slices mbp of
             None \<Rightarrow> None
           | Some (m, slices', mbp') \<Rightarrow>
               if m = MSG_OK then chMBPostTimeoutS self timeout slices' msg mbp' else Some (m, slices', mbp'))"
  by pat_completeness auto
termination
  by (relation "measure (\<lambda>(self, timeout, slices, msg, mbp). length slices)") (auto dest: mb_sleep_shorter)

function chMBPostAheadTimeoutS ::
  "tid \<Rightarrow> u32 \<Rightarrow> 'm mb_event list list \<Rightarrow> 'm \<Rightarrow> 'm mailbox \<Rightarrow> (msg \<times> 'm mb_event list list \<times> 'm mailbox) option" where
  "chMBPostAheadTimeoutS self timeout slices msg mbp =
     (if mb_reset mbp then Some (MSG_RESET, slices, mbp)
      else if chMBGetFreeCountI mbp > 0 then map_option (\<lambda>mbp. (MSG_OK, slices, mbp)) (mb_post_ahead msg mbp)
      else case chThdEnqueueTimeoutS (enq_writer self) self timeout slices mbp of
             None \<Rightarrow> None
           | Some (m, slices', mbp') \<Rightarrow>
               if m = MSG_OK then chMBPostAheadTimeoutS self timeout slices' msg mbp' else Some (m, slices', mbp'))"
  by pat_completeness auto
termination
  by (relation "measure (\<lambda>(self, timeout, slices, msg, mbp). length slices)") (auto dest: mb_sleep_shorter)

function chMBFetchTimeoutS ::
  "tid \<Rightarrow> u32 \<Rightarrow> 'm mb_event list list \<Rightarrow> 'm mailbox \<Rightarrow> ((msg + 'm) \<times> 'm mb_event list list \<times> 'm mailbox) option" where
  "chMBFetchTimeoutS self timeout slices mbp =
     (if mb_reset mbp then Some (Inl MSG_RESET, slices, mbp)
      else if chMBGetUsedCountI mbp > 0
      then map_option (\<lambda>(msg, mbp). (Inr msg, slices, mbp)) (mb_fetch mbp)
      else case chThdEnqueueTimeoutS (enq_reader self) self timeout slices mbp of
             None \<Rightarrow> None
           | Some (m, slices', mbp') \<Rightarrow>
               if m = MSG_OK then chMBFetchTimeoutS self timeout slices' mbp' else Some (Inl m, slices', mbp'))"
  by pat_completeness auto
termination
  by (relation "measure (\<lambda>(self, timeout, slices, mbp). length slices)") (auto dest: mb_sleep_shorter)

declare chMBPostTimeoutS.simps [simp del] chMBPostAheadTimeoutS.simps [simp del] chMBFetchTimeoutS.simps [simp del]

text \<open>The variants for threads only add the system lock.\<close>

definition chMBPostTimeout ::
  "tid \<Rightarrow> u32 \<Rightarrow> 'm mb_event list list \<Rightarrow> 'm \<Rightarrow> 'm mailbox \<Rightarrow> (msg \<times> 'm mb_event list list \<times> 'm mailbox) option" where
  "chMBPostTimeout self timeout slices msg mbp = chMBPostTimeoutS self timeout slices msg mbp"

definition chMBPostAheadTimeout ::
  "tid \<Rightarrow> u32 \<Rightarrow> 'm mb_event list list \<Rightarrow> 'm \<Rightarrow> 'm mailbox \<Rightarrow> (msg \<times> 'm mb_event list list \<times> 'm mailbox) option" where
  "chMBPostAheadTimeout self timeout slices msg mbp = chMBPostAheadTimeoutS self timeout slices msg mbp"

definition chMBFetchTimeout ::
  "tid \<Rightarrow> u32 \<Rightarrow> 'm mb_event list list \<Rightarrow> 'm mailbox \<Rightarrow> ((msg + 'm) \<times> 'm mb_event list list \<times> 'm mailbox) option" where
  "chMBFetchTimeout self timeout slices mbp = chMBFetchTimeoutS self timeout slices mbp"

section \<open>The invariant\<close>

definition mb_ok :: "'m mailbox \<Rightarrow> bool" where
  "mb_ok mbp \<longleftrightarrow> mb_rdptr mbp < chMBGetSizeI mbp \<and> mb_cnt mbp \<le> chMBGetSizeI mbp \<and>
     mb_wrptr mbp = (mb_rdptr mbp + mb_cnt mbp) mod chMBGetSizeI mbp"

definition mb_items :: "'m mailbox \<Rightarrow> 'm list" where
  "mb_items mbp = ring (mb_buffer mbp) (mb_rdptr mbp) (mb_cnt mbp)"

lemma mb_wake [simp]:
  "mb_buffer (wake_reader mbp) = mb_buffer mbp" "mb_rdptr (wake_reader mbp) = mb_rdptr mbp"
  "mb_wrptr (wake_reader mbp) = mb_wrptr mbp" "mb_cnt (wake_reader mbp) = mb_cnt mbp" "mb_reset (wake_reader mbp) = mb_reset mbp"
  "mb_buffer (wake_writer mbp) = mb_buffer mbp" "mb_rdptr (wake_writer mbp) = mb_rdptr mbp"
  "mb_wrptr (wake_writer mbp) = mb_wrptr mbp" "mb_cnt (wake_writer mbp) = mb_cnt mbp" "mb_reset (wake_writer mbp) = mb_reset mbp"
  "mb_buffer (mb_timeout t mbp) = mb_buffer mbp" "mb_rdptr (mb_timeout t mbp) = mb_rdptr mbp"
  "mb_wrptr (mb_timeout t mbp) = mb_wrptr mbp" "mb_cnt (mb_timeout t mbp) = mb_cnt mbp" "mb_reset (mb_timeout t mbp) = mb_reset mbp"
  by (simp_all add: wake_reader_def wake_writer_def mb_timeout_def split: list.splits)

lemmas mb_contents = mb_ok_def mb_items_def chMBGetSizeI_def chMBGetUsedCountI_def chMBGetFreeCountI_def

lemma mb_wr_less: "mb_ok mbp \<Longrightarrow> mb_wrptr mbp < length (mb_buffer mbp)"
  by (auto simp: mb_contents intro: mod_below)

lemma mb_post_room:
  assumes "mb_ok mbp" and "chMBGetFreeCountI mbp > 0"
  shows "\<exists>mbp'. mb_post m mbp = Some mbp' \<and> mb_ok mbp' \<and> mb_items mbp' = mb_items mbp @ [m] \<and>
    chMBGetSizeI mbp' = chMBGetSizeI mbp \<and> mb_reset mbp' = mb_reset mbp"
  using assms mb_wr_less [OF assms(1)] ring_put [of "mb_cnt mbp" "mb_buffer mbp" "mb_rdptr mbp" m]
  by (simp add: mb_post_def poke_def advance_mod mb_contents mod_simps)

lemma mb_post_ahead_room:
  assumes "mb_ok mbp" and "chMBGetFreeCountI mbp > 0"
  shows "\<exists>mbp'. mb_post_ahead m mbp = Some mbp' \<and> mb_ok mbp' \<and> mb_items mbp' = m # mb_items mbp \<and>
    chMBGetSizeI mbp' = chMBGetSizeI mbp \<and> mb_reset mbp' = mb_reset mbp"
proof -
  let ?n = "length (mb_buffer mbp)" let ?p = "retreat ?n (mb_rdptr mbp)"
  have rd: "mb_rdptr mbp < ?n" using assms(1) by (simp add: mb_contents)
  have p: "?p < ?n" "(?p + 1) mod ?n = mb_rdptr mbp" using rd by (rule retreat_less, rule advance_retreat)
  have "(?p + Suc (mb_cnt mbp)) mod ?n = (mb_rdptr mbp + mb_cnt mbp) mod ?n"
    by (metis p(2) add.assoc mod_add_left_eq plus_1_eq_Suc)
  then show ?thesis
    using assms p(1) ring_put_front [of "mb_cnt mbp" "mb_buffer mbp" "mb_rdptr mbp" m] rd
    by (simp add: mb_post_ahead_def poke_def mb_contents Let_def)
qed

lemma mb_fetch_item:
  assumes "mb_ok mbp" and "mb_items mbp = m # ms"
  shows "\<exists>mbp'. mb_fetch mbp = Some (m, mbp') \<and> mb_ok mbp' \<and> mb_items mbp' = ms \<and>
    chMBGetSizeI mbp' = chMBGetSizeI mbp \<and> mb_reset mbp' = mb_reset mbp"
proof -
  have c: "0 < mb_cnt mbp" using arg_cong [OF assms(2), of length] by (simp add: mb_items_def)
  have a: "advance (length (mb_buffer mbp)) (mb_rdptr mbp) = (mb_rdptr mbp + 1) mod length (mb_buffer mbp)"
    using assms(1) by (intro advance_mod) (simp add: mb_contents)
  have "mb_rdptr mbp mod length (mb_buffer mbp) = mb_rdptr mbp" using assms(1) by (simp add: mb_contents)
  then show ?thesis
    using assms c ring_get [OF c, of "mb_buffer mbp" "mb_rdptr mbp"]
      mod_read [of 1 "mb_cnt mbp" "mb_rdptr mbp" "length (mb_buffer mbp)"]
    by (auto simp: mb_fetch_def peek_def a mb_contents intro: mod_below)
qed

lemma mb_used: "chMBGetUsedCountI mbp > 0 \<longleftrightarrow> mb_items mbp \<noteq> []"
  by (simp add: mb_contents flip: length_0_conv)

lemma mb_free: "chMBGetFreeCountI mbp > 0 \<longleftrightarrow> length (mb_items mbp) < chMBGetSizeI mbp"
  by (auto simp: mb_contents)

text \<open>A mailbox that is not in reset state is a bounded queue.\<close>

definition mb_put :: "'m mailbox \<Rightarrow> 'm \<Rightarrow> bool \<times> 'm mailbox" where
  "mb_put mbp msg = (case chMBPostI msg mbp of Some (m, mbp') \<Rightarrow> (m = MSG_OK, mbp') | None \<Rightarrow> (False, mbp))"

definition mb_get :: "'m mailbox \<Rightarrow> 'm option \<times> 'm mailbox" where
  "mb_get mbp = (case chMBFetchI mbp of Some (Inr m, mbp') \<Rightarrow> (Some m, mbp') | Some (Inl m, mbp') \<Rightarrow> (None, mbp') | None \<Rightarrow> (None, mbp))"

definition mb_live :: "'m mailbox \<Rightarrow> bool" where
  "mb_live mbp \<longleftrightarrow> mb_ok mbp \<and> \<not> mb_reset mbp"

interpretation mb: bounded_fifo mb_put mb_get mb_items chMBGetSizeI mb_live
proof unfold_locales
  fix mbp :: "'m mailbox" and m :: 'm
  assume "mb_live mbp" "length (mb_items mbp) < chMBGetSizeI mbp"
  then show "\<exists>q'. mb_put mbp m = (True, q') \<and> mb_live q' \<and> mb_items q' = mb_items mbp @ [m] \<and> chMBGetSizeI q' = chMBGetSizeI mbp"
    using mb_post_room [of mbp m] by (auto simp: mb_put_def chMBPostI_def mb_free mb_live_def)
next
  fix mbp :: "'m mailbox" and m :: 'm
  assume "mb_live mbp" "chMBGetSizeI mbp \<le> length (mb_items mbp)"
  then have "\<not> chMBGetFreeCountI mbp > 0" by (simp add: mb_free)
  then show "mb_put mbp m = (False, mbp)" using \<open>mb_live mbp\<close> by (auto simp: mb_put_def chMBPostI_def mb_live_def)
next
  fix mbp :: "'m mailbox" and m ms
  assume "mb_live mbp" "mb_items mbp = m # ms"
  then show "\<exists>q'. mb_get mbp = (Some m, q') \<and> mb_live q' \<and> mb_items q' = ms \<and> chMBGetSizeI q' = chMBGetSizeI mbp"
    using mb_fetch_item [of mbp m ms] by (auto simp: mb_get_def chMBFetchI_def mb_used mb_live_def)
next
  fix mbp :: "'m mailbox"
  assume "mb_live mbp" "mb_items mbp = []"
  then show "mb_get mbp = (None, mbp)" using mb_used [of mbp] by (auto simp: mb_get_def chMBFetchI_def mb_live_def)
qed

text \<open>No operation leads outside the buffer, in reset state or not.\<close>

lemma mb_do_ok:
  assumes "mb_ok mbp"
  shows "\<exists>mbp'. mb_do mbp ev = Some mbp' \<and> mb_ok mbp' \<and> chMBGetSizeI mbp' = chMBGetSizeI mbp"
proof (cases ev)
  case (MPost m)
  then show ?thesis using assms mb_post_room [OF assms, of m] by (auto simp: chMBPostI_def)
next
  case (MPostAhead m)
  then show ?thesis using assms mb_post_ahead_room [OF assms, of m] by (auto simp: chMBPostAheadI_def)
next
  case MFetch
  then show ?thesis using assms mb_fetch_item [OF assms] mb_used [of mbp]
    by (cases "mb_items mbp") (auto simp: chMBFetchI_def)
next
  case MReset
  then show ?thesis using assms by (auto simp: chMBResetI_def mb_contents)
next
  case MResume
  then show ?thesis using assms by (auto simp: chMBResumeX_def mb_contents)
next
  case (MTimeout t)
  then show ?thesis using assms by (simp add: mb_contents)
qed

lemma mb_slice_ok:
  "mb_ok mbp \<Longrightarrow> \<exists>mbp'. run_calls mb_do mbp sl = Some mbp' \<and> mb_ok mbp' \<and> chMBGetSizeI mbp' = chMBGetSizeI mbp"
proof (induction sl arbitrary: mbp)
  case (Cons ev sl)
  then show ?case using mb_do_ok [OF Cons.prems, of ev] by fastforce
qed simp

text \<open>Reset: everybody is woken with \<open>MSG_RESET\<close>, and nothing is taken or given until the mailbox is resumed.\<close>

lemma mb_reset_closed:
  "mb_reset mbp \<Longrightarrow> chMBPostTimeoutS self tmo slices m mbp = Some (MSG_RESET, slices, mbp) \<and>
     chMBPostAheadTimeoutS self tmo slices m mbp = Some (MSG_RESET, slices, mbp) \<and>
     chMBFetchTimeoutS self tmo slices mbp = Some (Inl MSG_RESET, slices, mbp)"
  by (simp add: chMBPostTimeoutS.simps chMBPostAheadTimeoutS.simps chMBFetchTimeoutS.simps)

lemma mb_resume_live: "mb_ok mbp \<Longrightarrow> mb_live (chMBResumeX (chMBResetI mbp)) \<and> mb_items (chMBResumeX (chMBResetI mbp)) = []"
  by (auto simp: mb_live_def chMBResumeX_def chMBResetI_def mb_contents)

section \<open>Fetching with a timeout\<close>

fun posting :: "'m mb_event \<Rightarrow> bool" where
  "posting (MPost m) = True"
| "posting (MTimeout t) = True"
| "posting ev = False"

fun posted :: "'m mb_event list \<Rightarrow> 'm list" where
  "posted [] = []"
| "posted (MPost m # es) = m # posted es"
| "posted (ev # es) = posted es"

lemma posted_append [simp]: "posted (es @ fs) = posted es @ posted fs"
  by (induction es rule: posted.induct) simp_all

text \<open>\<open>mb_moves ms mbp out mbp'\<close>: \<open>out\<close> was fetched, and some of the messages \<open>ms\<close> were posted, in order.\<close>

definition mb_moves :: "'m list \<Rightarrow> 'm mailbox \<Rightarrow> 'm list \<Rightarrow> 'm mailbox \<Rightarrow> bool" where
  "mb_moves ms mbp out mbp' \<longleftrightarrow>
     mb_live mbp' \<and> (\<exists>acc. subseq acc ms \<and> mb_items mbp @ acc = out @ mb_items mbp')"

lemma mb_moves_refl: "mb_live mbp \<Longrightarrow> mb_moves [] mbp [] mbp"
  by (simp add: mb_moves_def)

lemma mb_moves_trans:
  assumes "mb_moves ms1 a o1 b" and "mb_moves ms2 b o2 c"
  shows "mb_moves (ms1 @ ms2) a (o1 @ o2) c"
proof -
  obtain a1 a2 where "subseq a1 ms1" "mb_items a @ a1 = o1 @ mb_items b" "subseq a2 ms2" "mb_items b @ a2 = o2 @ mb_items c"
    using assms by (auto simp: mb_moves_def)
  then have "subseq (a1 @ a2) (ms1 @ ms2)" "mb_items a @ (a1 @ a2) = (o1 @ o2) @ mb_items c"
    by (simp add: list_emb_append_mono, metis append.assoc)
  then show ?thesis using assms(2) unfolding mb_moves_def by blast
qed

lemma mb_posting_moves:
  assumes "mb_live mbp" and "posting ev"
  shows "\<exists>mbp'. mb_do mbp ev = Some mbp' \<and> mb_moves (posted [ev]) mbp [] mbp'"
proof (cases ev)
  case (MPost m)
  then show ?thesis
    using assms(1) mb_post_room [of mbp m] by (auto simp: chMBPostI_def mb_live_def mb_moves_def)
next
  case (MTimeout t)
  then show ?thesis using assms(1) by (simp add: mb_moves_def mb_live_def mb_contents)
qed (use assms in simp_all)

lemma mb_slice_moves:
  "mb_live mbp \<Longrightarrow> list_all posting sl \<Longrightarrow> \<exists>mbp'. run_calls mb_do mbp sl = Some mbp' \<and> mb_moves (posted sl) mbp [] mbp'"
proof (induction sl arbitrary: mbp)
  case Nil
  then show ?case by (simp add: mb_moves_refl)
next
  case (Cons ev sl)
  obtain m1 where m1: "mb_do mbp ev = Some m1" "mb_moves (posted [ev]) mbp [] m1"
    using mb_posting_moves [of mbp ev] Cons.prems by auto
  then obtain m2 where "run_calls mb_do m1 sl = Some m2" "mb_moves (posted sl) m1 [] m2"
    using Cons.IH [of m1] Cons.prems by (auto simp: mb_moves_def)
  then show ?case using m1 mb_moves_trans [OF m1(2)] posted_append [of "[ev]" sl] by fastforce
qed

lemma mb_sleep_moves:
  assumes "chThdEnqueueTimeoutS (enq_reader self) self timeout slices mbp = Some (m, slices', mbp')" and "mb_live mbp"
    and "list_all (list_all posting) slices"
  shows "\<exists>past. slices = past @ slices' \<and> mb_moves (posted (concat past)) mbp [] mbp'"
proof (cases "timeout = 0")
  case True
  then show ?thesis using assms
    by (intro exI [of _ "[]"]) (auto simp: chThdEnqueueTimeoutS_def mb_moves_refl)
next
  case False
  define m0 where "m0 = (enq_reader self mbp)\<lparr>mb_woken := []\<rparr>"
  obtain sl where sl: "slices = sl # slices'" "run_calls mb_do m0 sl = Some mbp'"
    using assms(1) False by (auto simp: chThdEnqueueTimeoutS_def m0_def split: list.splits Option.bind_splits)
  have "mb_live m0" "mb_items m0 = mb_items mbp" using assms(2) by (simp_all add: m0_def enq_reader_def mb_live_def mb_contents)
  then have "mb_moves (posted sl) mbp [] mbp'" using mb_slice_moves [of m0 sl] sl assms(3) by (auto simp: mb_moves_def)
  then show ?thesis using sl(1) by (intro exI [of _ "[sl]"]) simp
qed

lemma chMBFetchTimeoutS_spec:
  "chMBFetchTimeoutS self timeout slices mbp = Some (r, slices', mbp') \<Longrightarrow> mb_live mbp \<Longrightarrow> list_all (list_all posting) slices \<Longrightarrow>
     \<exists>past. slices = past @ slices' \<and>
       mb_moves (posted (concat past)) mbp (case r of Inl m \<Rightarrow> [] | Inr x \<Rightarrow> [x]) mbp'"
proof (induction self timeout slices mbp rule: chMBFetchTimeoutS.induct)
  case (1 self timeout slices mbp)
  have nr: "\<not> mb_reset mbp" "mb_ok mbp" using "1.prems"(2) by (simp_all add: mb_live_def)
  show ?case
  proof (cases "chMBGetUsedCountI mbp > 0")
    case True
    then obtain x xs where "mb_items mbp = x # xs" using mb_used [of mbp] by (cases "mb_items mbp") auto
    then show ?thesis
      using "1.prems" nr True mb_fetch_item [OF nr(2)] by (subst (asm) chMBFetchTimeoutS.simps) (auto simp: mb_moves_def mb_live_def)
  next
    case False
    obtain m slices1 m1 where s: "chThdEnqueueTimeoutS (enq_reader self) self timeout slices mbp = Some (m, slices1, m1)"
      and rest: "if m = MSG_OK then chMBFetchTimeoutS self timeout slices1 m1 = Some (r, slices', mbp')
         else r = Inl m \<and> slices' = slices1 \<and> mbp' = m1"
      using "1.prems"(1) nr(1) False by (subst (asm) chMBFetchTimeoutS.simps) (auto split: option.splits if_splits)
    obtain d1 where d1: "slices = d1 @ slices1" "mb_moves (posted (concat d1)) mbp [] m1"
      using mb_sleep_moves [OF s "1.prems"(2,3)] by blast
    show ?thesis
    proof (cases "m = MSG_OK")
      case m: True
      obtain d2 where d2: "slices1 = d2 @ slices'"
        "mb_moves (posted (concat d2)) m1 (case r of Inl m \<Rightarrow> [] | Inr b \<Rightarrow> [b]) mbp'"
        using "1.IH" [OF nr(1) False s refl refl m] rest m "1.prems"(3) d1 by (auto simp: mb_moves_def)
      then show ?thesis using d1(1) mb_moves_trans [OF d1(2) d2(2)] by (intro exI [of _ "d1 @ d2"]) simp
    next
      case m: False
      then show ?thesis using rest d1 by auto
    qed
  qed
qed

text \<open>A message in the mailbox is fetched at once; a sleeping reader is woken by the next post, or by a reset.\<close>

lemma chMBFetchTimeoutS_ready:
  assumes "mb_live mbp" and "mb_items mbp = x # xs"
  shows "\<exists>mbp'. chMBFetchTimeoutS self timeout slices mbp = Some (Inr x, slices, mbp') \<and> mb_live mbp' \<and> mb_items mbp' = xs"
  using assms mb_used [of mbp] mb_fetch_item [of mbp x xs]
  by (subst chMBFetchTimeoutS.simps) (auto simp: mb_live_def)

lemma chMBFetchTimeoutS_wakes:
  assumes "mb_live mbp" and "mb_items mbp = []" and "mb_qr mbp = []" and "timeout \<noteq> 0"
  shows "\<exists>mbp'. chMBFetchTimeoutS self timeout ([MPost x] # slices) mbp = Some (Inr x, slices, mbp') \<and>
    mb_live mbp' \<and> mb_items mbp' = []"
proof -
  define m0 where "m0 = (enq_reader self mbp)\<lparr>mb_woken := []\<rparr>"
  have m0: "mb_live m0" "mb_items m0 = []" "mb_qr m0 = [self]" "mb_woken m0 = []"
    using assms(1-3) by (simp_all add: m0_def enq_reader_def mb_live_def mb_contents)
  have fr: "chMBGetFreeCountI m0 > 0" using m0(1,2) unfolding mb_free by (auto simp: mb_live_def mb_contents)
  obtain m1 where m1: "mb_post x m0 = Some m1" "mb_live m1" "mb_items m1 = [x]"
    using mb_post_room [of m0 x] m0 fr by (auto simp: mb_live_def)
  have w: "mb_woken m1 = [(self, MSG_OK)]"
    using m1(1) m0(3,4) by (auto simp: mb_post_def wake_reader_def split: Option.bind_splits)
  have "chThdEnqueueTimeoutS (enq_reader self) self timeout ([MPost x] # slices) mbp = Some (MSG_OK, slices, m1)"
    using assms(4) m1(1) fr m0(1) w by (simp add: chThdEnqueueTimeoutS_def m0_def [symmetric] chMBPostI_def mb_live_def)
  then show ?thesis
    using assms(1,2) mb_used [of mbp] chMBFetchTimeoutS_ready [OF m1(2,3), of self timeout slices]
    by (subst chMBFetchTimeoutS.simps) (auto simp: mb_live_def)
qed

lemma chMBFetchTimeoutS_reset:
  assumes "mb_live mbp" and "mb_items mbp = []" and "timeout \<noteq> 0" and "self \<notin> set (mb_qw mbp)"
  shows "\<exists>mbp'. chMBFetchTimeoutS self timeout ([MReset] # slices) mbp = Some (Inl MSG_RESET, slices, mbp') \<and>
    mb_reset mbp' \<and> mb_items mbp' = []"
proof -
  have "map_of (map (\<lambda>t. (t, MSG_RESET)) (ts @ [self])) self = Some MSG_RESET" for ts
    by (induction ts) simp_all
  note w = this [of "mb_qw mbp @ mb_qr mbp"]
  show ?thesis
    using assms mb_used [of mbp] w
    by (subst chMBFetchTimeoutS.simps)
      (auto simp: chThdEnqueueTimeoutS_def mb_live_def enq_reader_def chMBResetI_def mb_items_def)
qed

section \<open>Posting with a timeout\<close>

text \<open>A full mailbox: the writer sleeps until a message is fetched, and its message goes behind the others.\<close>

lemma chMBPostTimeoutS_ready:
  assumes "mb_live mbp" and "length (mb_items mbp) < chMBGetSizeI mbp"
  shows "\<exists>mbp'. chMBPostTimeoutS self timeout slices x mbp = Some (MSG_OK, slices, mbp') \<and> mb_live mbp' \<and>
    mb_items mbp' = mb_items mbp @ [x] \<and> chMBGetSizeI mbp' = chMBGetSizeI mbp"
proof -
  have fr: "chMBGetFreeCountI mbp > 0" using assms(2) by (simp add: mb_free)
  then show ?thesis
    using assms(1) mb_post_room [OF _ fr, of x] by (subst chMBPostTimeoutS.simps) (auto simp: mb_live_def)
qed

lemma chMBPostTimeoutS_wakes:
  assumes "mb_live mbp" and "mb_items mbp = y # ys" and "length (mb_items mbp) = chMBGetSizeI mbp"
    and "mb_qw mbp = []" and "timeout \<noteq> 0"
  shows "\<exists>mbp'. chMBPostTimeoutS self timeout ([MFetch] # slices) x mbp = Some (MSG_OK, slices, mbp') \<and>
    mb_live mbp' \<and> mb_items mbp' = ys @ [x]"
proof -
  define m0 where "m0 = (enq_writer self mbp)\<lparr>mb_woken := []\<rparr>"
  have m0: "mb_live m0" "mb_items m0 = y # ys" "mb_qw m0 = [self]" "mb_woken m0 = []" "chMBGetSizeI m0 = chMBGetSizeI mbp"
    using assms(1,2,4) by (simp_all add: m0_def enq_writer_def mb_live_def mb_contents)
  obtain m1 where m1: "mb_fetch m0 = Some (y, m1)" "mb_live m1" "mb_items m1 = ys" "chMBGetSizeI m1 = chMBGetSizeI mbp"
    using mb_fetch_item [of m0 y ys] m0 by (auto simp: mb_live_def)
  have w: "mb_woken m1 = [(self, MSG_OK)]"
    using m1(1) m0(3,4) by (auto simp: mb_fetch_def wake_writer_def split: Option.bind_splits)
  have us: "chMBGetUsedCountI m0 > 0" using m0(2) mb_used [of m0] by simp
  have "chThdEnqueueTimeoutS (enq_writer self) self timeout ([MFetch] # slices) mbp = Some (MSG_OK, slices, m1)"
    using assms(5) m1(1) us m0(1) w by (simp add: chThdEnqueueTimeoutS_def m0_def [symmetric] chMBFetchI_def mb_live_def)
  moreover have "length (mb_items m1) < chMBGetSizeI m1" using m1 assms(2,3) by auto
  moreover have "\<not> chMBGetFreeCountI mbp > 0" using assms(3) by (simp add: mb_free)
  ultimately show ?thesis
    using assms(1) chMBPostTimeoutS_ready [OF m1(2), of self timeout slices x] m1(3)
    by (subst chMBPostTimeoutS.simps) (auto simp: mb_live_def)
qed

end
