(* ===== verification/Semaphore.thy ===== *)
theory Semaphore
  imports Queues
begin

text \<open>
  The counting semaphores of the kernel, \<open>chsem.c\<close> and the inline functions of \<open>chsem.h\<close>, with the
  part of \<open>__sch_wakeup\<close> (\<open>chschd.c\<close>) that ends a wait when its timer expires. The counter is a
  signed 32-bit value; a negative counter counts the waiting threads, which are in \<open>sem_queue\<close> in
  order of arrival (\<open>CH_CFG_USE_SEMAPHORES_PRIORITY\<close> is off). \<open>sem_woken\<close> are the threads made
  ready, each with its message. \<open>None\<close> is a failed check or assertion.
\<close>

record semaphore =
  sem_cnt :: s32
  sem_queue :: "tid list"
  sem_woken :: "(tid \<times> msg) list"

definition sem_consistent :: "semaphore \<Rightarrow> bool" where
  "sem_consistent sp \<longleftrightarrow> (0 \<le> sint (sem_cnt sp) \<and> sem_queue sp = []) \<or> (sint (sem_cnt sp) < 0 \<and> sem_queue sp \<noteq> [])"

definition chSemObjectInit :: "s32 \<Rightarrow> semaphore option" where
  "chSemObjectInit n = (if 0 \<le> sint n then Some \<lparr>sem_cnt = n, sem_queue = [], sem_woken = []\<rparr> else None)"

definition chSemObjectDispose :: "semaphore \<Rightarrow> semaphore option" where
  "chSemObjectDispose sp = (if sem_queue sp = [] \<and> 0 \<le> sint (sem_cnt sp) then Some sp else None)"

definition chSemGetCounterI :: "semaphore \<Rightarrow> s32" where "chSemGetCounterI sp = sem_cnt sp"

definition chSemFastWaitI :: "semaphore \<Rightarrow> semaphore" where
  "chSemFastWaitI sp = sp\<lparr>sem_cnt := sem_cnt sp - 1\<rparr>"

definition chSemFastSignalI :: "semaphore \<Rightarrow> semaphore" where
  "chSemFastSignalI sp = sp\<lparr>sem_cnt := sem_cnt sp + 1\<rparr>"

definition sem_ready :: "tid \<Rightarrow> msg \<Rightarrow> semaphore \<Rightarrow> semaphore" where
  "sem_ready t m sp = sp\<lparr>sem_woken := sem_woken sp @ [(t, m)]\<rparr>"

text \<open>The queue is emptied from its end.\<close>

fun sem_release_all :: "tid list \<Rightarrow> msg \<Rightarrow> semaphore \<Rightarrow> semaphore" where
  "sem_release_all [] m sp = sp"
| "sem_release_all (t # ts) m sp = sem_release_all ts m (sem_ready t m (sp\<lparr>sem_queue := butlast (sem_queue sp)\<rparr>))"

definition chSemResetWithMessageI :: "s32 \<Rightarrow> msg \<Rightarrow> semaphore \<Rightarrow> semaphore option" where
  "chSemResetWithMessageI n m sp =
     (if 0 \<le> sint n \<and> sem_consistent sp
      then Some (sem_release_all (rev (sem_queue sp)) m (sp\<lparr>sem_cnt := n\<rparr>)) else None)"

definition chSemResetWithMessage :: "s32 \<Rightarrow> msg \<Rightarrow> semaphore \<Rightarrow> semaphore option" where
  "chSemResetWithMessage n m sp = chSemResetWithMessageI n m sp"

definition chSemReset :: "s32 \<Rightarrow> semaphore \<Rightarrow> semaphore option" where
  "chSemReset n sp = chSemResetWithMessage n MSG_RESET sp"

definition chSemResetI :: "s32 \<Rightarrow> semaphore \<Rightarrow> semaphore option" where
  "chSemResetI n sp = chSemResetWithMessageI n MSG_RESET sp"

text \<open>\<open>if (++sp->cnt <= 0)\<close> the first thread of the queue is made ready.\<close>

definition sem_signal :: "semaphore \<Rightarrow> semaphore option" where
  "sem_signal sp =
     (let sp = chSemFastSignalI sp
      in if sint (sem_cnt sp) \<le> 0
         then case sem_queue sp of [] \<Rightarrow> None | t # ts \<Rightarrow> Some (sem_ready t MSG_OK (sp\<lparr>sem_queue := ts\<rparr>))
         else Some sp)"

definition chSemSignalI :: "semaphore \<Rightarrow> semaphore option" where
  "chSemSignalI sp = (if sem_consistent sp then sem_signal sp else None)"

definition chSemSignal :: "semaphore \<Rightarrow> semaphore option" where
  "chSemSignal sp = (if sem_consistent sp then sem_signal sp else None)"

primrec sem_add :: "nat \<Rightarrow> semaphore \<Rightarrow> semaphore option" where
  "sem_add 0 sp = Some sp"
| "sem_add (Suc n) sp = Option.bind (sem_signal sp) (sem_add n)"

definition chSemAddCounterI :: "s32 \<Rightarrow> semaphore \<Rightarrow> semaphore option" where
  "chSemAddCounterI n sp = (if 0 < sint n \<and> sem_consistent sp then sem_add (nat (sint n)) sp else None)"

text \<open>
  The first half of a wait, up to the point where the thread sleeps: \<open>True\<close> when it goes on at
  once, \<open>False\<close> when it is in the queue.
\<close>

definition sem_wait :: "tid \<Rightarrow> semaphore \<Rightarrow> bool \<times> semaphore" where
  "sem_wait self sp =
     (let sp = chSemFastWaitI sp
      in if sint (sem_cnt sp) < 0 then (False, sp\<lparr>sem_queue := sem_queue sp @ [self]\<rparr>) else (True, sp))"

text \<open>The timer of a thread that waits expires.\<close>

definition sem_timeout :: "tid \<Rightarrow> semaphore \<Rightarrow> semaphore" where
  "sem_timeout t sp =
     (if t \<in> set (sem_queue sp)
      then sem_ready t MSG_TIMEOUT ((chSemFastSignalI sp)\<lparr>sem_queue := remove1 t (sem_queue sp)\<rparr>) else sp)"

section \<open>Waiting\<close>

text \<open>What other threads and interrupt handlers do with the semaphore.\<close>

datatype sem_event = SSignal | SAdd s32 | SWait tid | STimeout tid | SReset s32

fun sem_do :: "semaphore \<Rightarrow> sem_event \<Rightarrow> semaphore option" where
  "sem_do sp SSignal = chSemSignalI sp"
| "sem_do sp (SAdd n) = chSemAddCounterI n sp"
| "sem_do sp (SWait t) =
     (if sem_consistent sp
      then case sem_wait t sp of (True, sp) \<Rightarrow> Some (sem_ready t MSG_OK sp) | (False, sp) \<Rightarrow> Some sp else None)"
| "sem_do sp (STimeout t) = Some (sem_timeout t sp)"
| "sem_do sp (SReset n) = chSemResetI n sp"

text \<open>
  Sleeping in state \<open>CH_STATE_WTSEM\<close>: the next slice is what happens until the thread runs
  again; its message is the one it was made ready with. \<open>None\<close> means that it still sleeps.
\<close>

definition sem_sleep :: "tid \<Rightarrow> sem_event list list \<Rightarrow> semaphore \<Rightarrow> (msg \<times> sem_event list list \<times> semaphore) option" where
  "sem_sleep self slices sp =
     (case slices of
        [] \<Rightarrow> None
      | sl # slices \<Rightarrow>
          do { sp \<leftarrow> run_calls sem_do (sp\<lparr>sem_woken := []\<rparr>) sl;
               m \<leftarrow> map_of (sem_woken sp) self;
               Some (m, slices, sp) })"

definition chSemWaitS :: "tid \<Rightarrow> sem_event list list \<Rightarrow> semaphore \<Rightarrow> (msg \<times> sem_event list list \<times> semaphore) option" where
  "chSemWaitS self slices sp =
     (if \<not> sem_consistent sp then None
      else case sem_wait self sp of
             (True, sp) \<Rightarrow> Some (MSG_OK, slices, sp)
           | (False, sp) \<Rightarrow> sem_sleep self slices sp)"

definition chSemWait :: "tid \<Rightarrow> sem_event list list \<Rightarrow> semaphore \<Rightarrow> (msg \<times> sem_event list list \<times> semaphore) option" where
  "chSemWait self slices sp = chSemWaitS self slices sp"

definition chSemWaitTimeoutS ::
  "tid \<Rightarrow> u32 \<Rightarrow> sem_event list list \<Rightarrow> semaphore \<Rightarrow> (msg \<times> sem_event list list \<times> semaphore) option" where
  "chSemWaitTimeoutS self timeout slices sp =
     (if \<not> sem_consistent sp then None
      else let sp = chSemFastWaitI sp
           in if sint (sem_cnt sp) < 0
              then if timeout = 0 then Some (MSG_TIMEOUT, slices, chSemFastSignalI sp)
                   else sem_sleep self slices (sp\<lparr>sem_queue := sem_queue sp @ [self]\<rparr>)
              else Some (MSG_OK, slices, sp))"

definition chSemWaitTimeout ::
  "tid \<Rightarrow> u32 \<Rightarrow> sem_event list list \<Rightarrow> semaphore \<Rightarrow> (msg \<times> sem_event list list \<times> semaphore) option" where
  "chSemWaitTimeout self timeout slices sp = chSemWaitTimeoutS self timeout slices sp"

text \<open>\<open>chSemSignalWait\<close> on two different semaphores; the slices are what happens to the second one.\<close>

definition chSemSignalWait ::
  "tid \<Rightarrow> sem_event list list \<Rightarrow> semaphore \<Rightarrow> semaphore \<Rightarrow> (msg \<times> sem_event list list \<times> semaphore \<times> semaphore) option" where
  "chSemSignalWait self slices sps spw =
     (if \<not> (sem_consistent sps \<and> sem_consistent spw) then None
      else do { sps \<leftarrow> sem_signal sps;
                case sem_wait self spw of
                  (True, spw) \<Rightarrow> Some (MSG_OK, slices, sps, spw)
                | (False, spw) \<Rightarrow> map_option (\<lambda>(m, slices, spw). (m, slices, sps, spw)) (sem_sleep self slices spw) })"

section \<open>The invariant\<close>

text \<open>A negative counter is the number of waiting threads.\<close>

definition sem_ok :: "semaphore \<Rightarrow> bool" where
  "sem_ok sp \<longleftrightarrow> distinct (sem_queue sp) \<and>
     (if sint (sem_cnt sp) < 0 then int (length (sem_queue sp)) = - sint (sem_cnt sp) else sem_queue sp = [])"

definition sem_tokens :: "semaphore \<Rightarrow> nat" where
  "sem_tokens sp = nat (sint (sem_cnt sp))"

lemma sem_ok_consistent: "sem_ok sp \<Longrightarrow> sem_consistent sp"
  by (auto simp: sem_ok_def sem_consistent_def split: if_splits)

lemma sem_tokens_queue: "sem_ok sp \<Longrightarrow> 0 < sem_tokens sp \<Longrightarrow> sem_queue sp = []"
  by (auto simp: sem_ok_def sem_tokens_def)

lemma sint_inc: "sint (w :: s32) < 2147483647 \<Longrightarrow> sint (w + 1) = sint w + 1"
proof -
  assume "sint w < 2147483647"
  moreover have "w + 1 = word_of_int (sint w + 1)" by simp
  ultimately show ?thesis using sint32_range [of w] by (simp only: sint32_id)
qed

lemma sint_dec: "- 2147483648 < sint (w :: s32) \<Longrightarrow> sint (w - 1) = sint w - 1"
proof -
  assume "- 2147483648 < sint w"
  moreover have "w - 1 = word_of_int (sint w - 1)" by simp
  ultimately show ?thesis using sint32_range [of w] by (simp only: sint32_id)
qed

lemma sem_ready_fields [simp]:
  "sem_cnt (sem_ready t m sp) = sem_cnt sp" "sem_queue (sem_ready t m sp) = sem_queue sp"
  "sem_woken (sem_ready t m sp) = sem_woken sp @ [(t, m)]"
  by (simp_all add: sem_ready_def)

text \<open>A signal gives its token to the thread that waits longest, or keeps it.\<close>

lemma sem_signal_wakes:
  assumes "sem_ok sp" and "sem_queue sp = t # ts"
  shows "\<exists>sp'. sem_signal sp = Some sp' \<and> sem_ok sp' \<and> sem_queue sp' = ts \<and> sem_tokens sp' = 0 \<and> sem_tokens sp = 0 \<and>
    sem_woken sp' = sem_woken sp @ [(t, MSG_OK)]"
proof -
  have neg: "sint (sem_cnt sp) = - int (length (t # ts))" using assms by (auto simp: sem_ok_def split: if_splits)
  then have inc: "sint (sem_cnt sp + 1) = - int (length ts)" by (simp add: sint_inc)
  then show ?thesis
    using assms neg by (auto simp: sem_signal_def chSemFastSignalI_def Let_def sem_ok_def sem_tokens_def)
qed

lemma sem_signal_keeps:
  assumes "sem_ok sp" and "sem_queue sp = []" and "sem_tokens sp < 2147483647"
  shows "\<exists>sp'. sem_signal sp = Some sp' \<and> sem_ok sp' \<and> sem_queue sp' = [] \<and> sem_tokens sp' = Suc (sem_tokens sp) \<and>
    sem_woken sp' = sem_woken sp"
proof -
  have c: "0 \<le> sint (sem_cnt sp)" using assms(1,2) by (auto simp: sem_ok_def split: if_splits)
  then have "sint (sem_cnt sp + 1) = sint (sem_cnt sp) + 1" using assms(3) by (simp add: sint_inc sem_tokens_def)
  then show ?thesis using assms c by (auto simp: sem_signal_def chSemFastSignalI_def Let_def sem_ok_def sem_tokens_def)
qed

lemma sem_wait_token:
  assumes "sem_ok sp" and "0 < sem_tokens sp"
  shows "\<exists>sp'. sem_wait t sp = (True, sp') \<and> sem_ok sp' \<and> sem_queue sp' = [] \<and> Suc (sem_tokens sp') = sem_tokens sp \<and>
    sem_woken sp' = sem_woken sp"
proof -
  have "0 < sint (sem_cnt sp)" using assms(2) by (simp add: sem_tokens_def)
  moreover from this have "sint (sem_cnt sp - 1) = sint (sem_cnt sp) - 1" by (simp add: sint_dec)
  ultimately show ?thesis using assms(1) by (auto simp: sem_wait_def chSemFastWaitI_def Let_def sem_ok_def sem_tokens_def)
qed

lemma sem_wait_queues:
  assumes "sem_ok sp" and "sem_tokens sp = 0" and "t \<notin> set (sem_queue sp)" and "length (sem_queue sp) < 2147483648"
  shows "\<exists>sp'. sem_wait t sp = (False, sp') \<and> sem_ok sp' \<and> sem_queue sp' = sem_queue sp @ [t] \<and> sem_tokens sp' = 0 \<and>
    sem_woken sp' = sem_woken sp"
proof -
  have c: "sint (sem_cnt sp) = - int (length (sem_queue sp))" using assms(1,2) by (auto simp: sem_ok_def sem_tokens_def split: if_splits)
  then have "sint (sem_cnt sp - 1) = sint (sem_cnt sp) - 1" using assms(4) by (simp add: sint_dec)
  then show ?thesis
    using assms c by (auto simp: sem_wait_def chSemFastWaitI_def Let_def sem_ok_def sem_tokens_def)
qed

lemma sem_timeout_leaves:
  assumes "sem_ok sp" and "t \<in> set (sem_queue sp)"
  shows "sem_ok (sem_timeout t sp) \<and> sem_queue (sem_timeout t sp) = remove1 t (sem_queue sp) \<and> sem_tokens (sem_timeout t sp) = 0 \<and>
    sem_tokens sp = 0 \<and> sem_woken (sem_timeout t sp) = sem_woken sp @ [(t, MSG_TIMEOUT)]"
proof -
  let ?q = "sem_queue sp"
  have neg: "sint (sem_cnt sp) = - int (length ?q)" "?q \<noteq> []"
    using assms by (auto simp: sem_ok_def split: if_splits)
  have l: "length ?q = Suc (length (remove1 t ?q))" using assms(2) neg(2) by (simp add: length_remove1)
  have c: "sint (sem_cnt sp + 1) = - int (length (remove1 t ?q))" using neg(1) l by (simp add: sint_inc)
  have e: "sem_timeout t sp = sp\<lparr>sem_cnt := sem_cnt sp + 1, sem_queue := remove1 t ?q, sem_woken := sem_woken sp @ [(t, MSG_TIMEOUT)]\<rparr>"
    using assms(2) by (simp add: sem_timeout_def chSemFastSignalI_def sem_ready_def)
  have "distinct (remove1 t ?q)" using assms(1) by (simp add: sem_ok_def)
  then have "sem_ok (sem_timeout t sp)" unfolding e sem_ok_def using c by simp
  then show ?thesis using c neg(1) unfolding e sem_tokens_def by simp
qed

lemma sem_release_all_effect:
  "sem_release_all ts m sp =
     sp\<lparr>sem_queue := take (length (sem_queue sp) - length ts) (sem_queue sp), sem_woken := sem_woken sp @ map (\<lambda>t. (t, m)) ts\<rparr>"
  by (induction ts m sp rule: sem_release_all.induct) (auto simp: sem_ready_def butlast_conv_take min_def)

text \<open>A reset wakes everybody with its message and leaves the given number of tokens.\<close>

lemma chSemResetWithMessageI_effect:
  assumes "sem_ok sp" and "0 \<le> sint n"
  shows "\<exists>sp'. chSemResetWithMessageI n m sp = Some sp' \<and> sem_ok sp' \<and> sem_queue sp' = [] \<and> sem_tokens sp' = nat (sint n) \<and>
    sem_woken sp' = sem_woken sp @ map (\<lambda>t. (t, m)) (rev (sem_queue sp))"
  using assms sem_ok_consistent [OF assms(1)]
  by (simp add: chSemResetWithMessageI_def sem_release_all_effect sem_ok_def sem_tokens_def)

section \<open>Histories\<close>

text \<open>The threads that passed the semaphore, in order.\<close>

definition sem_granted :: "(tid \<times> msg) list \<Rightarrow> tid list" where
  "sem_granted w = map fst (filter (\<lambda>(t, m). m = MSG_OK) w)"

text \<open>
  What can happen to a semaphore created with \<open>n\<close> tokens: \<open>ws\<close> are the threads that began to
  wait, in order, \<open>k\<close> is the number of tokens added. A thread that waits does nothing else.
\<close>

inductive sem_history :: "s32 \<Rightarrow> semaphore \<Rightarrow> tid list \<Rightarrow> nat \<Rightarrow> bool" for n :: s32 where
  Init: "chSemObjectInit n = Some sp \<Longrightarrow> sem_history n sp [] 0"
| Signal: "sem_history n sp ws k \<Longrightarrow> sem_do sp SSignal = Some sp' \<Longrightarrow> sem_history n sp' ws (Suc k)"
| Add: "sem_history n sp ws k \<Longrightarrow> sem_do sp (SAdd m) = Some sp' \<Longrightarrow> sem_history n sp' ws (k + nat (sint m))"
| Wait: "sem_history n sp ws k \<Longrightarrow> t \<notin> set (sem_queue sp) \<Longrightarrow> sem_do sp (SWait t) = Some sp' \<Longrightarrow> sem_history n sp' (ws @ [t]) k"
| Timeout: "sem_history n sp ws k \<Longrightarrow> sem_do sp (STimeout t) = Some sp' \<Longrightarrow> sem_history n sp' ws k"

definition sem_accounts :: "s32 \<Rightarrow> semaphore \<Rightarrow> tid list \<Rightarrow> nat \<Rightarrow> bool" where
  "sem_accounts n sp ws k \<longleftrightarrow> sem_ok sp \<and> length (sem_granted (sem_woken sp)) + sem_tokens sp = nat (sint n) + k \<and>
     subseq (sem_granted (sem_woken sp) @ sem_queue sp) ws"

lemma sem_granted_simps [simp]:
  "sem_granted [] = []" "sem_granted (w @ [(t, m)]) = sem_granted w @ (if m = MSG_OK then [t] else [])"
  by (simp_all add: sem_granted_def)

lemma sem_accounts_signal:
  assumes a: "sem_accounts n sp ws k" and "nat (sint n) + Suc k < 2147483648"
  shows "\<exists>sp'. sem_signal sp = Some sp' \<and> sem_accounts n sp' ws (Suc k)"
proof (cases "sem_queue sp")
  case Nil
  then show ?thesis using assms sem_signal_keeps [of sp] by (auto simp: sem_accounts_def)
next
  case (Cons t ts)
  then show ?thesis using assms sem_signal_wakes [of sp t ts] by (auto simp: sem_accounts_def)
qed

lemma sem_accounts_add:
  "sem_accounts n sp ws k \<Longrightarrow> nat (sint n) + k + j < 2147483648 \<Longrightarrow>
     \<exists>sp'. sem_add j sp = Some sp' \<and> sem_accounts n sp' ws (k + j)"
proof (induction j arbitrary: sp k)
  case (Suc j)
  obtain sp1 where "sem_signal sp = Some sp1" "sem_accounts n sp1 ws (Suc k)" using sem_accounts_signal [OF Suc.prems(1)] Suc.prems(2) by auto
  then show ?case using Suc.IH [of sp1 "Suc k"] Suc.prems(2) by auto
qed simp

lemma sem_accounts_wait:
  assumes a: "sem_accounts n sp ws k" and t: "t \<notin> set (sem_queue sp)" and "length ws < 2147483648"
  shows "\<exists>sp'. sem_do sp (SWait t) = Some sp' \<and> sem_accounts n sp' (ws @ [t]) k"
proof (cases "sem_tokens sp = 0")
  case True
  have "length (sem_queue sp) \<le> length ws" using a list_emb_length by (fastforce simp: sem_accounts_def)
  then show ?thesis
    using True assms sem_wait_queues [of sp t] sem_ok_consistent [of sp]
    by (auto simp: sem_accounts_def intro!: list_emb_append_mono simp flip: append_assoc)
next
  case False
  then obtain sp1 where sp1: "sem_wait t sp = (True, sp1)" "sem_ok sp1" "sem_queue sp1 = []" "Suc (sem_tokens sp1) = sem_tokens sp"
    "sem_woken sp1 = sem_woken sp" using sem_wait_token [of sp t] a by (auto simp: sem_accounts_def)
  have "sem_queue sp = []" using False a sem_tokens_queue by (auto simp: sem_accounts_def)
  moreover have "sem_ok (sem_ready t MSG_OK sp1)" "sem_tokens (sem_ready t MSG_OK sp1) = sem_tokens sp1"
    using sp1(2) by (simp_all add: sem_ok_def sem_tokens_def)
  moreover have "sem_granted (sem_woken (sem_ready t MSG_OK sp1)) = sem_granted (sem_woken sp) @ [t]" using sp1(5) by simp
  ultimately show ?thesis
    using sp1 a sem_ok_consistent [of sp] by (auto simp: sem_accounts_def intro!: list_emb_append_mono)
qed

lemma subseq_remove1: "subseq (remove1 x xs) xs"
  by (induction xs) auto

lemma sem_accounts_timeout:
  assumes "sem_accounts n sp ws k"
  shows "sem_accounts n (sem_timeout t sp) ws k"
proof (cases "t \<in> set (sem_queue sp)")
  case True
  have "subseq (sem_granted (sem_woken sp) @ remove1 t (sem_queue sp)) (sem_granted (sem_woken sp) @ sem_queue sp)"
    by (intro list_emb_append_mono subseq_order.order_refl subseq_remove1)
  then show ?thesis
    using assms True sem_timeout_leaves [of sp t] by (auto simp: sem_accounts_def intro: subseq_order.order_trans)
next
  case False
  then show ?thesis using assms by (simp add: sem_timeout_def)
qed

lemma sem_history_accounts:
  assumes "sem_history n sp ws k" and "nat (sint n) + k < 2147483648" and "length ws \<le> 2147483648"
  shows "sem_accounts n sp ws k"
  using assms
proof induction
  case (Init sp)
  then show ?case by (auto simp: chSemObjectInit_def sem_accounts_def sem_ok_def sem_tokens_def sem_granted_def split: if_splits)
next
  case (Signal sp ws k sp')
  then show ?case using sem_accounts_signal [of n sp ws k] by (auto simp: chSemSignalI_def split: if_splits)
next
  case (Add sp ws k m sp')
  then show ?case using sem_accounts_add [of n sp ws k "nat (sint m)"] by (auto simp: chSemAddCounterI_def split: if_splits)
next
  case (Wait sp ws k t sp')
  then show ?case using sem_accounts_wait [of n sp ws k t] by auto
next
  case (Timeout sp ws k t sp')
  then show ?case using sem_accounts_timeout [of n sp ws k t] by auto
qed

section \<open>Waiting comes to an end\<close>

text \<open>The thread at place \<open>i\<close> of the queue is woken by the \<open>i + 1\<close>st signal.\<close>

lemma sem_signals_wake:
  "sem_ok sp \<Longrightarrow> i < length (sem_queue sp) \<Longrightarrow> sem_woken sp = w \<Longrightarrow>
     \<exists>sp'. run_calls sem_do sp (replicate (Suc i) SSignal) = Some sp' \<and> sem_ok sp' \<and> sem_queue sp' = drop (Suc i) (sem_queue sp) \<and>
       sem_woken sp' = w @ map (\<lambda>t. (t, MSG_OK)) (take (Suc i) (sem_queue sp))"
proof (induction i arbitrary: sp w)
  case 0
  then obtain t ts where q: "sem_queue sp = t # ts" by (cases "sem_queue sp") auto
  then show ?case using sem_signal_wakes [OF 0(1) q] sem_ok_consistent [OF 0(1)] 0 by (auto simp: chSemSignalI_def)
next
  case (Suc i)
  then obtain t ts where q: "sem_queue sp = t # ts" by (cases "sem_queue sp") auto
  obtain sp1 where sp1: "sem_signal sp = Some sp1" "sem_ok sp1" "sem_queue sp1 = ts" "sem_woken sp1 = w @ [(t, MSG_OK)]"
    using sem_signal_wakes [OF Suc.prems(1) q] Suc.prems(3) by auto
  then show ?case
    using Suc.IH [OF sp1(2), of "w @ [(t, MSG_OK)]"] Suc.prems sem_ok_consistent [OF Suc.prems(1)] q
    by (auto simp: chSemSignalI_def)
qed

lemma chSemWaitTimeoutS_served:
  assumes "sem_ok sp" and "sem_tokens sp = 0" and "self \<notin> set (sem_queue sp)" and "length (sem_queue sp) < 2147483648"
    and "timeout \<noteq> 0"
  shows "\<exists>sp'. chSemWaitTimeoutS self timeout (replicate (Suc (length (sem_queue sp))) SSignal # slices) sp = Some (MSG_OK, slices, sp') \<and>
    sem_ok sp' \<and> sem_queue sp' = []"
proof -
  obtain sp1 where sp1: "sem_wait self sp = (False, sp1)" "sem_ok sp1" "sem_queue sp1 = sem_queue sp @ [self]"
    using sem_wait_queues [OF assms(1-4)] by auto
  let ?sp = "sp1\<lparr>sem_woken := []\<rparr>"
  have "sem_ok ?sp" using sp1(2) by (simp add: sem_ok_def)
  from sem_signals_wake [OF this, of "length (sem_queue sp)" "[]"]
  obtain sp' where sp': "run_calls sem_do ?sp (replicate (Suc (length (sem_queue sp))) SSignal) = Some sp'" "sem_ok sp'"
    "sem_queue sp' = []" "sem_woken sp' = map (\<lambda>t. (t, MSG_OK)) (sem_queue sp @ [self])" using sp1(3) by auto
  have "map_of (sem_woken sp') self = Some MSG_OK" unfolding sp'(4) by (auto simp: map_of_map_restrict restrict_map_def map_add_def)
  then have "sem_sleep self (replicate (Suc (length (sem_queue sp))) SSignal # slices) sp1 = Some (MSG_OK, slices, sp')"
    using sp'(1) by (simp add: sem_sleep_def)
  then show ?thesis
    using sp1(1) sp' assms(5) sem_ok_consistent [OF assms(1)]
    by (auto simp: chSemWaitTimeoutS_def sem_wait_def Let_def split: if_splits)
qed

lemma chSemWaitTimeoutS_immediate:
  assumes "sem_ok sp" and "length (sem_queue sp) < 2147483648"
  shows "chSemWaitTimeoutS self 0 slices sp =
    (if sem_tokens sp = 0 then Some (MSG_TIMEOUT, slices, sp) else Some (MSG_OK, slices, chSemFastWaitI sp))"
proof -
  have "- 2147483648 < sint (sem_cnt sp)" using assms by (auto simp: sem_ok_def split: if_splits)
  then show ?thesis
    using sem_ok_consistent [OF assms(1)]
    by (auto simp: chSemWaitTimeoutS_def Let_def chSemFastWaitI_def chSemFastSignalI_def sint_dec sem_tokens_def)
qed

end
