(* ===== verification/Sys_Arch.thy ===== *)
theory Sys_Arch
  imports Memheap Mailbox Semaphore
begin

text \<open>
  The layer between lwIP and the kernel, \<open>sys_arch.c\<close>: semaphores and mailboxes that live in blocks
  of the default heap. A handle of lwIP is the address of the block, \<open>None\<close> when it is invalid
  (\<open>SYS_SEM_NULL\<close>, \<open>SYS_MBOX_NULL\<close>). \<open>os_sem\<close> and \<open>os_mbox\<close> are the objects in the blocks; using a
  handle with no object behind it is \<open>None\<close>. The counters of \<open>lwip_stats\<close> have 16 bits.
\<close>

record stats_syselem =
  st_used :: u16
  st_max :: u16
  st_err :: u16

record 'm lwip_os =
  os_heap :: memory_heap
  os_sem :: "nat \<rightharpoonup> semaphore"
  os_mbox :: "nat \<rightharpoonup> 'm mailbox"
  os_sem_stats :: stats_syselem
  os_mbox_stats :: stats_syselem

datatype err_t = ERR_OK | ERR_MEM

type_synonym sys_handle = "nat option"

definition SYS_ARCH_TIMEOUT :: u32 where "SYS_ARCH_TIMEOUT = 0xFFFFFFFF"
definition SYS_MBOX_EMPTY :: u32 where "SYS_MBOX_EMPTY = SYS_ARCH_TIMEOUT"

text \<open>Sizes of the structures on the target, with pointers, counters and the padded flag of four bytes each.\<close>

definition sizeof_semaphore :: u32 where "sizeof_semaphore = 12"
definition sizeof_mailbox :: u32 where "sizeof_mailbox = 40"
definition sizeof_msg :: u32 where "sizeof_msg = 4"

definition STATS_INC_err :: "stats_syselem \<Rightarrow> stats_syselem" where "STATS_INC_err s = s\<lparr>st_err := st_err s + 1\<rparr>"
definition STATS_INC_used :: "stats_syselem \<Rightarrow> stats_syselem" where "STATS_INC_used s = s\<lparr>st_used := st_used s + 1\<rparr>"
definition STATS_DEC_used :: "stats_syselem \<Rightarrow> stats_syselem" where "STATS_DEC_used s = s\<lparr>st_used := st_used s - 1\<rparr>"

definition STATS_INC_USED :: "stats_syselem \<Rightarrow> stats_syselem" where
  "STATS_INC_USED s = (let s = STATS_INC_used s in if st_max s < st_used s then s\<lparr>st_max := st_used s\<rparr> else s)"

section \<open>Semaphores\<close>

definition sys_sem_new :: "u8 \<Rightarrow> 'm lwip_os \<Rightarrow> (err_t \<times> sys_handle \<times> 'm lwip_os) option" where
  "sys_sem_new count os =
     do { (p, heap) \<leftarrow> chHeapAlloc sizeof_semaphore (os_heap os);
          let os = os\<lparr>os_heap := heap\<rparr>;
          case p of
            None \<Rightarrow> Some (ERR_MEM, None, os\<lparr>os_sem_stats := STATS_INC_err (os_sem_stats os)\<rparr>)
          | Some a \<Rightarrow>
              do { sp \<leftarrow> chSemObjectInit (ucast count);
                   Some (ERR_OK, Some a, os\<lparr>os_sem := (os_sem os)(a \<mapsto> sp), os_sem_stats := STATS_INC_USED (os_sem_stats os)\<rparr>) } }"

definition sys_sem_free :: "sys_handle \<Rightarrow> 'm lwip_os \<Rightarrow> (sys_handle \<times> 'm lwip_os) option" where
  "sys_sem_free sem os =
     do { a \<leftarrow> sem;
          heap \<leftarrow> chHeapFree a (os_heap os);
          Some (None, os\<lparr>os_heap := heap, os_sem := (os_sem os)(a := None), os_sem_stats := STATS_DEC_used (os_sem_stats os)\<rparr>) }"

definition sys_sem_signal :: "sys_handle \<Rightarrow> 'm lwip_os \<Rightarrow> 'm lwip_os option" where
  "sys_sem_signal sem os =
     do { a \<leftarrow> sem; sp \<leftarrow> os_sem os a; sp \<leftarrow> chSemSignal sp; Some (os\<lparr>os_sem := (os_sem os)(a \<mapsto> sp)\<rparr>) }"

definition sys_sem_signal_S :: "sys_handle \<Rightarrow> 'm lwip_os \<Rightarrow> 'm lwip_os option" where
  "sys_sem_signal_S sem os =
     do { a \<leftarrow> sem; sp \<leftarrow> os_sem os a; sp \<leftarrow> chSemSignalI sp; Some (os\<lparr>os_sem := (os_sem os)(a \<mapsto> sp)\<rparr>) }"

text \<open>The time limit of a wait; zero stands for no limit.\<close>

definition sys_timeout_ticks :: "u32 \<Rightarrow> u32" where
  "sys_timeout_ticks timeout = (if timeout > 0 then TIME_MS2I timeout else TIME_INFINITE)"

text \<open>\<open>start\<close> and \<open>stop\<close> are the system time at the call and when the thread runs again.\<close>

definition sys_arch_sem_wait ::
  "tid \<Rightarrow> systime \<Rightarrow> systime \<Rightarrow> sem_event list list \<Rightarrow> sys_handle \<Rightarrow> u32 \<Rightarrow> 'm lwip_os \<Rightarrow> (u32 \<times> sem_event list list \<times> 'm lwip_os) option" where
  "sys_arch_sem_wait self start stop slices sem timeout os =
     do { a \<leftarrow> sem;
          sp \<leftarrow> os_sem os a;
          (m, slices, sp) \<leftarrow> chSemWaitTimeoutS self (sys_timeout_ticks timeout) slices sp;
          let os = os\<lparr>os_sem := (os_sem os)(a \<mapsto> sp)\<rparr>;
          Some (if m \<noteq> MSG_OK then SYS_ARCH_TIMEOUT else TIME_I2MS (chTimeDiffX start stop), slices, os) }"

definition sys_sem_valid :: "sys_handle \<Rightarrow> bool" where "sys_sem_valid sem \<longleftrightarrow> sem \<noteq> None"
definition sys_sem_set_invalid :: "sys_handle \<Rightarrow> sys_handle" where "sys_sem_set_invalid sem = None"

section \<open>Mailboxes\<close>

text \<open>\<open>mem\<close> is what the memory of the new block holds before it is used as buffer.\<close>

definition sys_mbox_new :: "(nat \<Rightarrow> 'm) \<Rightarrow> s32 \<Rightarrow> 'm lwip_os \<Rightarrow> (err_t \<times> sys_handle \<times> 'm lwip_os) option" where
  "sys_mbox_new mem sz os =
     do { (p, heap) \<leftarrow> chHeapAlloc (sizeof_mailbox + sizeof_msg * sz) (os_heap os);
          let os = os\<lparr>os_heap := heap\<rparr>;
          case p of
            None \<Rightarrow> Some (ERR_MEM, None, os\<lparr>os_mbox_stats := STATS_INC_err (os_mbox_stats os)\<rparr>)
          | Some a \<Rightarrow>
              do { mbp \<leftarrow> chMBObjectInit (map mem [0..<unat sz]);
                   Some (ERR_OK, Some a, os\<lparr>os_mbox := (os_mbox os)(a \<mapsto> mbp), os_mbox_stats := STATS_INC_used (os_mbox_stats os)\<rparr>) } }"

definition sys_mbox_free :: "sys_handle \<Rightarrow> 'm lwip_os \<Rightarrow> (sys_handle \<times> 'm lwip_os) option" where
  "sys_mbox_free mbox os =
     do { a \<leftarrow> mbox;
          mbp \<leftarrow> os_mbox os a;
          let os = (if chMBGetUsedCountI mbp \<noteq> 0
                    then os\<lparr>os_mbox_stats := STATS_INC_err (os_mbox_stats os), os_mbox := (os_mbox os)(a \<mapsto> chMBReset mbp)\<rparr>
                    else os);
          heap \<leftarrow> chHeapFree a (os_heap os);
          Some (None, os\<lparr>os_heap := heap, os_mbox := (os_mbox os)(a := None), os_mbox_stats := STATS_DEC_used (os_mbox_stats os)\<rparr>) }"

definition sys_mbox_post ::
  "tid \<Rightarrow> 'm mb_event list list \<Rightarrow> sys_handle \<Rightarrow> 'm \<Rightarrow> 'm lwip_os \<Rightarrow> ('m mb_event list list \<times> 'm lwip_os) option" where
  "sys_mbox_post self slices mbox msg os =
     do { a \<leftarrow> mbox;
          mbp \<leftarrow> os_mbox os a;
          (m, slices, mbp) \<leftarrow> chMBPostTimeout self TIME_INFINITE slices msg mbp;
          Some (slices, os\<lparr>os_mbox := (os_mbox os)(a \<mapsto> mbp)\<rparr>) }"

definition sys_mbox_trypost :: "tid \<Rightarrow> sys_handle \<Rightarrow> 'm \<Rightarrow> 'm lwip_os \<Rightarrow> (err_t \<times> 'm lwip_os) option" where
  "sys_mbox_trypost self mbox msg os =
     do { a \<leftarrow> mbox;
          mbp \<leftarrow> os_mbox os a;
          (m, slices, mbp) \<leftarrow> chMBPostTimeout self TIME_IMMEDIATE [] msg mbp;
          let os = os\<lparr>os_mbox := (os_mbox os)(a \<mapsto> mbp)\<rparr>;
          Some (if m = MSG_TIMEOUT then (ERR_MEM, os\<lparr>os_mbox_stats := STATS_INC_err (os_mbox_stats os)\<rparr>) else (ERR_OK, os)) }"

text \<open>\<open>Inr\<close> is the message stored through the pointer; nothing is stored otherwise.\<close>

definition sys_arch_mbox_fetch ::
  "tid \<Rightarrow> systime \<Rightarrow> systime \<Rightarrow> 'm mb_event list list \<Rightarrow> sys_handle \<Rightarrow> u32 \<Rightarrow> 'm lwip_os \<Rightarrow>
     (u32 \<times> 'm option \<times> 'm mb_event list list \<times> 'm lwip_os) option" where
  "sys_arch_mbox_fetch self start stop slices mbox timeout os =
     do { a \<leftarrow> mbox;
          mbp \<leftarrow> os_mbox os a;
          (r, slices, mbp) \<leftarrow> chMBFetchTimeoutS self (sys_timeout_ticks timeout) slices mbp;
          let os = os\<lparr>os_mbox := (os_mbox os)(a \<mapsto> mbp)\<rparr>;
          Some (case r of Inl m \<Rightarrow> (SYS_ARCH_TIMEOUT, None, slices, os)
                | Inr msg \<Rightarrow> (TIME_I2MS (chTimeDiffX start stop), Some msg, slices, os)) }"

definition sys_arch_mbox_tryfetch :: "tid \<Rightarrow> sys_handle \<Rightarrow> 'm lwip_os \<Rightarrow> (u32 \<times> 'm option \<times> 'm lwip_os) option" where
  "sys_arch_mbox_tryfetch self mbox os =
     do { a \<leftarrow> mbox;
          mbp \<leftarrow> os_mbox os a;
          (r, slices, mbp) \<leftarrow> chMBFetchTimeout self TIME_IMMEDIATE [] mbp;
          let os = os\<lparr>os_mbox := (os_mbox os)(a \<mapsto> mbp)\<rparr>;
          Some (case r of Inl m \<Rightarrow> (if m = MSG_TIMEOUT then SYS_MBOX_EMPTY else 0, None, os)
                | Inr msg \<Rightarrow> (0, Some msg, os)) }"

definition sys_mbox_valid :: "sys_handle \<Rightarrow> bool" where "sys_mbox_valid mbox \<longleftrightarrow> mbox \<noteq> None"
definition sys_mbox_set_invalid :: "sys_handle \<Rightarrow> sys_handle" where "sys_mbox_set_invalid mbox = None"

section \<open>Time\<close>

text \<open>With 100000 ticks per second the second branch of the conditional compilation applies.\<close>

definition sys_now :: "systime \<Rightarrow> u32" where
  "sys_now t = (t - 1) div 100 + 1"

lemma uint_sys_now: "uint (sys_now t) = (if t = 0 then 42949673 else (uint t - 1) div 100 + 1)"
proof (cases "t = 0")
  case False
  then have "uint t \<noteq> 0" by (simp add: uint_0_iff)
  then have "1 \<le> uint t" using uint32_range [of t] by linarith
  then have "uint (t - 1) = uint t - 1" using uint32_range [of t] by (simp add: uint_word_ariths(2))
  moreover have "(uint t - 1) div 100 + 1 < 4294967296" using uint32_range [of t] by auto
  ultimately show ?thesis using False by (simp add: sys_now_def uint_word_ariths uint_div)
qed (simp add: sys_now_def)

section \<open>Separation\<close>

text \<open>
  The invariant: every object lies in a block of the heap that is in use, no two of them in the
  same one, and the objects keep their own invariants; \<open>others\<close> are the blocks of other clients.
\<close>

definition os_ok :: "nat set \<Rightarrow> 'm lwip_os \<Rightarrow> bool" where
  "os_ok others os \<longleftrightarrow> heap_in_use (os_heap os) (dom (os_sem os) \<union> dom (os_mbox os) \<union> others) \<and>
     dom (os_sem os) \<inter> dom (os_mbox os) = {} \<and> (dom (os_sem os) \<union> dom (os_mbox os)) \<inter> others = {} \<and>
     (\<forall>a sp. os_sem os a = Some sp \<longrightarrow> sem_ok sp) \<and> (\<forall>a mbp. os_mbox os a = Some mbp \<longrightarrow> mb_ok mbp)"

lemma os_okD:
  assumes "os_ok others os"
  shows "heap_in_use (os_heap os) (dom (os_sem os) \<union> dom (os_mbox os) \<union> others)"
    "dom (os_sem os) \<inter> dom (os_mbox os) = {}" "(dom (os_sem os) \<union> dom (os_mbox os)) \<inter> others = {}"
    "os_sem os a = Some sp \<Longrightarrow> sem_ok sp" "os_mbox os a = Some mbp \<Longrightarrow> mb_ok mbp"
  using assms by (auto simp: os_ok_def)

lemma sem_init_ok: "\<exists>sp. chSemObjectInit (ucast (count :: u8)) = Some sp \<and> sem_ok sp \<and> sem_tokens sp = unat count"
proof -
  have "sint (ucast count :: s32) = uint count"
    using uint8_range [of count] by (simp add: sint32_uint uint_up_ucast is_up)
  then show ?thesis by (simp add: chSemObjectInit_def sem_ok_def sem_tokens_def)
qed

lemma mbox_init_ok: "0 < n \<Longrightarrow> \<exists>mbp. chMBObjectInit (map mem [0..<n]) = Some mbp \<and> mb_live mbp \<and> mb_items mbp = [] \<and> chMBGetSizeI mbp = n"
  by (auto simp: chMBObjectInit_def mb_live_def mb_contents)

lemma sys_sem_new_cases:
  assumes "os_ok others os" and "heap_request_ok sizeof_semaphore (os_heap os)"
  obtains (created) a sp heap where "sys_sem_new count os =
      Some (ERR_OK, Some a, os\<lparr>os_heap := heap, os_sem := (os_sem os)(a \<mapsto> sp), os_sem_stats := STATS_INC_USED (os_sem_stats os)\<rparr>)"
      "a \<notin> dom (os_sem os) \<union> dom (os_mbox os) \<union> others" "sem_ok sp" "sem_tokens sp = unat count"
      "heap_in_use heap (insert a (dom (os_sem os) \<union> dom (os_mbox os) \<union> others))"
  | (no_memory) "sys_sem_new count os = Some (ERR_MEM, None, os\<lparr>os_sem_stats := STATS_INC_err (os_sem_stats os)\<rparr>)"
proof (cases rule: hp.alloc_cases [OF os_okD(1) [OF assms(1)] assms(2)])
  case (1 a heap)
  obtain sp where "chSemObjectInit (ucast count) = Some sp" "sem_ok sp" "sem_tokens sp = unat count"
    using sem_init_ok [of count] by blast
  then show ?thesis using 1 by (intro created [of a sp heap]) (simp_all add: sys_sem_new_def Let_def)
next
  case 2
  then show ?thesis by (intro no_memory) (simp add: sys_sem_new_def Let_def)
qed

lemma sys_mbox_new_cases:
  assumes "os_ok others os" and "heap_request_ok (sizeof_mailbox + sizeof_msg * sz) (os_heap os)" and "sz \<noteq> 0"
  obtains (created) a mbp heap where "sys_mbox_new mem sz os =
      Some (ERR_OK, Some a, os\<lparr>os_heap := heap, os_mbox := (os_mbox os)(a \<mapsto> mbp), os_mbox_stats := STATS_INC_used (os_mbox_stats os)\<rparr>)"
      "a \<notin> dom (os_sem os) \<union> dom (os_mbox os) \<union> others" "mb_live mbp" "mb_items mbp = []" "chMBGetSizeI mbp = unat sz"
      "heap_in_use heap (insert a (dom (os_sem os) \<union> dom (os_mbox os) \<union> others))"
  | (no_memory) "sys_mbox_new mem sz os = Some (ERR_MEM, None, os\<lparr>os_mbox_stats := STATS_INC_err (os_mbox_stats os)\<rparr>)"
proof (cases rule: hp.alloc_cases [OF os_okD(1) [OF assms(1)] assms(2)])
  case (1 a heap)
  have "0 < unat sz" using assms(3) by (simp add: unat_gt_0)
  then obtain mbp where "chMBObjectInit (map mem [0..<unat sz]) = Some mbp" "mb_live mbp" "mb_items mbp = []" "chMBGetSizeI mbp = unat sz"
    using mbox_init_ok by blast
  then show ?thesis using 1 by (intro created [of a mbp heap]) (simp_all add: sys_mbox_new_def Let_def)
next
  case 2
  then show ?thesis by (intro no_memory) (simp add: sys_mbox_new_def Let_def)
qed

lemma sys_sem_free_ok:
  assumes "os_ok others os" and "os_sem os a = Some sp"
  shows "\<exists>os'. sys_sem_free (Some a) os = Some (None, os') \<and> os_ok others os' \<and> os_sem os' = (os_sem os)(a := None) \<and> os_mbox os' = os_mbox os"
proof -
  note o = os_okD [OF assms(1)]
  have a: "a \<in> dom (os_sem os)" using assms(2) by blast
  obtain heap where h: "chHeapFree a (os_heap os) = Some heap" "heap_in_use heap (dom (os_sem os) \<union> dom (os_mbox os) \<union> others - {a})"
    using hp.free_used [OF o(1), of a] a by blast
  have "dom (os_sem os) \<union> dom (os_mbox os) \<union> others - {a} = dom ((os_sem os)(a := None)) \<union> dom (os_mbox os) \<union> others"
    using a o(2,3) by auto
  then show ?thesis using h o by (auto simp: sys_sem_free_def os_ok_def split: if_splits)
qed

lemma sys_mbox_free_ok:
  assumes "os_ok others os" and "os_mbox os a = Some mbp"
  shows "\<exists>os'. sys_mbox_free (Some a) os = Some (None, os') \<and> os_ok others os' \<and> os_mbox os' = (os_mbox os)(a := None) \<and> os_sem os' = os_sem os"
proof -
  note o = os_okD [OF assms(1)]
  have a: "a \<in> dom (os_mbox os)" using assms(2) by blast
  obtain heap where h: "chHeapFree a (os_heap os) = Some heap" "heap_in_use heap (dom (os_sem os) \<union> dom (os_mbox os) \<union> others - {a})"
    using hp.free_used [OF o(1), of a] a by blast
  have "dom (os_sem os) \<union> dom (os_mbox os) \<union> others - {a} = dom (os_sem os) \<union> dom ((os_mbox os)(a := None)) \<union> others"
    using a o(2,3) by auto
  then show ?thesis using h o assms(2) by (auto simp: sys_mbox_free_def os_ok_def Let_def split: if_splits)
qed

text \<open>Changing an object in place.\<close>

lemma os_ok_sem_update: "os_ok others os \<Longrightarrow> os_sem os a = Some sp \<Longrightarrow> sem_ok sp' \<Longrightarrow> os_ok others (os\<lparr>os_sem := (os_sem os)(a \<mapsto> sp')\<rparr>)"
  by (auto simp: os_ok_def insert_absorb domI)

lemma os_ok_mbox_update: "os_ok others os \<Longrightarrow> os_mbox os a = Some mbp \<Longrightarrow> mb_ok mbp' \<Longrightarrow> os_ok others (os\<lparr>os_mbox := (os_mbox os)(a \<mapsto> mbp')\<rparr>)"
  by (auto simp: os_ok_def insert_absorb domI)

lemma os_ok_stats: "os_ok others (os\<lparr>os_sem_stats := s\<rparr>) = os_ok others os" "os_ok others (os\<lparr>os_mbox_stats := s\<rparr>) = os_ok others os"
  by (simp_all add: os_ok_def)

section \<open>Posting and fetching without waiting\<close>

lemma sys_mbox_trypost_live:
  assumes "os_mbox os a = Some mbp" and "mb_live mbp"
  shows "\<exists>e os' mbp'. sys_mbox_trypost self (Some a) msg os = Some (e, os') \<and> os_mbox os' = (os_mbox os)(a \<mapsto> mbp') \<and> mb_live mbp' \<and>
    chMBGetSizeI mbp' = chMBGetSizeI mbp \<and> os_sem os' = os_sem os \<and> os_heap os' = os_heap os \<and>
    (if length (mb_items mbp) < chMBGetSizeI mbp then e = ERR_OK \<and> mb_items mbp' = mb_items mbp @ [msg]
     else e = ERR_MEM \<and> mbp' = mbp)"
proof (cases "length (mb_items mbp) < chMBGetSizeI mbp")
  case True
  then obtain mbp' where m: "mb_post msg mbp = Some mbp'" "mb_ok mbp'" "mb_items mbp' = mb_items mbp @ [msg]"
    "chMBGetSizeI mbp' = chMBGetSizeI mbp" "mb_reset mbp' = mb_reset mbp"
    using mb_post_room [of mbp msg] assms(2) mb_free [of mbp] by (auto simp: mb_live_def)
  have "chMBPostTimeout self TIME_IMMEDIATE [] msg mbp = Some (MSG_OK, [], mbp')"
    using m True assms(2) mb_free [of mbp] by (simp add: chMBPostTimeout_def chMBPostTimeoutS.simps mb_live_def)
  then show ?thesis using m True assms by (simp add: sys_mbox_trypost_def mb_live_def Let_def) (rule exI [of _ mbp'], simp)
next
  case False
  then have "chMBPostTimeout self TIME_IMMEDIATE [] msg mbp = Some (MSG_TIMEOUT, [], mbp)"
    using assms(2) mb_free [of mbp] by (simp add: chMBPostTimeout_def chMBPostTimeoutS.simps mb_live_def chThdEnqueueTimeoutS_def TIME_IMMEDIATE_def)
  then show ?thesis using False assms by (auto simp: sys_mbox_trypost_def Let_def)
qed

lemma sys_arch_mbox_tryfetch_live:
  assumes "os_mbox os a = Some mbp" and "mb_live mbp"
  shows "\<exists>r m os' mbp'. sys_arch_mbox_tryfetch self (Some a) os = Some (r, m, os') \<and> os_mbox os' = (os_mbox os)(a \<mapsto> mbp') \<and> mb_live mbp' \<and>
    chMBGetSizeI mbp' = chMBGetSizeI mbp \<and> os_sem os' = os_sem os \<and> os_heap os' = os_heap os \<and>
    (case mb_items mbp of [] \<Rightarrow> r = SYS_MBOX_EMPTY \<and> m = None \<and> mbp' = mbp
     | x # xs \<Rightarrow> r = 0 \<and> m = Some x \<and> mb_items mbp' = xs)"
proof (cases "mb_items mbp")
  case Nil
  then have "chMBFetchTimeout self TIME_IMMEDIATE [] mbp = Some (Inl MSG_TIMEOUT, [], mbp)"
    using assms(2) mb_used [of mbp] by (simp add: chMBFetchTimeout_def chMBFetchTimeoutS.simps mb_live_def chThdEnqueueTimeoutS_def TIME_IMMEDIATE_def)
  then show ?thesis using Nil assms by (auto simp: sys_arch_mbox_tryfetch_def Let_def)
next
  case (Cons x xs)
  then obtain mbp' where m: "mb_fetch mbp = Some (x, mbp')" "mb_ok mbp'" "mb_items mbp' = xs"
    "chMBGetSizeI mbp' = chMBGetSizeI mbp" "mb_reset mbp' = mb_reset mbp"
    using mb_fetch_item [of mbp x xs] assms(2) by (auto simp: mb_live_def)
  have "chMBFetchTimeout self TIME_IMMEDIATE [] mbp = Some (Inr x, [], mbp')"
    using m Cons assms(2) mb_used [of mbp] by (simp add: chMBFetchTimeout_def chMBFetchTimeoutS.simps mb_live_def)
  then show ?thesis using m Cons assms by (simp add: sys_arch_mbox_tryfetch_def mb_live_def Let_def) (rule exI [of _ mbp'], simp)
qed

text \<open>After a reset a message that is offered is reported as posted and lost, and a fetch reports success without a message.\<close>

lemma sys_mbox_reset_lost:
  assumes "os_mbox os a = Some mbp" and "mb_reset mbp"
  shows "sys_mbox_trypost self (Some a) msg os = Some (ERR_OK, os) \<and> sys_arch_mbox_tryfetch self (Some a) os = Some (0, None, os)"
proof -
  have "os\<lparr>os_mbox := (os_mbox os)(a \<mapsto> mbp)\<rparr> = os" using assms(1) by (simp add: fun_upd_idem)
  then show ?thesis
    using assms mb_reset_closed [OF assms(2)]
    by (simp add: sys_mbox_trypost_def sys_arch_mbox_tryfetch_def chMBPostTimeout_def chMBFetchTimeout_def Let_def)
qed

section \<open>Waiting with a limit\<close>

text \<open>A wait that is granted reports the elapsed time, which is never mistaken for a timeout.\<close>

lemma elapsed_not_timeout: "TIME_I2MS i \<noteq> SYS_ARCH_TIMEOUT"
proof
  assume "TIME_I2MS i = SYS_ARCH_TIMEOUT"
  then have "uint (TIME_I2MS i) = 4294967295" by (simp add: SYS_ARCH_TIMEOUT_def)
  then show False using uint32_range [of i] unfolding uint_TIME_I2MS by simp
qed

lemma sys_timeout_ticks_exact:
  assumes "0 < timeout" and "uint timeout \<le> 42949672"
  shows "uint (sys_timeout_ticks timeout) = 100 * uint timeout"
proof -
  have "(uint timeout * 100000 + 999) div 1000 = 100 * uint timeout" by simp
  then have "sys_timeout_ticks timeout = word_of_int (100 * uint timeout)"
    using assms(1) by (simp only: sys_timeout_ticks_def TIME_MS2I_def CH_CFG_ST_FREQUENCY_def if_True)
  then show ?thesis using assms(2) uint32_range [of timeout] by (simp only: uint_word_of_int) simp
qed

section \<open>Histories\<close>

text \<open>
  What lwIP and the kernel can do: create and delete objects, and change them by the operations of
  the semaphores and mailboxes, from any thread and in any order. A thread that waits on a
  semaphore does not wait on it again, and there are less than \<open>2\<^sup>3\<^sup>1\<close> threads.
\<close>

definition sem_event_ok :: "sem_event \<Rightarrow> semaphore \<Rightarrow> bool" where
  "sem_event_ok ev sp \<longleftrightarrow> (\<forall>t. ev = SWait t \<longrightarrow> t \<notin> set (sem_queue sp) \<and> length (sem_queue sp) < 2147483648)"

inductive lwip_run :: "'m lwip_os \<Rightarrow> 'm lwip_os \<Rightarrow> bool" for os0 :: "'m lwip_os" where
  Start: "lwip_run os0 os0"
| Sem_New: "lwip_run os0 os \<Longrightarrow> heap_request_ok sizeof_semaphore (os_heap os) \<Longrightarrow> sys_sem_new count os = Some (e, p, os') \<Longrightarrow> lwip_run os0 os'"
| Sem_Free: "lwip_run os0 os \<Longrightarrow> a \<in> dom (os_sem os) \<Longrightarrow> sys_sem_free (Some a) os = Some (p, os') \<Longrightarrow> lwip_run os0 os'"
| Sem_Event: "lwip_run os0 os \<Longrightarrow> os_sem os a = Some sp \<Longrightarrow> sem_event_ok ev sp \<Longrightarrow> sem_do sp ev = Some sp' \<Longrightarrow>
    lwip_run os0 (os\<lparr>os_sem := (os_sem os)(a \<mapsto> sp')\<rparr>)"
| Mbox_New: "lwip_run os0 os \<Longrightarrow> sz \<noteq> 0 \<Longrightarrow> heap_request_ok (sizeof_mailbox + sizeof_msg * sz) (os_heap os) \<Longrightarrow>
    sys_mbox_new mem sz os = Some (e, p, os') \<Longrightarrow> lwip_run os0 os'"
| Mbox_Free: "lwip_run os0 os \<Longrightarrow> a \<in> dom (os_mbox os) \<Longrightarrow> sys_mbox_free (Some a) os = Some (p, os') \<Longrightarrow> lwip_run os0 os'"
| Mbox_Event: "lwip_run os0 os \<Longrightarrow> os_mbox os a = Some mbp \<Longrightarrow> mb_do mbp ev = Some mbp' \<Longrightarrow>
    lwip_run os0 (os\<lparr>os_mbox := (os_mbox os)(a \<mapsto> mbp')\<rparr>)"

lemma sem_signal_ok: "sem_ok sp \<Longrightarrow> sem_signal sp = Some sp' \<Longrightarrow> sem_ok sp'"
proof -
  assume a: "sem_ok sp" "sem_signal sp = Some sp'"
  show "sem_ok sp'"
  proof (cases "sem_queue sp")
    case Nil
    have "sem_cnt sp \<noteq> 2147483647"
    proof
      assume "sem_cnt sp = 2147483647"
      then show False using a(2) Nil by (simp add: sem_signal_def chSemFastSignalI_def)
    qed
    moreover have "sem_cnt sp = word_of_int (sint (sem_cnt sp))" by simp
    ultimately have "sint (sem_cnt sp) \<noteq> 2147483647" by force
    then have "sem_tokens sp < 2147483647" using sint32_range [of "sem_cnt sp"] by (simp add: sem_tokens_def)
    then show ?thesis using sem_signal_keeps [OF a(1) Nil] a(2) by simp
  next
    case (Cons t ts)
    then show ?thesis using sem_signal_wakes [OF a(1) Cons] a(2) by simp
  qed
qed

lemma sem_add_ok: "sem_ok sp \<Longrightarrow> sem_add n sp = Some sp' \<Longrightarrow> sem_ok sp'"
  by (induction n arbitrary: sp) (auto dest: sem_signal_ok split: Option.bind_splits)

lemma sem_wait_ok:
  assumes "sem_ok sp" and "t \<notin> set (sem_queue sp)" and "length (sem_queue sp) < 2147483648"
  shows "sem_ok (snd (sem_wait t sp))"
  using sem_wait_token [OF assms(1), of t] sem_wait_queues [OF assms(1) _ assms(2,3)] by (cases "sem_tokens sp = 0") auto

lemma sem_do_ok:
  assumes "sem_ok sp" and "sem_event_ok ev sp" and "sem_do sp ev = Some sp'"
  shows "sem_ok sp'"
proof (cases ev)
  case SSignal
  then show ?thesis using assms sem_signal_ok by (auto simp: chSemSignalI_def split: if_splits)
next
  case (SAdd n)
  then show ?thesis using assms sem_add_ok by (auto simp: chSemAddCounterI_def split: if_splits)
next
  case (SWait t)
  have "sem_ok (sem_ready t MSG_OK sp1) = sem_ok sp1" for sp1 by (simp add: sem_ok_def)
  then show ?thesis
    using assms sem_wait_ok [OF assms(1), of t] SWait by (auto simp: sem_event_ok_def split: if_splits prod.splits bool.splits)
next
  case (STimeout t)
  then show ?thesis using assms sem_timeout_leaves [OF assms(1), of t] by (auto simp: sem_timeout_def)
next
  case (SReset n)
  then have "0 \<le> sint n" using assms(3) by (auto simp: chSemResetI_def chSemResetWithMessageI_def split: if_splits)
  from chSemResetWithMessageI_effect [OF assms(1) this, of MSG_RESET] show ?thesis using assms(3) SReset by (auto simp: chSemResetI_def)
qed

lemma lwip_run_ok:
  assumes "lwip_run os0 os" and "os_ok others os0"
  shows "os_ok others os"
  using assms(1)
proof induction
  case Start
  then show ?case by (rule assms(2))
next
  case (Sem_New os count e p os')
  show ?case
  proof (cases rule: sys_sem_new_cases [OF Sem_New.IH Sem_New.hyps(2), of count])
    case (1 a sp heap)
    then show ?thesis using Sem_New.hyps(3) os_okD [OF Sem_New.IH] by (auto simp: os_ok_def)
  next
    case 2
    then show ?thesis using Sem_New.hyps(3) Sem_New.IH by (auto simp: os_ok_stats)
  qed
next
  case (Sem_Free os a p os')
  then show ?case using sys_sem_free_ok [OF Sem_Free.IH] by fastforce
next
  case (Sem_Event os a sp ev sp')
  then show ?case using sem_do_ok [OF os_okD(4) [OF Sem_Event.IH Sem_Event.hyps(2)]] by (intro os_ok_sem_update)
next
  case (Mbox_New os sz mem e p os')
  show ?case
  proof (cases rule: sys_mbox_new_cases [OF Mbox_New.IH Mbox_New.hyps(3,2), of mem])
    case (1 a mbp heap)
    then show ?thesis using Mbox_New.hyps(4) os_okD [OF Mbox_New.IH] by (auto simp: os_ok_def mb_live_def)
  next
    case 2
    then show ?thesis using Mbox_New.hyps(4) Mbox_New.IH by (auto simp: os_ok_stats)
  qed
next
  case (Mbox_Free os a p os')
  then show ?case using sys_mbox_free_ok [OF Mbox_Free.IH] by fastforce
next
  case (Mbox_Event os a mbp ev mbp')
  then show ?case using mb_do_ok [OF os_okD(5) [OF Mbox_Event.IH Mbox_Event.hyps(2)], of ev] by (intro os_ok_mbox_update) auto
qed

end
