(* ===== verification/Timeouts.thy ===== *)
theory Timeouts
  imports Sys_Arch "HOL-Library.Multiset"
begin

text \<open>
  The timers of lwIP, \<open>timeouts.c\<close>, on the clock \<open>sys_now\<close> of the binding, and the loop of \<open>tcpip.c\<close>
  that serves them while it waits for messages. The list of timeouts is in order of their due
  times; its elements come from a pool of \<open>MEMP_NUM_SYS_TIMEOUT\<close>. With the options of \<open>lwipopts.h\<close>
  there are five cyclic timers.

  The functions the timers call are not modelled: \<open>env\<close> gives for the \<open>n\<close>th of their calls the
  number of ticks it takes and whether TCP has active or closing connections afterwards.
  \<open>tm_calls\<close> is the trace of the calls, \<open>tm_time\<close> the system time. A result \<open>None\<close> is a failed
  assertion, which halts the system.
\<close>

datatype cyclic_fn = tcp_tmr | ip_reass_tmr | etharp_tmr | dhcp_coarse_tmr | dhcp_fine_tmr

datatype tmo_handler = lwip_cyclic_timer_h | tcpip_tcp_timer_h

record sys_timeo =
  to_time :: u32
  to_h :: "tmo_handler option"
  to_arg :: nat

record timers =
  next_timeout :: "sys_timeo list"
  current_timeout_due_time :: u32
  tcpip_tcp_timer_active :: bool
  memp_timeouts :: nat
  tcp_pcbs :: bool
  tm_time :: systime
  tm_calls :: "(cyclic_fn \<times> systime) list"

type_synonym tmr_env = "nat \<Rightarrow> u32 \<times> bool"

definition LWIP_MAX_TIMEOUT :: u32 where "LWIP_MAX_TIMEOUT = 0x7FFFFFFF"
definition SYS_TIMEOUTS_SLEEPTIME_INFINITE :: u32 where "SYS_TIMEOUTS_SLEEPTIME_INFINITE = 0xFFFFFFFF"
definition MEMP_NUM_SYS_TIMEOUT :: nat where "MEMP_NUM_SYS_TIMEOUT = 5"
definition TCP_TMR_INTERVAL :: u32 where "TCP_TMR_INTERVAL = 250"

definition TIME_LESS_THAN :: "u32 \<Rightarrow> u32 \<Rightarrow> bool" where
  "TIME_LESS_THAN t compare_to \<longleftrightarrow> t - compare_to > LWIP_MAX_TIMEOUT"

definition lwip_cyclic_timers :: "(u32 \<times> cyclic_fn) list" where
  "lwip_cyclic_timers =
     [(TCP_TMR_INTERVAL, tcp_tmr), (1000, ip_reass_tmr), (1000, etharp_tmr), (60000, dhcp_coarse_tmr), (500, dhcp_fine_tmr)]"

definition timers_reset :: "systime \<Rightarrow> timers" where
  "timers_reset t =
     \<lparr>next_timeout = [], current_timeout_due_time = 0, tcpip_tcp_timer_active = False, memp_timeouts = MEMP_NUM_SYS_TIMEOUT,
      tcp_pcbs = False, tm_time = t, tm_calls = []\<rparr>"

definition tm_now :: "timers \<Rightarrow> u32" where "tm_now st = sys_now (tm_time st)"

definition call_fn :: "tmr_env \<Rightarrow> cyclic_fn \<Rightarrow> timers \<Rightarrow> timers" where
  "call_fn env f st =
     (let (d, pcbs) = env (length (tm_calls st))
      in st\<lparr>tm_calls := tm_calls st @ [(f, tm_time st)], tm_time := tm_time st + d, tcp_pcbs := pcbs\<rparr>)"

fun timeo_insert :: "sys_timeo \<Rightarrow> sys_timeo list \<Rightarrow> sys_timeo list" where
  "timeo_insert timeout [] = [timeout]"
| "timeo_insert timeout (t # ts) =
     (if TIME_LESS_THAN (to_time timeout) (to_time t) then timeout # t # ts else t # timeo_insert timeout ts)"

definition sys_timeout_abs :: "u32 \<Rightarrow> tmo_handler option \<Rightarrow> nat \<Rightarrow> timers \<Rightarrow> timers option" where
  "sys_timeout_abs abs_time handler arg st =
     (if memp_timeouts st = 0 then None
      else Some (st\<lparr>memp_timeouts := memp_timeouts st - 1,
                    next_timeout := timeo_insert \<lparr>to_time = abs_time, to_h = handler, to_arg = arg\<rparr> (next_timeout st)\<rparr>))"

definition sys_timeout :: "u32 \<Rightarrow> tmo_handler option \<Rightarrow> nat \<Rightarrow> timers \<Rightarrow> timers option" where
  "sys_timeout msecs handler arg st =
     (if msecs \<le> 0xFFFFFFFF div 4 then sys_timeout_abs (tm_now st + msecs) handler arg st else None)"

definition tcpip_tcp_timer :: "tmr_env \<Rightarrow> timers \<Rightarrow> timers option" where
  "tcpip_tcp_timer env st =
     (let st = call_fn env tcp_tmr st
      in if tcp_pcbs st then sys_timeout TCP_TMR_INTERVAL (Some tcpip_tcp_timer_h) 0 st
         else Some (st\<lparr>tcpip_tcp_timer_active := False\<rparr>))"

definition tcp_timer_needed :: "timers \<Rightarrow> timers option" where
  "tcp_timer_needed st =
     (if \<not> tcpip_tcp_timer_active st \<and> tcp_pcbs st
      then sys_timeout TCP_TMR_INTERVAL (Some tcpip_tcp_timer_h) 0 (st\<lparr>tcpip_tcp_timer_active := True\<rparr>)
      else Some st)"

definition lwip_cyclic_timer :: "tmr_env \<Rightarrow> nat \<Rightarrow> timers \<Rightarrow> timers option" where
  "lwip_cyclic_timer env arg st =
     (if length lwip_cyclic_timers \<le> arg then None
      else let (interval_ms, handler) = lwip_cyclic_timers ! arg;
               st = call_fn env handler st;
               now = tm_now st;
               next_timeout_time = current_timeout_due_time st + interval_ms
           in sys_timeout_abs (if TIME_LESS_THAN next_timeout_time now then now + interval_ms else next_timeout_time)
                (Some lwip_cyclic_timer_h) arg st)"

fun run_handler :: "tmr_env \<Rightarrow> tmo_handler option \<Rightarrow> nat \<Rightarrow> timers \<Rightarrow> timers option" where
  "run_handler env None arg st = Some st"
| "run_handler env (Some lwip_cyclic_timer_h) arg st = lwip_cyclic_timer env arg st"
| "run_handler env (Some tcpip_tcp_timer_h) arg st = tcpip_tcp_timer env st"

definition start_cyclic :: "timers \<Rightarrow> nat \<Rightarrow> timers option" where
  "start_cyclic st i = sys_timeout (fst (lwip_cyclic_timers ! i)) (Some lwip_cyclic_timer_h) i st"

definition sys_timeouts_init :: "timers \<Rightarrow> timers option" where
  "sys_timeouts_init st = run_calls start_cyclic st [1..<length lwip_cyclic_timers]"

fun timeo_remove :: "tmo_handler option \<Rightarrow> nat \<Rightarrow> sys_timeo list \<Rightarrow> sys_timeo list option" where
  "timeo_remove handler arg [] = None"
| "timeo_remove handler arg (t # ts) =
     (if to_h t = handler \<and> to_arg t = arg then Some ts else map_option ((#) t) (timeo_remove handler arg ts))"

definition sys_untimeout :: "tmo_handler option \<Rightarrow> nat \<Rightarrow> timers \<Rightarrow> timers" where
  "sys_untimeout handler arg st =
     (case timeo_remove handler arg (next_timeout st) of
        None \<Rightarrow> st
      | Some ts \<Rightarrow> st\<lparr>next_timeout := ts, memp_timeouts := memp_timeouts st + 1\<rparr>)"

partial_function (option) check_loop :: "tmr_env \<Rightarrow> u32 \<Rightarrow> timers \<Rightarrow> timers option" where
  "check_loop env now st =
     (case next_timeout st of
        [] \<Rightarrow> Some st
      | t # ts \<Rightarrow>
          if TIME_LESS_THAN now (to_time t) then Some st
          else Option.bind
                 (run_handler env (to_h t) (to_arg t)
                    (st\<lparr>next_timeout := ts, current_timeout_due_time := to_time t, memp_timeouts := memp_timeouts st + 1\<rparr>))
                 (check_loop env now))"

definition sys_check_timeouts :: "tmr_env \<Rightarrow> timers \<Rightarrow> timers option" where
  "sys_check_timeouts env st = check_loop env (tm_now st) st"

definition sys_restart_timeouts :: "timers \<Rightarrow> timers" where
  "sys_restart_timeouts st =
     (case next_timeout st of
        [] \<Rightarrow> st
      | t # ts \<Rightarrow> st\<lparr>next_timeout := map (\<lambda>x. x\<lparr>to_time := (to_time x - to_time t) + tm_now st\<rparr>) (next_timeout st)\<rparr>)"

definition sys_timeouts_sleeptime :: "timers \<Rightarrow> u32 option" where
  "sys_timeouts_sleeptime st =
     (case next_timeout st of
        [] \<Rightarrow> Some SYS_TIMEOUTS_SLEEPTIME_INFINITE
      | t # ts \<Rightarrow>
          if TIME_LESS_THAN (to_time t) (tm_now st) then Some 0
          else let ret = to_time t - tm_now st in if ret \<le> LWIP_MAX_TIMEOUT then Some ret else None)"

text \<open>
  Waiting for a message. Each wait takes the next element of \<open>ins\<close>: what happens to the mailbox
  meanwhile, and the time when the thread goes on. The result is the message, if one was stored.
\<close>

partial_function (option) tcpip_timeouts_mbox_fetch ::
  "tmr_env \<Rightarrow> tid \<Rightarrow> sys_handle \<Rightarrow> ('m mb_event list list \<times> systime) list \<Rightarrow> timers \<Rightarrow> 'm lwip_os \<Rightarrow>
     ('m option \<times> ('m mb_event list list \<times> systime) list \<times> timers \<times> 'm lwip_os) option" where
  "tcpip_timeouts_mbox_fetch env self mbox ins st os =
     do { sleeptime \<leftarrow> sys_timeouts_sleeptime st;
          if sleeptime = SYS_TIMEOUTS_SLEEPTIME_INFINITE
          then case ins of
                 [] \<Rightarrow> None
               | (slices, stop) # ins' \<Rightarrow>
                   do { (res, msg, rest, os') \<leftarrow> sys_arch_mbox_fetch self (tm_time st) stop slices mbox 0 os;
                        Some (msg, ins', st\<lparr>tm_time := stop\<rparr>, os') }
          else if sleeptime = 0
          then do { st' \<leftarrow> sys_check_timeouts env st; tcpip_timeouts_mbox_fetch env self mbox ins st' os }
          else case ins of
                 [] \<Rightarrow> None
               | (slices, stop) # ins' \<Rightarrow>
                   do { (res, msg, rest, os') \<leftarrow> sys_arch_mbox_fetch self (tm_time st) stop slices mbox sleeptime os;
                        if res = SYS_ARCH_TIMEOUT
                        then do { st' \<leftarrow> sys_check_timeouts env (st\<lparr>tm_time := stop\<rparr>);
                                  tcpip_timeouts_mbox_fetch env self mbox ins' st' os' }
                        else Some (msg, ins', st\<lparr>tm_time := stop\<rparr>, os') } }"

declare check_loop.simps [code] tcpip_timeouts_mbox_fetch.simps [code]

section \<open>Order of the list\<close>

text \<open>Times below \<open>2\<^sup>3\<^sup>1\<close> are compared as numbers. The clock never exceeds 42949673.\<close>

lemma TIME_LESS_THAN_small:
  assumes "uint a < 2147483648" and "uint b < 2147483648"
  shows "TIME_LESS_THAN a b \<longleftrightarrow> a < b"
proof (cases "a < b")
  case True
  then have "uint (a - b) = uint a - uint b + 4294967296"
    using uint_sub_if_size [of a b] by (auto simp: word_less_def word_size)
  moreover have "- 2147483648 < uint a - uint b" using assms uint32_range(1) [of a] by linarith
  ultimately show ?thesis using True by (simp add: TIME_LESS_THAN_def LWIP_MAX_TIMEOUT_def word_less_def)
next
  case False
  then have "uint (a - b) = uint a - uint b"
    using uint_sub_if_size [of a b] by (auto simp: word_less_def word_size)
  moreover have "uint a - uint b \<le> 2147483647" using assms uint32_range(1) [of b] by linarith
  ultimately show ?thesis using False by (simp add: TIME_LESS_THAN_def LWIP_MAX_TIMEOUT_def word_less_def)
qed

lemma sys_now_max: "uint (sys_now t) \<le> 42949673"
  using uint32_range [of t] by (auto simp: uint_sys_now)

definition timeo_small :: "sys_timeo \<Rightarrow> bool" where
  "timeo_small x \<longleftrightarrow> uint (to_time x) \<le> 43009673"

lemma timeo_less [simp]: "timeo_small x \<Longrightarrow> timeo_small y \<Longrightarrow> TIME_LESS_THAN (to_time x) (to_time y) \<longleftrightarrow> to_time x < to_time y"
  by (simp add: TIME_LESS_THAN_small timeo_small_def)

lemma mset_timeo_insert [simp]: "mset (timeo_insert x xs) = add_mset x (mset xs)"
  by (induction xs) auto

lemma set_timeo_insert [simp]: "set (timeo_insert x xs) = insert x (set xs)"
  by (induction xs) auto

lemma timeo_insert_sorted:
  "timeo_small x \<Longrightarrow> \<forall>y \<in> set xs. timeo_small y \<Longrightarrow> sorted (map to_time xs) \<Longrightarrow> sorted (map to_time (timeo_insert x xs))"
  by (induction xs) auto

text \<open>The list is the stable sort of the timeouts in the order they were requested.\<close>

lemma timeo_insert_after:
  "timeo_small x \<Longrightarrow> \<forall>y \<in> set xs. timeo_small y \<and> to_time y \<le> to_time x \<Longrightarrow> timeo_insert x xs = xs @ [x]"
  by (induction xs) auto

lemma timeo_insert_key:
  "timeo_small x \<Longrightarrow> \<forall>y \<in> set xs. timeo_small y \<Longrightarrow> sorted (map to_time xs) \<Longrightarrow>
     filter (\<lambda>y. to_time y = k) (timeo_insert x xs) = filter (\<lambda>y. to_time y = k) xs @ (if to_time x = k then [x] else [])"
proof (induction xs)
  case (Cons y xs)
  show ?case
  proof (cases "to_time x < to_time y")
    case True
    then have "filter (\<lambda>z. to_time z = to_time x) (y # xs) = []" using Cons.prems(3) by (auto simp: filter_empty_conv)
    then show ?thesis using True Cons.prems by auto
  next
    case False
    then show ?thesis using Cons by simp
  qed
qed simp

lemma foldl_timeo_insert:
  assumes "\<forall>x \<in> set xs. timeo_small x"
  shows "foldl (\<lambda>l x. timeo_insert x l) [] xs = sort_key to_time xs"
  using assms
proof (induction xs rule: rev_induct)
  case (snoc x xs)
  let ?l = "sort_key to_time xs"
  have l: "\<forall>y \<in> set ?l. timeo_small y" "timeo_small x" "sorted (map to_time ?l)" using snoc.prems by simp_all
  have "sort_key to_time (xs @ [x]) = timeo_insert x ?l"
  proof (rule properties_for_sort_key)
    fix k
    show "filter (\<lambda>y. to_time k = to_time y) (timeo_insert x ?l) = filter (\<lambda>y. to_time k = to_time y) (xs @ [x])"
      using timeo_insert_key [OF l(2,1,3), of "to_time k"] by (simp add: eq_commute [of "to_time k"] sort_key_stable)
  qed (use timeo_insert_sorted [OF l(2,1,3)] in simp_all)
  then show ?case using snoc by simp
qed simp

section \<open>The invariant\<close>

text \<open>
  The pending timers by name: each cyclic timer once, the TCP timer if it is active. \<open>A\<close> is the
  set of those that are in the list; every element in the list is taken from the pool.
\<close>

definition timer_id :: "sys_timeo \<Rightarrow> tmo_handler option \<times> nat" where
  "timer_id x = (to_h x, to_arg x)"

definition cyclic_ids :: "(tmo_handler option \<times> nat) set" where
  "cyclic_ids = Pair (Some lwip_cyclic_timer_h) ` {1..<length lwip_cyclic_timers}"

definition tcp_id :: "tmo_handler option \<times> nat" where
  "tcp_id = (Some tcpip_tcp_timer_h, 0)"

definition timers_inv :: "(tmo_handler option \<times> nat) set \<Rightarrow> timers \<Rightarrow> bool" where
  "timers_inv A st \<longleftrightarrow> sorted (map to_time (next_timeout st)) \<and> (\<forall>x \<in> set (next_timeout st). timeo_small x) \<and>
     distinct (map timer_id (next_timeout st)) \<and> timer_id ` set (next_timeout st) = A \<and>
     length (next_timeout st) + memp_timeouts st = MEMP_NUM_SYS_TIMEOUT"

definition active_ids :: "timers \<Rightarrow> (tmo_handler option \<times> nat) set" where
  "active_ids st = (if tcpip_tcp_timer_active st then insert tcp_id cyclic_ids else cyclic_ids)"

definition timers_ok :: "timers \<Rightarrow> bool" where
  "timers_ok st \<longleftrightarrow> timers_inv (active_ids st) st"

lemma all_ids: "finite (insert tcp_id cyclic_ids)" "card (insert tcp_id cyclic_ids) = MEMP_NUM_SYS_TIMEOUT" "tcp_id \<notin> cyclic_ids"
proof -
  have "card cyclic_ids = 4" unfolding cyclic_ids_def by (subst card_image) (auto simp: inj_on_def lwip_cyclic_timers_def)
  moreover show "finite (insert tcp_id cyclic_ids)" "tcp_id \<notin> cyclic_ids" by (auto simp: cyclic_ids_def tcp_id_def)
  ultimately show "card (insert tcp_id cyclic_ids) = MEMP_NUM_SYS_TIMEOUT" by (simp add: MEMP_NUM_SYS_TIMEOUT_def)
qed

text \<open>A timer that is not pending finds room in the pool.\<close>

lemma timers_inv_room:
  assumes "timers_inv A st" and "A \<subseteq> insert tcp_id cyclic_ids" and "i \<in> insert tcp_id cyclic_ids" and "i \<notin> A"
  shows "0 < memp_timeouts st"
proof -
  have "card A = length (next_timeout st)"
    using assms(1) distinct_card [of "map timer_id (next_timeout st)"] by (auto simp: timers_inv_def)
  moreover have "card A < MEMP_NUM_SYS_TIMEOUT"
    using assms(2-4) all_ids(1) unfolding all_ids(2) [symmetric] by (intro psubset_card_mono) auto
  ultimately show ?thesis using assms(1) by (simp add: timers_inv_def)
qed

lemma sys_timeout_abs_ok:
  assumes "timers_inv A st" and "A \<subseteq> insert tcp_id cyclic_ids" and "(h, arg) \<in> insert tcp_id cyclic_ids" and "(h, arg) \<notin> A"
    and "uint t \<le> 43009673"
  shows "\<exists>st'. sys_timeout_abs t h arg st = Some st' \<and> timers_inv (insert (h, arg) A) st' \<and>
    mset (next_timeout st') = add_mset \<lparr>to_time = t, to_h = h, to_arg = arg\<rparr> (mset (next_timeout st)) \<and>
    tm_calls st' = tm_calls st \<and> tm_time st' = tm_time st \<and> tcpip_tcp_timer_active st' = tcpip_tcp_timer_active st"
proof -
  let ?x = "\<lparr>to_time = t, to_h = h, to_arg = arg\<rparr>"
  have i: "sorted (map to_time (next_timeout st))" "\<forall>x \<in> set (next_timeout st). timeo_small x"
    "distinct (map timer_id (next_timeout st))" "timer_id ` set (next_timeout st) = A"
    "length (next_timeout st) + memp_timeouts st = MEMP_NUM_SYS_TIMEOUT" using assms(1) by (simp_all add: timers_inv_def)
  have x: "timeo_small ?x" "timer_id ?x = (h, arg)" using assms(5) by (simp_all add: timeo_small_def timer_id_def)
  have m: "mset (map timer_id (timeo_insert ?x (next_timeout st))) = mset (map timer_id (?x # next_timeout st))" by simp
  then have "length (timeo_insert ?x (next_timeout st)) = Suc (length (next_timeout st))" using mset_eq_length [OF m] by simp
  moreover have "distinct (map timer_id (timeo_insert ?x (next_timeout st)))"
    using mset_eq_imp_distinct_iff [OF m] i(3,4) assms(4) x(2) by auto
  moreover have "sorted (map to_time (timeo_insert ?x (next_timeout st)))" using timeo_insert_sorted [OF x(1) i(2,1)] .
  ultimately show ?thesis
    using timers_inv_room [OF assms(1-4)] i x by (auto simp: sys_timeout_abs_def timers_inv_def)
qed

section \<open>A timer fires\<close>

definition interval_of :: "sys_timeo \<Rightarrow> u32" where
  "interval_of x = (case to_h x of Some lwip_cyclic_timer_h \<Rightarrow> fst (lwip_cyclic_timers ! to_arg x) | _ \<Rightarrow> TCP_TMR_INTERVAL)"

definition fn_of :: "sys_timeo \<Rightarrow> cyclic_fn" where
  "fn_of x = (case to_h x of Some lwip_cyclic_timer_h \<Rightarrow> snd (lwip_cyclic_timers ! to_arg x) | _ \<Rightarrow> tcp_tmr)"

text \<open>When a timer is due again: cyclic timers keep their rate unless they are late by a whole interval.\<close>

definition next_due :: "sys_timeo \<Rightarrow> u32 \<Rightarrow> u32" where
  "next_due x now =
     (if to_h x = Some lwip_cyclic_timer_h \<and> now \<le> to_time x + interval_of x then to_time x + interval_of x
      else now + interval_of x)"

lemma id_cases:
  assumes "timer_id x \<in> insert tcp_id cyclic_ids"
  obtains (cyclic) "to_h x = Some lwip_cyclic_timer_h" "to_arg x < length lwip_cyclic_timers"
  | (tcp) "to_h x = Some tcpip_tcp_timer_h" "to_arg x = 0"
  using assms by (auto simp: timer_id_def tcp_id_def cyclic_ids_def)

lemma interval_range: "timer_id x \<in> insert tcp_id cyclic_ids \<Longrightarrow> 250 \<le> uint (interval_of x) \<and> uint (interval_of x) \<le> 60000"
  by (erule id_cases) (auto simp: interval_of_def lwip_cyclic_timers_def TCP_TMR_INTERVAL_def nth_Cons' less_Suc_eq)

lemma uint_add_small: "uint (a :: u32) \<le> 42949673 \<Longrightarrow> uint b \<le> 60000 \<Longrightarrow> uint (a + b) = uint a + uint b"
  using uint32_range(1) [of a] uint32_range(1) [of b] by (simp add: uint_word_ariths(1))

lemma next_due_uint:
  assumes "timer_id x \<in> insert tcp_id cyclic_ids" and "uint (to_time x) \<le> 42949673" and "uint now \<le> 42949673"
  shows "uint (next_due x now) \<le> 43009673" "to_time x \<le> now \<Longrightarrow> to_time x < next_due x now"
proof -
  note r = interval_range [OF assms(1)]
  have u: "uint (to_time x + interval_of x) = uint (to_time x) + uint (interval_of x)" "uint (now + interval_of x) = uint now + uint (interval_of x)"
    using r assms by (simp_all add: uint_add_small)
  show "uint (next_due x now) \<le> 43009673" "to_time x \<le> now \<Longrightarrow> to_time x < next_due x now"
    using r assms(2,3) by (auto simp: next_due_def word_less_def word_le_def u)
qed

definition popped :: "sys_timeo \<Rightarrow> sys_timeo list \<Rightarrow> timers \<Rightarrow> timers" where
  "popped x ts st = st\<lparr>next_timeout := ts, current_timeout_due_time := to_time x, memp_timeouts := memp_timeouts st + 1\<rparr>"

lemma popped_inv:
  assumes "timers_ok st" and "next_timeout st = x # ts"
  shows "timers_inv (active_ids st - {timer_id x}) (popped x ts st)" "timer_id x \<in> active_ids st"
  using assms by (auto simp: timers_ok_def timers_inv_def popped_def)

lemma active_ids_sub: "active_ids st \<subseteq> insert tcp_id cyclic_ids"
  by (auto simp: active_ids_def)

lemma call_fn_fields [simp]:
  "next_timeout (call_fn env f st) = next_timeout st" "memp_timeouts (call_fn env f st) = memp_timeouts st"
  "current_timeout_due_time (call_fn env f st) = current_timeout_due_time st"
  "tcpip_tcp_timer_active (call_fn env f st) = tcpip_tcp_timer_active st"
  "tm_calls (call_fn env f st) = tm_calls st @ [(f, tm_time st)]"
  "tm_time (call_fn env f st) = tm_time st + fst (env (length (tm_calls st)))"
  by (simp_all add: call_fn_def split: prod.split)

lemma timers_inv_call_fn [simp]: "timers_inv A (call_fn env f st) = timers_inv A st"
  by (simp add: timers_inv_def)

lemma popped_fields [simp]:
  "tm_calls (popped x ts st) = tm_calls st" "tm_time (popped x ts st) = tm_time st" "next_timeout (popped x ts st) = ts"
  "tcpip_tcp_timer_active (popped x ts st) = tcpip_tcp_timer_active st" "current_timeout_due_time (popped x ts st) = to_time x"
  by (simp_all add: popped_def)

lemma fire_ok:
  assumes ok: "timers_ok st" and nt: "next_timeout st = x # ts" and late: "uint (to_time x) \<le> 42949673"
  shows "\<exists>st'. run_handler env (to_h x) (to_arg x) (popped x ts st) = Some st' \<and> timers_ok st' \<and>
    tm_calls st' = tm_calls st @ [(fn_of x, tm_time st)] \<and> tm_time st' = tm_time st + fst (env (length (tm_calls st))) \<and>
    (\<exists>ys. mset (next_timeout st') = ys + mset ts \<and>
       (ys = {#} \<and> timer_id x = tcp_id \<or> ys = {#\<lparr>to_time = next_due x (tm_now st'), to_h = to_h x, to_arg = to_arg x\<rparr>#}))"
proof -
  note p = popped_inv [OF ok nt]
  have sub: "active_ids st - {timer_id x} \<subseteq> insert tcp_id cyclic_ids" "timer_id x \<in> insert tcp_id cyclic_ids"
    using active_ids_sub [of st] p(2) by blast+
  let ?st = "call_fn env (fn_of x) (popped x ts st)"
  have now: "uint (tm_now ?st) \<le> 42949673" by (simp add: tm_now_def sys_now_max)
  have inv: "timers_inv (active_ids st - {timer_id x}) ?st" using p(1) by simp
  have ins: "insert (to_h x, to_arg x) (active_ids st - {timer_id x}) = active_ids st" using p(2) by (auto simp: timer_id_def)
  from sys_timeout_abs_ok [OF inv sub(1), of "to_h x" "to_arg x" "next_due x (tm_now ?st)"] sub(2) next_due_uint(1) [OF sub(2) late now]
  obtain st' where st': "sys_timeout_abs (next_due x (tm_now ?st)) (to_h x) (to_arg x) ?st = Some st'" "timers_inv (active_ids st) st'"
    "mset (next_timeout st') = add_mset \<lparr>to_time = next_due x (tm_now ?st), to_h = to_h x, to_arg = to_arg x\<rparr> (mset ts)"
    "tm_calls st' = tm_calls st @ [(fn_of x, tm_time st)]" "tm_time st' = tm_time st + fst (env (length (tm_calls st)))"
    "tcpip_tcp_timer_active st' = tcpip_tcp_timer_active st" unfolding ins by (auto simp: timer_id_def)
  have ok': "timers_ok st'" "tm_now st' = tm_now ?st" using st'(2,5,6) by (simp_all add: timers_ok_def active_ids_def tm_now_def)
  show ?thesis
  proof (cases rule: id_cases [OF sub(2)])
    case 1
    have small: "uint (to_time x + interval_of x) < 2147483648"
      using late interval_range [OF sub(2)] by (simp add: uint_add_small)
    have "run_handler env (to_h x) (to_arg x) (popped x ts st) = Some st'"
      using 1 st'(1) small now unfolding next_due_def
      by (auto simp: lwip_cyclic_timer_def interval_of_def fn_of_def TIME_LESS_THAN_small Let_def not_less split: prod.split if_splits)
    then show ?thesis using st'(3-5) ok' by auto
  next
    case 2
    have h: "run_handler env (to_h x) (to_arg x) (popped x ts st) =
        (if tcp_pcbs ?st then Some st' else Some (?st\<lparr>tcpip_tcp_timer_active := False\<rparr>))"
      using 2 st'(1) by (simp add: tcpip_tcp_timer_def sys_timeout_def fn_of_def next_due_def interval_of_def TCP_TMR_INTERVAL_def Let_def)
    have id: "timer_id x = tcp_id" using 2 by (simp add: timer_id_def tcp_id_def)
    then have "active_ids st - {timer_id x} = cyclic_ids" using p(2) all_ids(3) by (auto simp: active_ids_def split: if_splits)
    then have "timers_ok (?st\<lparr>tcpip_tcp_timer_active := False\<rparr>)" using inv by (simp add: timers_ok_def active_ids_def timers_inv_def)
    then show ?thesis using h st'(3-5) ok' id by (cases "tcp_pcbs ?st") auto
  qed
qed

section \<open>Processing the due timers\<close>

text \<open>From the \<open>k\<close>th call on the handlers do not run across the wrap-around of the system time.\<close>

definition steady :: "tmr_env \<Rightarrow> nat \<Rightarrow> systime \<Rightarrow> bool" where
  "steady env k t \<longleftrightarrow> t \<noteq> 0 \<and> (\<forall>n. uint t + (\<Sum>i<n. uint (fst (env (k + i)))) < 4294967296)"

lemma uint_word32_pos: "t \<noteq> 0 \<longleftrightarrow> 1 \<le> uint (t :: u32)"
proof -
  have "t = 0 \<longleftrightarrow> uint t = 0" by (simp add: uint_0_iff)
  then show ?thesis using uint32_range(1) [of t] by linarith
qed

lemma steady_step:
  assumes "steady env k t"
  shows "steady env (Suc k) (t + fst (env k))" "sys_now t \<le> sys_now (t + fst (env k))"
proof -
  let ?d = "fst (env k)"
  have n: "uint t + (\<Sum>i<n. uint (fst (env (k + i)))) < 4294967296" for n using assms by (simp add: steady_def)
  have u: "uint (t + ?d) = uint t + uint ?d" using n [of 1] uint32_range(1) [of t] uint32_range(1) [of ?d] by (simp add: uint_word_ariths(1))
  have "t \<noteq> 0" using assms by (simp add: steady_def)
  then have nz: "t \<noteq> 0" "t + ?d \<noteq> 0" using u uint32_range(1) [of ?d] unfolding uint_word32_pos by linarith+
  have "uint (t + ?d) + (\<Sum>i<n. uint (fst (env (Suc k + i)))) < 4294967296" for n
    using n [of "Suc n"] unfolding u by (simp add: sum.lessThan_Suc_shift del: sum.lessThan_Suc)
  then show "steady env (Suc k) (t + ?d)" using nz by (simp add: steady_def)
  show "sys_now t \<le> sys_now (t + ?d)"
    using nz zdiv_mono1 [of "uint t - 1" "uint t + uint ?d - 1" 100] uint32_range(1) [of ?d] by (simp add: word_le_def uint_sys_now u)
qed

text \<open>How far the timers are behind: it shrinks each time one fires.\<close>

definition backlog :: "u32 \<Rightarrow> sys_timeo list \<Rightarrow> nat" where
  "backlog now xs = sum_mset (image_mset (\<lambda>x. Suc (unat now) - unat (to_time x)) (mset xs))"

definition due :: "u32 \<Rightarrow> sys_timeo list \<Rightarrow> sys_timeo set" where
  "due now xs = {x \<in> set xs. to_time x \<le> now}"

lemma check_loop_stops:
  assumes "timers_ok st" and "uint now \<le> 42949673" and "due now (next_timeout st) = {}"
  shows "check_loop env now st = Some st"
proof (cases "next_timeout st")
  case (Cons x ts)
  then have "timeo_small x" "now < to_time x" using assms by (auto simp: timers_ok_def timers_inv_def due_def)
  then have "TIME_LESS_THAN now (to_time x)" using assms(2) by (simp add: TIME_LESS_THAN_small timeo_small_def)
  then show ?thesis using Cons by (subst check_loop.simps) simp
qed (subst check_loop.simps, simp)

lemma check_loop_fires:
  assumes "timers_ok st" and "uint now \<le> 42949673" and "next_timeout st = x # ts" and "to_time x \<le> now"
  shows "check_loop env now st = Option.bind (run_handler env (to_h x) (to_arg x) (popped x ts st)) (check_loop env now)"
proof -
  have "timeo_small x" using assms(1,3) by (simp add: timers_ok_def timers_inv_def)
  then have "\<not> TIME_LESS_THAN now (to_time x)" using assms(2,4) by (simp add: TIME_LESS_THAN_small timeo_small_def not_less)
  then show ?thesis using assms(3) by (subst check_loop.simps) (simp add: popped_def)
qed

lemma due_head:
  assumes "timers_ok st" and "due now (next_timeout st) \<noteq> {}"
  obtains x ts where "next_timeout st = x # ts" "to_time x \<le> now"
  using assms by (cases "next_timeout st") (auto simp: timers_ok_def timers_inv_def due_def)

lemma check_loop_spec:
  assumes "timers_ok st" and "uint now \<le> 42949673" and "steady env (length (tm_calls st)) (tm_time st)" and "now \<le> tm_now st"
  shows "\<exists>st' calls. check_loop env now st = Some st' \<and> timers_ok st' \<and> steady env (length (tm_calls st')) (tm_time st') \<and>
    tm_now st \<le> tm_now st' \<and> due now (next_timeout st') = {} \<and> tm_calls st' = tm_calls st @ calls \<and>
    fst ` set calls = fn_of ` due now (next_timeout st) \<and>
    set (next_timeout st) - due now (next_timeout st) \<subseteq> set (next_timeout st')"
  using assms
proof (induction "backlog now (next_timeout st)" arbitrary: st rule: less_induct)
  case less
  show ?case
  proof (cases "due now (next_timeout st) = {}")
    case True
    then show ?thesis using check_loop_stops [OF less.prems(1,2) True] less.prems by auto
  next
    case False
    obtain x ts where nt: "next_timeout st = x # ts" "to_time x \<le> now" using due_head [OF less.prems(1) False] .
    have late: "uint (to_time x) \<le> 42949673" using nt(2) less.prems(2) by (simp add: word_le_def)
    obtain st1 ys where f: "run_handler env (to_h x) (to_arg x) (popped x ts st) = Some st1" "timers_ok st1"
      "tm_calls st1 = tm_calls st @ [(fn_of x, tm_time st)]" "tm_time st1 = tm_time st + fst (env (length (tm_calls st)))"
      "mset (next_timeout st1) = ys + mset ts"
      "ys = {#} \<or> ys = {#\<lparr>to_time = next_due x (tm_now st1), to_h = to_h x, to_arg = to_arg x\<rparr>#}"
      using fire_ok [OF less.prems(1) nt(1) late, of env] by blast
    have st1: "steady env (length (tm_calls st1)) (tm_time st1)" "tm_now st \<le> tm_now st1"
      using steady_step [OF less.prems(3)] f(3,4) by (simp_all add: tm_now_def)
    have now1: "now \<le> tm_now st1" using less.prems(4) st1(2) by simp
    have id: "timer_id x \<in> insert tcp_id cyclic_ids" using popped_inv(2) [OF less.prems(1) nt(1)] active_ids_sub [of st] by blast
    have "to_time x < next_due x (tm_now st1)"
      using next_due_uint(2) [OF id late] nt(2) now1 by (simp add: tm_now_def sys_now_max)
    then have "backlog now (next_timeout st1) < backlog now (next_timeout st)"
      using f(5,6) nt by (auto simp: backlog_def word_less_nat_alt word_le_nat_alt)
    from less.hyps [OF this f(2) less.prems(2) st1(1) now1]
    obtain st' calls where g: "check_loop env now st1 = Some st'" "timers_ok st'" "steady env (length (tm_calls st')) (tm_time st')"
      "tm_now st1 \<le> tm_now st'" "due now (next_timeout st') = {}" "tm_calls st' = tm_calls st1 @ calls"
      "fst ` set calls = fn_of ` due now (next_timeout st1)" "set (next_timeout st1) - due now (next_timeout st1) \<subseteq> set (next_timeout st')"
      by blast
    have s: "set (next_timeout st1) = set_mset ys \<union> set ts" using arg_cong [OF f(5), of set_mset] by simp
    have "fn_of y = fn_of x" if "y \<in># ys" for y using f(6) that by (auto simp: fn_of_def split: option.splits tmo_handler.splits)
    then have "insert (fn_of x) (fn_of ` due now (next_timeout st1)) = fn_of ` due now (next_timeout st)"
      using nt s by (auto simp: due_def)
    moreover have "set (next_timeout st) - due now (next_timeout st) \<subseteq> set (next_timeout st1) - due now (next_timeout st1)"
      using nt s by (auto simp: due_def)
    moreover have "check_loop env now st = Some st'" using check_loop_fires [OF less.prems(1,2) nt] f(1) g(1) by simp
    ultimately show ?thesis
      using g st1(2) f(3) by (intro exI [of _ st'] exI [of _ "(fn_of x, tm_time st) # calls"]) auto
  qed
qed

lemma sys_check_timeouts_spec:
  assumes "timers_ok st" and "steady env (length (tm_calls st)) (tm_time st)"
  shows "\<exists>st' calls. sys_check_timeouts env st = Some st' \<and> timers_ok st' \<and> steady env (length (tm_calls st')) (tm_time st') \<and>
    tm_now st \<le> tm_now st' \<and> due (tm_now st) (next_timeout st') = {} \<and> tm_calls st' = tm_calls st @ calls \<and>
    fst ` set calls = fn_of ` due (tm_now st) (next_timeout st) \<and>
    set (next_timeout st) - due (tm_now st) (next_timeout st) \<subseteq> set (next_timeout st')"
  using check_loop_spec [OF assms(1) _ assms(2), of "tm_now st"] by (simp add: sys_check_timeouts_def tm_now_def sys_now_max)

section \<open>Reachable states\<close>

text \<open>
  What happens to the timers from their start on: they are served, TCP registers a connection, and
  time passes, in any order and with any clock.
\<close>

inductive timers_reach :: "timers \<Rightarrow> bool" where
  Init: "sys_timeouts_init (timers_reset t) = Some st \<Longrightarrow> timers_reach st"
| Check: "timers_reach st \<Longrightarrow> sys_check_timeouts env st = Some st' \<Longrightarrow> timers_reach st'"
| Needed: "timers_reach st \<Longrightarrow> tcp_timer_needed (st\<lparr>tcp_pcbs := b\<rparr>) = Some st' \<Longrightarrow> timers_reach st'"
| Time: "timers_reach st \<Longrightarrow> timers_reach (st\<lparr>tm_time := t\<rparr>)"

lemma start_cyclic_ok:
  assumes "timers_inv A st" and "A \<subseteq> insert tcp_id cyclic_ids" and "i \<in> {1..<length lwip_cyclic_timers}"
    and "(Some lwip_cyclic_timer_h, i) \<notin> A"
  shows "\<exists>st'. start_cyclic st i = Some st' \<and> timers_inv (insert (Some lwip_cyclic_timer_h, i) A) st' \<and>
    tcpip_tcp_timer_active st' = tcpip_tcp_timer_active st"
proof -
  let ?x = "\<lparr>to_time = 0, to_h = Some lwip_cyclic_timer_h, to_arg = i\<rparr>"
  have id: "timer_id ?x \<in> insert tcp_id cyclic_ids" using assms(3) by (auto simp: timer_id_def cyclic_ids_def)
  have iv: "uint (fst (lwip_cyclic_timers ! i)) \<le> 60000" using interval_range [OF id] by (simp add: interval_of_def)
  then have "uint (tm_now st + fst (lwip_cyclic_timers ! i)) \<le> 43009673"
    using sys_now_max [of "tm_time st"] by (simp add: uint_add_small tm_now_def)
  from sys_timeout_abs_ok [OF assms(1,2) _ assms(4) this] id
  show ?thesis using iv by (auto simp: start_cyclic_def sys_timeout_def timer_id_def word_le_def)
qed

lemma start_all_ok:
  "timers_inv A st \<Longrightarrow> A \<subseteq> insert tcp_id cyclic_ids \<Longrightarrow> set is \<subseteq> {1..<length lwip_cyclic_timers} \<Longrightarrow> distinct is \<Longrightarrow>
     A \<inter> Pair (Some lwip_cyclic_timer_h) ` set is = {} \<Longrightarrow>
     \<exists>st'. run_calls start_cyclic st is = Some st' \<and> timers_inv (A \<union> Pair (Some lwip_cyclic_timer_h) ` set is) st' \<and>
       tcpip_tcp_timer_active st' = tcpip_tcp_timer_active st"
proof (induction "is" arbitrary: A st)
  case (Cons i "is")
  let ?i = "(Some lwip_cyclic_timer_h, i)"
  obtain st1 where st1: "start_cyclic st i = Some st1" "timers_inv (insert ?i A) st1"
    "tcpip_tcp_timer_active st1 = tcpip_tcp_timer_active st"
    using start_cyclic_ok [OF Cons.prems(1,2), of i] Cons.prems(3,5) by auto
  have "insert ?i A \<subseteq> insert tcp_id cyclic_ids" using Cons.prems(2,3) by (auto simp: cyclic_ids_def)
  from Cons.IH [OF st1(2) this] Cons.prems show ?case using st1 by auto
qed simp

lemma sys_timeouts_init_ok: "\<exists>st. sys_timeouts_init (timers_reset t) = Some st \<and> timers_ok st \<and> \<not> tcpip_tcp_timer_active st"
  using start_all_ok [of "{}" "timers_reset t" "[1..<length lwip_cyclic_timers]"]
  by (auto simp: sys_timeouts_init_def timers_ok_def active_ids_def cyclic_ids_def timers_reset_def timers_inv_def)

lemma tcp_timer_needed_ok:
  assumes "timers_ok st"
  shows "\<exists>st'. tcp_timer_needed st = Some st' \<and> timers_ok st'"
proof (cases "\<not> tcpip_tcp_timer_active st \<and> tcp_pcbs st")
  case True
  let ?st = "st\<lparr>tcpip_tcp_timer_active := True\<rparr>"
  have "timers_inv cyclic_ids ?st" using assms True by (simp add: timers_ok_def active_ids_def timers_inv_def)
  moreover have "uint (tm_now ?st + TCP_TMR_INTERVAL) \<le> 43009673"
    using sys_now_max [of "tm_time st"] by (simp add: uint_add_small tm_now_def TCP_TMR_INTERVAL_def)
  ultimately obtain st' where "sys_timeout_abs (tm_now ?st + TCP_TMR_INTERVAL) (Some tcpip_tcp_timer_h) 0 ?st = Some st'"
    "timers_inv (insert tcp_id cyclic_ids) st'" "tcpip_tcp_timer_active st'"
    using sys_timeout_abs_ok [of cyclic_ids ?st "Some tcpip_tcp_timer_h" 0] all_ids(3) by (auto simp: tcp_id_def)
  then show ?thesis using True by (auto simp: tcp_timer_needed_def sys_timeout_def timers_ok_def active_ids_def TCP_TMR_INTERVAL_def)
qed (use assms in \<open>auto simp: tcp_timer_needed_def\<close>)

lemma check_loop_keeps:
  assumes "check_loop env now st = Some st'" and "timers_ok st" and "uint now \<le> 42949673"
  shows "timers_ok st'"
  using assms
proof (induction rule: check_loop.raw_induct [rotated 1, consumes 1])
  case (1 loop env now st st')
  show ?case
  proof (cases "next_timeout st")
    case (Cons x ts)
    show ?thesis
    proof (cases "TIME_LESS_THAN now (to_time x)")
      case False
      have "timeo_small x" using 1(3) Cons by (simp add: timers_ok_def timers_inv_def)
      then have "uint (to_time x) \<le> 42949673"
        using False 1(4) by (simp add: TIME_LESS_THAN_small timeo_small_def not_less word_le_def)
      from fire_ok [OF 1(3) Cons this, of env] obtain st1 where
        "run_handler env (to_h x) (to_arg x) (popped x ts st) = Some st1" "timers_ok st1" by blast
      then show ?thesis using 1 Cons False by (auto simp: popped_def)
    qed (use 1 Cons in auto)
  qed (use 1 in auto)
qed

lemma timers_reach_ok: "timers_reach st \<Longrightarrow> timers_ok st"
proof (induction rule: timers_reach.induct)
  case (Init t st)
  then show ?case using sys_timeouts_init_ok [of t] by auto
next
  case (Check st env st')
  then show ?case using check_loop_keeps by (auto simp: sys_check_timeouts_def tm_now_def sys_now_max)
next
  case (Needed st b st')
  have "timers_ok (st\<lparr>tcp_pcbs := b\<rparr>)" using Needed.IH by (simp add: timers_ok_def active_ids_def timers_inv_def)
  then show ?case using tcp_timer_needed_ok Needed.hyps(2) by fastforce
next
  case (Time st t)
  then show ?case by (simp add: timers_ok_def active_ids_def timers_inv_def)
qed

section \<open>The end of the clock\<close>

text \<open>A timer that is due behind the end of the clock is never found due.\<close>

lemma timers_dead:
  assumes "timers_ok st" and "\<forall>x \<in> set (next_timeout st). 42949673 < uint (to_time x)"
  shows "sys_check_timeouts env (st\<lparr>tm_time := t\<rparr>) = Some (st\<lparr>tm_time := t\<rparr>)"
proof -
  let ?st = "st\<lparr>tm_time := t\<rparr>"
  have "timers_ok ?st" using assms(1) by (simp add: timers_ok_def active_ids_def timers_inv_def)
  moreover have "due (tm_now ?st) (next_timeout ?st) = {}"
    using assms(2) sys_now_max [of t] by (force simp: due_def tm_now_def word_le_def)
  ultimately show ?thesis
    unfolding sys_check_timeouts_def by (intro check_loop_stops) (simp_all add: tm_now_def sys_now_max)
qed

lemma timers_stop:
  assumes "timers_ok st" and "sys_now (tm_time st) = 42949673" and "steady env (length (tm_calls st)) (tm_time st)"
  shows "\<exists>st'. sys_check_timeouts env st = Some st' \<and> timers_ok st' \<and>
    (\<forall>env' t. sys_check_timeouts env' (st'\<lparr>tm_time := t\<rparr>) = Some (st'\<lparr>tm_time := t\<rparr>))"
proof -
  obtain st' where st': "sys_check_timeouts env st = Some st'" "timers_ok st'" "due (tm_now st) (next_timeout st') = {}"
    using sys_check_timeouts_spec [OF assms(1,3)] by blast
  have "\<forall>x \<in> set (next_timeout st'). 42949673 < uint (to_time x)"
    using st'(3) by (auto simp: due_def tm_now_def assms(2) word_le_def)
  then show ?thesis using st' timers_dead by blast
qed

section \<open>Waiting for messages\<close>

lemma sleeptime_due:
  assumes "timers_ok st"
  shows "sys_timeouts_sleeptime st =
    Some (case next_timeout st of [] \<Rightarrow> SYS_TIMEOUTS_SLEEPTIME_INFINITE
          | x # xs \<Rightarrow> if to_time x \<le> tm_now st then 0 else to_time x - tm_now st)"
proof (cases "next_timeout st")
  case (Cons x xs)
  have s: "uint (to_time x) \<le> 43009673" "uint (tm_now st) \<le> 42949673"
    using assms Cons by (auto simp: timers_ok_def timers_inv_def timeo_small_def tm_now_def sys_now_max)
  then have l: "TIME_LESS_THAN (to_time x) (tm_now st) \<longleftrightarrow> to_time x < tm_now st" by (intro TIME_LESS_THAN_small) simp_all
  have r: "to_time x - tm_now st \<le> LWIP_MAX_TIMEOUT" if "tm_now st \<le> to_time x"
  proof -
    have "uint (to_time x - tm_now st) = uint (to_time x) - uint (tm_now st)"
      using that uint_sub_if_size [of "to_time x" "tm_now st"] by (simp add: word_le_def)
    moreover have "uint (to_time x) - uint (tm_now st) \<le> 2147483647" using s uint32_range(1) [of "tm_now st"] by linarith
    ultimately show ?thesis by (simp add: LWIP_MAX_TIMEOUT_def word_le_def)
  qed
  show ?thesis using Cons l r by (auto simp: sys_timeouts_sleeptime_def Let_def not_less order.order_iff_strict)
qed (simp add: sys_timeouts_sleeptime_def)

lemma mbox_fetch_ready:
  assumes "os_mbox os a = Some mbp" and "mb_live mbp" and "mb_items mbp = x # xs"
  shows "\<exists>res rest os' mbp'. sys_arch_mbox_fetch self start stop slices (Some a) timeout os = Some (res, Some x, rest, os') \<and>
    res \<noteq> SYS_ARCH_TIMEOUT \<and> os_mbox os' = (os_mbox os)(a \<mapsto> mbp') \<and> mb_live mbp' \<and> mb_items mbp' = xs"
proof -
  obtain mbp' where m: "mb_fetch mbp = Some (x, mbp')" "mb_ok mbp'" "mb_items mbp' = xs" "mb_reset mbp' = mb_reset mbp"
    using mb_fetch_item [of mbp x xs] assms(2,3) by (auto simp: mb_live_def)
  have "chMBFetchTimeoutS self (sys_timeout_ticks timeout) slices mbp = Some (Inr x, slices, mbp')"
    using m(1) assms(2,3) mb_used [of mbp] by (simp add: chMBFetchTimeoutS.simps mb_live_def)
  then show ?thesis
    using m assms elapsed_not_timeout [of "chTimeDiffX start stop"]
    by (auto simp: sys_arch_mbox_fetch_def mb_live_def Let_def)
qed

lemma tcpip_fetch_idle:
  assumes ok: "timers_ok st" and idle: "due (tm_now st) (next_timeout st) = {}"
    and m: "os_mbox os a = Some mbp" "mb_live mbp" "mb_items mbp = x # xs"
  shows "\<exists>os' mbp'. tcpip_timeouts_mbox_fetch env self (Some a) ((slices, stop) # ins) st os = Some (Some x, ins, st\<lparr>tm_time := stop\<rparr>, os') \<and>
    os_mbox os' = (os_mbox os)(a \<mapsto> mbp') \<and> mb_live mbp' \<and> mb_items mbp' = xs"
proof -
  obtain s where s: "sys_timeouts_sleeptime st = Some s" "s \<noteq> 0"
  proof (cases "next_timeout st")
    case Nil
    then show ?thesis using sleeptime_due [OF ok] that by (simp add: SYS_TIMEOUTS_SLEEPTIME_INFINITE_def)
  next
    case (Cons y ys)
    then have "\<not> to_time y \<le> tm_now st" using idle by (auto simp: due_def)
    moreover from this have "to_time y - tm_now st \<noteq> 0" by auto
    ultimately show ?thesis using sleeptime_due [OF ok] Cons that [of "to_time y - tm_now st"] by simp
  qed
  show ?thesis
    using s mbox_fetch_ready [OF m, of self "tm_time st" stop slices 0] mbox_fetch_ready [OF m, of self "tm_time st" stop slices s]
    by (subst tcpip_timeouts_mbox_fetch.simps) auto
qed

text \<open>A message that is there is delivered, after the timers that are due.\<close>

lemma tcpip_fetch_serves:
  assumes "timers_ok st" and "steady env (length (tm_calls st)) (tm_time st)"
    and m: "os_mbox os a = Some mbp" "mb_live mbp" "mb_items mbp = x # xs"
  shows "\<exists>st' os' mbp' calls. tcpip_timeouts_mbox_fetch env self (Some a) ((slices, stop) # ins) st os = Some (Some x, ins, st'\<lparr>tm_time := stop\<rparr>, os') \<and>
    timers_ok st' \<and> tm_calls st' = tm_calls st @ calls \<and> fn_of ` due (tm_now st) (next_timeout st) \<subseteq> fst ` set calls \<and>
    os_mbox os' = (os_mbox os)(a \<mapsto> mbp') \<and> mb_live mbp' \<and> mb_items mbp' = xs"
  using assms(1,2)
proof (induction "42949674 - unat (tm_now st)" arbitrary: st rule: less_induct)
  case less
  let ?f = "tcpip_timeouts_mbox_fetch env self (Some a) ((slices, stop) # ins)"
  show ?case
  proof (cases "due (tm_now st) (next_timeout st) = {}")
    case True
    obtain os' mbp' where "?f st os = Some (Some x, ins, st\<lparr>tm_time := stop\<rparr>, os')" "os_mbox os' = (os_mbox os)(a \<mapsto> mbp')"
      "mb_live mbp'" "mb_items mbp' = xs" using tcpip_fetch_idle [OF less.prems(1) True m, of env self slices stop ins] by blast
    then show ?thesis using True less.prems(1) by (intro exI [of _ st] exI [of _ os'] exI [of _ mbp'] exI [of _ "[]"]) simp
  next
    case False
    obtain y ys where y: "next_timeout st = y # ys" "to_time y \<le> tm_now st" using due_head [OF less.prems(1) False] .
    obtain st1 calls where c: "sys_check_timeouts env st = Some st1" "timers_ok st1" "steady env (length (tm_calls st1)) (tm_time st1)"
      "tm_now st \<le> tm_now st1" "due (tm_now st) (next_timeout st1) = {}" "tm_calls st1 = tm_calls st @ calls"
      "fst ` set calls = fn_of ` due (tm_now st) (next_timeout st)"
      using sys_check_timeouts_spec [OF less.prems] by blast
    have again: "?f st os = ?f st1 os"
      using sleeptime_due [OF less.prems(1)] y c(1)
      by (subst tcpip_timeouts_mbox_fetch.simps) (simp add: SYS_TIMEOUTS_SLEEPTIME_INFINITE_def)
    show ?thesis
    proof (cases "due (tm_now st1) (next_timeout st1) = {}")
      case True
      then show ?thesis
        using tcpip_fetch_idle [OF c(2) True m, of env self slices stop ins] c(2,6,7) unfolding again by blast
    next
      case False
      then have "tm_now st \<noteq> tm_now st1" using c(5) by auto
      then have "tm_now st < tm_now st1" using c(4) by (rule order.not_eq_order_implies_strict)
      then have "unat (tm_now st) < unat (tm_now st1)" by (simp only: word_less_nat_alt)
      moreover have "int (unat (tm_now st1)) \<le> 42949673" using sys_now_max [of "tm_time st1"] by (simp add: tm_now_def)
      ultimately have "42949674 - unat (tm_now st1) < 42949674 - unat (tm_now st)" by linarith
      from less.hyps [OF this c(2,3)]
      obtain st' os' mbp' calls' where f: "?f st1 os = Some (Some x, ins, st'\<lparr>tm_time := stop\<rparr>, os')" "timers_ok st'"
        "tm_calls st' = tm_calls st1 @ calls'" "os_mbox os' = (os_mbox os)(a \<mapsto> mbp')" "mb_live mbp'" "mb_items mbp' = xs" by blast
      then show ?thesis unfolding again using c(6,7)
        by (intro exI [of _ st'] exI [of _ os'] exI [of _ mbp'] exI [of _ "calls @ calls'"]) auto
    qed
  qed
qed

end
