(* ===== verification/Sched.thy ===== *)
theory Sched
  imports Queues
begin

text \<open>
  The scheduler of the kernel, \<open>chschd.c\<close> with the priority queues of \<open>chlists.h\<close>, for one core and
  without round robin (\<open>CH_CFG_TIME_QUANTUM\<close> is 0). A thread structure is found by its number;
  those that do not exist are in state \<open>TFinal\<close>. \<open>TSleeping\<close> stands for all waiting states but the
  wait for a mutex, the wait on a thread reference (\<open>TSuspended\<close>, with the number of the reference), the
  waits for events (with their mask) and the wait of a new thread for its start. The owned mutexes of a thread, linked through \<open>next\<close> in the code, are a list
  with the last one locked first. \<open>None\<close> is a failed assertion, or a scan that
  does not end. The fields of messages and hooks of the
  idle thread are left out.
\<close>

datatype tstate = TReady | TCurrent | TWtstart | TSuspended nat | TWtmtx nat | TSleeping | TWtorevt u32 | TWtandevt u32 | TFinal

record thread =
  thd_prio :: nat
  thd_realprio :: nat
  thd_state :: tstate
  thd_mtxlist :: "nat list"

record mutex =
  mtx_queue :: "tid list"
  mtx_owner :: "tid option"

record kernel =
  k_thd :: "tid \<Rightarrow> thread"
  k_mtx :: "nat \<Rightarrow> mutex"
  k_ready :: "tid list"
  k_curr :: tid
  k_idle :: tid

definition prio :: "kernel \<Rightarrow> tid \<Rightarrow> nat" where "prio k t = thd_prio (k_thd k t)"
definition tstate_of :: "kernel \<Rightarrow> tid \<Rightarrow> tstate" where "tstate_of k t = thd_state (k_thd k t)"

definition set_state :: "tid \<Rightarrow> tstate \<Rightarrow> kernel \<Rightarrow> kernel" where
  "set_state t s k = k\<lparr>k_thd := (k_thd k)(t := (k_thd k t)\<lparr>thd_state := s\<rparr>)\<rparr>"

definition set_prio :: "tid \<Rightarrow> nat \<Rightarrow> kernel \<Rightarrow> kernel" where
  "set_prio t p k = k\<lparr>k_thd := (k_thd k)(t := (k_thd k t)\<lparr>thd_prio := p\<rparr>)\<rparr>"

section \<open>Priority queues\<close>

fun insert_behind :: "(tid \<Rightarrow> nat) \<Rightarrow> tid \<Rightarrow> tid list \<Rightarrow> tid list" where
  "insert_behind p t [] = [t]"
| "insert_behind p t (c # cs) = (if p c \<ge> p t then c # insert_behind p t cs else t # c # cs)"

fun insert_ahead :: "(tid \<Rightarrow> nat) \<Rightarrow> tid \<Rightarrow> tid list \<Rightarrow> tid list" where
  "insert_ahead p t [] = [t]"
| "insert_ahead p t (c # cs) = (if p c > p t then c # insert_ahead p t cs else t # c # cs)"

definition firstprio :: "kernel \<Rightarrow> nat" where
  "firstprio k = (case k_ready k of [] \<Rightarrow> 0 | t # ts \<Rightarrow> prio k t)"

text \<open>
  The scan of \<open>ch_pqueue_insert_behind\<close> ends at the latest at the header of the list, which has
  priority 0: for a thread of priority 0 it never ends.
\<close>

definition sch_ready_behind :: "tid \<Rightarrow> kernel \<Rightarrow> kernel option" where
  "sch_ready_behind t k =
     (if tstate_of k t \<in> {TReady, TFinal} \<or> prio k t = 0 then None
      else let k = set_state t TReady k in Some (k\<lparr>k_ready := insert_behind (prio k) t (k_ready k)\<rparr>))"

definition sch_ready_ahead :: "tid \<Rightarrow> kernel \<Rightarrow> kernel option" where
  "sch_ready_ahead t k =
     (if tstate_of k t \<in> {TReady, TFinal} then None
      else let k = set_state t TReady k in Some (k\<lparr>k_ready := insert_ahead (prio k) t (k_ready k)\<rparr>))"

definition pick_first :: "kernel \<Rightarrow> kernel option" where
  "pick_first k =
     (case k_ready k of [] \<Rightarrow> None | ntp # r \<Rightarrow> Some ((set_state ntp TCurrent k)\<lparr>k_ready := r, k_curr := ntp\<rparr>))"

definition sch_reschedule_behind :: "kernel \<Rightarrow> kernel option" where
  "sch_reschedule_behind k = Option.bind (pick_first k) (sch_ready_behind (k_curr k))"

definition sch_reschedule_ahead :: "kernel \<Rightarrow> kernel option" where
  "sch_reschedule_ahead k = Option.bind (pick_first k) (sch_ready_ahead (k_curr k))"

section \<open>Operations\<close>

definition chSchReadyI :: "tid \<Rightarrow> kernel \<Rightarrow> kernel option" where
  "chSchReadyI t k = sch_ready_behind t k"

definition chSchGoSleepS :: "tstate \<Rightarrow> kernel \<Rightarrow> kernel option" where
  "chSchGoSleepS newstate k = (if k_curr k = k_idle k then None else pick_first (set_state (k_curr k) newstate k))"

definition chSchWakeupS :: "tid \<Rightarrow> kernel \<Rightarrow> kernel option" where
  "chSchWakeupS ntp k =
     (if \<not> (k_ready k = [] \<or> prio k (k_curr k) \<ge> firstprio k) then None
      else if prio k ntp \<le> prio k (k_curr k) then sch_ready_behind ntp k
      else do { k \<leftarrow> sch_ready_ahead (k_curr k) k;
                Some ((set_state ntp TCurrent k)\<lparr>k_curr := ntp\<rparr>) })"

definition chSchRescheduleS :: "kernel \<Rightarrow> kernel option" where
  "chSchRescheduleS k = (if firstprio k > prio k (k_curr k) then sch_reschedule_ahead k else Some k)"

definition chSchIsPreemptionRequired :: "kernel \<Rightarrow> bool" where
  "chSchIsPreemptionRequired k \<longleftrightarrow> firstprio k > prio k (k_curr k)"

definition chSchDoPreemption :: "kernel \<Rightarrow> kernel option" where
  "chSchDoPreemption k = Option.bind (pick_first k) (sch_ready_ahead (k_curr k))"

definition chSchPreemption :: "kernel \<Rightarrow> kernel option" where
  "chSchPreemption k = (if firstprio k > prio k (k_curr k) then sch_reschedule_ahead k else Some k)"

definition chSchDoYieldS :: "kernel \<Rightarrow> kernel option" where
  "chSchDoYieldS k = (if firstprio k \<ge> prio k (k_curr k) then sch_reschedule_behind k else Some k)"

definition chSchSelectFirst :: "kernel \<Rightarrow> kernel option" where
  "chSchSelectFirst k = Option.bind (pick_first k) (sch_ready_ahead (k_curr k))"

section \<open>Queues in order of priority\<close>

definition in_order :: "(tid \<Rightarrow> nat) \<Rightarrow> tid list \<Rightarrow> bool" where
  "in_order p q \<longleftrightarrow> sorted_wrt (\<lambda>a b. p b \<le> p a) q"

lemma in_order_simps [simp]: "in_order p []" "in_order p (t # q) \<longleftrightarrow> (\<forall>u \<in> set q. p u \<le> p t) \<and> in_order p q"
  by (simp_all add: in_order_def)

lemma set_insert_prio [simp]: "set (insert_behind p t q) = insert t (set q)" "set (insert_ahead p t q) = insert t (set q)"
  by (induction q) auto

lemma distinct_insert_prio [simp]:
  "distinct (insert_behind p t q) \<longleftrightarrow> t \<notin> set q \<and> distinct q" "distinct (insert_ahead p t q) \<longleftrightarrow> t \<notin> set q \<and> distinct q"
  by (induction q) auto

lemma in_order_insert: "in_order p q \<Longrightarrow> in_order p (insert_behind p t q)" "in_order p q \<Longrightarrow> in_order p (insert_ahead p t q)"
  by (induction q) auto

lemma in_order_remove1: "in_order p q \<Longrightarrow> in_order p (remove1 t q)"
  by (induction q) (auto dest: subsetD [OF set_remove1_subset, rotated])

lemma in_order_cong: "(\<And>u. u \<in> set q \<Longrightarrow> p u = p' u) \<Longrightarrow> in_order p q = in_order p' q"
  by (induction q) auto

lemma firstprio_max: "in_order (prio k) (k_ready k) \<Longrightarrow> t \<in> set (k_ready k) \<Longrightarrow> prio k t \<le> firstprio k"
  by (cases "k_ready k") (auto simp: firstprio_def)

lemma set_fields [simp]:
  "prio (set_state t s k) = prio k" "tstate_of (set_state t s k) = (tstate_of k)(t := s)"
  "prio (set_prio t p k) = (prio k)(t := p)" "tstate_of (set_prio t p k) = tstate_of k"
  "k_mtx (set_state t s k) = k_mtx k" "k_ready (set_state t s k) = k_ready k" "k_curr (set_state t s k) = k_curr k" "k_idle (set_state t s k) = k_idle k"
  "k_mtx (set_prio t p k) = k_mtx k" "k_ready (set_prio t p k) = k_ready k" "k_curr (set_prio t p k) = k_curr k" "k_idle (set_prio t p k) = k_idle k"
  "thd_mtxlist (k_thd (set_state t s k) u) = thd_mtxlist (k_thd k u)" "thd_realprio (k_thd (set_state t s k) u) = thd_realprio (k_thd k u)"
  "thd_mtxlist (k_thd (set_prio t p k) u) = thd_mtxlist (k_thd k u)" "thd_realprio (k_thd (set_prio t p k) u) = thd_realprio (k_thd k u)"
  by (auto simp: set_state_def set_prio_def prio_def tstate_of_def fun_eq_iff)

lemma prio_update [simp]: "prio (k\<lparr>k_ready := r\<rparr>) = prio k" "prio (k\<lparr>k_curr := c\<rparr>) = prio k" "prio (k\<lparr>k_mtx := m\<rparr>) = prio k"
  "tstate_of (k\<lparr>k_ready := r\<rparr>) = tstate_of k" "tstate_of (k\<lparr>k_curr := c\<rparr>) = tstate_of k" "tstate_of (k\<lparr>k_mtx := m\<rparr>) = tstate_of k"
  by (simp_all add: prio_def tstate_of_def fun_eq_iff)

section \<open>The invariant of the scheduler\<close>

text \<open>
  One thread is running, the ready list holds the ready threads in order of priority, the idle
  thread is always one of them or running, and no thread has priority 0.
\<close>

definition sched_ok :: "kernel \<Rightarrow> bool" where
  "sched_ok k \<longleftrightarrow> (\<forall>t. tstate_of k t = TCurrent \<longleftrightarrow> t = k_curr k) \<and> distinct (k_ready k) \<and>
     set (k_ready k) = {t. tstate_of k t = TReady} \<and> in_order (prio k) (k_ready k) \<and>
     tstate_of k (k_idle k) \<in> {TReady, TCurrent} \<and> (\<forall>t. tstate_of k t \<noteq> TFinal \<longrightarrow> 0 < prio k t)"

text \<open>The running thread has the highest priority of those that can run.\<close>

definition first_runs :: "kernel \<Rightarrow> bool" where
  "first_runs k \<longleftrightarrow> (\<forall>t \<in> set (k_ready k). prio k t \<le> prio k (k_curr k))"

text \<open>What the scheduler leaves alone: mutexes, base priorities, who waits for what.\<close>

definition same_locks :: "kernel \<Rightarrow> kernel \<Rightarrow> bool" where
  "same_locks k k' \<longleftrightarrow> k_mtx k' = k_mtx k \<and> k_idle k' = k_idle k \<and>
     (\<forall>u. thd_mtxlist (k_thd k' u) = thd_mtxlist (k_thd k u) \<and> thd_realprio (k_thd k' u) = thd_realprio (k_thd k u))"

definition runnable :: "kernel \<Rightarrow> tid set" where
  "runnable k = {t. tstate_of k t = TReady \<or> tstate_of k t = TCurrent}"

text \<open>
  What a call of the thread \<open>c\<close> does to the state of the others: they may be created, or become able to run unless
  they are suspended, on a reference or until an event.
\<close>

fun suspended :: "tstate \<Rightarrow> bool" where
  "suspended (TSuspended r) = True"
| "suspended (TWtorevt m) = True"
| "suspended (TWtandevt m) = True"
| "suspended _ = False"

definition calm :: "tid \<Rightarrow> kernel \<Rightarrow> kernel \<Rightarrow> bool" where
  "calm c k k' \<longleftrightarrow> \<not> suspended (tstate_of k' c) \<and>
     (\<forall>t. t \<noteq> c \<longrightarrow> tstate_of k' t = tstate_of k t \<or> tstate_of k t = TFinal \<and> tstate_of k' t = TWtstart \<or>
        (tstate_of k' t = TReady \<or> tstate_of k' t = TCurrent) \<and> \<not> suspended (tstate_of k t))"

lemma calm_trans:
  assumes "calm c a b" and "calm c b d"
  shows "calm c a d"
proof -
  have "tstate_of d t = tstate_of a t \<or> tstate_of a t = TFinal \<and> tstate_of d t = TWtstart \<or>
      (tstate_of d t = TReady \<or> tstate_of d t = TCurrent) \<and> \<not> suspended (tstate_of a t)" if "t \<noteq> c" for t
    using assms that unfolding calm_def by (elim conjE allE [where x = t]) auto
  then show ?thesis using assms(2) by (simp add: calm_def)
qed

lemma calm_same: "tstate_of k' = tstate_of k \<Longrightarrow> \<not> suspended (tstate_of k c) \<Longrightarrow> calm c k k'"
  by (simp add: calm_def)

lemma calm_runnable:
  assumes "runnable k' = A \<union> runnable k" and "\<forall>u. u \<notin> A \<union> runnable k \<longrightarrow> tstate_of k' u = tstate_of k u"
    and "\<forall>u \<in> A. \<not> suspended (tstate_of k u)" and "\<not> suspended (tstate_of k c)"
  shows "calm c k k'"
proof -
  have "tstate_of k' t = tstate_of k t \<or> (tstate_of k' t = TReady \<or> tstate_of k' t = TCurrent) \<and> \<not> suspended (tstate_of k t)" for t
  proof (cases "t \<in> A \<union> runnable k")
    case True
    then have "t \<in> runnable k'" using assms(1) by simp
    then show ?thesis using True assms(3) by (auto simp: runnable_def)
  qed (use assms(2) in simp)
  then show ?thesis using assms(4) unfolding calm_def by (metis suspended.simps(4,5))
qed

lemma same_locks_trans: "same_locks a b \<Longrightarrow> same_locks b c \<Longrightarrow> same_locks a c"
  by (simp add: same_locks_def)

lemma pick_first_ok:
  assumes "distinct (k_ready k)" and "set (k_ready k) = {t. tstate_of k t = TReady}" and "in_order (prio k) (k_ready k)"
    and "k_ready k = ntp # r"
  shows "\<exists>k'. pick_first k = Some k' \<and> k_curr k' = ntp \<and> k_ready k' = r \<and> prio k' = prio k \<and>
    tstate_of k' = (tstate_of k)(ntp := TCurrent) \<and> same_locks k k' \<and> (\<forall>t \<in> set r. prio k t \<le> prio k ntp) \<and>
    distinct r \<and> set r = {t. tstate_of k' t = TReady}"
  using assms by (auto simp: pick_first_def same_locks_def)

lemma sched_okD:
  assumes "sched_ok k"
  shows "tstate_of k (k_curr k) = TCurrent" "tstate_of k t = TCurrent \<longleftrightarrow> t = k_curr k" "t \<in> set (k_ready k) \<longleftrightarrow> tstate_of k t = TReady"
    "distinct (k_ready k)" "in_order (prio k) (k_ready k)" "k_curr k \<notin> set (k_ready k)" "tstate_of k t \<noteq> TFinal \<Longrightarrow> 0 < prio k t"
proof -
  show c: "tstate_of k (k_curr k) = TCurrent" using assms unfolding sched_ok_def by blast
  have r: "set (k_ready k) = {t. tstate_of k t = TReady}" using assms unfolding sched_ok_def by blast
  show "k_curr k \<notin> set (k_ready k)" unfolding r using c by simp
qed (use assms in \<open>unfold sched_ok_def, blast+\<close>)

lemma ready_nonempty: "sched_ok k \<Longrightarrow> k_curr k \<noteq> k_idle k \<Longrightarrow> k_ready k \<noteq> []"
  by (auto simp: sched_ok_def)

lemma chSchReadyI_ok:
  assumes "sched_ok k" and "tstate_of k t \<notin> {TReady, TFinal, TCurrent}"
  shows "\<exists>k'. chSchReadyI t k = Some k' \<and> sched_ok k' \<and> same_locks k k' \<and> prio k' = prio k \<and>
    tstate_of k' = (tstate_of k)(t := TReady) \<and> k_curr k' = k_curr k"
  using assms by (auto simp: chSchReadyI_def sch_ready_behind_def sched_ok_def same_locks_def Let_def intro: in_order_insert)

text \<open>The two ways to put the running thread back into the ready list.\<close>

definition requeue :: "((tid \<Rightarrow> nat) \<Rightarrow> tid \<Rightarrow> tid list \<Rightarrow> tid list) \<Rightarrow> kernel \<Rightarrow> kernel option" where
  "requeue ins k =
     Option.bind (pick_first k) (\<lambda>k1. let k2 = set_state (k_curr k) TReady k1 in Some (k2\<lparr>k_ready := ins (prio k2) (k_curr k) (k_ready k2)\<rparr>))"

lemma requeue_reschedule:
  assumes "sched_ok k" and "k_ready k \<noteq> []"
  shows "sch_reschedule_ahead k = requeue insert_ahead k" "sch_reschedule_behind k = requeue insert_behind k"
proof -
  obtain ntp r where r: "k_ready k = ntp # r" using assms(2) by (cases "k_ready k") auto
  then have "k_curr k \<noteq> ntp" using sched_okD(6) [OF assms(1)] by auto
  then show "sch_reschedule_ahead k = requeue insert_ahead k" "sch_reschedule_behind k = requeue insert_behind k"
    using r sched_okD(1) [OF assms(1)] sched_okD(7) [OF assms(1), of "k_curr k"]
    by (simp_all add: sch_reschedule_ahead_def sch_reschedule_behind_def requeue_def sch_ready_ahead_def sch_ready_behind_def pick_first_def Let_def)
qed

lemma swap_ok:
  assumes ok: "sched_ok k" and ne: "k_ready k \<noteq> []" and f: "firstprio k \<ge> prio k (k_curr k)" and ins: "ins \<in> {insert_ahead, insert_behind}"
  shows "\<exists>k'. requeue ins k = Some k' \<and> sched_ok k' \<and> first_runs k' \<and> same_locks k k' \<and> prio k' = prio k \<and>
    runnable k' = runnable k \<and> (\<forall>u. u \<notin> runnable k \<longrightarrow> tstate_of k' u = tstate_of k u)"
proof -
  note o = ok [unfolded sched_ok_def]
  obtain ntp r where r: "k_ready k = ntp # r" using ne by (cases "k_ready k") auto
  have n: "tstate_of k ntp = TReady" "ntp \<noteq> k_curr k" "tstate_of k (k_curr k) = TCurrent"
    using sched_okD(1,6) [OF ok] sched_okD(3) [OF ok, of ntp] r by auto
  obtain k1 where k1: "pick_first k = Some k1" "k_curr k1 = ntp" "k_ready k1 = r" "prio k1 = prio k"
    "tstate_of k1 = (tstate_of k)(ntp := TCurrent)" "same_locks k k1" "\<forall>t \<in> set r. prio k t \<le> prio k ntp" "distinct r"
    "set r = {t. tstate_of k1 t = TReady}" using pick_first_ok [of k ntp r] o r by auto
  let ?k' = "(set_state (k_curr k) TReady k1)\<lparr>k_ready := ins (prio k) (k_curr k) r\<rparr>"
  have e: "requeue ins k = Some ?k'" using k1 by (simp add: requeue_def)
  have c: "k_curr k \<notin> set r" using k1(9,5) n by simp
  have "in_order (prio k) r" using o r by simp
  then have q: "in_order (prio k) (ins (prio k) (k_curr k) r)" "set (ins (prio k) (k_curr k) r) = insert (k_curr k) (set r)"
    "distinct (ins (prio k) (k_curr k) r)" using ins c k1(8) by (auto simp: in_order_insert)
  have st: "tstate_of ?k' = (tstate_of k)(ntp := TCurrent, k_curr k := TReady)" using k1(5) by simp
  have "tstate_of k u = TCurrent \<longleftrightarrow> u = k_curr k" for u using o by blast
  then have "\<forall>t. tstate_of ?k' t = TCurrent \<longleftrightarrow> t = k_curr ?k'" using n k1(2) unfolding st by auto
  moreover have "set (k_ready ?k') = {t. tstate_of ?k' t = TReady}" using k1(5,9) n(2) q(2) unfolding st by auto
  moreover have "tstate_of ?k' (k_idle ?k') \<in> {TReady, TCurrent}" using o k1(6) unfolding st by (auto simp: same_locks_def)
  moreover have "0 < prio ?k' t" if "tstate_of ?k' t \<noteq> TFinal" for t
    using sched_okD(7) [OF ok, of t] that n k1(4) unfolding st by (auto split: if_splits)
  ultimately have "sched_ok ?k'" unfolding sched_ok_def using q k1(4) by simp
  moreover have "first_runs ?k'" using k1(2,4,7) f r q(2) by (auto simp: first_runs_def firstprio_def)
  moreover have "same_locks k ?k'" using k1(6) by (simp add: same_locks_def)
  moreover have "runnable ?k' = runnable k" using n unfolding runnable_def st by auto
  moreover have "\<forall>u. u \<notin> runnable k \<longrightarrow> tstate_of ?k' u = tstate_of k u" using n unfolding runnable_def st by auto
  moreover have "prio ?k' = prio k" using k1(4) by simp
  ultimately show ?thesis using e by blast
qed

lemma chSchRescheduleS_ok:
  assumes "sched_ok k"
  shows "\<exists>k'. chSchRescheduleS k = Some k' \<and> sched_ok k' \<and> first_runs k' \<and> same_locks k k' \<and> prio k' = prio k \<and>
    runnable k' = runnable k \<and> (\<forall>u. u \<notin> runnable k \<longrightarrow> tstate_of k' u = tstate_of k u)"
proof (cases "firstprio k > prio k (k_curr k)")
  case True
  then have ne: "k_ready k \<noteq> []" by (auto simp: firstprio_def)
  show ?thesis using swap_ok [OF assms ne _, of insert_ahead] True requeue_reschedule(1) [OF assms ne] by (simp add: chSchRescheduleS_def)
next
  case False
  have "first_runs k"
    using False firstprio_max [of k] assms unfolding first_runs_def sched_ok_def by (meson le_trans not_le_imp_less nat_less_le)
  then show ?thesis using False assms by (simp add: chSchRescheduleS_def same_locks_def)
qed

lemma chSchGoSleepS_ok:
  assumes ok: "sched_ok k" and "k_curr k \<noteq> k_idle k" and s: "s \<notin> {TReady, TCurrent}"
  shows "\<exists>k' ntp. chSchGoSleepS s k = Some k' \<and> sched_ok k' \<and> first_runs k' \<and> same_locks k k' \<and> prio k' = prio k \<and>
    tstate_of k ntp = TReady \<and> k_curr k' = ntp \<and> tstate_of k' = (tstate_of k)(k_curr k := s, ntp := TCurrent)"
proof -
  note o = ok [unfolded sched_ok_def]
  obtain ntp r where r: "k_ready k = ntp # r" using ready_nonempty [OF ok assms(2)] by (cases "k_ready k") auto
  let ?k = "set_state (k_curr k) s k"
  have curr: "tstate_of k (k_curr k) = TCurrent" "\<And>u. tstate_of k u = TCurrent \<longleftrightarrow> u = k_curr k" using o by blast+
  have rdy: "set (k_ready ?k) = {t. tstate_of ?k t = TReady}" using sched_okD(3) [OF ok] s curr(1) by auto
  obtain k' where k': "pick_first ?k = Some k'" "k_curr k' = ntp" "k_ready k' = r" "prio k' = prio k"
    "tstate_of k' = (tstate_of k)(k_curr k := s, ntp := TCurrent)" "same_locks ?k k'" "\<forall>t \<in> set r. prio k t \<le> prio k ntp" "distinct r"
    "set r = {t. tstate_of k' t = TReady}" using pick_first_ok [of ?k ntp r] o r rdy by auto
  have n: "tstate_of k ntp = TReady" "ntp \<noteq> k_curr k" using sched_okD(1,6) [OF ok] sched_okD(3) [OF ok, of ntp] r by auto
  have "\<forall>t. tstate_of k' t = TCurrent \<longleftrightarrow> t = k_curr k'" using s curr n k'(2) unfolding k'(5) by auto
  moreover have "tstate_of k' (k_idle k') \<in> {TReady, TCurrent}"
    using o assms(2) k'(6) curr(2) unfolding k'(5) by (auto simp: same_locks_def)
  moreover have "in_order (prio k) r" using o r by simp
  moreover have "0 < prio k' t" if "tstate_of k' t \<noteq> TFinal" for t
    using sched_okD(7) [OF ok, of t] that n curr(1) k'(4) unfolding k'(5) by (auto split: if_splits)
  ultimately have "sched_ok k'" using k' by (simp add: sched_ok_def)
  moreover have "first_runs k'" using k'(2,3,4,7) by (simp add: first_runs_def)
  moreover have "same_locks k k'" using k'(6) by (simp add: same_locks_def)
  ultimately show ?thesis using k' n assms(2) by (auto simp: chSchGoSleepS_def)
qed

lemma chSchDoYieldS_ok:
  assumes "sched_ok k" and "k_curr k \<noteq> k_idle k" and "first_runs k"
  shows "\<exists>k'. chSchDoYieldS k = Some k' \<and> sched_ok k' \<and> first_runs k' \<and> same_locks k k' \<and> prio k' = prio k \<and>
    runnable k' = runnable k \<and> (\<forall>u. u \<notin> runnable k \<longrightarrow> tstate_of k' u = tstate_of k u)"
proof (cases "firstprio k \<ge> prio k (k_curr k)")
  case True
  note ne = ready_nonempty [OF assms(1,2)]
  show ?thesis using swap_ok [OF assms(1) ne True, of insert_behind] True requeue_reschedule(2) [OF assms(1) ne] by (simp add: chSchDoYieldS_def)
next
  case False
  then show ?thesis using assms by (simp add: chSchDoYieldS_def same_locks_def)
qed

lemma chSchWakeupS_ok:
  assumes "sched_ok k" and "first_runs k" and t: "tstate_of k t \<notin> {TReady, TCurrent, TFinal}"
  shows "\<exists>k'. chSchWakeupS t k = Some k' \<and> sched_ok k' \<and> first_runs k' \<and> same_locks k k' \<and> prio k' = prio k \<and>
    runnable k' = insert t (runnable k) \<and> (\<forall>u. u \<notin> insert t (runnable k) \<longrightarrow> tstate_of k' u = tstate_of k u)"
proof -
  note d = sched_okD [OF assms(1)]
  have as: "k_ready k = [] \<or> firstprio k \<le> prio k (k_curr k)"
    using assms(2) by (cases "k_ready k") (auto simp: first_runs_def firstprio_def)
  have ntc: "t \<noteq> k_curr k" using d(1) t by auto
  show ?thesis
  proof (cases "prio k t \<le> prio k (k_curr k)")
    case True
    obtain k' where k': "chSchReadyI t k = Some k'" "sched_ok k'" "same_locks k k'" "prio k' = prio k"
      "tstate_of k' = (tstate_of k)(t := TReady)" "k_curr k' = k_curr k" using chSchReadyI_ok [OF assms(1), of t] t by auto
    have "first_runs k'" using assms(2) True k'(4,5,6) sched_okD(3) [OF k'(2)] d(3) by (auto simp: first_runs_def split: if_splits)
    moreover have "runnable k' = insert t (runnable k)" "\<forall>u. u \<notin> insert t (runnable k) \<longrightarrow> tstate_of k' u = tstate_of k u"
      using k'(5) by (auto simp: runnable_def)
    ultimately show ?thesis using k' True as by (auto simp: chSchWakeupS_def chSchReadyI_def)
  next
    case False
    let ?k = "set_state (k_curr k) TReady k"
    let ?k' = "(set_state t TCurrent (?k\<lparr>k_ready := insert_ahead (prio k) (k_curr k) (k_ready k)\<rparr>))\<lparr>k_curr := t\<rparr>"
    have e: "chSchWakeupS t k = Some ?k'" using False as d(1) by (auto simp: chSchWakeupS_def sch_ready_ahead_def Let_def)
    have st: "tstate_of ?k' = (tstate_of k)(k_curr k := TReady, t := TCurrent)" by simp
    have "\<forall>u. tstate_of ?k' u = TCurrent \<longleftrightarrow> u = k_curr ?k'" using d(2) ntc unfolding st by auto
    moreover have "set (k_ready ?k') = {u. tstate_of ?k' u = TReady}" using d(3) ntc t unfolding st by auto
    moreover have "tstate_of ?k' (k_idle ?k') \<in> {TReady, TCurrent}" using assms(1) unfolding st by (auto simp: sched_ok_def)
    moreover have "0 < prio ?k' u" if "tstate_of ?k' u \<noteq> TFinal" for u
      using sched_okD(7) [OF assms(1), of u] that t d(1) unfolding st by (auto split: if_splits)
    ultimately have "sched_ok ?k'" unfolding sched_ok_def using d(4,5,6) by (simp add: in_order_insert)
    moreover have "first_runs ?k'" using False assms(2) by (fastforce simp: first_runs_def)
    moreover have "same_locks k ?k'" by (simp add: same_locks_def)
    moreover have "runnable ?k' = insert t (runnable k)" "\<forall>u. u \<notin> insert t (runnable k) \<longrightarrow> tstate_of ?k' u = tstate_of k u"
      using d(1) unfolding runnable_def st by auto
    moreover have "prio ?k' = prio k" by simp
    ultimately show ?thesis using e by blast
  qed
qed

end
