(* ===== verification/Mutex.thy ===== *)
theory Mutex
  imports Sched
begin

text \<open>
  The mutexes of the kernel, \<open>chmtx.c\<close>, not recursive (\<open>CH_CFG_USE_MUTEXES_RECURSIVE\<close> is off), with
  priority inheritance. The calling thread is the running one. A lock that has to wait ends with
  the switch to another thread; when the caller runs again it owns the mutex, which is what the
  assertions behind the wait check and the invariant below implies. A thread that holds a mutex and
  waits for a condition variable is not modelled (the firmware uses none); the reordering of that
  queue is left out.
\<close>

definition set_mtx :: "nat \<Rightarrow> mutex \<Rightarrow> kernel \<Rightarrow> kernel" where
  "set_mtx m x k = k\<lparr>k_mtx := (k_mtx k)(m := x)\<rparr>"

definition set_mtxlist :: "tid \<Rightarrow> nat list \<Rightarrow> kernel \<Rightarrow> kernel" where
  "set_mtxlist t ms k = k\<lparr>k_thd := (k_thd k)(t := (k_thd k t)\<lparr>thd_mtxlist := ms\<rparr>)\<rparr>"

abbreviation queue_of :: "kernel \<Rightarrow> nat \<Rightarrow> tid list" where "queue_of k m \<equiv> mtx_queue (k_mtx k m)"
abbreviation owner_of :: "kernel \<Rightarrow> nat \<Rightarrow> tid option" where "owner_of k m \<equiv> mtx_owner (k_mtx k m)"
abbreviation mtxlist_of :: "kernel \<Rightarrow> tid \<Rightarrow> nat list" where "mtxlist_of k t \<equiv> thd_mtxlist (k_thd k t)"
abbreviation realprio_of :: "kernel \<Rightarrow> tid \<Rightarrow> nat" where "realprio_of k t \<equiv> thd_realprio (k_thd k t)"

definition chMtxObjectInit :: mutex where
  "chMtxObjectInit = \<lparr>mtx_queue = [], mtx_owner = None\<rparr>"

definition chMtxObjectDispose :: "mutex \<Rightarrow> mutex option" where
  "chMtxObjectDispose mp = (if mtx_queue mp = [] \<and> mtx_owner mp = None then Some mp else None)"

definition chMtxQueueNotEmptyS :: "nat \<Rightarrow> kernel \<Rightarrow> bool" where
  "chMtxQueueNotEmptyS m k \<longleftrightarrow> queue_of k m \<noteq> []"

text \<open>The thread \<open>tp\<close> holds the mutex and inherits the priority \<open>p\<close>, and so does the owner of the mutex \<open>tp\<close> waits for.\<close>

partial_function (option) mtx_boost :: "nat \<Rightarrow> tid \<Rightarrow> kernel \<Rightarrow> kernel option" where
  "mtx_boost p tp k =
     (if \<not> prio k tp < p then Some k
      else let k = set_prio tp p k
           in case tstate_of k tp of
                TWtmtx m \<Rightarrow>
                  let q = insert_behind (prio k) tp (remove1 tp (queue_of k m));
                      k = set_mtx m ((k_mtx k m)\<lparr>mtx_queue := q\<rparr>) k
                  in Option.bind (owner_of k m) (\<lambda>tp. mtx_boost p tp k)
              | TReady \<Rightarrow> chSchReadyI tp ((set_state tp TCurrent k)\<lparr>k_ready := remove1 tp (k_ready k)\<rparr>)
              | _ \<Rightarrow> Some k)"

definition mtx_take :: "nat \<Rightarrow> tid \<Rightarrow> kernel \<Rightarrow> kernel" where
  "mtx_take m t k = set_mtxlist t (m # mtxlist_of k t) (set_mtx m ((k_mtx k m)\<lparr>mtx_owner := Some t\<rparr>) k)"

definition chMtxLockS :: "nat \<Rightarrow> kernel \<Rightarrow> kernel option" where
  "chMtxLockS m k =
     (let currtp = k_curr k
      in case owner_of k m of
           Some tp \<Rightarrow>
             do { k \<leftarrow> mtx_boost (prio k currtp) tp k;
                  let k = set_mtx m ((k_mtx k m)\<lparr>mtx_queue := insert_behind (prio k) currtp (queue_of k m)\<rparr>) k;
                  chSchGoSleepS (TWtmtx m) k }
         | None \<Rightarrow> Some (mtx_take m currtp k))"

definition chMtxLock :: "nat \<Rightarrow> kernel \<Rightarrow> kernel option" where
  "chMtxLock m k = chMtxLockS m k"

definition chMtxTryLockS :: "nat \<Rightarrow> kernel \<Rightarrow> bool \<times> kernel" where
  "chMtxTryLockS m k = (if owner_of k m \<noteq> None then (False, k) else (True, mtx_take m (k_curr k) k))"

definition chMtxTryLock :: "nat \<Rightarrow> kernel \<Rightarrow> bool \<times> kernel" where
  "chMtxTryLock m k = chMtxTryLockS m k"

text \<open>The scan of the owned mutexes for the highest priority waiting for one of them.\<close>

fun mtx_newprio :: "kernel \<Rightarrow> nat list \<Rightarrow> nat \<Rightarrow> nat" where
  "mtx_newprio k [] newprio = newprio"
| "mtx_newprio k (lmp # lmps) newprio =
     mtx_newprio k lmps
       (case queue_of k lmp of [] \<Rightarrow> newprio | t # ts \<Rightarrow> if prio k t > newprio then prio k t else newprio)"

text \<open>The first thread of the queue becomes the owner and is made ready.\<close>

definition mtx_pass :: "nat \<Rightarrow> kernel \<Rightarrow> kernel option" where
  "mtx_pass m k =
     (case queue_of k m of
        [] \<Rightarrow> None
      | tp # q \<Rightarrow>
          let k = set_mtx m \<lparr>mtx_queue = q, mtx_owner = Some tp\<rparr> k;
              k = set_mtxlist tp (m # mtxlist_of k tp) k
          in chSchReadyI tp k)"

definition chMtxUnlockS :: "nat \<Rightarrow> kernel \<Rightarrow> kernel option" where
  "chMtxUnlockS m k =
     (let currtp = k_curr k
      in case mtxlist_of k currtp of
           [] \<Rightarrow> None
         | mp # rest \<Rightarrow>
             if owner_of k mp \<noteq> Some currtp \<or> mp \<noteq> m then None
             else let k = set_mtxlist currtp rest k
                  in if chMtxQueueNotEmptyS m k
                     then mtx_pass m (set_prio currtp (mtx_newprio k rest (realprio_of k currtp)) k)
                     else Some (set_mtx m ((k_mtx k m)\<lparr>mtx_owner := None\<rparr>) k))"

definition chMtxUnlock :: "nat \<Rightarrow> kernel \<Rightarrow> kernel option" where
  "chMtxUnlock m k =
     (let waiting = chMtxQueueNotEmptyS m k
      in do { k \<leftarrow> chMtxUnlockS m k; if waiting then chSchRescheduleS k else Some k })"

fun mtx_unlock_all :: "tid \<Rightarrow> nat list \<Rightarrow> kernel \<Rightarrow> kernel option" where
  "mtx_unlock_all currtp [] k = Some k"
| "mtx_unlock_all currtp (m # rest) k =
     (let k = set_mtxlist currtp rest k
      in Option.bind (if chMtxQueueNotEmptyS m k then mtx_pass m k else Some (set_mtx m ((k_mtx k m)\<lparr>mtx_owner := None\<rparr>) k))
           (mtx_unlock_all currtp rest))"

definition chMtxUnlockAllS :: "kernel \<Rightarrow> kernel option" where
  "chMtxUnlockAllS k =
     (let currtp = k_curr k
      in if mtxlist_of k currtp = [] then Some k
         else do { k \<leftarrow> mtx_unlock_all currtp (mtxlist_of k currtp) k;
                   chSchRescheduleS (set_prio currtp (realprio_of k currtp) k) })"

definition chMtxUnlockAll :: "kernel \<Rightarrow> kernel option" where
  "chMtxUnlockAll k = chMtxUnlockAllS k"

declare mtx_boost.simps [code]

section \<open>The invariant\<close>

text \<open>\<open>w\<close> waits for a mutex that \<open>t\<close> owns.\<close>

definition waits_for :: "kernel \<Rightarrow> tid \<Rightarrow> tid \<Rightarrow> bool" where
  "waits_for k w t \<longleftrightarrow> (\<exists>m. tstate_of k w = TWtmtx m \<and> owner_of k m = Some t)"

text \<open>The priorities a thread has a claim to: its own, and those of the threads that wait for it.\<close>

definition claims :: "kernel \<Rightarrow> tid \<Rightarrow> nat set" where
  "claims k t = insert (realprio_of k t) (prio k ` {w. waits_for k w t})"

definition is_max :: "nat set \<Rightarrow> nat \<Rightarrow> bool" where
  "is_max A x \<longleftrightarrow> x \<in> A \<and> (\<forall>a \<in> A. a \<le> x)"

definition locks_ok :: "kernel \<Rightarrow> bool" where
  "locks_ok k \<longleftrightarrow> finite {t. tstate_of k t \<noteq> TFinal} \<and>
     (\<forall>m. distinct (queue_of k m) \<and> set (queue_of k m) = {t. tstate_of k t = TWtmtx m} \<and> in_order (prio k) (queue_of k m)) \<and>
     (\<forall>m t. owner_of k m = Some t \<longleftrightarrow> m \<in> set (mtxlist_of k t)) \<and> (\<forall>t. distinct (mtxlist_of k t)) \<and>
     (\<forall>m. owner_of k m = None \<longrightarrow> queue_of k m = []) \<and> (\<forall>t. mtxlist_of k t \<noteq> [] \<longrightarrow> tstate_of k t \<noteq> TFinal) \<and>
     (\<forall>t. tstate_of k t \<noteq> TFinal \<longrightarrow> 0 < realprio_of k t)"

definition prios_ok :: "kernel \<Rightarrow> bool" where
  "prios_ok k \<longleftrightarrow> (\<forall>t. is_max (claims k t) (prio k t))"

definition kernel_ok :: "kernel \<Rightarrow> bool" where
  "kernel_ok k \<longleftrightarrow> sched_ok k \<and> locks_ok k \<and> prios_ok k"

lemma set_mtx_fields [simp]:
  "prio (set_mtx m x k) = prio k" "tstate_of (set_mtx m x k) = tstate_of k" "k_ready (set_mtx m x k) = k_ready k"
  "k_curr (set_mtx m x k) = k_curr k" "k_idle (set_mtx m x k) = k_idle k" "k_thd (set_mtx m x k) = k_thd k"
  "k_mtx (set_mtx m x k) = (k_mtx k)(m := x)"
  by (simp_all add: set_mtx_def prio_def tstate_of_def fun_eq_iff)

lemma set_mtxlist_fields [simp]:
  "prio (set_mtxlist t ms k) = prio k" "tstate_of (set_mtxlist t ms k) = tstate_of k" "k_ready (set_mtxlist t ms k) = k_ready k"
  "k_curr (set_mtxlist t ms k) = k_curr k" "k_idle (set_mtxlist t ms k) = k_idle k" "k_mtx (set_mtxlist t ms k) = k_mtx k"
  "mtxlist_of (set_mtxlist t ms k) u = (if u = t then ms else mtxlist_of k u)" "realprio_of (set_mtxlist t ms k) u = realprio_of k u"
  by (simp_all add: set_mtxlist_def prio_def tstate_of_def fun_eq_iff)

lemma locks_okD:
  assumes "locks_ok k"
  shows "finite {t. tstate_of k t \<noteq> TFinal}" "distinct (queue_of k m)" "t \<in> set (queue_of k m) \<longleftrightarrow> tstate_of k t = TWtmtx m"
    "in_order (prio k) (queue_of k m)" "owner_of k m = Some t \<longleftrightarrow> m \<in> set (mtxlist_of k t)" "distinct (mtxlist_of k t)"
    "owner_of k m = None \<Longrightarrow> queue_of k m = []" "mtxlist_of k t \<noteq> [] \<Longrightarrow> tstate_of k t \<noteq> TFinal"
    "tstate_of k t \<noteq> TFinal \<Longrightarrow> 0 < realprio_of k t"
  using assms unfolding locks_ok_def by blast+

section \<open>Inheriting a priority\<close>

text \<open>Only priorities and the order of the queues change.\<close>

definition boosted :: "nat \<Rightarrow> kernel \<Rightarrow> kernel \<Rightarrow> bool" where
  "boosted p k k' \<longleftrightarrow> tstate_of k' = tstate_of k \<and> k_curr k' = k_curr k \<and> k_idle k' = k_idle k \<and>
     (\<forall>m. owner_of k' m = owner_of k m) \<and> (\<forall>t. mtxlist_of k' t = mtxlist_of k t \<and> realprio_of k' t = realprio_of k t) \<and>
     (\<forall>t. p \<le> prio k t \<longrightarrow> prio k' t = prio k t)"

lemma boosted_refl: "boosted p k k"
  by (simp add: boosted_def)

lemma boosted_trans: "boosted p a b \<Longrightarrow> boosted p b c \<Longrightarrow> boosted p a c"
  by (simp add: boosted_def)

lemma in_order_other: "in_order (prio k) q \<Longrightarrow> tp \<notin> set q \<Longrightarrow> in_order ((prio k)(tp := p)) q"
  by (subst in_order_cong [of q _ "prio k"]) auto

lemma in_order_again:
  assumes "in_order (prio k) q" and "distinct q"
  shows "in_order ((prio k)(tp := p)) (insert_behind ((prio k)(tp := p)) tp (remove1 tp q))"
  using assms by (intro in_order_insert in_order_other in_order_remove1) simp_all

text \<open>One step: \<open>tp\<close> gets the priority and the queue it is in is put in order.\<close>

definition raised :: "nat \<Rightarrow> tid \<Rightarrow> kernel \<Rightarrow> kernel" where
  "raised p tp k =
     (let k = set_prio tp p k
      in case tstate_of k tp of
           TWtmtx m \<Rightarrow> set_mtx m ((k_mtx k m)\<lparr>mtx_queue := insert_behind (prio k) tp (remove1 tp (queue_of k m))\<rparr>) k
         | TReady \<Rightarrow> k\<lparr>k_ready := insert_behind (prio k) tp (remove1 tp (k_ready k))\<rparr>
         | _ \<Rightarrow> k)"

lemma raised_fields [simp]:
  "prio (raised p tp k) = (prio k)(tp := p)" "tstate_of (raised p tp k) = tstate_of k" "k_curr (raised p tp k) = k_curr k"
  "k_idle (raised p tp k) = k_idle k" "owner_of (raised p tp k) m = owner_of k m" "mtxlist_of (raised p tp k) t = mtxlist_of k t"
  "realprio_of (raised p tp k) t = realprio_of k t"
  by (simp_all add: raised_def Let_def split: tstate.split)

lemma raised_boosted: "prio k tp < p \<Longrightarrow> boosted p k (raised p tp k)"
  by (auto simp: boosted_def)

lemma set_state_back: "tstate_of k t = s \<Longrightarrow> set_state t s ((set_state t s' k)\<lparr>k_ready := r\<rparr>) = k\<lparr>k_ready := r\<rparr>"
  by (cases k) (simp add: set_state_def tstate_of_def fun_upd_idem)

lemma mtx_boost_step:
  assumes "prio k tp < p"
  shows "mtx_boost p tp k =
    (case tstate_of k tp of TWtmtx m \<Rightarrow> Option.bind (owner_of k m) (\<lambda>u. mtx_boost p u (raised p tp k)) | _ \<Rightarrow> Some (raised p tp k))"
proof (cases "tstate_of k tp")
  case TReady
  have "set_state tp TReady ((set_state tp TCurrent (set_prio tp p k))\<lparr>k_ready := r\<rparr>) = (set_prio tp p k)\<lparr>k_ready := r\<rparr>" for r
    using TReady by (intro set_state_back) simp
  then show ?thesis
    using assms TReady by (subst mtx_boost.simps) (simp add: raised_def chSchReadyI_def sch_ready_behind_def Let_def)
qed (use assms in \<open>subst mtx_boost.simps, simp add: raised_def Let_def\<close>)+

lemma raised_ok:
  assumes s: "sched_ok k" and l: "locks_ok k" and p: "0 < p"
  shows "sched_ok (raised p tp k)" "locks_ok (raised p tp k)"
proof -
  note sd = sched_okD [OF s] and ld = locks_okD [OF l]
  have r: "k_ready (raised p tp k) = (if tstate_of k tp = TReady then insert_behind ((prio k)(tp := p)) tp (remove1 tp (k_ready k)) else k_ready k)"
    by (simp add: raised_def Let_def split: tstate.split)
  have "set (k_ready (raised p tp k)) = {t. tstate_of k t = TReady} \<and> distinct (k_ready (raised p tp k)) \<and>
      in_order ((prio k)(tp := p)) (k_ready (raised p tp k))"
  proof (cases "tstate_of k tp = TReady")
    case True
    then show ?thesis unfolding r using sd(3,4) in_order_again [OF sd(5,4)] by auto
  next
    case False
    then have "tp \<notin> set (k_ready k)" using sd(3) [of tp] by simp
    then show ?thesis unfolding r using False sd(3,4) in_order_other [OF sd(5)] by auto
  qed
  then show "sched_ok (raised p tp k)" using s p unfolding sched_ok_def by auto
  have q: "queue_of (raised p tp k) m =
      (if tstate_of k tp = TWtmtx m then insert_behind ((prio k)(tp := p)) tp (remove1 tp (queue_of k m)) else queue_of k m)" for m
    by (simp add: raised_def Let_def split: tstate.split)
  have "distinct (queue_of (raised p tp k) m) \<and> set (queue_of (raised p tp k) m) = {t. tstate_of k t = TWtmtx m} \<and>
      in_order ((prio k)(tp := p)) (queue_of (raised p tp k) m)" for m
  proof (cases "tstate_of k tp = TWtmtx m")
    case True
    then show ?thesis unfolding q using ld(2,3) in_order_again [OF ld(4,2)] by auto
  next
    case False
    then have "tp \<notin> set (queue_of k m)" using ld(3) by simp
    then show ?thesis unfolding q using False ld(2,3) in_order_other [OF ld(4)] by auto
  qed
  moreover have "owner_of k m = None \<longrightarrow> queue_of (raised p tp k) m = []" for m
    using ld(3) [of tp m] ld(7) [of m] unfolding q by (cases "owner_of k m") auto
  ultimately show "locks_ok (raised p tp k)" using l unfolding locks_ok_def by simp
qed

text \<open>
  The claims while the calling thread, of priority \<open>p\<close>, is about to wait for the mutex of \<open>o0\<close>; the
  thread that is examined next may still owe it.
\<close>

definition claims_with :: "tid \<Rightarrow> nat \<Rightarrow> kernel \<Rightarrow> tid \<Rightarrow> nat set" where
  "claims_with o0 p k t = (if t = o0 then insert p (claims k t) else claims k t)"

lemma waits_for_raised [simp]: "waits_for (raised p tp k) w t \<longleftrightarrow> waits_for k w t"
  by (simp add: waits_for_def)

lemma waits_for_unique: "waits_for k w t \<Longrightarrow> waits_for k w u \<Longrightarrow> t = u"
  by (auto simp: waits_for_def)

lemma claims_raised_other: "\<not> waits_for k tp t \<Longrightarrow> claims (raised p tp k) t = claims k t"
  by (auto simp: claims_def)

lemma claims_with_raised_other:
  assumes "\<not> waits_for k tp t"
  shows "claims_with o0 p (raised p' tp k) t = claims_with o0 p k t"
  unfolding claims_with_def claims_raised_other [OF assms] ..

lemma claims_raised:
  "waits_for k tp t \<Longrightarrow> claims (raised p tp k) t = insert p (insert (realprio_of k t) (prio k ` ({w. waits_for k w t} - {tp})))"
  by (auto simp: claims_def image_iff)

lemma is_max_raised_self:
  assumes "is_max (claims_with o0 p k tp) p"
  shows "is_max (claims_with o0 p (raised p tp k) tp) p"
proof (cases "waits_for k tp tp")
  case True
  then show ?thesis using assms by (auto simp: is_max_def claims_with_def claims_raised) (auto simp: claims_def)
next
  case False
  then show ?thesis using assms by (simp add: claims_with_raised_other)
qed

lemma is_max_raised_owner:
  assumes "is_max (claims_with o0 p k u) (prio k u)" and "waits_for k tp u" and "prio k tp < p"
  shows "is_max (claims_with o0 p (raised p tp k) u) (max p (prio k u))"
proof -
  have le: "c \<le> prio k u" if "c \<in> claims k u" for c using assms(1) that by (auto simp: is_max_def claims_with_def split: if_splits)
  have sub: "claims (raised p tp k) u \<subseteq> insert p (claims k u)" unfolding claims_raised [OF assms(2)] by (auto simp: claims_def)
  have "max p (prio k u) \<in> claims_with o0 p (raised p tp k) u"
  proof (cases "prio k u \<le> p")
    case True
    then show ?thesis using assms(2) by (simp add: claims_with_def claims_raised)
  next
    case False
    then have "prio k u \<in> claims k u" using assms(1) by (auto simp: is_max_def claims_with_def split: if_splits)
    then have "prio k u \<in> claims (raised p tp k) u" using False assms(3) unfolding claims_raised [OF assms(2)] by (auto simp: claims_def)
    then show ?thesis using False by (auto simp: claims_with_def max_def)
  qed
  moreover have "c \<le> max p (prio k u)" if "c \<in> claims_with o0 p (raised p tp k) u" for c
    using that sub le by (fastforce simp: claims_with_def split: if_splits)
  ultimately show ?thesis by (simp add: is_max_def)
qed

lemma mtx_boost_ok:
  assumes "sched_ok k" and "locks_ok k" and "tstate_of k tp \<noteq> TFinal"
    and "\<forall>t. t \<noteq> tp \<longrightarrow> is_max (claims_with o0 p k t) (prio k t)" and "is_max (claims_with o0 p k tp) (max p (prio k tp))"
  shows "\<exists>k'. mtx_boost p tp k = Some k' \<and> sched_ok k' \<and> locks_ok k' \<and> boosted p k k' \<and> (\<forall>t. is_max (claims_with o0 p k' t) (prio k' t))"
  using assms
proof (induction "card {t. tstate_of k t \<noteq> TFinal \<and> prio k t < p}" arbitrary: k tp rule: less_induct)
  case less
  note ld = locks_okD [OF less.prems(2)]
  show ?case
  proof (cases "prio k tp < p")
    case False
    then have "\<forall>t. is_max (claims_with o0 p k t) (prio k t)" using less.prems(4,5) by (metis max.absorb2 not_less)
    then show ?thesis using False less.prems(1,2) boosted_refl by (subst mtx_boost.simps) auto
  next
    case True
    let ?k = "raised p tp k"
    have "0 < p" using True by simp
    note ok = raised_ok [OF less.prems(1,2) this, of tp]
    have self: "is_max (claims_with o0 p ?k tp) (prio ?k tp)" using is_max_raised_self less.prems(5) True by (simp add: max_def)
    have others: "is_max (claims_with o0 p ?k t) (prio ?k t)" if "t \<noteq> tp" "\<not> waits_for k tp t" for t
      using less.prems(4) that by (simp add: claims_with_raised_other)
    show ?thesis
    proof (cases "\<exists>m. tstate_of k tp = TWtmtx m")
      case False
      then have "\<not> waits_for k tp t" for t by (auto simp: waits_for_def)
      then have "\<forall>t. is_max (claims_with o0 p ?k t) (prio ?k t)" using self others by metis
      moreover have "mtx_boost p tp k = Some ?k" using mtx_boost_step [OF True] False by (cases "tstate_of k tp") auto
      ultimately show ?thesis using ok raised_boosted [OF True] by blast
    next
      case w: True
      then obtain m where m: "tstate_of k tp = TWtmtx m" by blast
      have "queue_of k m \<noteq> []" using ld(3) [of tp m] m by auto
      then obtain u where u: "owner_of k m = Some u" using ld(7) [of m] by (cases "owner_of k m") auto
      have wu: "waits_for k tp u" using m u by (auto simp: waits_for_def)
      have step: "mtx_boost p tp k = mtx_boost p u ?k" using mtx_boost_step [OF True] m u by simp
      have "m \<in> set (mtxlist_of k u)" using u ld(5) by simp
      then have fin: "tstate_of ?k u \<noteq> TFinal" using ld(8) [of u] by (cases "mtxlist_of k u") auto
      have rest: "\<forall>t. t \<noteq> u \<longrightarrow> is_max (claims_with o0 p ?k t) (prio ?k t)"
        using self others waits_for_unique [OF wu] by metis
      have "is_max (claims_with o0 p ?k u) (max p (prio ?k u))"
        using self is_max_raised_owner [of o0 p k u tp] less.prems(4) wu True by (cases "u = tp") simp_all
      moreover have "card {t. tstate_of ?k t \<noteq> TFinal \<and> prio ?k t < p} < card {t. tstate_of k t \<noteq> TFinal \<and> prio k t < p}"
        using ld(1) True less.prems(3) by (intro psubset_card_mono) auto
      ultimately obtain k' where k': "mtx_boost p u ?k = Some k'" "sched_ok k'" "locks_ok k'" "boosted p ?k k'"
        "\<forall>t. is_max (claims_with o0 p k' t) (prio k' t)" using less.hyps [OF _ ok fin rest] by blast
      then show ?thesis using step boosted_trans [OF raised_boosted [OF True] k'(4)] by auto
    qed
  qed
qed


section \<open>Locking\<close>

text \<open>The scheduler moves threads between the ready list and the processor, and to and from sleep.\<close>

definition same_waits :: "kernel \<Rightarrow> kernel \<Rightarrow> bool" where
  "same_waits k k' \<longleftrightarrow> same_locks k k' \<and> prio k' = prio k \<and>
     (\<forall>t m. tstate_of k' t = TWtmtx m \<longleftrightarrow> tstate_of k t = TWtmtx m) \<and> (\<forall>t. tstate_of k' t = TFinal \<longleftrightarrow> tstate_of k t = TFinal)"

lemma same_waits_refl: "same_waits k k"
  by (simp add: same_waits_def same_locks_def)

lemma same_waits_trans: "same_waits a b \<Longrightarrow> same_waits b c \<Longrightarrow> same_waits a c"
  by (simp add: same_waits_def same_locks_def)

lemma same_waits_claims:
  assumes "same_waits k k'"
  shows "claims k' t = claims k t" "locks_ok k' = locks_ok k"
  using assms by (simp_all add: claims_def waits_for_def same_waits_def same_locks_def locks_ok_def)

lemma kernel_ok_waits: "kernel_ok k \<Longrightarrow> same_waits k k' \<Longrightarrow> sched_ok k' \<Longrightarrow> kernel_ok k'"
  by (simp add: kernel_ok_def prios_ok_def same_waits_claims) (simp add: same_waits_def)

definition asleep :: "tstate \<Rightarrow> bool" where
  "asleep s \<longleftrightarrow> s = TSleeping \<or> s = TWtstart \<or> suspended s"

lemma asleepD: "asleep s \<Longrightarrow> s \<noteq> TReady \<and> s \<noteq> TCurrent \<and> s \<noteq> TFinal \<and> s \<noteq> TWtmtx m"
  by (cases s) (simp_all add: asleep_def)

lemma same_waits_runnable:
  assumes "same_locks k k'" and "prio k' = prio k" and "runnable k' = A \<union> runnable k"
    and "\<forall>u. u \<notin> A \<union> runnable k \<longrightarrow> tstate_of k' u = tstate_of k u" and "\<forall>u \<in> A. asleep (tstate_of k u)"
  shows "same_waits k k'"
proof -
  have w: "(tstate_of k' t = s \<longleftrightarrow> tstate_of k t = s)" if "s = TFinal \<or> s = TWtmtx m" for t s m
  proof (cases "t \<in> A \<union> runnable k")
    case True
    then have "t \<in> runnable k'" using assms(3) by simp
    then show ?thesis using True that assms(5) by (auto simp: runnable_def asleep_def)
  next
    case False
    then show ?thesis using assms(4) by simp
  qed
  show ?thesis using assms(1,2) w by (simp add: same_waits_def)
qed

lemma kernel_ok_runnable:
  assumes "kernel_ok k" and "sched_ok k'" and "same_locks k k'" and "prio k' = prio k" and "runnable k' = A \<union> runnable k"
    and "\<forall>u. u \<notin> A \<union> runnable k \<longrightarrow> tstate_of k' u = tstate_of k u" and "\<forall>u \<in> A. asleep (tstate_of k u)"
  shows "kernel_ok k'"
  by (rule kernel_ok_waits [OF assms(1) same_waits_runnable [OF assms(3-7)] assms(2)])

lemma mtx_take_ok:
  assumes k: "kernel_ok k" and o: "owner_of k m = None" and t: "tstate_of k t \<noteq> TFinal"
  shows "kernel_ok (mtx_take m t k)"
proof -
  have s: "sched_ok k" and l: "locks_ok k" and p: "prios_ok k" using k by (auto simp: kernel_ok_def)
  note ld = locks_okD [OF l]
  let ?k = "mtx_take m t k"
  have f: "prio ?k = prio k" "tstate_of ?k = tstate_of k" "k_ready ?k = k_ready k" "k_curr ?k = k_curr k" "k_idle ?k = k_idle k"
    "\<And>m'. queue_of ?k m' = queue_of k m'" "\<And>m'. owner_of ?k m' = (if m' = m then Some t else owner_of k m')"
    "\<And>u. mtxlist_of ?k u = (if u = t then m # mtxlist_of k u else mtxlist_of k u)" "\<And>u. realprio_of ?k u = realprio_of k u"
    by (simp_all add: mtx_take_def)
  have none: "tstate_of k w \<noteq> TWtmtx m" for w using ld(7) [OF o] ld(3) [of w m] by simp
  then have "waits_for ?k w u \<longleftrightarrow> waits_for k w u" for w u unfolding waits_for_def f by metis
  then have "claims ?k = claims k" by (simp add: claims_def f fun_eq_iff)
  then have "prios_ok ?k" using p by (simp add: prios_ok_def f)
  moreover have "sched_ok ?k" using s unfolding sched_ok_def f .
  moreover have "m \<notin> set (mtxlist_of k u)" for u using ld(5) [of m u] o by simp
  then have "locks_ok ?k" using l t unfolding locks_ok_def f by auto
  ultimately show ?thesis by (simp add: kernel_ok_def)
qed

text \<open>The caller joins the queue of a mutex and goes to sleep.\<close>

definition mtx_sleep :: "nat \<Rightarrow> kernel \<Rightarrow> kernel option" where
  "mtx_sleep m k = chSchGoSleepS (TWtmtx m) (set_mtx m ((k_mtx k m)\<lparr>mtx_queue := insert_behind (prio k) (k_curr k) (queue_of k m)\<rparr>) k)"

lemma mtx_sleep_ok:
  assumes s: "sched_ok k" and l: "locks_ok k" and i: "k_curr k \<noteq> k_idle k" and o: "owner_of k m = Some tp"
  shows "\<exists>k' ntp. mtx_sleep m k = Some k' \<and> sched_ok k' \<and> first_runs k' \<and> locks_ok k' \<and> prio k' = prio k \<and>
    (\<forall>t. claims k' t = claims_with tp (prio k (k_curr k)) k t) \<and> tstate_of k ntp = TReady \<and>
    tstate_of k' = (tstate_of k)(k_curr k := TWtmtx m, ntp := TCurrent)"
proof -
  note ld = locks_okD [OF l] and sd = sched_okD [OF s]
  let ?k = "set_mtx m ((k_mtx k m)\<lparr>mtx_queue := insert_behind (prio k) (k_curr k) (queue_of k m)\<rparr>) k"
  have "sched_ok ?k" using s by (auto simp: sched_ok_def)
  then obtain k' ntp where k': "mtx_sleep m k = Some k'" "sched_ok k'" "first_runs k'" "same_locks ?k k'" "prio k' = prio k"
    "tstate_of k ntp = TReady" "tstate_of k' = (tstate_of k)(k_curr k := TWtmtx m, ntp := TCurrent)"
    using chSchGoSleepS_ok [of ?k "TWtmtx m"] i unfolding mtx_sleep_def by auto
  have f: "queue_of k' m' = (if m' = m then insert_behind (prio k) (k_curr k) (queue_of k m) else queue_of k m')"
    "owner_of k' m' = owner_of k m'" "mtxlist_of k' t = mtxlist_of k t" "realprio_of k' t = realprio_of k t" for m' t
    using k'(4) by (simp_all add: same_locks_def)
  have nc: "ntp \<noteq> k_curr k" using k'(6) sd(1) by auto
  have st: "tstate_of k' t = TWtmtx m' \<longleftrightarrow> (if t = k_curr k then m' = m else tstate_of k t = TWtmtx m')"
    "tstate_of k' t = TFinal \<longleftrightarrow> tstate_of k t = TFinal" for t m'
    using k'(6) nc sd(1) unfolding k'(7) by auto
  have notin: "k_curr k \<notin> set (queue_of k m')" for m' using ld(3) [of "k_curr k" m'] sd(1) by simp
  have "distinct (queue_of k' m') \<and> set (queue_of k' m') = {t. tstate_of k' t = TWtmtx m'} \<and> in_order (prio k') (queue_of k' m')" for m'
    unfolding f st k'(5) using ld(2,3,4) notin sd(1) by (auto simp: in_order_insert)
  moreover have "owner_of k' m' = None \<longrightarrow> queue_of k' m' = []" for m' unfolding f using ld(7) o by auto
  ultimately have "locks_ok k'" using ld(1,5,6,8,9) unfolding locks_ok_def f st by simp
  moreover have "waits_for k' w t \<longleftrightarrow> waits_for k w t \<or> w = k_curr k \<and> t = tp" for w t
    unfolding waits_for_def f st using o sd(1) by auto
  then have "claims k' t = claims_with tp (prio k (k_curr k)) k t" for t
    unfolding claims_with_def claims_def f k'(5) by (auto simp: image_iff)
  ultimately show ?thesis using k' by blast
qed

lemma chMtxLockS_ok:
  assumes k: "kernel_ok k" and r: "first_runs k" and i: "k_curr k \<noteq> k_idle k"
  shows "\<exists>k'. chMtxLockS m k = Some k' \<and> kernel_ok k' \<and> first_runs k' \<and> calm (k_curr k) k k' \<and>
    (if owner_of k m = None then k_curr k' = k_curr k \<and> owner_of k' m = Some (k_curr k) else tstate_of k' (k_curr k) = TWtmtx m)"
proof (cases "owner_of k m")
  case None
  have c: "tstate_of k (k_curr k) = TCurrent" using k sched_okD(1) by (simp add: kernel_ok_def)
  then have "kernel_ok (mtx_take m (k_curr k) k)" using mtx_take_ok [OF k None] by simp
  moreover have "calm (k_curr k) k (mtx_take m (k_curr k) k)" by (rule calm_same) (simp_all add: mtx_take_def c)
  moreover have "first_runs (mtx_take m (k_curr k) k)" using r by (simp add: first_runs_def mtx_take_def)
  moreover have "chMtxLockS m k = Some (mtx_take m (k_curr k) k)" using None by (simp add: chMtxLockS_def Let_def)
  ultimately show ?thesis using None by (simp add: mtx_take_def)
next
  case (Some tp)
  have s: "sched_ok k" and l: "locks_ok k" and p: "prios_ok k" using k by (auto simp: kernel_ok_def)
  let ?p = "prio k (k_curr k)"
  have "m \<in> set (mtxlist_of k tp)" using locks_okD(5) [OF l] Some by simp
  then have fin: "tstate_of k tp \<noteq> TFinal" using locks_okD(8) [OF l, of tp] by (cases "mtxlist_of k tp") auto
  have mx: "\<forall>t. t \<noteq> tp \<longrightarrow> is_max (claims_with tp ?p k t) (prio k t)" "is_max (claims_with tp ?p k tp) (max ?p (prio k tp))"
    using p by (simp_all add: prios_ok_def claims_with_def is_max_def max_def) (meson le_trans nat_le_linear)
  obtain k1 where k1: "mtx_boost ?p tp k = Some k1" "sched_ok k1" "locks_ok k1" "boosted ?p k k1"
    "\<forall>t. is_max (claims_with tp ?p k1 t) (prio k1 t)" using mtx_boost_ok [OF s l fin mx] by blast
  have b: "k_curr k1 = k_curr k" "k_idle k1 = k_idle k" "owner_of k1 m = Some tp" "prio k1 (k_curr k) = ?p" "tstate_of k1 = tstate_of k"
    using k1(4) Some by (simp_all add: boosted_def)
  obtain k2 ntp where k2: "mtx_sleep m k1 = Some k2" "sched_ok k2" "first_runs k2" "locks_ok k2" "prio k2 = prio k1"
    "\<forall>t. claims k2 t = claims_with tp ?p k1 t" "tstate_of k ntp = TReady" "tstate_of k2 = (tstate_of k)(k_curr k := TWtmtx m, ntp := TCurrent)"
    using mtx_sleep_ok [OF k1(2,3), of m tp] b i by auto
  have "ntp \<noteq> k_curr k" using k2(7) sched_okD(1) [OF s] by auto
  then have "tstate_of k2 (k_curr k) = TWtmtx m" using k2(8) by simp
  moreover have "calm (k_curr k) k k2" using k2(7,8) \<open>ntp \<noteq> k_curr k\<close> by (simp add: calm_def)
  moreover have "chMtxLockS m k = Some k2"
    using Some k1(1) k2(1) b(1) by (simp add: chMtxLockS_def mtx_sleep_def)
  ultimately show ?thesis using Some k2 k1(5) by (simp add: kernel_ok_def prios_ok_def)
qed

section \<open>Unlocking\<close>

text \<open>Unlocking one mutex, the priority of the caller apart.\<close>

definition mtx_release :: "nat \<Rightarrow> nat list \<Rightarrow> kernel \<Rightarrow> kernel option" where
  "mtx_release m rest k =
     (let k = set_mtxlist (k_curr k) rest k
      in if chMtxQueueNotEmptyS m k then mtx_pass m k else Some (set_mtx m ((k_mtx k m)\<lparr>mtx_owner := None\<rparr>) k))"

text \<open>The invariant while the priority of the running thread is not settled.\<close>

definition unsettled_ok :: "kernel \<Rightarrow> bool" where
  "unsettled_ok k \<longleftrightarrow> sched_ok k \<and> locks_ok k \<and> (\<forall>t. t \<noteq> k_curr k \<longrightarrow> is_max (claims k t) (prio k t))"

lemma running_waits: "sched_ok k \<Longrightarrow> \<not> waits_for k (k_curr k) t"
  using sched_okD(1) by (auto simp: waits_for_def)

lemma set_prio_running:
  assumes "unsettled_ok k" and p: "0 < p"
  shows "unsettled_ok (set_prio (k_curr k) p k)" "claims (set_prio (k_curr k) p k) t = claims k t"
proof -
  have s: "sched_ok k" and l: "locks_ok k" using assms(1) by (auto simp: unsettled_ok_def)
  note sd = sched_okD [OF s] and ld = locks_okD [OF l]
  let ?k = "set_prio (k_curr k) p k"
  have w: "waits_for ?k w t \<longleftrightarrow> waits_for k w t" for w t by (simp add: waits_for_def)
  have c: "claims ?k t = claims k t" for t
    using running_waits [OF s] unfolding claims_def w by (auto simp: image_iff)
  then show "claims ?k t = claims k t" .
  have "k_curr k \<notin> set (queue_of k m)" for m using ld(3) sd(1) by simp
  then have "locks_ok ?k" using l unfolding locks_ok_def by (simp add: in_order_other)
  moreover have "sched_ok ?k" using s p in_order_other [OF sd(5,6)] unfolding sched_ok_def by auto
  ultimately show "unsettled_ok ?k" using assms(1) c by (simp add: unsettled_ok_def)
qed

lemma mtx_pass_ok:
  assumes ok: "unsettled_ok k" and ml: "mtxlist_of k (k_curr k) = m # rest" and q: "queue_of k m = tp # q"
  shows "\<exists>k'. mtx_release m rest k = Some k' \<and> unsettled_ok k' \<and> prio k' = prio k \<and> k_curr k' = k_curr k \<and>
    (\<forall>t. realprio_of k' t = realprio_of k t) \<and> mtxlist_of k' (k_curr k) = rest \<and> (\<forall>m'. m' \<noteq> m \<longrightarrow> k_mtx k' m' = k_mtx k m') \<and>
    owner_of k' m = Some tp \<and> tstate_of k' = (tstate_of k)(tp := TReady)"
proof -
  have s: "sched_ok k" and l: "locks_ok k" and mx: "\<And>t. t \<noteq> k_curr k \<Longrightarrow> is_max (claims k t) (prio k t)"
    using ok by (auto simp: unsettled_ok_def)
  note sd = sched_okD [OF s] and ld = locks_okD [OF l]
  have tp: "tstate_of k tp = TWtmtx m" "tp \<noteq> k_curr k" using ld(3) [of tp m] sd(1) q by auto
  let ?k = "set_mtxlist tp (m # mtxlist_of k tp) (set_mtx m \<lparr>mtx_queue = q, mtx_owner = Some tp\<rparr> (set_mtxlist (k_curr k) rest k))"
  have "sched_ok ?k" using s by (auto simp: sched_ok_def)
  then obtain k' where k': "chSchReadyI tp ?k = Some k'" "sched_ok k'" "same_locks ?k k'" "prio k' = prio k"
    "tstate_of k' = (tstate_of k)(tp := TReady)" "k_curr k' = k_curr k" using chSchReadyI_ok [of ?k tp] tp by auto
  have e: "mtx_release m rest k = Some k'"
    using k'(1) q tp(2) by (simp add: mtx_release_def mtx_pass_def chMtxQueueNotEmptyS_def Let_def)
  have f: "queue_of k' m' = (if m' = m then q else queue_of k m')" "owner_of k' m' = (if m' = m then Some tp else owner_of k m')"
    "mtxlist_of k' t = (if t = tp then m # mtxlist_of k tp else if t = k_curr k then rest else mtxlist_of k t)"
    "realprio_of k' t = realprio_of k t" "m' \<noteq> m \<Longrightarrow> k_mtx k' m' = k_mtx k m'" for m' t
    using k'(3) by (simp_all add: same_locks_def)
  have om: "owner_of k m = Some (k_curr k)" "m \<notin> set rest" using ld(5) [of m "k_curr k"] ld(6) [of "k_curr k"] ml by auto
  have "distinct (queue_of k' m') \<and> set (queue_of k' m') = {t. tstate_of k' t = TWtmtx m'} \<and> in_order (prio k') (queue_of k' m')" for m'
  proof (cases "m' = m")
    case True
    have "set q = set (queue_of k m) - {tp}" using ld(2) [of m] q by auto
    then have "set q = {t. tstate_of k' t = TWtmtx m}" using ld(3) tp(1) unfolding k'(5) by auto
    then show ?thesis using True ld(2,4) [of m] q unfolding f k'(4) by simp
  next
    case False
    have "set (queue_of k m') = {t. tstate_of k' t = TWtmtx m'}" using ld(3) False tp(1) unfolding k'(5) by auto
    then show ?thesis using False ld(2,4) [of m'] unfolding f k'(4) by simp
  qed
  moreover have own: "owner_of k' m' = Some t \<longleftrightarrow> m' \<in> set (mtxlist_of k' t)" for m' t
    using ld(5) [of m' t] ld(5) [of m' tp] om ml tp(2) unfolding f by auto
  moreover have "distinct (mtxlist_of k' t)" for t
    using ld(6) [of t] ld(6) [of "k_curr k"] ld(5) [of m tp] om ml tp(2) unfolding f by auto
  moreover have "owner_of k' m' = None \<longrightarrow> queue_of k' m' = []" for m' using ld(7) unfolding f by simp
  moreover have "mtxlist_of k' t \<noteq> [] \<longrightarrow> tstate_of k' t \<noteq> TFinal" for t using ld(8) sd(1) unfolding f k'(5) by simp
  moreover have "finite {t. tstate_of k' t \<noteq> TFinal}"
    by (rule finite_subset [OF _ ld(1)]) (use tp(1) in \<open>auto simp: k'(5)\<close>)
  moreover have "tstate_of k' t \<noteq> TFinal \<longrightarrow> 0 < realprio_of k' t" for t
    using ld(9) [of t] tp(1) unfolding f k'(5) by auto
  ultimately have lk: "locks_ok k'" unfolding locks_ok_def by blast
  have inq: "w \<in> set q \<longleftrightarrow> w \<noteq> tp \<and> tstate_of k w = TWtmtx m" for w using ld(2) [of m] ld(3) [of w m] q by auto
  have wt: "waits_for k' w t \<longleftrightarrow> (if t = tp then waits_for k w tp \<or> w \<in> set q else waits_for k w t)" if "t \<noteq> k_curr k" for w t
    using that om tp unfolding waits_for_def f k'(5) inq by (cases "tstate_of k w") auto
  have "is_max (claims k' t) (prio k' t)" if "t \<noteq> k_curr k'" for t
  proof (cases "t = tp")
    case True
    have "prio k w \<le> prio k tp" if "w \<in> set q" for w using ld(4) [of m] q that by simp
    moreover have "claims k' tp = claims k tp \<union> prio k ` set q" using wt tp(2) unfolding claims_def f k'(4) by auto
    ultimately show ?thesis using mx [of tp] tp(2) True by (auto simp: is_max_def k'(4))
  next
    case False
    then have "claims k' t = claims k t" using wt that unfolding claims_def f k'(4,6) by simp
    then show ?thesis using mx that k'(4,6) by simp
  qed
  then have "unsettled_ok k'" using k'(2) lk by (simp add: unsettled_ok_def)
  then show ?thesis using e k'(4,5,6) f tp(2) by auto
qed

lemma mtx_free_ok:
  assumes ok: "unsettled_ok k" and ml: "mtxlist_of k (k_curr k) = m # rest" and q: "queue_of k m = []"
  shows "\<exists>k'. mtx_release m rest k = Some k' \<and> unsettled_ok k' \<and> prio k' = prio k \<and> k_curr k' = k_curr k \<and>
    (\<forall>t. realprio_of k' t = realprio_of k t) \<and> mtxlist_of k' (k_curr k) = rest \<and> (\<forall>m'. m' \<noteq> m \<longrightarrow> k_mtx k' m' = k_mtx k m') \<and>
    owner_of k' m = None \<and> tstate_of k' = tstate_of k \<and> (\<forall>t. claims k' t = claims k t) \<and> k_ready k' = k_ready k"
proof -
  have s: "sched_ok k" and l: "locks_ok k" and mx: "\<And>t. t \<noteq> k_curr k \<Longrightarrow> is_max (claims k t) (prio k t)"
    using ok by (auto simp: unsettled_ok_def)
  note sd = sched_okD [OF s] and ld = locks_okD [OF l]
  let ?k = "set_mtx m ((k_mtx k m)\<lparr>mtx_owner := None\<rparr>) (set_mtxlist (k_curr k) rest k)"
  have e: "mtx_release m rest k = Some ?k" using q by (simp add: mtx_release_def chMtxQueueNotEmptyS_def Let_def)
  have f: "queue_of ?k m' = queue_of k m'" "owner_of ?k m' = (if m' = m then None else owner_of k m')"
    "mtxlist_of ?k t = (if t = k_curr k then rest else mtxlist_of k t)" "realprio_of ?k t = realprio_of k t"
    "tstate_of ?k = tstate_of k" "prio ?k = prio k" "k_ready ?k = k_ready k" "k_curr ?k = k_curr k" "k_idle ?k = k_idle k" for m' t by simp_all
  have om: "owner_of k m = Some (k_curr k)" "m \<notin> set rest" using ld(5) [of m "k_curr k"] ld(6) [of "k_curr k"] ml by auto
  have own: "owner_of ?k m' = Some t \<longleftrightarrow> m' \<in> set (mtxlist_of ?k t)" for m' t
    using ld(5) [of m' t] om ml unfolding f by auto
  have dist: "distinct (mtxlist_of ?k t)" for t using ld(6) [of t] ml unfolding f by auto
  have "locks_ok ?k" unfolding locks_ok_def
    using own dist ld(1,2,3,4,7,8,9) q sd(1) unfolding f by auto
  moreover have "sched_ok ?k" using s unfolding sched_ok_def f .
  moreover have "tstate_of k w \<noteq> TWtmtx m" for w using ld(3) [of w m] q by simp
  then have "waits_for ?k w t \<longleftrightarrow> waits_for k w t" for w t unfolding waits_for_def f by metis
  then have "claims ?k t = claims k t" for t unfolding claims_def f by simp
  ultimately show ?thesis using e mx by (auto simp: unsettled_ok_def)
qed

text \<open>The scan finds the highest claim.\<close>

lemma mtx_newprio_max:
  assumes "\<forall>m. in_order (prio k) (queue_of k m)"
  shows "is_max (insert x (\<Union>m \<in> set ms. prio k ` set (queue_of k m))) (mtx_newprio k ms x)"
proof (induction ms arbitrary: x)
  case Nil
  then show ?case by (simp add: is_max_def)
next
  case (Cons m ms)
  show ?case
  proof (cases "queue_of k m")
    case Nil
    then show ?thesis using Cons by simp
  next
    case q: (Cons t ts)
    have le: "prio k u \<le> prio k t" if "u \<in> set ts" for u using assms [rule_format, of m] q that by simp
    show ?thesis using Cons [of "max x (prio k t)"] q le unfolding is_max_def
      by (auto simp: max_def split: if_splits intro: order_trans) (meson le order_trans nat_le_linear)+
  qed
qed


lemma claims_owned:
  assumes "locks_ok k"
  shows "claims k t = insert (realprio_of k t) (\<Union>m \<in> set (mtxlist_of k t). prio k ` set (queue_of k m))"
  using locks_okD(3,5) [OF assms] by (auto simp: claims_def waits_for_def)

lemma kernel_unsettled: "kernel_ok k \<longleftrightarrow> unsettled_ok k \<and> is_max (claims k (k_curr k)) (prio k (k_curr k))"
  unfolding kernel_ok_def unsettled_ok_def prios_ok_def by metis

lemma set_prio_mtxlist: "set_mtxlist t ms (set_prio t p k) = set_prio t p (set_mtxlist t ms k)"
  by (cases "k_thd k t") (simp add: set_mtxlist_def set_prio_def)

lemma chMtxUnlockS_ok:
  assumes k: "kernel_ok k" and ml: "mtxlist_of k (k_curr k) = m # rest"
  shows "\<exists>k'. chMtxUnlockS m k = Some k' \<and> kernel_ok k' \<and> k_curr k' = k_curr k \<and> mtxlist_of k' (k_curr k) = rest \<and> calm (k_curr k) k k' \<and>
    (case queue_of k m of [] \<Rightarrow> owner_of k' m = None \<and> tstate_of k' = tstate_of k \<and> prio k' = prio k \<and> k_ready k' = k_ready k
     | tp # q \<Rightarrow> owner_of k' m = Some tp \<and> tstate_of k' tp = TReady)"
proof -
  have cur: "tstate_of k (k_curr k) = TCurrent" using k sched_okD(1) by (simp add: kernel_ok_def)
  have u: "unsettled_ok k" and l: "locks_ok k" using k by (auto simp: kernel_unsettled unsettled_ok_def)
  note ld = locks_okD [OF l]
  have om: "owner_of k m = Some (k_curr k)" using ld(5) [of m "k_curr k"] ml by simp
  show ?thesis
  proof (cases "queue_of k m")
    case Nil
    obtain k' where k': "mtx_release m rest k = Some k'" "unsettled_ok k'" "prio k' = prio k" "k_curr k' = k_curr k"
      "mtxlist_of k' (k_curr k) = rest" "owner_of k' m = None" "tstate_of k' = tstate_of k" "\<forall>t. claims k' t = claims k t" "k_ready k' = k_ready k"
      using mtx_free_ok [OF u ml Nil] by blast
    have "chMtxUnlockS m k = Some k'"
      using k'(1) ml om Nil by (simp add: chMtxUnlockS_def mtx_release_def Let_def chMtxQueueNotEmptyS_def)
    moreover have "calm (k_curr k) k k'" by (rule calm_same) (simp_all add: k'(7) cur)
    ultimately show ?thesis using Nil k k' by (auto simp: kernel_unsettled)
  next
    case (Cons tp q)
    let ?p = "mtx_newprio k rest (realprio_of k (k_curr k))"
    let ?k = "set_prio (k_curr k) ?p k"
    have "is_max (insert (realprio_of k (k_curr k)) (\<Union>m \<in> set rest. prio k ` set (queue_of k m))) ?p"
      using mtx_newprio_max [of k] ld(4) by simp
    note mx = this
    have "0 < realprio_of k (k_curr k)" using ld(8,9) [of "k_curr k"] ml by simp
    then have "0 < ?p" using mx by (auto simp: is_max_def)
    note sp = set_prio_running [OF u this]
    obtain k' where k': "mtx_release m rest ?k = Some k'" "unsettled_ok k'" "prio k' = prio ?k" "k_curr k' = k_curr k"
      "\<forall>t. realprio_of k' t = realprio_of k t" "mtxlist_of k' (k_curr k) = rest" "\<forall>m'. m' \<noteq> m \<longrightarrow> k_mtx k' m' = k_mtx k m'"
      "owner_of k' m = Some tp" "tstate_of k' = (tstate_of k)(tp := TReady)"
      using mtx_pass_ok [OF sp(1), of m rest tp q] ml Cons by auto
    have np: "mtx_newprio (set_mtxlist t ms k) rest x = mtx_newprio k rest x" for t ms x
      by (induction rest arbitrary: x) (simp_all split: list.split)
    have e: "chMtxUnlockS m k = Some k'"
      using k'(1) ml om Cons by (simp add: chMtxUnlockS_def mtx_release_def Let_def chMtxQueueNotEmptyS_def set_prio_mtxlist np)
    have "m \<notin> set rest" using ld(6) [of "k_curr k"] ml by auto
    then have qs: "queue_of k' m' = queue_of k m'" if "m' \<in> set rest" for m' using k'(7) that by metis
    have nq: "k_curr k \<notin> set (queue_of k m')" for m' using ld(3) k sched_okD(1) by (simp add: kernel_ok_def)
    have "claims k' (k_curr k) = insert (realprio_of k (k_curr k)) (\<Union>m \<in> set rest. prio k' ` set (queue_of k' m))"
      using claims_owned [of k' "k_curr k"] k'(2,5,6) by (simp add: unsettled_ok_def)
    also have "\<dots> = insert (realprio_of k (k_curr k)) (\<Union>m \<in> set rest. prio k ` set (queue_of k m))"
      using qs nq unfolding k'(3) by (auto simp: image_iff)
    finally have "is_max (claims k' (k_curr k)) ?p" using mx by simp
    then have "kernel_ok k'" using k'(2,3,4) by (simp add: kernel_unsettled)
    moreover have "tstate_of k tp = TWtmtx m" using ld(3) [of tp m] Cons by simp
    then have "calm (k_curr k) k k'" using k'(9) cur by (auto simp: calm_def)
    ultimately show ?thesis using Cons e k'(4,6,8,9) by simp
  qed
qed

lemma chMtxUnlock_ok:
  assumes k: "kernel_ok k" and r: "first_runs k" and ml: "mtxlist_of k (k_curr k) = m # rest"
  shows "\<exists>k'. chMtxUnlock m k = Some k' \<and> kernel_ok k' \<and> first_runs k' \<and> calm (k_curr k) k k' \<and> mtxlist_of k' (k_curr k) = rest \<and>
    (case queue_of k m of [] \<Rightarrow> owner_of k' m = None | tp # q \<Rightarrow> owner_of k' m = Some tp \<and> tp \<in> runnable k')"
proof -
  obtain k1 where k1: "chMtxUnlockS m k = Some k1" "kernel_ok k1" "k_curr k1 = k_curr k" "mtxlist_of k1 (k_curr k) = rest" "calm (k_curr k) k k1"
    "case queue_of k m of [] \<Rightarrow> owner_of k1 m = None \<and> tstate_of k1 = tstate_of k \<and> prio k1 = prio k \<and> k_ready k1 = k_ready k
     | tp # q \<Rightarrow> owner_of k1 m = Some tp \<and> tstate_of k1 tp = TReady" using chMtxUnlockS_ok [OF k ml] by blast
  show ?thesis
  proof (cases "queue_of k m")
    case Nil
    then show ?thesis using k1 r by (simp add: chMtxUnlock_def chMtxQueueNotEmptyS_def first_runs_def)
  next
    case (Cons tp q)
    obtain k' where k': "chSchRescheduleS k1 = Some k'" "sched_ok k'" "first_runs k'" "same_locks k1 k'" "prio k' = prio k1"
      "runnable k' = runnable k1" "\<forall>u. u \<notin> runnable k1 \<longrightarrow> tstate_of k' u = tstate_of k1 u"
      using chSchRescheduleS_ok [of k1] k1(2) by (auto simp: kernel_ok_def)
    have "kernel_ok k'" using kernel_ok_runnable [of k1 k' "{}"] k1(2) k' by simp
    moreover have "tp \<in> runnable k1" using k1(6) Cons by (simp add: runnable_def)
    moreover have "calm (k_curr k) k1 k'"
      by (rule calm_runnable [where A = "{}"]) (use k'(6,7) k1(5) in \<open>auto simp: calm_def\<close>)
    then have "calm (k_curr k) k k'" by (rule calm_trans [OF k1(5)])
    ultimately show ?thesis using Cons k1 k' by (simp add: chMtxUnlock_def chMtxQueueNotEmptyS_def same_locks_def)
  qed
qed

lemma mtx_unlock_all_ok:
  assumes "unsettled_ok k" and "mtxlist_of k (k_curr k) = ms"
  shows "\<exists>k'. mtx_unlock_all (k_curr k) ms k = Some k' \<and> unsettled_ok k' \<and> k_curr k' = k_curr k \<and> mtxlist_of k' (k_curr k) = [] \<and>
    realprio_of k' (k_curr k) = realprio_of k (k_curr k) \<and> calm (k_curr k) k k'"
  using assms
proof (induction ms arbitrary: k)
  case (Cons m rest)
  have cur: "tstate_of k (k_curr k) = TCurrent" using Cons.prems(1) sched_okD(1) by (simp add: unsettled_ok_def)
  obtain k1 where k1: "mtx_release m rest k = Some k1" "unsettled_ok k1" "k_curr k1 = k_curr k" "mtxlist_of k1 (k_curr k) = rest"
    "realprio_of k1 (k_curr k) = realprio_of k (k_curr k)" "calm (k_curr k) k k1"
  proof (cases "queue_of k m")
    case Nil
    have "calm (k_curr k) k k1" if "tstate_of k1 = tstate_of k" for k1 by (rule calm_same [OF that]) (simp add: cur)
    then show ?thesis using mtx_free_ok [OF Cons.prems Nil] that by blast
  next
    case (Cons tp q)
    have "tstate_of k tp = TWtmtx m" using locks_okD(3) [of k tp m] Cons Cons.prems(1) by (simp add: unsettled_ok_def)
    then have "calm (k_curr k) k k1" if "tstate_of k1 = (tstate_of k)(tp := TReady)" for k1 using that cur by (auto simp: calm_def)
    then show ?thesis using mtx_pass_ok [OF Cons.prems Cons] that by blast
  qed
  then show ?case using Cons.IH [of k1] calm_trans [OF k1(6)] by (auto simp: mtx_release_def Let_def)
qed (simp add: calm_def unsettled_ok_def sched_okD(1))

lemma chMtxUnlockAllS_ok:
  assumes k: "kernel_ok k" and r: "first_runs k"
  shows "\<exists>k'. chMtxUnlockAllS k = Some k' \<and> kernel_ok k' \<and> first_runs k' \<and> calm (k_curr k) k k' \<and> mtxlist_of k' (k_curr k) = []"
proof (cases "mtxlist_of k (k_curr k) = []")
  case True
  then show ?thesis using k r sched_okD(1) [of k] by (simp add: chMtxUnlockAllS_def calm_def kernel_ok_def)
next
  case False
  obtain k1 where k1: "mtx_unlock_all (k_curr k) (mtxlist_of k (k_curr k)) k = Some k1" "unsettled_ok k1" "k_curr k1 = k_curr k"
    "mtxlist_of k1 (k_curr k) = []" "realprio_of k1 (k_curr k) = realprio_of k (k_curr k)" "calm (k_curr k) k k1"
    using mtx_unlock_all_ok [of k] k by (auto simp: kernel_unsettled)
  let ?p = "realprio_of k (k_curr k)"
  let ?k2 = "set_prio (k_curr k) ?p k1"
  have "locks_ok k" using k by (simp add: kernel_ok_def)
  then have "0 < ?p" using locks_okD(8,9) [of k "k_curr k"] False by simp
  then have u: "unsettled_ok ?k2" "claims ?k2 t = claims k1 t" for t using set_prio_running [OF k1(2)] k1(3) by simp_all
  have "claims k1 (k_curr k) = {?p}" using claims_owned [of k1 "k_curr k"] k1 by (simp add: unsettled_ok_def)
  then have k2: "kernel_ok ?k2" using u k1(3) by (simp add: kernel_unsettled is_max_def)
  then obtain k' where k': "chSchRescheduleS ?k2 = Some k'" "sched_ok k'" "first_runs k'" "same_locks ?k2 k'" "prio k' = prio ?k2"
      "runnable k' = runnable ?k2" "\<forall>u. u \<notin> runnable ?k2 \<longrightarrow> tstate_of k' u = tstate_of ?k2 u"
    using chSchRescheduleS_ok [of ?k2] by (auto simp: kernel_ok_def)
  have "kernel_ok k'" using kernel_ok_runnable [of ?k2 k' "{}"] k2 k' by simp
  moreover have "calm (k_curr k) ?k2 k'"
    by (rule calm_runnable [where A = "{}"]) (use k'(6,7) k1(6) in \<open>auto simp: calm_def\<close>)
  then have "calm (k_curr k) k1 k'" by (simp add: calm_def)
  then have "calm (k_curr k) k k'" by (rule calm_trans [OF k1(6)])
  ultimately show ?thesis using False k1 k' by (simp add: chMtxUnlockAllS_def same_locks_def)
qed

end
