(* ===== verification/Threads.thy ===== *)
theory Threads
  imports Mutex
begin

text \<open>
  Threads of the kernel, \<open>chthreads.c\<close>, and its start, \<open>chinstances.c\<close>: creation, start, exit and
  change of priority, and the histories of a kernel in which threads, interrupts and mutexes
  interact. The threads that wait for the exit of another one are an argument of its exit;
  the registry and the reference counts are left out.
\<close>

definition IDLEPRIO :: nat where "IDLEPRIO = 1"
definition NORMALPRIO :: nat where "NORMALPRIO = 128"
definition HIGHPRIO :: nat where "HIGHPRIO = 255"

definition thd_object_init :: "tid \<Rightarrow> nat \<Rightarrow> kernel \<Rightarrow> kernel" where
  "thd_object_init tp p k =
     k\<lparr>k_thd := (k_thd k)(tp := \<lparr>thd_prio = p, thd_realprio = p, thd_state = TWtstart, thd_mtxlist = []\<rparr>)\<rparr>"

definition chThdCreateSuspendedI :: "tid \<Rightarrow> nat \<Rightarrow> kernel \<Rightarrow> kernel option" where
  "chThdCreateSuspendedI tp p k = (if p \<le> HIGHPRIO then Some (thd_object_init tp p k) else None)"

definition chThdCreateI :: "tid \<Rightarrow> nat \<Rightarrow> kernel \<Rightarrow> kernel option" where
  "chThdCreateI tp p k = Option.bind (chThdCreateSuspendedI tp p k) (chSchReadyI tp)"

definition chThdCreate :: "tid \<Rightarrow> nat \<Rightarrow> kernel \<Rightarrow> kernel option" where
  "chThdCreate tp p k = Option.bind (chThdCreateSuspendedI tp p k) (chSchWakeupS tp)"

definition chThdStart :: "tid \<Rightarrow> kernel \<Rightarrow> kernel option" where
  "chThdStart tp k = (if tstate_of k tp = TWtstart then chSchWakeupS tp k else None)"

primrec ready_all :: "tid list \<Rightarrow> kernel \<Rightarrow> kernel option" where
  "ready_all [] k = Some k"
| "ready_all (t # ts) k = Option.bind (chSchReadyI t k) (ready_all ts)"

definition chThdExitS :: "tid list \<Rightarrow> kernel \<Rightarrow> kernel option" where
  "chThdExitS waiting k = Option.bind (ready_all waiting k) (chSchGoSleepS TFinal)"

definition set_realprio :: "tid \<Rightarrow> nat \<Rightarrow> kernel \<Rightarrow> kernel" where
  "set_realprio t p k = k\<lparr>k_thd := (k_thd k)(t := (k_thd k t)\<lparr>thd_realprio := p\<rparr>)\<rparr>"

definition chThdSetPriority :: "nat \<Rightarrow> kernel \<Rightarrow> (nat \<times> kernel) option" where
  "chThdSetPriority newprio k =
     (if newprio \<le> HIGHPRIO
      then let currtp = k_curr k;
               oldprio = realprio_of k currtp;
               k = (if prio k currtp = realprio_of k currtp \<or> newprio > prio k currtp then set_prio currtp newprio k else k);
               k = set_realprio currtp newprio k
           in do { k \<leftarrow> chSchRescheduleS k; Some (oldprio, k) }
      else None)"

definition chThdYield :: "kernel \<Rightarrow> kernel option" where
  "chThdYield k = chSchDoYieldS k"

text \<open>The start of the kernel: the caller becomes the main thread, and the idle thread is created.\<close>

definition chInstanceObjectInit :: "tid \<Rightarrow> tid \<Rightarrow> kernel option" where
  "chInstanceObjectInit mainthread idle =
     (let k = \<lparr>k_thd = (\<lambda>t. \<lparr>thd_prio = 0, thd_realprio = 0, thd_state = TFinal, thd_mtxlist = []\<rparr>),
               k_mtx = (\<lambda>m. chMtxObjectInit), k_ready = [], k_curr = mainthread, k_idle = idle\<rparr>;
          k = set_state mainthread TCurrent (thd_object_init mainthread NORMALPRIO k)
      in chThdCreateI idle IDLEPRIO k)"

section \<open>Histories\<close>

text \<open>
  What the running thread or an interrupt does next. \<open>KIsr\<close> is an interrupt that wakes some
  threads, with the preemption at its end (\<open>chcore.c\<close>).
\<close>

datatype kevent =
  KLock nat | KTryLock nat | KUnlock nat | KUnlockAll | KSleep | KYield | KWake tid | KIsr "tid list" |
  KSetPriority nat | KCreate tid nat | KCreateSuspended tid nat | KStart tid | KExit "tid list"

definition isr_epilogue :: "kernel \<Rightarrow> kernel option" where
  "isr_epilogue k = (if chSchIsPreemptionRequired k then chSchDoPreemption k else Some k)"

fun kstep :: "kevent \<Rightarrow> kernel \<Rightarrow> kernel option" where
  "kstep (KLock m) k = chMtxLock m k"
| "kstep (KTryLock m) k = Some (snd (chMtxTryLock m k))"
| "kstep (KUnlock m) k = chMtxUnlock m k"
| "kstep KUnlockAll k = chMtxUnlockAll k"
| "kstep KSleep k = chSchGoSleepS TSleeping k"
| "kstep KYield k = chThdYield k"
| "kstep (KWake t) k = chSchWakeupS t k"
| "kstep (KIsr ts) k = Option.bind (ready_all ts k) isr_epilogue"
| "kstep (KSetPriority p) k = map_option snd (chThdSetPriority p k)"
| "kstep (KCreate t p) k = chThdCreate t p k"
| "kstep (KCreateSuspended t p) k = chThdCreateSuspendedI t p k"
| "kstep (KStart t) k = chThdStart t k"
| "kstep (KExit ts) k = chThdExitS ts k"

text \<open>
  The rules of the interface: mutexes are unlocked in reverse order, only sleeping threads are
  woken, only unused thread structures are created, priorities are not 0, the idle thread does not sleep or yield, a
  thread that exits owns nothing. The last condition on a change of priority is not a rule of the
  interface; \<open>set_priority_inverts\<close> below shows what happens without it.
\<close>

definition sleepers :: "tid list \<Rightarrow> kernel \<Rightarrow> bool" where
  "sleepers ts k \<longleftrightarrow> distinct ts \<and> (\<forall>t \<in> set ts. tstate_of k t = TSleeping)"

definition may_set_prio :: "nat \<Rightarrow> kernel \<Rightarrow> bool" where
  "may_set_prio p k \<longleftrightarrow>
     prio k (k_curr k) = realprio_of k (k_curr k) \<longrightarrow> (\<forall>m \<in> set (mtxlist_of k (k_curr k)). \<forall>w \<in> set (queue_of k m). prio k w \<le> p)"

fun legal :: "kevent \<Rightarrow> kernel \<Rightarrow> bool" where
  "legal (KLock m) k = (k_curr k \<noteq> k_idle k)"
| "legal (KTryLock m) k = True"
| "legal (KUnlock m) k = (case mtxlist_of k (k_curr k) of [] \<Rightarrow> False | mp # rest \<Rightarrow> mp = m)"
| "legal KUnlockAll k = True"
| "legal KSleep k = (k_curr k \<noteq> k_idle k)"
| "legal KYield k = (k_curr k \<noteq> k_idle k)"
| "legal (KWake t) k = (tstate_of k t = TSleeping)"
| "legal (KIsr ts) k = sleepers ts k"
| "legal (KSetPriority p) k = (0 < p \<and> p \<le> HIGHPRIO \<and> may_set_prio p k)"
| "legal (KCreate t p) k = (0 < p \<and> p \<le> HIGHPRIO \<and> tstate_of k t = TFinal)"
| "legal (KCreateSuspended t p) k = (0 < p \<and> p \<le> HIGHPRIO \<and> tstate_of k t = TFinal)"
| "legal (KStart t) k = (tstate_of k t = TWtstart)"
| "legal (KExit ts) k = (k_curr k \<noteq> k_idle k \<and> mtxlist_of k (k_curr k) = [] \<and> sleepers ts k)"

inductive kernel_reach :: "kernel \<Rightarrow> bool" where
  Boot: "mainthread \<noteq> idle \<Longrightarrow> chInstanceObjectInit mainthread idle = Some k \<Longrightarrow> kernel_reach k"
| Step: "kernel_reach k \<Longrightarrow> legal e k \<Longrightarrow> kstep e k = Some k' \<Longrightarrow> kernel_reach k'"

section \<open>The invariant is kept\<close>

lemma ready_all_ok:
  assumes "kernel_ok k" and "sleepers ts k"
  shows "\<exists>k'. ready_all ts k = Some k' \<and> kernel_ok k' \<and> k_curr k' = k_curr k \<and> same_waits k k' \<and>
    (\<forall>t. tstate_of k' t = (if t \<in> set ts then TReady else tstate_of k t))"
  using assms
proof (induction ts arbitrary: k)
  case Nil
  then show ?case by (simp add: same_waits_refl)
next
  case (Cons t ts)
  have t: "tstate_of k t = TSleeping" using Cons.prems by (simp add: sleepers_def)
  obtain k1 where k1: "chSchReadyI t k = Some k1" "sched_ok k1" "same_locks k k1" "prio k1 = prio k"
    "tstate_of k1 = (tstate_of k)(t := TReady)" "k_curr k1 = k_curr k"
    using chSchReadyI_ok [of k t] Cons.prems(1) t by (auto simp: kernel_ok_def)
  have w: "same_waits k k1" using k1(3,4,5) t by (simp add: same_waits_def)
  have "kernel_ok k1" by (rule kernel_ok_waits [OF Cons.prems(1) w k1(2)])
  moreover have "sleepers ts k1" using Cons.prems(2) k1(5) by (auto simp: sleepers_def)
  ultimately show ?case using Cons.IH [of k1] k1(1,5,6) same_waits_trans [OF w] by fastforce
qed

lemma ready_all_calm:
  assumes "sleepers ts k" and "\<forall>t. tstate_of k' t = (if t \<in> set ts then TReady else tstate_of k t)" and "\<not> suspended (tstate_of k c)"
  shows "calm c k k'"
  using assms by (simp add: calm_def sleepers_def)

lemma reschedule_ok:
  assumes "kernel_ok k"
  shows "\<exists>k'. chSchRescheduleS k = Some k' \<and> kernel_ok k' \<and> first_runs k' \<and> runnable k' = runnable k \<and>
    (\<forall>u. u \<notin> runnable k \<longrightarrow> tstate_of k' u = tstate_of k u)"
  using chSchRescheduleS_ok [of k] kernel_ok_runnable [OF assms, of _ "{}"] assms by (auto simp: kernel_ok_def)

lemma reschedule_calm:
  assumes "kernel_ok k"
  shows "\<exists>k'. chSchRescheduleS k = Some k' \<and> kernel_ok k' \<and> first_runs k' \<and> (\<forall>c. \<not> suspended (tstate_of k c) \<longrightarrow> calm c k k')"
  using reschedule_ok [OF assms] calm_runnable [where A = "{}" and k = k] by auto

lemma current_calm: "kernel_ok k \<Longrightarrow> \<not> suspended (tstate_of k (k_curr k))"
  using sched_okD(1) [of k] by (simp add: kernel_ok_def)

lemma isr_epilogue_reschedule: "isr_epilogue k = chSchRescheduleS k" "chSchPreemption k = chSchRescheduleS k"
  by (simp_all add: isr_epilogue_def chSchIsPreemptionRequired_def chSchDoPreemption_def chSchRescheduleS_def sch_reschedule_ahead_def
      chSchPreemption_def)

lemma wakeup_ok:
  assumes "kernel_ok k" and "first_runs k" and "asleep (tstate_of k t)"
  shows "\<exists>k'. chSchWakeupS t k = Some k' \<and> kernel_ok k' \<and> first_runs k' \<and> runnable k' = insert t (runnable k) \<and>
    (\<forall>u. u \<notin> insert t (runnable k) \<longrightarrow> tstate_of k' u = tstate_of k u) \<and> (\<not> suspended (tstate_of k t) \<longrightarrow> calm (k_curr k) k k')"
proof -
  obtain k' where k': "chSchWakeupS t k = Some k'" "sched_ok k'" "first_runs k'" "same_locks k k'" "prio k' = prio k"
    "runnable k' = insert t (runnable k)" "\<forall>u. u \<notin> insert t (runnable k) \<longrightarrow> tstate_of k' u = tstate_of k u"
    using chSchWakeupS_ok [of k t] assms(1,2) asleepD [OF assms(3)] by (auto simp: kernel_ok_def)
  have "calm (k_curr k) k k'" if "\<not> suspended (tstate_of k t)"
    by (rule calm_runnable [where A = "{t}"]) (use k'(6,7) that current_calm [OF assms(1)] in auto)
  then show ?thesis using k' kernel_ok_runnable [OF assms(1), of k' "{t}"] assms(3) by simp
qed

lemma ready_behind_ok:
  assumes "kernel_ok k" and "asleep (tstate_of k t)"
  shows "\<exists>k'. sch_ready_behind t k = Some k' \<and> kernel_ok k' \<and> k_curr k' = k_curr k \<and> tstate_of k' = (tstate_of k)(t := TReady)"
proof -
  obtain k' where k': "sch_ready_behind t k = Some k'" "sched_ok k'" "same_locks k k'" "prio k' = prio k" "tstate_of k' = (tstate_of k)(t := TReady)"
    "k_curr k' = k_curr k"
    using chSchReadyI_ok [of k t] assms(1) asleepD [OF assms(2)] by (auto simp: kernel_ok_def chSchReadyI_def)
  have "same_waits k k'" using k'(3,4,5) asleepD [OF assms(2)] by (simp add: same_waits_def)
  then show ?thesis using k' kernel_ok_waits [OF assms(1)] by blast
qed

lemma thd_fields [simp]:
  "prio (thd_object_init t p k) = (prio k)(t := p)" "tstate_of (thd_object_init t p k) = (tstate_of k)(t := TWtstart)"
  "k_mtx (thd_object_init t p k) = k_mtx k" "k_ready (thd_object_init t p k) = k_ready k" "k_curr (thd_object_init t p k) = k_curr k"
  "k_idle (thd_object_init t p k) = k_idle k" "mtxlist_of (thd_object_init t p k) u = (if u = t then [] else mtxlist_of k u)"
  "realprio_of (thd_object_init t p k) u = (if u = t then p else realprio_of k u)"
  by (auto simp: thd_object_init_def prio_def tstate_of_def fun_eq_iff)

lemma create_ok:
  assumes k: "kernel_ok k" and r: "first_runs k" and t: "tstate_of k t = TFinal" and p: "0 < p"
  shows "kernel_ok (thd_object_init t p k)" "first_runs (thd_object_init t p k)"
proof -
  have s: "sched_ok k" and l: "locks_ok k" and mx: "prios_ok k" using k by (auto simp: kernel_ok_def)
  note sd = sched_okD [OF s] and ld = locks_okD [OF l]
  let ?k = "thd_object_init t p k"
  have ml: "mtxlist_of k t = []" using ld(8) [of t] t by blast
  have tr: "t \<notin> set (k_ready k)" "t \<noteq> k_curr k" using sd(1,3) t by auto
  have "t \<noteq> k_idle k" using s t by (auto simp: sched_ok_def)
  note tr = tr this
  have q: "t \<notin> set (queue_of k m)" for m using ld(3) [of t m] t by simp
  show "first_runs ?k" using r tr by (auto simp: first_runs_def)
  have "sched_ok ?k" using s t tr p in_order_other [OF sd(5)] unfolding sched_ok_def by auto
  moreover have "{u. tstate_of ?k u \<noteq> TFinal} \<subseteq> insert t {u. tstate_of k u \<noteq> TFinal}" by auto
  then have "finite {u. tstate_of ?k u \<noteq> TFinal}" using ld(1) by (meson finite_insert finite_subset)
  moreover have "set (queue_of k m) = {u. tstate_of ?k u = TWtmtx m}" for m using ld(3) [of _ m] t by auto
  ultimately have "locks_ok ?k" using ld ml q p in_order_other [OF ld(4) q] unfolding locks_ok_def by simp
  moreover have w: "waits_for ?k w u \<longleftrightarrow> waits_for k w u" for w u using t by (auto simp: waits_for_def)
  have "\<not> waits_for k w t" "\<not> waits_for k t w" for w using ml ld(5) [of _ t] t by (auto simp: waits_for_def)
  then have "claims ?k u = (if u = t then {p} else claims k u)" for u unfolding claims_def w by (auto simp: image_iff)
  then have "prios_ok ?k" using mx by (simp add: prios_ok_def is_max_def)
  ultimately show "kernel_ok ?k" using \<open>sched_ok ?k\<close> by (simp add: kernel_ok_def)
qed


lemma gosleep_ok:
  assumes k: "kernel_ok k" and i: "k_curr k \<noteq> k_idle k" and s: "asleep s \<or> s = TFinal \<and> mtxlist_of k (k_curr k) = []"
  shows "\<exists>k' ntp. chSchGoSleepS s k = Some k' \<and> kernel_ok k' \<and> first_runs k' \<and> tstate_of k ntp = TReady \<and>
    tstate_of k' = (tstate_of k)(k_curr k := s, ntp := TCurrent)"
proof -
  have so: "sched_ok k" and l: "locks_ok k" and mx: "prios_ok k" using k by (auto simp: kernel_ok_def)
  note sd = sched_okD [OF so] and ld = locks_okD [OF l]
  obtain k' ntp where k': "chSchGoSleepS s k = Some k'" "sched_ok k'" "first_runs k'" "same_locks k k'" "prio k' = prio k"
    "tstate_of k ntp = TReady" "tstate_of k' = (tstate_of k)(k_curr k := s, ntp := TCurrent)"
    using chSchGoSleepS_ok [OF so i, of s] s asleepD [of s] by auto
  have f: "k_mtx k' = k_mtx k" "mtxlist_of k' t = mtxlist_of k t" "realprio_of k' t = realprio_of k t" for t using k'(4) by (simp_all add: same_locks_def)
  have st: "tstate_of k' t = TWtmtx m \<longleftrightarrow> tstate_of k t = TWtmtx m" for t m
    using s k'(6) sd(1) unfolding k'(7) by (auto simp: asleep_def split: if_splits)
  have fin: "{t. tstate_of k' t \<noteq> TFinal} \<subseteq> {t. tstate_of k t \<noteq> TFinal}" using k'(6) sd(1) unfolding k'(7) by auto
  have "mtxlist_of k t \<noteq> [] \<longrightarrow> tstate_of k' t \<noteq> TFinal" for t using ld(8) [of t] s unfolding k'(7) by (auto simp: asleep_def)
  moreover have "set (queue_of k m) = {t. tstate_of k t = TWtmtx m}" for m using ld(3) by blast
  ultimately have "locks_ok k'" unfolding locks_ok_def f st k'(5) using ld finite_subset [OF fin] fin by (simp add: subset_iff)
  moreover have "claims k' t = claims k t" for t unfolding claims_def waits_for_def f st k'(5) by simp
  then have "prios_ok k'" using mx k'(5) by (simp add: prios_ok_def)
  ultimately have "kernel_ok k'" using k'(2) by (simp add: kernel_ok_def)
  then show ?thesis using k'(1,3,6,7) by blast
qed

lemma gosleep_calm:
  assumes "kernel_ok k" and "tstate_of k ntp = TReady" and "tstate_of k' = (tstate_of k)(k_curr k := s, ntp := TCurrent)" and "\<not> suspended s"
  shows "calm (k_curr k) k k'"
  using assms(2,3,4) sched_okD(1) [of k] assms(1) by (auto simp: calm_def kernel_ok_def)

lemma exit_ok:
  assumes "kernel_ok k" and "k_curr k \<noteq> k_idle k" and "mtxlist_of k (k_curr k) = []" and "sleepers ts k"
  shows "\<exists>k'. chThdExitS ts k = Some k' \<and> kernel_ok k' \<and> first_runs k' \<and> calm (k_curr k) k k'"
proof -
  obtain k1 where k1: "ready_all ts k = Some k1" "kernel_ok k1" "k_curr k1 = k_curr k" "same_waits k k1"
    "\<forall>t. tstate_of k1 t = (if t \<in> set ts then TReady else tstate_of k t)" using ready_all_ok [OF assms(1,4)] by blast
  have c: "calm (k_curr k) k k1" by (rule ready_all_calm [OF assms(4) k1(5) current_calm [OF assms(1)]])
  have "k_idle k1 = k_idle k" "mtxlist_of k1 (k_curr k1) = []" using k1(3,4) assms(3) by (simp_all add: same_waits_def same_locks_def)
  then obtain k' ntp where "chSchGoSleepS TFinal k1 = Some k'" "kernel_ok k'" "first_runs k'" "tstate_of k1 ntp = TReady"
    "tstate_of k' = (tstate_of k1)(k_curr k1 := TFinal, ntp := TCurrent)" using gosleep_ok [OF k1(2), of TFinal] k1(3) assms(2) by auto
  then show ?thesis using k1(1,3) gosleep_calm [OF k1(2), of ntp k' TFinal] calm_trans [OF c] by (simp add: chThdExitS_def)
qed

lemma set_realprio_fields [simp]:
  "prio (set_realprio t p k) = prio k" "tstate_of (set_realprio t p k) = tstate_of k" "k_mtx (set_realprio t p k) = k_mtx k"
  "k_ready (set_realprio t p k) = k_ready k" "k_curr (set_realprio t p k) = k_curr k" "k_idle (set_realprio t p k) = k_idle k"
  "mtxlist_of (set_realprio t p k) u = mtxlist_of k u" "realprio_of (set_realprio t p k) u = (if u = t then p else realprio_of k u)"
  by (auto simp: set_realprio_def prio_def tstate_of_def fun_eq_iff)

lemma set_realprio_ok:
  assumes "unsettled_ok k" and "0 < p"
  shows "unsettled_ok (set_realprio (k_curr k) p k)" "claims (set_realprio (k_curr k) p k) (k_curr k) = insert p (prio k ` {w. waits_for k w (k_curr k)})"
proof -
  let ?k = "set_realprio (k_curr k) p k"
  have w: "waits_for ?k w t \<longleftrightarrow> waits_for k w t" for w t by (simp add: waits_for_def)
  show "claims ?k (k_curr k) = insert p (prio k ` {w. waits_for k w (k_curr k)})" unfolding claims_def w by simp
  have "claims ?k t = claims k t" if "t \<noteq> k_curr k" for t using that unfolding claims_def w by simp
  moreover have "sched_ok ?k = sched_ok k" unfolding sched_ok_def by simp
  moreover have "locks_ok ?k" using assms unfolding unsettled_ok_def locks_ok_def by simp
  ultimately show "unsettled_ok ?k" using assms by (simp add: unsettled_ok_def)
qed

lemma waits_for_queues:
  assumes "locks_ok k"
  shows "waits_for k w t \<longleftrightarrow> (\<exists>m \<in> set (mtxlist_of k t). w \<in> set (queue_of k m))"
  using locks_okD(3,5) [OF assms] by (auto simp: waits_for_def)

lemma chThdSetPriority_ok:
  assumes k: "kernel_ok k" and p: "p \<le> HIGHPRIO" "0 < p" and m: "may_set_prio p k"
  shows "\<exists>k'. chThdSetPriority p k = Some (realprio_of k (k_curr k), k') \<and> kernel_ok k' \<and> first_runs k' \<and> calm (k_curr k) k k'"
proof -
  let ?c = "k_curr k" let ?W = "prio k ` {w. waits_for k w (k_curr k)}"
  let ?new = "if prio k ?c = realprio_of k ?c \<or> p > prio k ?c then p else prio k ?c"
  let ?k = "set_realprio ?c p (set_prio ?c ?new k)"
  have u: "unsettled_ok k" and mx: "is_max (claims k ?c) (prio k ?c)" using k by (auto simp: kernel_unsettled)
  have u1: "unsettled_ok (set_prio ?c ?new k)" by (rule set_prio_running(1) [OF u]) (use p in simp)
  have u2: "unsettled_ok ?k" using set_realprio_ok(1) [OF u1 p(2)] by simp
  have nw: "\<not> waits_for k ?c t" for t using running_waits u by (simp add: unsettled_ok_def)
  have w: "waits_for (set_prio ?c ?new k) w t \<longleftrightarrow> waits_for k w t" for w t by (simp add: waits_for_def)
  have c: "claims ?k ?c = insert p ?W" using set_realprio_ok(2) [OF u1 p(2)] nw unfolding w by (auto simp: image_iff)
  have le: "x \<le> prio k ?c" if "x \<in> ?W" for x using mx that by (auto simp: is_max_def claims_def)
  have self: "prio k ?c = realprio_of k ?c \<or> prio k ?c \<in> ?W" using mx by (auto simp: is_max_def claims_def)
  have up: "x \<le> p" if "x \<in> ?W" "prio k ?c = realprio_of k ?c" for x
    using m that waits_for_queues [of k _ ?c] u by (auto simp: may_set_prio_def unsettled_ok_def)
  have "is_max (insert p ?W) ?new"
  proof (cases "prio k ?c = realprio_of k ?c \<or> p > prio k ?c")
    case True
    then have "x \<le> p" if "x \<in> ?W" for x using up [OF that] le [OF that] by auto
    then show ?thesis using True by (simp add: is_max_def)
  next
    case False
    then show ?thesis using self le by (auto simp: is_max_def)
  qed
  then have "kernel_ok ?k" using u2 c by (simp add: kernel_unsettled)
  moreover have "set_prio ?c (prio k ?c) k = k" by (simp add: set_prio_def prio_def)
  then have "chThdSetPriority p k = map_option (Pair (realprio_of k ?c)) (chSchRescheduleS ?k)"
    using p by (simp add: chThdSetPriority_def Let_def map_option_case split: option.split)
  moreover have "calm c ?k k' \<Longrightarrow> calm c k k'" for c k' by (simp add: calm_def)
  ultimately show ?thesis using reschedule_calm [of ?k] current_calm [OF k] by auto
qed

lemma kstep_ok:
  assumes k: "kernel_ok k" and r: "first_runs k" and l: "legal e k"
  shows "\<exists>k'. kstep e k = Some k' \<and> kernel_ok k' \<and> first_runs k' \<and> calm (k_curr k) k k'"
proof (cases e)
  case (KLock m)
  then show ?thesis using chMtxLockS_ok [OF k r, of m] l by (auto simp: chMtxLock_def)
next
  case (KTryLock m)
  have "tstate_of k (k_curr k) \<noteq> TFinal" using k sched_okD(1) by (simp add: kernel_ok_def)
  then show ?thesis using KTryLock mtx_take_ok [OF k, of m] k r current_calm [OF k]
    by (auto simp: chMtxTryLock_def chMtxTryLockS_def first_runs_def mtx_take_def intro!: calm_same)
next
  case (KUnlock m)
  then obtain rest where "mtxlist_of k (k_curr k) = m # rest" using l by (auto split: list.splits)
  then show ?thesis using KUnlock chMtxUnlock_ok [OF k r] by fastforce
next
  case KUnlockAll
  then show ?thesis using chMtxUnlockAllS_ok [OF k r] by (auto simp: chMtxUnlockAll_def)
next
  case KSleep
  then obtain k' ntp where "chSchGoSleepS TSleeping k = Some k'" "kernel_ok k'" "first_runs k'" "tstate_of k ntp = TReady"
    "tstate_of k' = (tstate_of k)(k_curr k := TSleeping, ntp := TCurrent)" using gosleep_ok [OF k, of TSleeping] l by (auto simp: asleep_def)
  then show ?thesis using KSleep gosleep_calm [OF k, of ntp k' TSleeping] by simp
next
  case KYield
  then obtain k' where k': "chSchDoYieldS k = Some k'" "sched_ok k'" "first_runs k'" "same_locks k k'" "prio k' = prio k"
    "runnable k' = runnable k" "\<forall>u. u \<notin> runnable k \<longrightarrow> tstate_of k' u = tstate_of k u"
    using chSchDoYieldS_ok [of k] k r l by (auto simp: kernel_ok_def)
  then show ?thesis using KYield kernel_ok_runnable [OF k, of k' "{}"] calm_runnable [of k' "{}" k "k_curr k"] current_calm [OF k]
    by (simp add: chThdYield_def)
next
  case (KWake t)
  then show ?thesis using wakeup_ok [OF k r, of t] l by (auto simp: asleep_def)
next
  case (KIsr ts)
  then have sl: "sleepers ts k" using l by simp
  obtain k1 where k1: "ready_all ts k = Some k1" "kernel_ok k1" "k_curr k1 = k_curr k"
    "\<forall>t. tstate_of k1 t = (if t \<in> set ts then TReady else tstate_of k t)" using ready_all_ok [OF k sl] by blast
  have c: "calm (k_curr k) k k1" by (rule ready_all_calm [OF sl k1(4) current_calm [OF k]])
  obtain k2 where "chSchRescheduleS k1 = Some k2" "kernel_ok k2" "first_runs k2" "\<forall>c. \<not> suspended (tstate_of k1 c) \<longrightarrow> calm c k1 k2"
    using reschedule_calm [OF k1(2)] by blast
  then show ?thesis using KIsr k1(1,3) current_calm [OF k1(2)] calm_trans [OF c] by (simp add: isr_epilogue_reschedule)
next
  case (KSetPriority p)
  then show ?thesis using chThdSetPriority_ok [OF k, of p] l by auto
next
  case (KCreate t p)
  let ?k = "thd_object_init t p k"
  have ok: "kernel_ok ?k" "first_runs ?k" using create_ok [OF k r, of t p] KCreate l by auto
  obtain k' where k': "chSchWakeupS t ?k = Some k'" "kernel_ok k'" "first_runs k'" "calm (k_curr k) ?k k'"
    using wakeup_ok [OF ok, of t] by (auto simp: asleep_def)
  have "tstate_of k t = TFinal" "tstate_of k (k_curr k) = TCurrent" using KCreate l k sched_okD(1) by (auto simp: kernel_ok_def)
  moreover have "t \<in> runnable k'" using wakeup_ok [OF ok, of t] k'(1) by (auto simp: asleep_def)
  ultimately have "tstate_of k' u = tstate_of k u \<or> tstate_of k u = TFinal \<and> tstate_of k' u = TWtstart \<or>
      (tstate_of k' u = TReady \<or> tstate_of k' u = TCurrent) \<and> \<not> suspended (tstate_of k u)"
    if "u \<noteq> k_curr k" for u using k'(4) that by (cases "u = t") (auto simp: calm_def runnable_def)
  then have "calm (k_curr k) k k'" using k'(4) by (simp add: calm_def)
  then show ?thesis using KCreate l k' by (simp add: chThdCreate_def chThdCreateSuspendedI_def)
next
  case (KCreateSuspended t p)
  then show ?thesis using create_ok [OF k r, of t p] l current_calm [OF k] by (simp add: chThdCreateSuspendedI_def calm_def)
next
  case (KStart t)
  then show ?thesis using wakeup_ok [OF k r, of t] l by (auto simp: chThdStart_def asleep_def)
next
  case (KExit ts)
  then show ?thesis using exit_ok [OF k, of ts] l by simp
qed

lemma boot_ok:
  assumes "mainthread \<noteq> idle"
  shows "\<exists>k. chInstanceObjectInit mainthread idle = Some k \<and> kernel_ok k \<and> first_runs k"
proof -
  let ?thd = "\<lambda>t. if t = idle then \<lparr>thd_prio = IDLEPRIO, thd_realprio = IDLEPRIO, thd_state = TReady, thd_mtxlist = []\<rparr>
    else if t = mainthread then \<lparr>thd_prio = NORMALPRIO, thd_realprio = NORMALPRIO, thd_state = TCurrent, thd_mtxlist = []\<rparr>
    else \<lparr>thd_prio = 0, thd_realprio = 0, thd_state = TFinal, thd_mtxlist = []\<rparr>"
  let ?k = "\<lparr>k_thd = ?thd, k_mtx = (\<lambda>m. chMtxObjectInit), k_ready = [idle], k_curr = mainthread, k_idle = idle\<rparr>"
  have "chInstanceObjectInit mainthread idle = Some ?k"
    using assms by (auto simp: chInstanceObjectInit_def thd_object_init_def set_state_def chThdCreateI_def chThdCreateSuspendedI_def chSchReadyI_def
        sch_ready_behind_def tstate_of_def prio_def Let_def IDLEPRIO_def HIGHPRIO_def fun_eq_iff)
  moreover have "sched_ok ?k" using assms by (auto simp: sched_ok_def tstate_of_def prio_def IDLEPRIO_def NORMALPRIO_def)
  moreover have "finite {t. tstate_of ?k t \<noteq> TFinal}" by (rule finite_subset [of _ "{mainthread, idle}"]) (auto simp: tstate_of_def)
  then have "locks_ok ?k" by (auto simp: locks_ok_def tstate_of_def chMtxObjectInit_def IDLEPRIO_def NORMALPRIO_def)
  moreover have "prios_ok ?k" by (auto simp: prios_ok_def claims_def is_max_def waits_for_def tstate_of_def prio_def)
  moreover have "first_runs ?k" using assms by (simp add: first_runs_def prio_def IDLEPRIO_def NORMALPRIO_def)
  ultimately show ?thesis by (auto simp: kernel_ok_def)
qed

text \<open>What holds after the start and is kept by every step holds always.\<close>

locale kernel_invariant =
  fixes inv :: "kernel \<Rightarrow> bool"
  assumes boot: "mainthread \<noteq> idle \<Longrightarrow> chInstanceObjectInit mainthread idle = Some k \<Longrightarrow> inv k"
    and step: "inv k \<Longrightarrow> legal e k \<Longrightarrow> kstep e k = Some k' \<Longrightarrow> inv k'"
begin

lemma always: "kernel_reach k \<Longrightarrow> inv k"
  by (induction rule: kernel_reach.induct) (auto intro: boot step)

end

interpretation kern: kernel_invariant "\<lambda>k. kernel_ok k \<and> first_runs k"
proof
  show "kernel_ok k \<and> first_runs k" if "mainthread \<noteq> idle" "chInstanceObjectInit mainthread idle = Some k" for mainthread idle k
    using boot_ok [OF that(1)] that(2) by simp
  show "kernel_ok k' \<and> first_runs k'" if "kernel_ok k \<and> first_runs k" "legal e k" "kstep e k = Some k'" for k e k'
    using kstep_ok [of k e] that by simp
qed

text \<open>Waiting, directly or through a chain of mutexes.\<close>

lemma chain_prio:
  assumes "kernel_ok k" and "(waits_for k)\<^sup>+\<^sup>+ w t"
  shows "prio k w \<le> prio k t"
  using assms(2)
proof (induction rule: tranclp_induct)
  have "prio k w \<le> prio k t" if "waits_for k w t" for w t
    using assms(1) that by (auto simp: kernel_ok_def prios_ok_def is_max_def claims_def)
  note one = this
  {
    case (base t)
    then show ?case by (rule one)
  next
    case (step u t)
    then show ?case using one [of u t] by simp
  }
qed


text \<open>A given sequence of events.\<close>

primrec krun :: "kevent list \<Rightarrow> kernel \<Rightarrow> kernel option" where
  "krun [] k = Some k"
| "krun (e # es) k = (if legal e k then Option.bind (kstep e k) (krun es) else None)"

lemma krun_reach: "krun es k = Some k' \<Longrightarrow> kernel_reach k \<Longrightarrow> kernel_reach k'"
  by (induction es arbitrary: k) (auto split: if_splits Option.bind_splits intro: kernel_reach.Step)

lemma boot_run_reach:
  assumes "Option.bind (chInstanceObjectInit 0 1) (krun es) = Some k"
  shows "kernel_reach k"
proof -
  obtain k0 where k0: "chInstanceObjectInit 0 1 = Some k0" "krun es k0 = Some k" using assms by (auto split: Option.bind_splits)
  show ?thesis using krun_reach [OF k0(2)] kernel_reach.Boot [OF _ k0(1)] by simp
qed

lemma chThdSetPriority_lowers:
  assumes k: "kernel_ok k" and p: "p \<le> HIGHPRIO" "0 < p" and w: "waits_for k w (k_curr k)" and e: "prio k (k_curr k) = realprio_of k (k_curr k)"
    and l: "p < prio k w"
  shows "\<exists>k'. chThdSetPriority p k = Some (realprio_of k (k_curr k), k') \<and> waits_for k' w (k_curr k) \<and> prio k' (k_curr k) < prio k' w"
proof -
  let ?k = "set_realprio (k_curr k) p (set_prio (k_curr k) p k)"
  have u: "unsettled_ok k" using k by (simp add: kernel_unsettled)
  have "unsettled_ok ?k" using set_realprio_ok(1) [OF set_prio_running(1) [OF u p(2)] p(2)] by simp
  then obtain k' where k': "chSchRescheduleS ?k = Some k'" "same_locks ?k k'" "prio k' = prio ?k" "runnable k' = runnable ?k"
    "\<forall>u. u \<notin> runnable ?k \<longrightarrow> tstate_of k' u = tstate_of ?k u"
    using chSchRescheduleS_ok [of ?k] by (auto simp: unsettled_ok_def)
  have "w \<noteq> k_curr k" using running_waits [of k] w u by (auto simp: unsettled_ok_def)
  moreover have "tstate_of k' w = tstate_of k w" using w k'(5) by (auto simp: waits_for_def runnable_def)
  moreover have "k_mtx k' = k_mtx k" using k'(2) by (simp add: same_locks_def)
  moreover have "chThdSetPriority p k = Some (realprio_of k (k_curr k), k')"
    using e p k'(1) by (simp add: chThdSetPriority_def Let_def)
  ultimately show ?thesis using w l k'(3) by (simp add: waits_for_def)
qed

text \<open>
  C21. No priority inversion. In every history of the kernel a thread that others wait for, directly
  or through a chain of mutexes, has at least their priority; when it can run, the running thread
  has at least their priority too, so no thread of less priority keeps them waiting. A thread
  without mutexes is back at its own priority. No call that obeys the interface fails an assertion.
\<close>

theorem no_priority_inversion:
  assumes "kernel_reach k"
  shows "(\<forall>w t. (waits_for k)\<^sup>+\<^sup>+ w t \<longrightarrow> prio k w \<le> prio k t \<and> (t \<in> runnable k \<longrightarrow> prio k w \<le> prio k (k_curr k))) \<and>
    (\<forall>t. mtxlist_of k t = [] \<longrightarrow> prio k t = realprio_of k t) \<and>
    (\<forall>e. legal e k \<longrightarrow> (\<exists>k'. kstep e k = Some k'))"
proof -
  have ok: "kernel_ok k" "first_runs k" using kern.always [OF assms] by auto
  have "prio k t \<le> prio k (k_curr k)" if "t \<in> runnable k" for t
    using ok that sched_okD(2,3) [of k t] by (auto simp: runnable_def first_runs_def kernel_ok_def)
  moreover have "prio k t = realprio_of k t" if "mtxlist_of k t = []" for t
    using claims_owned [of k t] that ok(1) by (auto simp: kernel_ok_def prios_ok_def is_max_def)
  ultimately show ?thesis using chain_prio [OF ok(1)] kstep_ok [OF ok] by (meson le_trans)
qed

theorem no_priority_inversion_witness:
  "\<exists>k. Option.bind (chInstanceObjectInit 0 1) (krun [KLock 0, KCreate 2 200, KLock 0, KCreate 3 150]) = Some k \<and>
     waits_for k 2 0 \<and> prio k 2 = 200 \<and> prio k 2 \<le> prio k 0"
proof -
  have "map_option (\<lambda>k. (tstate_of k 2, owner_of k 0, prio k 2)) (Option.bind (chInstanceObjectInit 0 1) (krun [KLock 0, KCreate 2 200, KLock 0, KCreate 3 150]))
      = Some (TWtmtx 0, Some 0, 200)" by code_simp
  then obtain k where k: "Option.bind (chInstanceObjectInit 0 1) (krun [KLock 0, KCreate 2 200, KLock 0, KCreate 3 150]) = Some k"
    "tstate_of k 2 = TWtmtx 0" "owner_of k 0 = Some 0" "prio k 2 = 200" by auto
  have "waits_for k 2 0" using k(2,3) by (auto simp: waits_for_def)
  moreover from this have "prio k 2 \<le> prio k 0"
    using no_priority_inversion [OF boot_run_reach [OF k(1)]] tranclp.r_into_trancl [of "waits_for k" 2 0] by blast
  ultimately show ?thesis using k(1,4) by blast
qed

text \<open>
  Unlocking a mutex in any state of the kernel succeeds: a mutex nobody waits for becomes free, and
  otherwise the waiting thread of highest priority owns it and can run.
\<close>

lemma mutex_handover:
  assumes "kernel_reach k" and "mtxlist_of k (k_curr k) = m # rest"
  shows "\<exists>k'. chMtxUnlock m k = Some k' \<and> mtxlist_of k' (k_curr k) = rest \<and>
    (case queue_of k m of
       [] \<Rightarrow> owner_of k' m = None
     | tp # q \<Rightarrow> owner_of k' m = Some tp \<and> tp \<in> runnable k' \<and> (\<forall>w. tstate_of k w = TWtmtx m \<longrightarrow> prio k w \<le> prio k tp))"
proof -
  have ok: "kernel_ok k" "first_runs k" using kern.always [OF assms(1)] by auto
  have "prio k w \<le> prio k tp" if "queue_of k m = tp # q" "tstate_of k w = TWtmtx m" for tp q w
    using locks_okD(3,4) [of k] that ok(1) by (metis in_order_simps(2) kernel_ok_def le_refl set_ConsD)
  then show ?thesis using chMtxUnlock_ok [OF ok assms(2)] by (auto split: list.splits)
qed

lemma mutex_handover_witness:
  "\<exists>k k'. Option.bind (chInstanceObjectInit 0 1)
       (krun [KLock 0, KCreate 2 140, KLock 0, KCreate 3 150, KLock 0]) = Some k \<and>
     chMtxUnlock 0 k = Some k' \<and> owner_of k' 0 = Some 3"
proof -
  let ?r = "Option.bind (chInstanceObjectInit 0 1) (krun [KLock 0, KCreate 2 140, KLock 0, KCreate 3 150, KLock 0])"
  have "map_option (\<lambda>k. (k_curr k, mtxlist_of k 0, queue_of k 0)) ?r = Some (0, [0], [3, 2])" by code_simp
  then obtain k where k: "?r = Some k" "mtxlist_of k (k_curr k) = [0]" "queue_of k 0 = [3, 2]" by auto
  show ?thesis using mutex_handover [OF boot_run_reach [OF k(1)] k(2)] k(1,3) by auto
qed

text \<open>
  C36. Priority inversion by \<open>chThdSetPriority\<close>. The function lowers the effective priority whenever it
  equals the base priority, also when a thread of that same priority waits for a mutex of the
  caller. That thread then waits for one of lower priority, which a third thread can keep from
  running.
\<close>

theorem set_priority_inverts:
  assumes "kernel_reach k" and "waits_for k w (k_curr k)" and "prio k (k_curr k) = realprio_of k (k_curr k)" and "0 < p" and "p \<le> HIGHPRIO" and "p < prio k w"
  shows "\<exists>k'. chThdSetPriority p k = Some (realprio_of k (k_curr k), k') \<and> waits_for k' w (k_curr k) \<and> prio k' (k_curr k) < prio k' w"
  using chThdSetPriority_lowers [of k p w] kern.always assms by blast

theorem set_priority_inverts_witness:
  "\<exists>k k'. Option.bind (chInstanceObjectInit 0 1) (krun [KLock 0, KCreate 2 128, KCreate 3 64, KYield, KLock 0]) = Some k \<and>
     chThdSetPriority 2 k = Some (128, k') \<and> waits_for k' 2 0 \<and> prio k' 0 < prio k' 2 \<and> k_curr k' = 3 \<and> prio k' 3 < prio k' 2"
proof -
  let ?r = "Option.bind (chInstanceObjectInit 0 1) (krun [KLock 0, KCreate 2 128, KCreate 3 64, KYield, KLock 0])"
  have "map_option (\<lambda>k. (k_curr k, tstate_of k 2, owner_of k 0, prio k 0, realprio_of k 0, prio k 2)) ?r = Some (0, TWtmtx 0, Some 0, 128, 128, 128)"
    by code_simp
  then obtain k where k: "?r = Some k" "k_curr k = 0" "tstate_of k 2 = TWtmtx 0" "owner_of k 0 = Some 0" "prio k 0 = 128" "realprio_of k 0 = 128"
    "prio k 2 = 128" by auto
  have "map_option (\<lambda>(n, k). (k_curr k, prio k 3, prio k 2)) (Option.bind ?r (chThdSetPriority 2)) = Some (3, 64, 128)" by code_simp
  then obtain n k' where k': "chThdSetPriority 2 k = Some (n, k')" "k_curr k' = 3" "prio k' 3 = 64" "prio k' 2 = 128" unfolding k(1) by auto
  show ?thesis
    using set_priority_inverts [OF boot_run_reach [OF k(1)], of 2 2] k k' by (auto simp: waits_for_def HIGHPRIO_def)
qed

end
