(* ===== verification/Vt.thy ===== *)
theory Vt
  imports Prelude "HOL-Library.Monad_Syntax"
begin

text \<open>
  The virtual timers of the kernel, \<open>chvt.c\<close> with the delta lists of \<open>chlists.h\<close>, in the tickless mode
  of the firmware (\<open>CH_CFG_ST_TIMEDELTA\<close> is 2). Every sleep and every timeout is one of them. The
  hardware timer is a parameter: \<open>clk n\<close> is its value at the n-th time it is read. Timers are numbers;
  the function of a timer is a parameter too, and its calls are recorded with the number of the
  reading before the call; it may change what a state has beyond the timers, so the operations are
  on the record scheme. \<open>None\<close> is a failed assertion.
\<close>

type_synonym clock = "nat \<Rightarrow> systime"

record vtl =
  vt_dlist :: "(nat \<times> u32) list"
  vt_lasttime :: systime
  vt_laststamp :: "64 word"
  vt_alarm :: "systime option"
  vt_reload :: "nat \<Rightarrow> u32"
  vt_insufficient :: bool
  vt_reads :: nat
  vt_calls :: "(nat \<times> nat) list"

type_synonym 'a vtfuncs = "nat \<Rightarrow> 'a vtl_scheme \<Rightarrow> 'a vtl_scheme option"

definition CH_CFG_ST_TIMEDELTA :: u32 where "CH_CFG_ST_TIMEDELTA = 2"

definition chVTGetSystemTimeX :: "clock \<Rightarrow> 'a vtl_scheme \<Rightarrow> systime \<times> 'a vtl_scheme" where
  "chVTGetSystemTimeX clk s = (clk (vt_reads s), s\<lparr>vt_reads := vt_reads s + 1\<rparr>)"

section \<open>Delta lists\<close>

text \<open>The scan of an insertion ends at the header of the list, whose delta is the greatest number.\<close>

fun ch_dlist_insert :: "nat \<Rightarrow> u32 \<Rightarrow> (nat \<times> u32) list \<Rightarrow> (nat \<times> u32) list" where
  "ch_dlist_insert i delta [] = [(i, delta)]"
| "ch_dlist_insert i delta ((j, d) # l) =
     (if d < delta then (j, d) # ch_dlist_insert i (delta - d) l else (i, delta) # (j, d - delta) # l)"

fun add_next :: "u32 \<Rightarrow> (nat \<times> u32) list \<Rightarrow> (nat \<times> u32) list" where
  "add_next d [] = []"
| "add_next d ((j, e) # l) = (j, e + d) # l"

fun dlist_remove :: "nat \<Rightarrow> (nat \<times> u32) list \<Rightarrow> (nat \<times> u32) list" where
  "dlist_remove i [] = []"
| "dlist_remove i ((j, d) # l) = (if j = i then add_next d l else (j, d) # dlist_remove i l)"

definition chVTIsArmedI :: "nat \<Rightarrow> 'a vtl_scheme \<Rightarrow> bool" where
  "chVTIsArmedI i s \<longleftrightarrow> i \<in> fst ` set (vt_dlist s)"

text \<open>A timer that is already in the list must not be inserted again.\<close>

definition vt_insert :: "nat \<Rightarrow> u32 \<Rightarrow> 'a vtl_scheme \<Rightarrow> 'a vtl_scheme option" where
  "vt_insert i delta s = (if chVTIsArmedI i s then None else Some (s\<lparr>vt_dlist := ch_dlist_insert i delta (vt_dlist s)\<rparr>))"

section \<open>Setting the alarm\<close>

partial_function (option) set_alarm_loop :: "clock \<Rightarrow> u32 \<Rightarrow> systime \<Rightarrow> u32 \<Rightarrow> 'a vtl_scheme \<Rightarrow> (u32 \<times> 'a vtl_scheme) option" where
  "set_alarm_loop clk currdelta now delay s =
     (let s = s\<lparr>vt_alarm := Some (chTimeAddX now delay)\<rparr>;
          (newnow, s) = chVTGetSystemTimeX clk s;
          nowdelta = chTimeDiffX now newnow
      in if nowdelta < delay then Some (currdelta, s)
         else set_alarm_loop clk (currdelta + 1) newnow (currdelta + 1) s)"

definition collect_faults :: "u32 \<Rightarrow> 'a vtl_scheme \<Rightarrow> 'a vtl_scheme" where
  "collect_faults currdelta s = (if currdelta > CH_CFG_ST_TIMEDELTA then s\<lparr>vt_insufficient := True\<rparr> else s)"

definition vt_set_alarm :: "clock \<Rightarrow> systime \<Rightarrow> u32 \<Rightarrow> 'a vtl_scheme \<Rightarrow> 'a vtl_scheme option" where
  "vt_set_alarm clk now delay s =
     (let currdelta = CH_CFG_ST_TIMEDELTA;
          delay = (if delay < currdelta then currdelta else delay)
      in do { (currdelta, s) \<leftarrow> set_alarm_loop clk currdelta now delay s; Some (collect_faults currdelta s) })"

partial_function (option) insert_first_loop :: "clock \<Rightarrow> u32 \<Rightarrow> systime \<Rightarrow> u32 \<Rightarrow> 'a vtl_scheme \<Rightarrow> (u32 \<times> 'a vtl_scheme) option" where
  "insert_first_loop clk currdelta now delay s =
     (let (newnow, s) = chVTGetSystemTimeX clk s
      in if chTimeDiffX now newnow < delay then Some (currdelta, s)
         else let currdelta = currdelta + 1;
                  s = s\<lparr>vt_alarm := Some (chTimeAddX now currdelta)\<rparr>
              in insert_first_loop clk currdelta newnow currdelta s)"

definition vt_insert_first :: "clock \<Rightarrow> nat \<Rightarrow> systime \<Rightarrow> u32 \<Rightarrow> 'a vtl_scheme \<Rightarrow> 'a vtl_scheme option" where
  "vt_insert_first clk i now delay s =
     (let s = s\<lparr>vt_lasttime := now, vt_dlist := [(i, delay)]\<rparr>;
          currdelta = CH_CFG_ST_TIMEDELTA;
          delay = (if delay < currdelta then currdelta else delay);
          s = s\<lparr>vt_alarm := Some (chTimeAddX (vt_lasttime s) delay)\<rparr>
      in do { (currdelta, s) \<leftarrow> insert_first_loop clk currdelta now delay s; Some (collect_faults currdelta s) })"

definition vt_enqueue :: "clock \<Rightarrow> nat \<Rightarrow> u32 \<Rightarrow> 'a vtl_scheme \<Rightarrow> 'a vtl_scheme option" where
  "vt_enqueue clk i delay s =
     (let (now, s) = chVTGetSystemTimeX clk s
      in case vt_dlist s of
           [] \<Rightarrow> vt_insert_first clk i now delay s
         | (j, d) # l \<Rightarrow>
             let nowdelta = chTimeDiffX (vt_lasttime s) now;
                 delta = nowdelta + delay;
                 delta = (if delta < nowdelta then delay else delta)
             in do { s \<leftarrow> (if delta < d then vt_set_alarm clk now delay s else Some s);
                     vt_insert i delta s })"

section \<open>Operations\<close>

definition vt_object_init :: "clock \<Rightarrow> vtl" where
  "vt_object_init clk =
     (let s = \<lparr>vt_dlist = [], vt_lasttime = 0, vt_laststamp = 0, vt_alarm = None, vt_reload = (\<lambda>i. 0), vt_insufficient = False,
               vt_reads = 0, vt_calls = []\<rparr>;
          (now, s) = chVTGetSystemTimeX clk s
      in s\<lparr>vt_laststamp := ucast now\<rparr>)"

definition chVTDoSetI :: "clock \<Rightarrow> nat \<Rightarrow> u32 \<Rightarrow> 'a vtl_scheme \<Rightarrow> 'a vtl_scheme option" where
  "chVTDoSetI clk i delay s =
     (if delay = TIME_IMMEDIATE then None else vt_enqueue clk i delay (s\<lparr>vt_reload := (vt_reload s)(i := 0)\<rparr>))"

definition chVTDoSetContinuousI :: "clock \<Rightarrow> nat \<Rightarrow> u32 \<Rightarrow> 'a vtl_scheme \<Rightarrow> 'a vtl_scheme option" where
  "chVTDoSetContinuousI clk i delay s =
     (if delay = TIME_IMMEDIATE then None else vt_enqueue clk i delay (s\<lparr>vt_reload := (vt_reload s)(i := delay)\<rparr>))"

definition chVTDoResetI :: "clock \<Rightarrow> nat \<Rightarrow> 'a vtl_scheme \<Rightarrow> 'a vtl_scheme option" where
  "chVTDoResetI clk i s =
     (case vt_dlist s of
        [] \<Rightarrow> None
      | (j, d) # l \<Rightarrow>
          if \<not> chVTIsArmedI i s then None
          else if j \<noteq> i then Some (s\<lparr>vt_dlist := dlist_remove i (vt_dlist s)\<rparr>)
          else if l = [] then Some (s\<lparr>vt_dlist := [], vt_alarm := None\<rparr>)
          else let s = s\<lparr>vt_dlist := add_next d l\<rparr>;
                   (now, s) = chVTGetSystemTimeX clk s;
                   nowdelta = chTimeDiffX (vt_lasttime s) now;
                   first = snd (hd (vt_dlist s))
               in if nowdelta \<ge> first then Some s else vt_set_alarm clk now (first - nowdelta) s)"

definition chVTResetI :: "clock \<Rightarrow> nat \<Rightarrow> 'a vtl_scheme \<Rightarrow> 'a vtl_scheme option" where
  "chVTResetI clk i s = (if chVTIsArmedI i s then chVTDoResetI clk i s else Some s)"

definition chVTSetI :: "clock \<Rightarrow> nat \<Rightarrow> u32 \<Rightarrow> 'a vtl_scheme \<Rightarrow> 'a vtl_scheme option" where
  "chVTSetI clk i delay s = Option.bind (chVTResetI clk i s) (chVTDoSetI clk i delay)"

definition chVTObjectDispose :: "nat \<Rightarrow> 'a vtl_scheme \<Rightarrow> 'a vtl_scheme option" where
  "chVTObjectDispose i s = (if chVTIsArmedI i s then Some s else None)"

definition chVTGetTimersStateI :: "clock \<Rightarrow> 'a vtl_scheme \<Rightarrow> u32 option \<times> 'a vtl_scheme" where
  "chVTGetTimersStateI clk s =
     (case vt_dlist s of
        [] \<Rightarrow> (None, s)
      | (j, d) # l \<Rightarrow>
          let (now, s) = chVTGetSystemTimeX clk s in (Some (d + CH_CFG_ST_TIMEDELTA - chTimeDiffX (vt_lasttime s) now), s))"

fun remaining_loop :: "nat \<Rightarrow> u32 \<Rightarrow> (nat \<times> u32) list \<Rightarrow> u32 option" where
  "remaining_loop i delta [] = None"
| "remaining_loop i delta ((j, d) # l) = (if j = i then Some (delta + d) else remaining_loop i (delta + d) l)"

definition chVTGetRemainingIntervalI :: "clock \<Rightarrow> nat \<Rightarrow> 'a vtl_scheme \<Rightarrow> (u32 \<times> 'a vtl_scheme) option" where
  "chVTGetRemainingIntervalI clk i s =
     do { delta \<leftarrow> remaining_loop i 0 (vt_dlist s);
          let (now, s) = chVTGetSystemTimeX clk s;
          let nowdelta = chTimeDiffX (vt_lasttime s) now;
          Some (if nowdelta > delta then 0 else delta - nowdelta, s) }"

text \<open>
  The interrupt. The loop ends with the time it has read last and its distance to \<open>lasttime\<close>, or
  with \<open>None\<close> where the code returns at once. With an empty list the first element is the header.
\<close>

partial_function (option) tick_loop :: "clock \<Rightarrow> 'a vtfuncs \<Rightarrow> 'a vtl_scheme \<Rightarrow> ((systime \<times> u32) option \<times> 'a vtl_scheme) option" where
  "tick_loop clk func s =
     (let (now, s) = chVTGetSystemTimeX clk s;
          nowdelta = chTimeDiffX (vt_lasttime s) now
      in case vt_dlist s of
           [] \<Rightarrow> if nowdelta < 0xFFFFFFFF then Some (Some (now, nowdelta), s) else None
         | (i, d) # l \<Rightarrow>
             if nowdelta < d then Some (Some (now, nowdelta), s)
             else let lasttime = chTimeAddX (vt_lasttime s) d;
                      s = s\<lparr>vt_lasttime := lasttime, vt_dlist := l\<rparr>;
                      s = (if l = [] then s\<lparr>vt_alarm := None\<rparr> else s)
                  in do { s \<leftarrow> func i (s\<lparr>vt_calls := vt_calls s @ [(i, vt_reads s - 1)]\<rparr>);
                          if vt_reload s i > 0
                          then let (now, s) = chVTGetSystemTimeX clk s;
                                   nowdelta = chTimeDiffX lasttime now
                               in if nowdelta > vt_reload s i then None
                                  else let delay = vt_reload s i - nowdelta
                                       in if vt_dlist s = []
                                          then do { s \<leftarrow> vt_insert_first clk i now delay s; Some (None, s) }
                                          else let delta = nowdelta + delay;
                                                   delta = (if delta < nowdelta then delay else delta)
                                               in do { s \<leftarrow> vt_insert i delta s; tick_loop clk func s }
                          else tick_loop clk func s })"

definition chVTDoTickI :: "clock \<Rightarrow> 'a vtfuncs \<Rightarrow> 'a vtl_scheme \<Rightarrow> 'a vtl_scheme option" where
  "chVTDoTickI clk func s =
     do { (r, s) \<leftarrow> tick_loop clk func s;
          case r of
            None \<Rightarrow> Some s
          | Some (now, nowdelta) \<Rightarrow>
              (case vt_dlist s of
                 [] \<Rightarrow> Some s
               | (i, d) # l \<Rightarrow>
                   vt_set_alarm clk now (d - nowdelta)
                     (s\<lparr>vt_lasttime := vt_lasttime s + nowdelta, vt_dlist := (i, d - nowdelta) # l\<rparr>)) }"

definition chVTGetTimeStampI :: "clock \<Rightarrow> 'a vtl_scheme \<Rightarrow> (64 word \<times> 'a vtl_scheme) option" where
  "chVTGetTimeStampI clk s =
     (let (now, s) = chVTGetSystemTimeX clk s;
          last = vt_laststamp s;
          stamp = last + ucast (chTimeDiffX (ucast last) now)
      in if last \<le> stamp then Some (stamp, s\<lparr>vt_laststamp := stamp\<rparr>) else None)"

definition chVTResetTimeStampI :: "clock \<Rightarrow> 'a vtl_scheme \<Rightarrow> 'a vtl_scheme" where
  "chVTResetTimeStampI clk s = (let (now, s) = chVTGetSystemTimeX clk s in s\<lparr>vt_laststamp := ucast now\<rparr>)"

declare set_alarm_loop.simps [code] insert_first_loop.simps [code] tick_loop.simps [code]

section \<open>Delta lists as deadlines\<close>

text \<open>The deadlines of a delta list that begins at \<open>b\<close>, and insertion and removal on them.\<close>

fun offs :: "nat \<Rightarrow> (nat \<times> u32) list \<Rightarrow> (nat \<times> nat) list" where
  "offs b [] = []"
| "offs b ((i, d) # l) = (i, b + unat d) # offs (b + unat d) l"

fun insert_dl :: "nat \<Rightarrow> nat \<Rightarrow> (nat \<times> nat) list \<Rightarrow> (nat \<times> nat) list" where
  "insert_dl i e [] = [(i, e)]"
| "insert_dl i e ((j, f) # ds) = (if f < e then (j, f) # insert_dl i e ds else (i, e) # (j, f) # ds)"

lemma fst_offs [simp]: "map fst (offs b l) = map fst l"
  by (induction l arbitrary: b) auto

lemma fst_set_offs [simp]: "fst ` set (offs b l) = fst ` set l"
  by (induction b l rule: offs.induct) auto

lemma offs_Nil [simp]: "offs b l = [] \<longleftrightarrow> l = []"
  by (cases l) auto

lemma offs_insert: "offs b (ch_dlist_insert i delta l) = insert_dl i (b + unat delta) (offs b l)"
proof (induction i delta l arbitrary: b rule: ch_dlist_insert.induct)
  case (2 i delta j d l)
  show ?case
  proof (cases "d < delta")
    case True
    then have "unat (delta - d) = unat delta - unat d" "unat d < unat delta"
      using unat_sub [OF less_imp_le [OF True]] by (simp_all add: word_less_nat_alt)
    then show ?thesis using True 2 [of "b + unat d"] by simp
  next
    case False
    then have "unat (d - delta) = unat d - unat delta" "unat delta \<le> unat d"
      using unat_sub [of delta d] by (simp_all add: not_less word_le_nat_alt)
    then show ?thesis using False by (simp add: word_less_nat_alt)
  qed
qed simp

lemma offs_ge: "x \<in> set (offs b l) \<Longrightarrow> b \<le> snd x"
proof (induction b l rule: offs.induct)
  case (2 b i d l)
  then show ?case by (cases "x = (i, b + unat d)") auto
qed simp

lemma offs_sorted: "sorted (map snd (offs b l))"
proof (induction b l rule: offs.induct)
  case (2 b i d l)
  then show ?case using offs_ge [of _ "b + unat d" l] by auto
qed simp

definition below :: "nat \<Rightarrow> (nat \<times> nat) list \<Rightarrow> bool" where
  "below e ds \<longleftrightarrow> (\<forall>x \<in> set ds. snd x < e)"

lemma below_simps [simp]: "below e []" "below e (x # ds) \<longleftrightarrow> snd x < e \<and> below e ds"
  by (simp_all add: below_def)

lemma unat32: "unat (w :: u32) < 4294967296"
  using unsigned_less [of w, where ?'a = nat] by simp

lemma unat_plus32: "unat d + unat e < 4294967296 \<Longrightarrow> unat (d + e :: u32) = unat d + unat e"
  by (simp add: unat_word_ariths(1))

lemma offs_add_next:
  assumes "below (b + 4294967296) (offs (b + unat d) l)"
  shows "offs b (add_next d l) = offs (b + unat d) l"
proof (cases l)
  case (Cons x l')
  obtain j e where x: "x = (j, e)" by (cases x)
  have "unat e + unat d < 4294967296" using assms Cons x by simp
  from unat_plus32 [OF this] show ?thesis using Cons x by (simp add: ac_simps)
qed simp

lemma offs_remove:
  assumes "below (b0 + 4294967296) (offs b l)" and "b0 \<le> b" and "distinct (map fst l)"
  shows "offs b (dlist_remove i l) = filter (\<lambda>x. fst x \<noteq> i) (offs b l)"
  using assms
proof (induction i l arbitrary: b rule: dlist_remove.induct)
  case (2 i j d l)
  let ?l = "offs (b + unat d) l"
  show ?case
  proof (cases "j = i")
    case True
    have "i \<notin> fst ` set ?l" using 2(4) True by simp
    then have "filter (\<lambda>x. fst x \<noteq> i) ?l = ?l" by (intro filter_True) (metis image_eqI)
    moreover have "below (b + 4294967296) ?l" using 2(2,3) unfolding below_def by fastforce
    ultimately show ?thesis using True offs_add_next by simp
  next
    case False
    then show ?thesis using 2(1) [OF False, of "b + unat d"] 2(2,3,4) by simp
  qed
qed simp

section \<open>The timers and an ideal clock\<close>

text \<open>
  \<open>T n\<close> is the true time of the n-th reading, of which the hardware shows the low 32 bits. \<open>L\<close> is the
  true time of \<open>lasttime\<close>, \<open>ds\<close> are the armed timers with their true deadlines. The alarm has been
  set, at a reading before it, to the first deadline or two ticks after that reading.
\<close>

definition clock_of :: "(nat \<Rightarrow> nat) \<Rightarrow> clock" where
  "clock_of T n = of_nat (T n)"

definition alarm_ok :: "(nat \<Rightarrow> nat) \<Rightarrow> 'a vtl_scheme \<Rightarrow> (nat \<times> nat) list \<Rightarrow> bool" where
  "alarm_ok T s ds \<longleftrightarrow>
     (case ds of
        [] \<Rightarrow> vt_alarm s = None
      | (i, e) # _ \<Rightarrow> \<exists>A. \<exists>k < vt_reads s. vt_alarm s = Some (of_nat A) \<and> T k < A \<and> A \<le> max e (T k + 2))"

definition vt_rel :: "(nat \<Rightarrow> nat) \<Rightarrow> nat \<Rightarrow> 'a vtl_scheme \<Rightarrow> (nat \<times> nat) list \<Rightarrow> bool" where
  "vt_rel T L s ds \<longleftrightarrow> vt_lasttime s = of_nat L \<and> ds = offs L (vt_dlist s) \<and> distinct (map fst ds) \<and>
     below (L + 4294967296) ds \<and> (\<forall>x \<in> set ds. vt_reload s (fst x) = 0) \<and> alarm_ok T s ds"

lemma diff_true: "a \<le> b \<Longrightarrow> b - a < 4294967296 \<Longrightarrow> unat (chTimeDiffX (of_nat a) (of_nat b)) = b - a"
proof -
  assume "a \<le> b" and lt: "b - a < 4294967296"
  then have "of_nat b - of_nat a = (of_nat (b - a) :: u32)" by (simp add: of_nat_diff)
  then show ?thesis unfolding chTimeDiffX_def using lt by (simp only: unat_of_nat) simp
qed

lemma time_simps [simp]: "chVTGetSystemTimeX clk s = (clk (vt_reads s), s\<lparr>vt_reads := vt_reads s + 1\<rparr>)"
  by (simp add: chVTGetSystemTimeX_def)

lemma vt_set_alarm_ok:
  assumes "N \<le> T (vt_reads s)" and "T (vt_reads s) < N + 2"
  shows "vt_set_alarm (clock_of T) (of_nat N) delay s =
    Some (s\<lparr>vt_alarm := Some (of_nat (N + max 2 (unat delay))), vt_reads := vt_reads s + 1\<rparr>)"
proof -
  let ?d = "if delay < 2 then 2 else delay"
  have d: "unat ?d = max 2 (unat delay)" by (auto simp: word_less_nat_alt)
  have "chTimeDiffX (of_nat N) (clock_of T (vt_reads s)) < ?d"
    using assms d diff_true [of N "T (vt_reads s)"] unfolding word_less_nat_alt clock_of_def by simp
  moreover have "of_nat N + ?d = of_nat (N + max 2 (unat delay))" unfolding d [symmetric] by simp
  ultimately show ?thesis
    by (simp add: vt_set_alarm_def set_alarm_loop.simps Let_def CH_CFG_ST_TIMEDELTA_def collect_faults_def chTimeAddX_def)
qed

lemma vt_insert_first_ok:
  assumes "N \<le> T (vt_reads s)" and "T (vt_reads s) < N + 2"
  shows "vt_insert_first (clock_of T) i (of_nat N) delay s =
    Some (s\<lparr>vt_lasttime := of_nat N, vt_dlist := [(i, delay)], vt_alarm := Some (of_nat (N + max 2 (unat delay))), vt_reads := vt_reads s + 1\<rparr>)"
proof -
  let ?d = "if delay < 2 then 2 else delay"
  have d: "unat ?d = max 2 (unat delay)" by (auto simp: word_less_nat_alt)
  have "chTimeDiffX (of_nat N) (clock_of T (vt_reads s)) < ?d"
    using assms d diff_true [of N "T (vt_reads s)"] unfolding word_less_nat_alt clock_of_def by simp
  moreover have "of_nat N + ?d = of_nat (N + max 2 (unat delay))" unfolding d [symmetric] by simp
  ultimately show ?thesis
    by (simp add: vt_insert_first_def insert_first_loop.simps Let_def CH_CFG_ST_TIMEDELTA_def collect_faults_def chTimeAddX_def)
qed

lemma insert_dl_fields:
  "fst ` set (insert_dl i e ds) = insert i (fst ` set ds)" "distinct (map fst (insert_dl i e ds)) \<longleftrightarrow> i \<notin> fst ` set ds \<and> distinct (map fst ds)"
  "below b (insert_dl i e ds) \<longleftrightarrow> e < b \<and> below b ds" "insert_dl i e ds \<noteq> []"
  "ds \<noteq> [] \<Longrightarrow> snd (hd (insert_dl i e ds)) = min e (snd (hd ds))"
proof -
  show s: "fst ` set (insert_dl i e ds) = insert i (fst ` set ds)" for ds by (induction i e ds rule: insert_dl.induct) auto
  show "distinct (map fst (insert_dl i e ds)) \<longleftrightarrow> i \<notin> fst ` set ds \<and> distinct (map fst ds)"
  proof (induction i e ds rule: insert_dl.induct)
    case (2 i e j f ds)
    have "fst ` set (insert_dl i e ds) = insert i (fst ` set ds)" by (induction i e ds rule: insert_dl.induct) auto
    then show ?case using 2 by auto
  qed simp
  show "below b (insert_dl i e ds) \<longleftrightarrow> e < b \<and> below b ds" by (induction i e ds rule: insert_dl.induct) auto
  show "insert_dl i e ds \<noteq> []" by (cases ds) (auto split: if_splits)
  show "snd (hd (insert_dl i e ds)) = min e (snd (hd ds))" if "ds \<noteq> []" using that by (cases ds) auto
qed

lemma alarm_ok_hd:
  assumes "alarm_ok T s ds" and "ds \<noteq> []" and "ds' \<noteq> []" and "snd (hd ds) \<le> snd (hd ds')" and "vt_alarm s' = vt_alarm s" and "vt_reads s \<le> vt_reads s'"
  shows "alarm_ok T s' ds'"
proof -
  obtain i e r where d: "ds = (i, e) # r" using assms(2) by (cases ds) auto
  obtain i' e' r' where d': "ds' = (i', e') # r'" using assms(3) by (cases ds') auto
  obtain A k where A: "k < vt_reads s" "vt_alarm s = Some (of_nat A)" "T k < A" "A \<le> max e (T k + 2)" using assms(1) d by (auto simp: alarm_ok_def)
  have "A \<le> max e' (T k + 2)" using A(4) assms(4) d d' by (auto simp: max_def split: if_splits)
  then have "\<exists>A. \<exists>k < vt_reads s'. vt_alarm s' = Some (of_nat A) \<and> T k < A \<and> A \<le> max e' (T k + 2)"
    using A assms(5,6) by (intro exI [of _ A] exI [of _ k]) simp
  then show ?thesis unfolding alarm_ok_def d' by simp
qed

lemma alarm_ok_new:
  assumes "vt_alarm s = Some (of_nat (N + max 2 x))" and "snd (hd ds) = N + x" and "ds \<noteq> []" and "k < vt_reads s" and "N \<le> T k" and "T k < N + 2"
  shows "alarm_ok T s ds"
proof -
  obtain i e r where d: "ds = (i, e) # r" using assms(3) by (cases ds) auto
  have "T k < N + max 2 x" "N + max 2 x \<le> max e (T k + 2)" using assms(2,5,6) d by auto
  then have "\<exists>A. \<exists>k < vt_reads s. vt_alarm s = Some (of_nat A) \<and> T k < A \<and> A \<le> max e (T k + 2)"
    using assms(1,4) by blast
  then show ?thesis unfolding alarm_ok_def d by simp
qed

lemma vt_relD:
  assumes "vt_rel T L s ds"
  shows "vt_lasttime s = of_nat L" "offs L (vt_dlist s) = ds" "distinct (map fst ds)" "below (L + 4294967296) ds"
    "x \<in> set ds \<Longrightarrow> vt_reload s (fst x) = 0" "alarm_ok T s ds" "sorted (map snd ds)"
  using assms offs_sorted [of L "vt_dlist s"] unfolding vt_rel_def by blast+

lemma chVTDoSetI_ok:
  assumes r: "vt_rel T L s ds" and n: "n = vt_reads s" and t: "L \<le> T n" and q: "T n \<le> T (n + 1)" "T (n + 1) < T n + 2"
    and i: "i \<notin> fst ` set ds" and d: "delay \<noteq> 0" and f: "ds \<noteq> [] \<longrightarrow> T n + unat delay < L + 4294967296"
  shows "\<exists>s'. chVTDoSetI (clock_of T) i delay s = Some s' \<and> vt_calls s' = vt_calls s \<and> n < vt_reads s' \<and> vt_reads s' \<le> n + 2 \<and>
    vtl.more s' = vtl.more s \<and> vt_rel T (if ds = [] then T n else L) s' (insert_dl i (T n + unat delay) ds)"
proof (cases ds)
  case Nil
  let ?s = "s\<lparr>vt_reload := (vt_reload s)(i := 0), vt_reads := n + 1\<rparr>"
  have e: "vt_dlist s = []" using r Nil unfolding vt_rel_def by (metis offs_Nil)
  have "vt_insert_first (clock_of T) i (of_nat (T n)) delay ?s =
      Some (?s\<lparr>vt_lasttime := of_nat (T n), vt_dlist := [(i, delay)], vt_alarm := Some (of_nat (T n + max 2 (unat delay))), vt_reads := n + 2\<rparr>)"
    using vt_insert_first_ok [of "T n" T ?s i delay] q by simp
  then have "chVTDoSetI (clock_of T) i delay s =
      Some (?s\<lparr>vt_lasttime := of_nat (T n), vt_dlist := [(i, delay)], vt_alarm := Some (of_nat (T n + max 2 (unat delay))), vt_reads := n + 2\<rparr>)"
    using d e n by (simp add: chVTDoSetI_def vt_enqueue_def TIME_IMMEDIATE_def clock_of_def)
  moreover have "alarm_ok T (?s\<lparr>vt_lasttime := of_nat (T n), vt_dlist := [(i, delay)], vt_alarm := Some (of_nat (T n + max 2 (unat delay))), vt_reads := n + 2\<rparr>) [(i, T n + unat delay)]"
    by (rule alarm_ok_new [of _ "T n" "unat delay" _ "n + 1"]) (use q in simp_all)
  moreover note unat32 [of delay]
  ultimately show ?thesis using Nil by (simp add: vt_rel_def)
next
  case (Cons x ds')
  note r' = r [unfolded vt_rel_def]
  have al: "alarm_ok T s ds" using r' by blast
  obtain j d0 l where l: "vt_dlist s = (j, d0) # l" using r' Cons by (cases "vt_dlist s") auto
  have x: "x = (j, L + unat d0)" using r' Cons l by simp
  let ?nd = "chTimeDiffX (of_nat L) (of_nat (T n))"
  have lt: "T n - L + unat delay < 4294967296" using f t Cons by simp
  have nd: "unat ?nd = T n - L" using diff_true [of L "T n"] t lt by simp
  have dl: "unat (?nd + delay) = T n - L + unat delay" using unat_plus32 [of ?nd delay] nd lt by simp
  have ov: "\<not> ?nd + delay < ?nd" using dl nd by (simp add: word_less_nat_alt)
  let ?s = "s\<lparr>vt_reload := (vt_reload s)(i := 0), vt_reads := n + 1\<rparr>"
  let ?s1 = "if ?nd + delay < d0 then ?s\<lparr>vt_alarm := Some (of_nat (T n + max 2 (unat delay))), vt_reads := n + 2\<rparr> else ?s"
  let ?s' = "?s1\<lparr>vt_dlist := ch_dlist_insert i (?nd + delay) (vt_dlist s)\<rparr>"
  have "\<not> chVTIsArmedI i s" using i r' by (simp add: chVTIsArmedI_def)
  then have e: "chVTDoSetI (clock_of T) i delay s = Some ?s'"
    using d l n r' ov vt_set_alarm_ok [of "T n" T ?s delay] q
    by (simp add: chVTDoSetI_def vt_enqueue_def TIME_IMMEDIATE_def clock_of_def vt_insert_def chVTIsArmedI_def Let_def)
  have ofs: "offs L (vt_dlist ?s') = insert_dl i (T n + unat delay) ds"
    using offs_insert [of L i "?nd + delay" "vt_dlist s"] dl t r' by simp
  have "alarm_ok T ?s' (insert_dl i (T n + unat delay) ds)"
  proof (cases "?nd + delay < d0")
    case True
    then have "T n + unat delay < L + unat d0" using dl t by (simp add: word_less_nat_alt)
    then show ?thesis using True q x Cons by (intro alarm_ok_new [of _ "T n" "unat delay" _ "n + 1"]) (simp_all add: insert_dl_fields)
  next
    case False
    then have "L + unat d0 \<le> T n + unat delay" using dl t by (simp add: word_less_nat_alt)
    then show ?thesis using False al x Cons n by (intro alarm_ok_hd [OF al]) (simp_all add: insert_dl_fields)
  qed
  moreover have "vt_reload ?s' (fst x) = 0" if "x \<in> set (insert_dl i (T n + unat delay) ds)" for x
  proof -
    have "fst x \<in> insert i (fst ` set ds)" using that insert_dl_fields(1) by (metis image_eqI)
    moreover have "\<forall>y \<in> set ds. vt_reload s (fst y) = 0" using r' by blast
    ultimately show ?thesis by auto
  qed
  moreover have "distinct (map fst (insert_dl i (T n + unat delay) ds))" using insert_dl_fields(2) i vt_relD(3) [OF r] by blast
  moreover have "T n + unat delay < L + 4294967296" using f Cons by blast
  then have "below (L + 4294967296) (insert_dl i (T n + unat delay) ds)" using insert_dl_fields(3) vt_relD(4) [OF r] by blast
  moreover have "vt_lasttime ?s' = of_nat L" using vt_relD(1) [OF r] by simp
  ultimately have "vt_rel T L ?s' (insert_dl i (T n + unat delay) ds)" unfolding vt_rel_def using ofs by metis
  then show ?thesis using e Cons by simp
qed

lemma below_filter: "below b ds \<Longrightarrow> below b (filter P ds)"
  by (simp add: below_def)

lemma chVTDoResetI_ok:
  assumes r: "vt_rel T L s ds" and n: "n = vt_reads s" and t: "L \<le> T n" "T n < L + 4294967296" and q: "T n \<le> T (n + 1)" "T (n + 1) < T n + 2"
    and i: "i \<in> fst ` set ds"
  shows "\<exists>s'. chVTDoResetI (clock_of T) i s = Some s' \<and> vt_calls s' = vt_calls s \<and> n \<le> vt_reads s' \<and> vt_reads s' \<le> n + 2 \<and>
    vtl.more s' = vtl.more s \<and> vt_rel T L s' (filter (\<lambda>x. fst x \<noteq> i) ds)"
proof -
  note d = vt_relD [OF r]
  let ?ds = "filter (\<lambda>x. fst x \<noteq> i) ds"
  have arm: "chVTIsArmedI i s" using i d(2) by (metis chVTIsArmedI_def fst_set_offs)
  obtain j d0 l where l: "vt_dlist s = (j, d0) # l" using arm by (cases "vt_dlist s") (auto simp: chVTIsArmedI_def)
  have ds: "ds = (j, L + unat d0) # offs (L + unat d0) l" using d(2) l by simp
  have dis: "distinct (map fst (vt_dlist s))" using d(2,3) by (metis fst_offs)
  have rm: "offs L (dlist_remove i (vt_dlist s)) = ?ds" using offs_remove [of L L "vt_dlist s" i] d(2,4) dis by simp
  have rel: "vt_rel T L s' ?ds" if "vt_lasttime s' = vt_lasttime s" "vt_dlist s' = dlist_remove i (vt_dlist s)" "vt_reload s' = vt_reload s"
    "alarm_ok T s' ?ds" for s'
    using that d(1,3,4,5) rm unfolding vt_rel_def by (simp add: below_filter distinct_map_filter)
  show ?thesis
  proof (cases "j = i")
    case False
    let ?s = "s\<lparr>vt_dlist := dlist_remove i (vt_dlist s)\<rparr>"
    have "alarm_ok T ?s ?ds" by (rule alarm_ok_hd [OF d(6)]) (use ds False in simp_all)
    moreover have "chVTDoResetI (clock_of T) i s = Some ?s" using l arm False by (simp add: chVTDoResetI_def)
    ultimately show ?thesis using rel [of ?s] n by simp
  next
    case True
    then have rm': "dlist_remove i (vt_dlist s) = add_next d0 l" using l by simp
    show ?thesis
    proof (cases l)
      case Nil
      let ?s = "s\<lparr>vt_dlist := [], vt_alarm := None\<rparr>"
      have "?ds = []" using ds True Nil by simp
      then have "alarm_ok T ?s ?ds" by (simp add: alarm_ok_def)
      moreover have "chVTDoResetI (clock_of T) i s = Some ?s" using l arm True Nil by (simp add: chVTDoResetI_def)
      ultimately show ?thesis using rel [of ?s] n rm' Nil by simp
    next
      case (Cons y l')
      obtain j1 e1 where y: "y = (j1, e1)" by (cases y)
      let ?s = "s\<lparr>vt_dlist := add_next d0 l, vt_reads := n + 1\<rparr>"
      let ?nd = "chTimeDiffX (of_nat L) (of_nat (T n))"
      have "?ds = (j1, L + unat (e1 + d0)) # offs (L + unat (e1 + d0)) l'" unfolding rm [symmetric] rm' using Cons y by simp
      then have hd: "snd (hd ?ds) = L + unat (e1 + d0)" "?ds \<noteq> []" by simp_all
      have nd: "unat ?nd = T n - L" using diff_true [of L "T n"] t by simp
      have "?ds = offs (L + unat d0) l" using ds True rm rm' offs_add_next [of L d0 l] d(4) by simp
      then have le: "snd (hd ds) \<le> snd (hd ?ds)" using offs_ge [of "hd ?ds" "L + unat d0" l] hd(2) ds by (metis hd_in_set list.sel(1) snd_conv)
      show ?thesis
      proof (cases "?nd \<ge> e1 + d0")
        case ge: True
        have "chVTDoResetI (clock_of T) i s = Some ?s"
          using l arm True Cons y ge n d(1) by (simp add: chVTDoResetI_def clock_of_def Let_def)
        moreover have "alarm_ok T ?s ?ds" by (rule alarm_ok_hd [OF d(6) _ hd(2) le]) (use ds n in simp_all)
        ultimately show ?thesis using rel [of ?s] n rm' by simp
      next
        case lt: False
        then have lt': "T n - L < unat (e1 + d0)" using nd by (simp add: word_le_nat_alt)
        then have df: "unat (e1 + d0 - ?nd) = unat (e1 + d0) - (T n - L)" using unat_sub [of ?nd "e1 + d0"] lt nd by simp
        let ?s' = "?s\<lparr>vt_alarm := Some (of_nat (T n + max 2 (unat (e1 + d0 - ?nd)))), vt_reads := n + 2\<rparr>"
        have "chVTDoResetI (clock_of T) i s = Some ?s'"
          using l arm True Cons y lt n d(1) vt_set_alarm_ok [of "T n" T ?s "e1 + d0 - ?nd"] q
          by (simp add: chVTDoResetI_def clock_of_def Let_def)
        moreover have "alarm_ok T ?s' ?ds"
          by (rule alarm_ok_new [of _ "T n" "unat (e1 + d0 - ?nd)" _ "n + 1"]) (use q hd df lt' t in simp_all)
        ultimately show ?thesis using rel [of ?s'] n rm' by simp
      qed
    qed
  qed
qed

text \<open>
  The functions of the timers set no timers, as \<open>__sch_wakeup\<close> does. They may rely on a condition
  \<open>ready is s\<close> on the rest of the state, in which \<open>is\<close> are the timers still armed.
\<close>

lemma truncate_fields:
  assumes "vtl.truncate s' = vtl.truncate s"
  shows "vt_dlist s' = vt_dlist s" "vt_lasttime s' = vt_lasttime s" "vt_laststamp s' = vt_laststamp s" "vt_alarm s' = vt_alarm s"
    "vt_reload s' = vt_reload s" "vt_insufficient s' = vt_insufficient s" "vt_reads s' = vt_reads s" "vt_calls s' = vt_calls s"
  using assms by (simp_all add: vtl.defs)

locale timer_functions =
  fixes func :: "'a vtfuncs" and ready :: "nat list \<Rightarrow> 'a vtl_scheme \<Rightarrow> bool"
  assumes func_ok: "ready (i # is) s \<Longrightarrow> \<exists>s'. func i s = Some s' \<and> vtl.truncate s' = vtl.truncate s \<and> ready is s'"
    and ready_more: "vtl.more s' = vtl.more s \<Longrightarrow> ready is s' = ready is s"
begin

lemma tick_loop_ok:
  assumes "vt_lasttime s = of_nat L" and "offs L (vt_dlist s) = ds" and "\<forall>x \<in> set ds. vt_reload s (fst x) = 0" and "n = vt_reads s"
    and "L \<le> T n" and "\<And>k. T k \<le> T (k + 1)" and "T (n + length ds) < L + 2147483648"
    and "ready (map fst ds) s"
  shows "\<exists>m L' s'. m \<le> length ds \<and> ready (map fst (drop m ds)) s' \<and> tick_loop (clock_of T) func s = Some (Some (of_nat (T (n + m)), of_nat (T (n + m) - L')), s') \<and>
    vt_lasttime s' = of_nat L' \<and> L \<le> L' \<and> L' \<le> T (n + m) \<and> offs L' (vt_dlist s') = drop m ds \<and> vt_reload s' = vt_reload s \<and>
    vt_reads s' = n + m + 1 \<and> vt_calls s' = vt_calls s @ zip (map fst (take m ds)) [n..<n + m] \<and>
    (\<forall>k < m. snd (ds ! k) \<le> T (n + k)) \<and> (\<forall>x \<in> set (drop m ds). T (n + m) < snd x) \<and>
    (if drop m ds = [] \<and> ds \<noteq> [] then vt_alarm s' = None else vt_alarm s' = vt_alarm s)"
  using assms
proof (induction ds arbitrary: s L n)
  case Nil
  have e: "vt_dlist s = []" using Nil.prems(2) by simp
  have nd: "unat (chTimeDiffX (of_nat L) (of_nat (T n))) = T n - L" using diff_true [of L "T n"] Nil.prems(5,7) by simp
  then have "chTimeDiffX (of_nat L) (of_nat (T n)) < 0xFFFFFFFF" using Nil.prems(7) by (simp add: word_less_nat_alt)
  moreover have "chTimeDiffX (of_nat L) (of_nat (T n)) = of_nat (T n - L)" using Nil.prems(5) by (simp add: chTimeDiffX_def of_nat_diff)
  moreover have "ready [] (s\<lparr>vt_reads := n + 1\<rparr>)" using Nil.prems(8) ready_more [of "s\<lparr>vt_reads := n + 1\<rparr>" s] by simp
  ultimately show ?case
    using e Nil.prems(1,4,5) by (intro exI [of _ 0] exI [of _ L]) (simp add: tick_loop.simps clock_of_def)
next
  case (Cons x ds)
  obtain i d l where l: "vt_dlist s = (i, d) # l" and x: "x = (i, L + unat d)" and ds: "offs (L + unat d) l = ds"
    using Cons.prems(2) by (cases "vt_dlist s") auto
  have mono: "T a \<le> T b" if "a \<le> b" for a b by (rule lift_Suc_mono_le [OF _ that]) (use Cons.prems(6) in simp)
  have tn: "T n < L + 2147483648" using mono [of n "n + length (x # ds)"] Cons.prems(7) by simp
  have nd: "unat (chTimeDiffX (of_nat L) (of_nat (T n))) = T n - L" using diff_true [of L "T n"] Cons.prems(5) tn by simp
  show ?case
  proof (cases "T n - L < unat d")
    case True
    have eq: "chTimeDiffX (of_nat L) (of_nat (T n)) = of_nat (T n - L)" using Cons.prems(5) by (simp add: chTimeDiffX_def of_nat_diff)
    have "chTimeDiffX (of_nat L) (of_nat (T n)) < d" using True nd by (simp add: word_less_nat_alt)
    then have "tick_loop (clock_of T) func s = Some (Some (of_nat (T n), of_nat (T n - L)), s\<lparr>vt_reads := n + 1\<rparr>)"
      using l Cons.prems(1,4) eq by (simp add: tick_loop.simps clock_of_def)
    moreover have "T n < L + unat d" using True Cons.prems(5) by simp
    then have "\<forall>y \<in> set (x # ds). T n < snd y" using x ds offs_ge [of _ "L + unat d" l] by (auto intro: less_le_trans)
    moreover have "ready (map fst (x # ds)) (s\<lparr>vt_reads := n + 1\<rparr>)"
      using Cons.prems(8) ready_more [of "s\<lparr>vt_reads := n + 1\<rparr>" s] by simp
    ultimately show ?thesis using Cons.prems(1,2,5) by (intro exI [of _ 0] exI [of _ L]) simp
  next
    case False
    let ?s = "s\<lparr>vt_reads := n + 1, vt_lasttime := of_nat (L + unat d), vt_dlist := l, vt_alarm := if l = [] then None else vt_alarm s,
      vt_calls := vt_calls s @ [(i, n)]\<rparr>"
    have "\<not> chTimeDiffX (of_nat L) (of_nat (T n)) < d" using False nd by (simp add: word_less_nat_alt)
    moreover have "ready (i # map fst ds) ?s" using Cons.prems(8) x ready_more [of ?s s] by simp
    then obtain s1 where s1: "func i ?s = Some s1" "vtl.truncate s1 = vtl.truncate ?s" "ready (map fst ds) s1" using func_ok by blast
    note f = truncate_fields [OF s1(2)]
    have "vt_reload s1 i = 0" using Cons.prems(3) x f by simp
    ultimately have st: "tick_loop (clock_of T) func s = tick_loop (clock_of T) func s1"
      using l s1(1) Cons.prems(1,4)
      by (subst tick_loop.simps) (cases "l = []"; simp add: clock_of_def chTimeAddX_def Let_def)
    have le: "L + unat d \<le> T (Suc n)" using False Cons.prems(5) mono [of n "Suc n"] by simp
    have "\<exists>m L' s'. m \<le> length ds \<and> ready (map fst (drop m ds)) s' \<and> tick_loop (clock_of T) func s1 = Some (Some (of_nat (T (n + 1 + m)), of_nat (T (n + 1 + m) - L')), s') \<and>
      vt_lasttime s' = of_nat L' \<and> L + unat d \<le> L' \<and> L' \<le> T (n + 1 + m) \<and> offs L' (vt_dlist s') = drop m ds \<and> vt_reload s' = vt_reload s1 \<and>
      vt_reads s' = n + 1 + m + 1 \<and> vt_calls s' = vt_calls s1 @ zip (map fst (take m ds)) [n + 1..<n + 1 + m] \<and>
      (\<forall>k < m. snd (ds ! k) \<le> T (n + 1 + k)) \<and> (\<forall>x \<in> set (drop m ds). T (n + 1 + m) < snd x) \<and>
      (if drop m ds = [] \<and> ds \<noteq> [] then vt_alarm s' = None else vt_alarm s' = vt_alarm s1)"
      by (rule Cons.IH) (use ds Cons.prems(3,4,6,7) le s1(3) f in auto)
    then obtain m L' s' where m: "m \<le> length ds" "tick_loop (clock_of T) func s = Some (Some (of_nat (T (n + Suc m)), of_nat (T (n + Suc m) - L')), s')"
      "vt_lasttime s' = of_nat L'" "L + unat d \<le> L'" "L' \<le> T (n + Suc m)" "offs L' (vt_dlist s') = drop m ds" "vt_reload s' = vt_reload s"
      "vt_reads s' = n + Suc m + 1" "vt_calls s' = vt_calls s @ (i, n) # zip (map fst (take m ds)) [n + 1..<n + Suc m]"
      "\<forall>k < m. snd (ds ! k) \<le> T (n + Suc k)" "\<forall>x \<in> set (drop m ds). T (n + Suc m) < snd x"
      "if drop m ds = [] \<and> ds \<noteq> [] then vt_alarm s' = None else vt_alarm s' = (if l = [] then None else vt_alarm s)"
      "ready (map fst (drop m ds)) s'"
      unfolding st using f by auto
    have "\<forall>k < Suc m. snd ((x # ds) ! k) \<le> T (n + k)"
    proof clarify
      fix k assume "k < Suc m"
      then show "snd ((x # ds) ! k) \<le> T (n + k)" using m(10) False Cons.prems(5) x by (cases k) auto
    qed
    moreover have "[n..<n + Suc m] = n # [n + 1..<n + Suc m]" by (simp add: upt_conv_Cons)
    moreover have "l = [] \<longleftrightarrow> ds = []" using ds by auto
    then have "if drop (Suc m) (x # ds) = [] \<and> x # ds \<noteq> [] then vt_alarm s' = None else vt_alarm s' = vt_alarm s"
      using m(12) by (cases "ds = []") simp_all
    moreover have "L \<le> L'" using m(4) by simp
    ultimately show ?thesis
      using m(1,2,3,5-9,11,13) x by (intro exI [of _ "Suc m"] exI [of _ L'] exI [of _ s'] conjI) simp_all
  qed
qed


lemma chVTDoTickI_ok:
  assumes r: "vt_rel T L s ds" and n: "n = vt_reads s" and t: "L \<le> T n" "T (n + length ds) < L + 2147483648"
    and mono: "\<And>k. T k \<le> T (k + 1)" and q: "\<And>k. n \<le> k \<Longrightarrow> k \<le> n + length ds \<Longrightarrow> T (k + 1) < T k + 2"
    and rd: "ready (map fst ds) s"
  shows "\<exists>m L' s'. m \<le> length ds \<and> chVTDoTickI (clock_of T) func s = Some s' \<and> ready (map fst (drop m ds)) s' \<and>
    vt_calls s' = vt_calls s @ zip (map fst (take m ds)) [n..<n + m] \<and> (\<forall>k < m. snd (ds ! k) \<le> T (n + k)) \<and>
    (\<forall>x \<in> set (drop m ds). T (n + m) < snd x) \<and> n + m < vt_reads s' \<and> L' \<le> T (n + m) \<and> vt_rel T L' s' (drop m ds) \<and>
    vt_reads s' \<le> n + m + 2 \<and> (drop m ds \<noteq> [] \<longrightarrow> L' = T (n + m))"
proof -
  note d = vt_relD [OF r]
  have "\<forall>x \<in> set ds. vt_reload s (fst x) = 0" using d(5) by blast
  from tick_loop_ok [where T = T, OF d(1,2) this n t(1) mono t(2) rd]
  obtain m L' s' where m: "m \<le> length ds" "tick_loop (clock_of T) func s = Some (Some (of_nat (T (n + m)), of_nat (T (n + m) - L')), s')"
    "vt_lasttime s' = of_nat L'" "L \<le> L'" "L' \<le> T (n + m)" "offs L' (vt_dlist s') = drop m ds" "vt_reload s' = vt_reload s"
    "vt_reads s' = n + m + 1" "vt_calls s' = vt_calls s @ zip (map fst (take m ds)) [n..<n + m]"
    "\<forall>k < m. snd (ds ! k) \<le> T (n + k)" "\<forall>x \<in> set (drop m ds). T (n + m) < snd x"
    "if drop m ds = [] \<and> ds \<noteq> [] then vt_alarm s' = None else vt_alarm s' = vt_alarm s"
    "ready (map fst (drop m ds)) s'" by blast
  let ?N = "T (n + m)"
  have dist: "distinct (map fst (drop m ds))" using d(3) by (metis distinct_drop drop_map)
  have rl: "\<forall>x \<in> set (drop m ds). vt_reload s (fst x) = 0" using d(5) by (meson in_set_dropD)
  have bel: "below (?N + 4294967296) (drop m ds)" "below (L' + 4294967296) (drop m ds)"
    using d(4) m(4,5) unfolding below_def by (meson in_set_dropD less_le_trans add_le_mono le_refl le_trans)+
  show ?thesis
  proof (cases "vt_dlist s'")
    case Nil
    then have e: "drop m ds = []" using m(6) by simp
    then have "vt_alarm s' = None" using m(12) d(6) by (cases ds) (simp_all add: alarm_ok_def)
    then have "vt_rel T L' s' (drop m ds)" using m(3) Nil e by (simp add: vt_rel_def alarm_ok_def)
    moreover have "chVTDoTickI (clock_of T) func s = Some s'" using m(2) Nil by (simp add: chVTDoTickI_def)
    ultimately show ?thesis using m e by (intro exI [of _ m] exI [of _ L'] exI [of _ s'] conjI) simp_all
  next
    case (Cons y l)
    obtain i d0 where y: "y = (i, d0)" by (cases y)
    have hd: "drop m ds = (i, L' + unat d0) # offs (L' + unat d0) l" using m(6) Cons y by simp
    let ?nd = "of_nat (?N - L') :: u32"
    have lt: "?N < L' + unat d0" using m(11) hd by simp
    have nd: "unat ?nd = ?N - L'" using diff_true [OF m(5)] lt m(5) unat32 [of d0] by (simp add: chTimeDiffX_def of_nat_diff)
    have df: "unat (d0 - ?nd) = unat d0 - (?N - L')" using unat_sub [of ?nd d0] nd lt m(5) by (simp add: word_le_nat_alt)
    let ?s = "s'\<lparr>vt_lasttime := vt_lasttime s' + ?nd, vt_dlist := (i, d0 - ?nd) # l\<rparr>"
    let ?s' = "?s\<lparr>vt_alarm := Some (of_nat (?N + max 2 (unat (d0 - ?nd)))), vt_reads := n + m + 2\<rparr>"
    have T1: "?N \<le> T (n + m + 1)" "T (n + m + 1) < ?N + 2" using mono [of "n + m"] q [of "n + m"] m(1) by auto
    have e: "chVTDoTickI (clock_of T) func s = Some ?s'"
      using vt_set_alarm_ok [of ?N T ?s "d0 - ?nd"] T1 m(2,8) Cons y by (simp add: chVTDoTickI_def)
    have last: "vt_lasttime ?s' = of_nat ?N" using m(3,5) by (simp add: of_nat_diff)
    have ofs: "offs ?N (vt_dlist ?s') = drop m ds" using hd df lt m(5) by (simp add: add.commute)
    have "alarm_ok T ?s' (drop m ds)"
      by (rule alarm_ok_new [of _ ?N "unat (d0 - ?nd)" _ "n + m + 1"]) (use T1 hd df lt m(5) in simp_all)
    then have "vt_rel T ?N ?s' (drop m ds)" unfolding vt_rel_def using last ofs dist bel(1) rl m(7) by simp
    moreover have "ready (map fst (drop m ds)) ?s'" using m(13) ready_more [of ?s' s'] by simp
    ultimately show ?thesis using e m by (intro exI [of _ m] exI [of _ ?N] exI [of _ ?s'] conjI) simp_all
  qed
qed

end

definition no_timers :: "'a vtfuncs" where
  "no_timers i s = Some s"

interpretation no_timers: timer_functions no_timers "\<lambda>is s. True"
  by standard (simp_all add: no_timers_def)

section \<open>An alarm in the past\<close>

text \<open>
  When the time has passed the deadline of the first timer before the alarm is armed,
  \<open>vt_insert_first\<close> tries again, but counts from the time it has read before.
\<close>

lemma same_word_later:
  assumes "of_nat A = (of_nat B :: u32)" and "B < A"
  shows "B + 4294967296 \<le> A"
proof -
  have "A mod 4294967296 = B mod 4294967296" using arg_cong [OF assms(1), of unat] by (simp add: unat_of_nat)
  then have "4294967296 dvd A - B" using assms(2) by (simp add: mod_eq_dvd_iff_nat)
  then show ?thesis using assms(2) by (auto dest: dvd_imp_le)
qed

lemma insert_first_past:
  assumes "T1 = T (vt_reads s + 1)" and "T0 = T (vt_reads s)" and "max 3 (unat delay) \<le> T1 - T0" and "T1 - T0 < 4294967296"
    and "T1 \<le> T (vt_reads s + 2)" and "T (vt_reads s + 2) < T1 + 3" and "vt_dlist s = []" and "delay \<noteq> 0"
  shows "chVTDoSetI (clock_of T) i delay s =
    Some (s\<lparr>vt_reload := (vt_reload s)(i := 0), vt_reads := vt_reads s + 3, vt_lasttime := of_nat T0, vt_dlist := [(i, delay)],
      vt_alarm := Some (of_nat (T0 + 3)), vt_insufficient := True\<rparr>)"
proof -
  have "3 \<le> T1 - T0" using assms(3) by simp
  then have "T0 \<le> T1" by arith
  then have u1: "unat (chTimeDiffX (of_nat T0) (of_nat T1)) = T1 - T0" using diff_true [of T0 T1] assms(4) by simp
  have u2: "unat (chTimeDiffX (of_nat T1) (of_nat (T (vt_reads s + 2)))) = T (vt_reads s + 2) - T1"
    using diff_true [of T1 "T (vt_reads s + 2)"] assms(5,6) by simp
  have ge: "\<not> chTimeDiffX (of_nat T0) (of_nat T1) < (if delay < 2 then 2 else delay)"
    using u1 assms(3) by (auto simp: word_less_nat_alt)
  have lt: "chTimeDiffX (of_nat T1) (of_nat (T (vt_reads s + 2))) < 3" using u2 assms(5,6) by (simp add: word_less_nat_alt)
  have "chVTDoSetI (clock_of T) i delay s = vt_insert_first (clock_of T) i (of_nat T0) delay (s\<lparr>vt_reload := (vt_reload s)(i := 0), vt_reads := vt_reads s + 1\<rparr>)"
    using assms(2,7,8) by (auto simp: chVTDoSetI_def vt_enqueue_def TIME_IMMEDIATE_def clock_of_def)
  also have "\<dots> = Some (s\<lparr>vt_reload := (vt_reload s)(i := 0), vt_reads := vt_reads s + 3, vt_lasttime := of_nat T0, vt_dlist := [(i, delay)],
      vt_alarm := Some (of_nat (T0 + 3)), vt_insufficient := True\<rparr>)"
    using ge lt assms(1)
    by (simp add: vt_insert_first_def insert_first_loop.simps Let_def CH_CFG_ST_TIMEDELTA_def collect_faults_def chTimeAddX_def clock_of_def)
  finally show ?thesis .
qed

lemma chVTObjectDispose_inverted: "chVTObjectDispose i (vt_object_init clk) = None"
  by (simp add: chVTObjectDispose_def vt_object_init_def chVTIsArmedI_def)

lemma vt_object_init_rel: "vt_rel T 0 (vt_object_init (clock_of T)) []" "vt_reads (vt_object_init (clock_of T)) = 1"
  by (simp_all add: vt_object_init_def vt_rel_def alarm_ok_def)

section \<open>Properties\<close>

text \<open>
  C22. The virtual timers keep deadlines. Whatever timers are armed, as long as a timer has expired
  less than \<open>2\<^sup>3\<^sup>1\<close> ticks ago and the clock advances by at most one tick from one reading to the
  next: arming a timer adds its deadline, exactly the current time and the delay, and changes no
  other; disarming removes it; the interrupt calls the timers in order of their deadlines, none
  before its deadline, and afterwards none is overdue. The alarm stays set to the first deadline or,
  when that is closer than two ticks, two ticks behind a reading that came before it.
\<close>

theorem virtual_timers_refine:
  assumes "vt_rel T L s ds" and "n = vt_reads s" and "L \<le> T n" and "T (n + length ds) < L + 2147483648"
    and "\<And>k. T k \<le> T (k + 1)" and "\<And>k. n \<le> k \<Longrightarrow> k \<le> n + length ds \<Longrightarrow> T (k + 1) < T k + 2"
  shows "(\<forall>i delay. i \<notin> fst ` set ds \<and> 0 < delay \<and> delay < 2147483648 \<longrightarrow>
       (\<exists>s'. chVTDoSetI (clock_of T) i delay s = Some s' \<and> n < vt_reads s' \<and>
          vt_rel T (if ds = [] then T n else L) s' (insert_dl i (T n + unat delay) ds))) \<and>
    (\<forall>i. i \<in> fst ` set ds \<longrightarrow>
       (\<exists>s'. chVTDoResetI (clock_of T) i s = Some s' \<and> n \<le> vt_reads s' \<and> vt_rel T L s' (filter (\<lambda>x. fst x \<noteq> i) ds))) \<and>
    (\<exists>m s' L'. m \<le> length ds \<and> chVTDoTickI (clock_of T) no_timers s = Some s' \<and> n + m < vt_reads s' \<and> L' \<le> T (n + m) \<and>
       vt_rel T L' s' (drop m ds) \<and>
       vt_calls s' = vt_calls s @ zip (map fst (take m ds)) [n..<n + m] \<and> (\<forall>k < m. snd (ds ! k) \<le> T (n + k)) \<and>
       (\<forall>x \<in> set (drop m ds). T n < snd x))"
proof -
  have mono: "T a \<le> T b" if "a \<le> b" for a b by (rule lift_Suc_mono_le [OF _ that]) (use assms(5) in simp)
  have tn: "T n < L + 2147483648" using mono [of n "n + length ds"] assms(4) by simp
  have q: "T n \<le> T (n + 1)" "T (n + 1) < T n + 2" using assms(5,6) [of n] by auto
  have "\<exists>s'. chVTDoSetI (clock_of T) i delay s = Some s' \<and> n < vt_reads s' \<and>
      vt_rel T (if ds = [] then T n else L) s' (insert_dl i (T n + unat delay) ds)"
    if "i \<notin> fst ` set ds" "0 < delay" "delay < 2147483648" for i delay
  proof -
    have "delay \<noteq> 0" "unat delay < 2147483648" using that(2,3) by (auto simp: word_less_nat_alt)
    then show ?thesis using chVTDoSetI_ok [where T = T, OF assms(1-3) q that(1), of delay] tn by auto
  qed
  moreover have "\<exists>s'. chVTDoResetI (clock_of T) i s = Some s' \<and> n \<le> vt_reads s' \<and> vt_rel T L s' (filter (\<lambda>x. fst x \<noteq> i) ds)" if "i \<in> fst ` set ds" for i
    using chVTDoResetI_ok [where T = T, OF assms(1-3) _ q that] tn by auto
  moreover from no_timers.chVTDoTickI_ok [where T = T, OF assms(1-6) TrueI]
  obtain m L' s' where m: "m \<le> length ds" "chVTDoTickI (clock_of T) no_timers s = Some s'"
    "vt_calls s' = vt_calls s @ zip (map fst (take m ds)) [n..<n + m]" "\<forall>k < m. snd (ds ! k) \<le> T (n + k)"
    "\<forall>x \<in> set (drop m ds). T (n + m) < snd x" "n + m < vt_reads s'" "L' \<le> T (n + m)" "vt_rel T L' s' (drop m ds)" by blast
  moreover have "\<forall>x \<in> set (drop m ds). T n < snd x" using m(5) mono [of n "n + m"] by (meson le_add1 le_less_trans)
  ultimately show ?thesis by blast
qed

text \<open>The clock advances by one tick at each reading, and by 100 ticks after the third.\<close>

definition sample_time :: "nat \<Rightarrow> nat" where "sample_time k = (if k < 3 then 1000 + k else 1100 + k)"

theorem virtual_timers_refine_witness:
  "\<exists>s1 s2 L1 L2. chVTDoSetI (clock_of sample_time) 7 50 (vt_object_init (clock_of sample_time)) = Some s1 \<and> vt_rel sample_time L1 s1 [(7, 1051)] \<and>
     chVTDoTickI (clock_of sample_time) no_timers s1 = Some s2 \<and> vt_rel sample_time L2 s2 [] \<and> vt_calls s2 = [(7, 3)]"
proof -
  let ?c = "clock_of sample_time"
  have st: "sample_time k \<le> sample_time (k + 1)" for k by (simp add: sample_time_def)
  have "map_option (\<lambda>s. (vt_reads s, vt_lasttime s, vt_calls s)) (chVTDoSetI ?c 7 50 (vt_object_init ?c)) = Some (3, 1001, [])" by code_simp
  then obtain s1 where s1: "chVTDoSetI ?c 7 50 (vt_object_init ?c) = Some s1" "vt_reads s1 = 3" "vt_lasttime s1 = 1001" "vt_calls s1 = []" by auto
  have "\<forall>i delay. 0 < delay \<and> delay < 2147483648 \<longrightarrow>
      (\<exists>s'. chVTDoSetI ?c i delay (vt_object_init ?c) = Some s' \<and> 1 < vt_reads s' \<and> vt_rel sample_time 1001 s' [(i, 1001 + unat delay)])"
    using virtual_timers_refine [where T = sample_time, OF vt_object_init_rel(1) vt_object_init_rel(2) [symmetric] _ _ st]
    by (simp add: sample_time_def)
  from this [rule_format, of 50 7] have r: "vt_rel sample_time 1001 s1 [(7, 1051)]" using s1(1) by simp
  obtain m s2 L2 where m: "m \<le> 1" "chVTDoTickI ?c no_timers s1 = Some s2" "vt_rel sample_time L2 s2 (drop m [(7, 1051)])"
    "vt_calls s2 = zip (map fst (take m [(7, 1051 :: nat)])) [3..<3 + m]" "\<forall>x \<in> set (drop m [(7 :: nat, 1051 :: nat)]). sample_time 3 < snd x"
    using virtual_timers_refine [where T = sample_time, OF r s1(2) [symmetric] _ _ st] s1(4) by (auto simp: sample_time_def)
  have "m = 1" using m(1,5) by (cases m) (simp_all add: sample_time_def)
  then show ?thesis using s1(1) r m(2,3,4) by auto
qed

text \<open>
  C35. A timer can be lost. When a timer is armed while no other is, and between two readings the
  clock passes its deadline and at least three ticks, the second attempt sets the alarm to a time
  that has passed already: the hardware reaches it again only after \<open>2\<^sup>3\<^sup>2\<close> ticks, twelve hours, and
  until then the timer does not expire, unless another is armed.
\<close>

theorem first_timer_lost:
  assumes "vt_dlist s = []" and "0 < delay" and "T1 = T (vt_reads s + 1)" and "max 3 (unat delay) < T1 - T (vt_reads s)"
    and "T1 - T (vt_reads s) < 4294967296" and "T1 \<le> T (vt_reads s + 2)" and "T (vt_reads s + 2) < T1 + 3"
  shows "\<exists>s' a. chVTDoSetI (clock_of T) i delay s = Some s' \<and> vt_dlist s' = [(i, delay)] \<and> vt_alarm s' = Some a \<and>
    (\<forall>t. T1 \<le> t \<and> of_nat t = a \<longrightarrow> T (vt_reads s) + 3 + 4294967296 \<le> t)"
proof -
  have "3 < T1 - T (vt_reads s)" using assms(4) by simp
  then have "T (vt_reads s) + 3 < T1" by arith
  then have "T (vt_reads s) + 3 + 4294967296 \<le> t" if "T1 \<le> t" "of_nat t = (of_nat (T (vt_reads s) + 3) :: u32)" for t
    using same_word_later [OF that(2)] that(1) by simp
  moreover have "delay \<noteq> 0" using assms(2) by auto
  ultimately show ?thesis
    using insert_first_past [where T = T and i = i, OF assms(3) refl less_imp_le [OF assms(4)] assms(5-7,1)] by (simp del: of_nat_add)
qed

text \<open>An interrupt of 50 microseconds between the two readings.\<close>

definition late_time :: "nat \<Rightarrow> nat" where "late_time k = (if k < 2 then 1000 + k else 1004 + k)"

theorem first_timer_lost_witness:
  "\<exists>s'. chVTDoSetI (clock_of late_time) 7 2 (vt_object_init (clock_of late_time)) = Some s' \<and> vt_alarm s' = Some 1004 \<and> late_time 2 = 1006"
proof -
  let ?s = "vt_object_init (clock_of late_time)"
  have e: "vt_dlist ?s = []" "vt_reads ?s = 1" by (simp_all add: vt_object_init_def)
  have "map_option vt_alarm (chVTDoSetI (clock_of late_time) 7 2 ?s) = Some (Some 1004)" by code_simp
  moreover have "\<exists>s'. chVTDoSetI (clock_of late_time) 7 2 ?s = Some s'"
    using first_timer_lost [where T = late_time and i = 7 and delay = 2, OF e(1) _ refl] by (auto simp: e late_time_def)
  ultimately show ?thesis by (auto simp: late_time_def)
qed

end
