(* ===== verification/Sleep.thy ===== *)
theory Sleep
  imports Threads Vt
begin

text \<open>
  Sleeping and timeouts, where the scheduler and the virtual timers meet: \<open>chSchGoSleepTimeoutS\<close> of
  \<open>chschd.c\<close> with its timer function \<open>__sch_wakeup\<close>, the sleeps and the thread references of
  \<open>chthreads.c\<close>, and the interrupt of the system timer of \<open>chsys.c\<close>. The state is that of the virtual
  timers extended by the scheduler's.

  The timer of a sleeping thread is on its stack, so it has the number of the thread.
  \<open>chSchGoSleepTimeoutS\<close> is in two parts, before and after the switch to another thread; \<open>os_timed\<close>
  tells which threads are between the two. A thread reference is a number, \<open>os_ref\<close> the thread it
  points to, and \<open>os_rdymsg\<close> the message a thread is woken with. Threads with a timer are in \<open>CH_STATE_SLEEPING\<close>
  or \<open>CH_STATE_SUSPENDED\<close> here; the branches of \<open>__sch_wakeup\<close> for queues and semaphores are in
  \<open>Queues\<close> and \<open>Semaphore\<close>.
\<close>

record os = vtl +
  os_k :: kernel
  os_rdymsg :: "tid \<Rightarrow> msg"
  os_timed :: "tid \<Rightarrow> bool"
  os_ref :: "nat \<Rightarrow> tid option"

definition chThdGetSelfX :: "os \<Rightarrow> tid" where "chThdGetSelfX s = k_curr (os_k s)"

definition on_kernel :: "(kernel \<Rightarrow> kernel option) \<Rightarrow> os \<Rightarrow> os option" where
  "on_kernel f s = map_option (\<lambda>k. s\<lparr>os_k := k\<rparr>) (f (os_k s))"

definition set_rdymsg :: "tid \<Rightarrow> msg \<Rightarrow> os \<Rightarrow> os" where
  "set_rdymsg t m s = s\<lparr>os_rdymsg := (os_rdymsg s)(t := m)\<rparr>"

definition set_ref :: "nat \<Rightarrow> tid option \<Rightarrow> os \<Rightarrow> os" where
  "set_ref r x s = s\<lparr>os_ref := (os_ref s)(r := x)\<rparr>"

section \<open>Sleeping with a timeout\<close>

definition sch_wakeup :: "tid \<Rightarrow> os \<Rightarrow> os option" where
  "sch_wakeup tp s =
     (case tstate_of (os_k s) tp of
        TReady \<Rightarrow> Some s
      | TSuspended r \<Rightarrow> on_kernel (sch_ready_behind tp) (set_rdymsg tp MSG_TIMEOUT (set_ref r None s))
      | _ \<Rightarrow> on_kernel (sch_ready_behind tp) (set_rdymsg tp MSG_TIMEOUT s))"

definition chSchGoSleepTimeoutS :: "clock \<Rightarrow> tstate \<Rightarrow> u32 \<Rightarrow> os \<Rightarrow> os option" where
  "chSchGoSleepTimeoutS clk newstate timeout s =
     (let tp = chThdGetSelfX s in
      if TIME_INFINITE \<noteq> timeout
      then do { s \<leftarrow> chVTDoSetI clk tp timeout s;
                s \<leftarrow> on_kernel (chSchGoSleepS newstate) s;
                Some (s\<lparr>os_timed := (os_timed s)(tp := True)\<rparr>) }
      else on_kernel (chSchGoSleepS newstate) s)"

definition timeout_return :: "clock \<Rightarrow> os \<Rightarrow> (msg \<times> os) option" where
  "timeout_return clk s =
     (let tp = chThdGetSelfX s in
      do { s \<leftarrow> (if chVTIsArmedI tp s then chVTDoResetI clk tp s else Some s);
           Some (os_rdymsg s tp, s\<lparr>os_timed := (os_timed s)(tp := False)\<rparr>) })"

definition chThdSleepS :: "clock \<Rightarrow> u32 \<Rightarrow> os \<Rightarrow> os option" where
  "chThdSleepS clk ticks s = (if ticks \<noteq> TIME_IMMEDIATE then chSchGoSleepTimeoutS clk TSleeping ticks s else None)"

definition chThdSleep :: "clock \<Rightarrow> u32 \<Rightarrow> os \<Rightarrow> os option" where
  "chThdSleep clk time s = chThdSleepS clk time s"

definition chThdSleepUntil :: "clock \<Rightarrow> systime \<Rightarrow> os \<Rightarrow> os option" where
  "chThdSleepUntil clk time s =
     (let (now, s) = chVTGetSystemTimeX clk s;
          interval = chTimeDiffX now time
      in if interval > 0 then chThdSleepS clk interval s else Some s)"

definition chTimeIsInRangeX :: "systime \<Rightarrow> systime \<Rightarrow> systime \<Rightarrow> bool" where
  "chTimeIsInRangeX time start stop \<longleftrightarrow> time - start < stop - start"

definition chThdSleepUntilWindowed :: "clock \<Rightarrow> systime \<Rightarrow> systime \<Rightarrow> os \<Rightarrow> os option" where
  "chThdSleepUntilWindowed clk prev nxt s =
     (let (time, s) = chVTGetSystemTimeX clk s
      in if chTimeIsInRangeX time prev nxt then chThdSleepS clk (chTimeDiffX time nxt) s else Some s)"

section \<open>Thread references\<close>

definition chThdSuspendS :: "nat \<Rightarrow> os \<Rightarrow> os option" where
  "chThdSuspendS trp s =
     (if os_ref s trp = None then on_kernel (chSchGoSleepS (TSuspended trp)) (set_ref trp (Some (chThdGetSelfX s)) s) else None)"

text \<open>The message is that of a call that returns without a wait.\<close>

definition chThdSuspendTimeoutS :: "clock \<Rightarrow> nat \<Rightarrow> u32 \<Rightarrow> os \<Rightarrow> (msg option \<times> os) option" where
  "chThdSuspendTimeoutS clk trp timeout s =
     (if os_ref s trp \<noteq> None then None
      else if TIME_IMMEDIATE = timeout then Some (Some MSG_TIMEOUT, s)
      else map_option (Pair None) (chSchGoSleepTimeoutS clk (TSuspended trp) timeout (set_ref trp (Some (chThdGetSelfX s)) s)))"

definition chThdResumeI :: "nat \<Rightarrow> msg \<Rightarrow> os \<Rightarrow> os option" where
  "chThdResumeI trp msg s =
     (case os_ref s trp of
        None \<Rightarrow> Some s
      | Some tp \<Rightarrow>
          (case tstate_of (os_k s) tp of TSuspended r \<Rightarrow> on_kernel (chSchReadyI tp) (set_rdymsg tp msg (set_ref trp None s)) | _ \<Rightarrow> None))"

definition chThdResumeS :: "nat \<Rightarrow> msg \<Rightarrow> os \<Rightarrow> os option" where
  "chThdResumeS trp msg s =
     (case os_ref s trp of
        None \<Rightarrow> Some s
      | Some tp \<Rightarrow>
          (case tstate_of (os_k s) tp of TSuspended r \<Rightarrow> on_kernel (chSchWakeupS tp) (set_rdymsg tp msg (set_ref trp None s)) | _ \<Rightarrow> None))"

definition chThdResume :: "nat \<Rightarrow> msg \<Rightarrow> os \<Rightarrow> os option" where
  "chThdResume trp msg s = chThdResumeS trp msg s"

section \<open>The timer interrupt and the start\<close>

definition chSysTimerHandlerI :: "clock \<Rightarrow> os \<Rightarrow> os option" where
  "chSysTimerHandlerI clk s = chVTDoTickI clk sch_wakeup s"

definition os_init :: "clock \<Rightarrow> tid \<Rightarrow> tid \<Rightarrow> os option" where
  "os_init clk mainthread idle =
     map_option (\<lambda>k. vtl.extend (vt_object_init clk) (os.fields k (\<lambda>t. MSG_OK) (\<lambda>t. False) (\<lambda>r. None))) (chInstanceObjectInit mainthread idle)"

section \<open>Histories\<close>

text \<open>
  What happens next: a step of the kernel without timers, a thread woken with a message, one of the
  calls above, the return of a call with a timeout when its thread runs again, a reference
  resumed by a thread or by an interrupt, the interrupt of the system timer.
\<close>

datatype oevent =
  OKern kevent | OWake tid msg | OSleep u32 | OSleepUntil systime | OSleepUntilWindowed systime systime |
  OSuspend nat | OSuspendTimeout nat u32 | OReturn | OResume nat msg | OIsrResume nat msg | OTick

fun ostep :: "clock \<Rightarrow> oevent \<Rightarrow> os \<Rightarrow> os option" where
  "ostep clk (OKern e) s = on_kernel (kstep e) s"
| "ostep clk (OWake t m) s = on_kernel (chSchWakeupS t) (set_rdymsg t m s)"
| "ostep clk (OSleep d) s = chThdSleep clk d s"
| "ostep clk (OSleepUntil time) s = chThdSleepUntil clk time s"
| "ostep clk (OSleepUntilWindowed prev nxt) s = chThdSleepUntilWindowed clk prev nxt s"
| "ostep clk (OSuspend r) s = chThdSuspendS r s"
| "ostep clk (OSuspendTimeout r d) s = map_option snd (chThdSuspendTimeoutS clk r d s)"
| "ostep clk OReturn s = map_option snd (timeout_return clk s)"
| "ostep clk (OResume r m) s = chThdResume r m s"
| "ostep clk (OIsrResume r m) s = Option.bind (chThdResumeI r m s) (on_kernel isr_epilogue)"
| "ostep clk OTick s = Option.bind (chSysTimerHandlerI clk s) (on_kernel isr_epilogue)"

text \<open>
  The rules. A thread that runs again inside \<open>chSchGoSleepTimeoutS\<close> has the system locked: it returns
  before anything else happens. A reference is free when a thread suspends on it. Sleeps are shorter than three hours
  (\<open>2\<^sup>3\<^sup>0\<close> ticks) or without end. The timer interrupt comes only while the alarm is set.
\<close>

definition may_sleep :: "u32 \<Rightarrow> os \<Rightarrow> bool" where
  "may_sleep d s \<longleftrightarrow> chThdGetSelfX s \<noteq> k_idle (os_k s) \<and> 0 < d \<and> (d < 0x40000000 \<or> d = TIME_INFINITE)"

fun os_allowed :: "clock \<Rightarrow> oevent \<Rightarrow> os \<Rightarrow> bool" where
  "os_allowed clk (OKern e) s = (legal e (os_k s) \<and> (case e of KWake t \<Rightarrow> False | _ \<Rightarrow> True))"
| "os_allowed clk (OWake t m) s = (tstate_of (os_k s) t = TSleeping)"
| "os_allowed clk (OSleep d) s = may_sleep d s"
| "os_allowed clk (OSleepUntil time) s = (let d = chTimeDiffX (clk (vt_reads s)) time in d = 0 \<or> may_sleep d s)"
| "os_allowed clk (OSleepUntilWindowed prev nxt) s =
     (chTimeIsInRangeX (clk (vt_reads s)) prev nxt \<longrightarrow> may_sleep (chTimeDiffX (clk (vt_reads s)) nxt) s)"
| "os_allowed clk (OSuspend r) s = (os_ref s r = None \<and> chThdGetSelfX s \<noteq> k_idle (os_k s))"
| "os_allowed clk (OSuspendTimeout r d) s = (os_ref s r = None \<and> (d = 0 \<or> may_sleep d s))"
| "os_allowed clk OReturn s = True"
| "os_allowed clk (OResume r m) s = True"
| "os_allowed clk (OIsrResume r m) s = True"
| "os_allowed clk OTick s = (vt_alarm s \<noteq> None)"

definition os_legal :: "clock \<Rightarrow> oevent \<Rightarrow> os \<Rightarrow> bool" where
  "os_legal clk e s \<longleftrightarrow> (e = OReturn \<longleftrightarrow> os_timed s (chThdGetSelfX s)) \<and> os_allowed clk e s"

text \<open>
  The environment: between two readings in one operation the clock advances by at most one tick, there
  are fewer than a million timers, and while timers are armed they are served at least every five
  hours (0x70000000 ticks) and the clock is read at least every six (\<open>2\<^sup>3\<^sup>1\<close> ticks).
\<close>

definition punctual :: "(nat \<Rightarrow> nat) \<Rightarrow> os \<Rightarrow> bool" where
  "punctual T s \<longleftrightarrow> (let n = vt_reads s in
     (\<forall>k \<le> length (vt_dlist s) + 2. T (n + k + 1) < T (n + k) + 2) \<and> length (vt_dlist s) < 1000000 \<and>
     (vt_dlist s \<noteq> [] \<longrightarrow> chTimeDiffX (vt_lasttime s) (of_nat (T n)) < 0x70000000 \<and> T n < T (n - 1) + 2147483648))"

inductive os_reach :: "(nat \<Rightarrow> nat) \<Rightarrow> os \<Rightarrow> bool" for T where
  Boot: "mainthread \<noteq> idle \<Longrightarrow> os_init (clock_of T) mainthread idle = Some s \<Longrightarrow> os_reach T s"
| Step: "os_reach T s \<Longrightarrow> punctual T s \<Longrightarrow> os_legal (clock_of T) e s \<Longrightarrow> ostep (clock_of T) e s = Some s' \<Longrightarrow> os_reach T s'"

section \<open>The invariant\<close>

text \<open>
  The timers are those of the ideal clock; only threads inside \<open>chSchGoSleepTimeoutS\<close> have one, and
  such a thread has one unless it can run; a reference points to the thread suspended on it.
\<close>

definition clock_ok :: "(nat \<Rightarrow> nat) \<Rightarrow> nat \<Rightarrow> 'a vtl_scheme \<Rightarrow> (nat \<times> nat) list \<Rightarrow> bool" where
  "clock_ok T L s ds \<longleftrightarrow> vt_rel T L s ds \<and> 0 < vt_reads s \<and> L \<le> T (vt_reads s - 1) \<and>
     (ds \<noteq> [] \<longrightarrow> T (vt_reads s - 1) < L + 2147483648)"

definition in_wait :: "tstate \<Rightarrow> bool" where
  "in_wait x \<longleftrightarrow> x = TSleeping \<or> suspended x"

definition timed_ok :: "(tid \<Rightarrow> bool) \<Rightarrow> (tid \<Rightarrow> tstate) \<Rightarrow> tid set \<Rightarrow> bool" where
  "timed_ok timed st A \<longleftrightarrow> (\<forall>t \<in> A. timed t) \<and> (\<forall>t. timed t \<longrightarrow> st t = TReady \<or> st t = TCurrent \<or> in_wait (st t) \<and> t \<in> A)"

definition refs_ok :: "(nat \<Rightarrow> tid option) \<Rightarrow> (tid \<Rightarrow> tstate) \<Rightarrow> bool" where
  "refs_ok ref st \<longleftrightarrow> (\<forall>r t. ref r = Some t \<longleftrightarrow> st t = TSuspended r)"

definition sleep_inv :: "(nat \<Rightarrow> nat) \<Rightarrow> nat \<Rightarrow> os \<Rightarrow> (nat \<times> nat) list \<Rightarrow> bool" where
  "sleep_inv T L s ds \<longleftrightarrow> clock_ok T L s ds \<and> kernel_ok (os_k s) \<and> first_runs (os_k s) \<and>
     timed_ok (os_timed s) (tstate_of (os_k s)) (fst ` set ds) \<and> refs_ok (os_ref s) (tstate_of (os_k s))"

lemma os_fields [simp]:
  "os_k (set_rdymsg t m s) = os_k s" "os_timed (set_rdymsg t m s) = os_timed s" "os_ref (set_rdymsg t m s) = os_ref s"
  "vtl.truncate (set_rdymsg t m s) = vtl.truncate s" "os_rdymsg (set_rdymsg t m s) = (os_rdymsg s)(t := m)"
  "os_k (set_ref r x s) = os_k s" "os_timed (set_ref r x s) = os_timed s" "os_ref (set_ref r x s) = (os_ref s)(r := x)"
  "vtl.truncate (set_ref r x s) = vtl.truncate s" "os_rdymsg (set_ref r x s) = os_rdymsg s"
  by (simp_all add: set_rdymsg_def set_ref_def vtl.defs)

lemma truncate_os [simp]:
  "vtl.truncate (s\<lparr>os_k := k\<rparr>) = vtl.truncate s" "vtl.truncate (s\<lparr>os_timed := f\<rparr>) = vtl.truncate s"
  by (simp_all add: vtl.defs)

lemma more_os: "vtl.more (s' :: os) = vtl.more s \<Longrightarrow> os_k s' = os_k s \<and> os_rdymsg s' = os_rdymsg s \<and> os_timed s' = os_timed s \<and> os_ref s' = os_ref s"
  by (cases s; cases s') simp

text \<open>The timers look only at the timers.\<close>

lemma clock_ok_truncate:
  assumes "vtl.truncate s' = vtl.truncate s"
  shows "clock_ok T L s' ds = clock_ok T L s ds"
  unfolding clock_ok_def vt_rel_def alarm_ok_def truncate_fields [OF assms] ..

lemma punctual_bound:
  assumes c: "clock_ok T L s ds" and p: "punctual T s" and mono: "\<And>k. T k \<le> T (k + 1)" and n: "n = vt_reads s"
  shows "L \<le> T n" "k \<le> length ds + 2 \<Longrightarrow> T (n + k + 1) < T (n + k) + 2" "ds \<noteq> [] \<Longrightarrow> k \<le> length ds + 3 \<Longrightarrow> T (n + k) < L + 1890000000"
proof -
  have r: "vt_rel T L s ds" using c by (simp add: clock_ok_def)
  have len: "length (vt_dlist s) = length ds" using vt_relD(2) [OF r] by (metis fst_offs length_map)
  have e: "vt_dlist s = [] \<longleftrightarrow> ds = []" using len by (metis length_0_conv)
  have q: "T (n + k + 1) < T (n + k) + 2" if "k \<le> length ds + 2" for k using p that len n by (simp add: punctual_def Let_def)
  show "T (n + k + 1) < T (n + k) + 2" if "k \<le> length ds + 2" by (rule q [OF that])
  have "T (n - 1) \<le> T n" using mono [of "n - 1"] c n by (simp add: clock_ok_def)
  then show L: "L \<le> T n" using c n by (simp add: clock_ok_def)
  have up: "T (n + k) \<le> T n + k" if "k \<le> length ds + 3" for k using that
  proof (induction k)
    case (Suc k)
    then show ?case using q [of k] by simp
  qed simp
  show "T (n + k) < L + 1890000000" if ne: "ds \<noteq> []" and k: "k \<le> length ds + 3"
  proof -
    have b: "chTimeDiffX (of_nat L) (of_nat (T n)) < 0x70000000" "T n < T (n - 1) + 2147483648" "length ds < 1000000"
      using p ne e len n vt_relD(1) [OF r] by (simp_all add: punctual_def Let_def)
    have "T n < L + 4294967296" using b(2) c ne n by (simp add: clock_ok_def)
    then have "T n - L < 0x70000000" using b(1) diff_true [OF L] L by (simp add: word_less_nat_alt)
    then show ?thesis using up [OF k] k b(3) L by simp
  qed
qed

lemma clock_ok_read:
  assumes c: "clock_ok T L s ds" and t: "L \<le> T (vt_reads s)" and b: "ds \<noteq> [] \<Longrightarrow> T (vt_reads s) < L + 2147483648"
  shows "clock_ok T L (s\<lparr>vt_reads := vt_reads s + 1\<rparr>) ds"
proof -
  have al: "alarm_ok T s ds" using c vt_relD(6) unfolding clock_ok_def by blast
  have "alarm_ok T (s\<lparr>vt_reads := vt_reads s + 1\<rparr>) ds"
  proof (cases "ds = []")
    case True
    then show ?thesis using al by (simp add: alarm_ok_def)
  next
    case False
    show ?thesis by (rule alarm_ok_hd [OF al]) (use False in simp_all)
  qed
  then have "vt_rel T L (s\<lparr>vt_reads := vt_reads s + 1\<rparr>) ds" using c unfolding clock_ok_def vt_rel_def by (elim conjE, intro conjI) simp_all
  then show ?thesis using t b by (simp add: clock_ok_def)
qed

lemma set_clock_ok:
  assumes c: "clock_ok T L s ds" and n: "n = vt_reads s" and t: "L \<le> T n" and mono: "\<And>k. T k \<le> T (k + 1)" and q: "T (n + 1) < T n + 2"
    and b: "ds \<noteq> [] \<Longrightarrow> T (n + 1) < L + 1890000000" and i: "i \<notin> fst ` set ds" and d: "0 < delay" "delay < 0x40000000"
  shows "\<exists>L' s'. chVTDoSetI (clock_of T) i delay s = Some s' \<and> vtl.more s' = vtl.more s \<and> clock_ok T L' s' (insert_dl i (T n + unat delay) ds)"
proof -
  have d': "delay \<noteq> 0" "unat delay < 1073741824" using d by (auto simp: word_less_nat_alt)
  have f: "ds \<noteq> [] \<longrightarrow> T n + unat delay < L + 4294967296" using b d'(2) mono [of n] by fastforce
  obtain s' where s': "chVTDoSetI (clock_of T) i delay s = Some s'" "n < vt_reads s'" "vt_reads s' \<le> n + 2" "vtl.more s' = vtl.more s"
    "vt_rel T (if ds = [] then T n else L) s' (insert_dl i (T n + unat delay) ds)"
    using chVTDoSetI_ok [where T = T, OF _ n t mono q i d'(1) f] c unfolding clock_ok_def by auto
  have "vt_reads s' = n + 1 \<or> vt_reads s' = n + 2" using s'(2,3) by auto
  then have "T n \<le> T (vt_reads s' - 1)" "T (vt_reads s' - 1) \<le> T (n + 1)" using mono [of n] by auto
  moreover have "ds = [] \<or> T (n + 1) < L + 1890000000" using b by blast
  ultimately have "clock_ok T (if ds = [] then T n else L) s' (insert_dl i (T n + unat delay) ds)"
    using s'(2,5) t q by (auto simp: clock_ok_def)
  then show ?thesis using s'(1,4) by blast
qed

lemma reset_clock_ok:
  assumes c: "clock_ok T L s ds" and p: "punctual T s" and mono: "\<And>k. T k \<le> T (k + 1)"
  shows "\<exists>s'. chVTResetI (clock_of T) i s = Some s' \<and> vtl.more s' = vtl.more s \<and> clock_ok T L s' (filter (\<lambda>x. fst x \<noteq> i) ds)"
proof (cases "chVTIsArmedI i s")
  case True
  define n where n: "n = vt_reads s"
  have r: "vt_rel T L s ds" using c by (simp add: clock_ok_def)
  have i: "i \<in> fst ` set ds" using True vt_relD(2) [OF r] by (metis chVTIsArmedI_def fst_set_offs)
  then have ne: "ds \<noteq> []" by auto
  note b = punctual_bound [where T = T, OF c p mono n]
  have t: "T n < L + 1890000000" "T (n + 1) < L + 1890000000" "T (n + 1) < T n + 2" using b(3) [OF ne, of 0] b(3) [OF ne, of 1] b(2) [of 0] by simp_all
  obtain s' where s': "chVTDoResetI (clock_of T) i s = Some s'" "n \<le> vt_reads s'" "vt_reads s' \<le> n + 2" "vtl.more s' = vtl.more s"
    "vt_rel T L s' (filter (\<lambda>x. fst x \<noteq> i) ds)"
    using chVTDoResetI_ok [where T = T, OF r n b(1) _ mono t(3) i] t(1) by auto
  have "vt_reads s' = n \<or> vt_reads s' = n + 1 \<or> vt_reads s' = n + 2" using s'(2,3) by auto
  moreover have "0 < n" "L \<le> T (n - 1)" "T (n - 1) \<le> T n" "T n \<le> T (n + 1)" using c n mono [of n] mono [of "n - 1"] by (auto simp: clock_ok_def)
  ultimately have "0 < vt_reads s'" "L \<le> T (vt_reads s' - 1)" "T (vt_reads s' - 1) \<le> T (n + 1)" by auto
  then have "clock_ok T L s' (filter (\<lambda>x. fst x \<noteq> i) ds)" using s'(5) t(2) by (simp add: clock_ok_def)
  then show ?thesis using s'(1,4) True by (auto simp: chVTResetI_def)
next
  case False
  have "vt_rel T L s ds" using c by (simp add: clock_ok_def)
  then have "i \<notin> fst ` set ds" using False vt_relD(2) by (metis chVTIsArmedI_def fst_set_offs)
  then have "filter (\<lambda>x. fst x \<noteq> i) ds = ds" by (intro filter_True) (metis image_eqI)
  then show ?thesis using False c by (simp add: chVTResetI_def)
qed

section \<open>Every step keeps the invariant\<close>

lemma timed_okD: "timed_ok timed st A \<Longrightarrow> t \<in> A \<Longrightarrow> timed t"
  by (simp add: timed_ok_def)

text \<open>A step of the kernel changes no timer and no reference.\<close>

lemma calm_timers:
  assumes "calm c k k'" and "timed_ok timed (tstate_of k) A" and "\<not> timed c"
  shows "timed_ok timed (tstate_of k') A"
proof -
  have "tstate_of k' t = TReady \<or> tstate_of k' t = TCurrent \<or> in_wait (tstate_of k' t) \<and> t \<in> A" if t: "timed t" for t
  proof -
    have "t \<noteq> c" using t assms(3) by auto
    moreover have "tstate_of k t = TReady \<or> tstate_of k t = TCurrent \<or> in_wait (tstate_of k t) \<and> t \<in> A"
      using assms(2) t by (simp add: timed_ok_def)
    ultimately show ?thesis using assms(1) by (auto simp: calm_def in_wait_def)
  qed
  then show ?thesis using assms(2) by (simp add: timed_ok_def)
qed

lemma calm_refs:
  assumes "calm c k k'" and "refs_ok ref (tstate_of k)" and "tstate_of k c = TCurrent"
  shows "refs_ok ref (tstate_of k')"
proof -
  have "tstate_of k' t = TSuspended r \<longleftrightarrow> tstate_of k t = TSuspended r" for t r
    using assms(1,3) by (cases "t = c") (auto simp: calm_def)
  then show ?thesis using assms(2) by (simp add: refs_ok_def)
qed

lemma calm_ok:
  assumes o: "sleep_inv T L s ds" and c: "calm (chThdGetSelfX s) (os_k s) k'" and u: "\<not> os_timed s (chThdGetSelfX s)" and k: "kernel_ok k'" "first_runs k'"
    and s': "vtl.truncate s' = vtl.truncate s" "os_k s' = k'" "os_timed s' = os_timed s" "os_ref s' = os_ref s"
  shows "sleep_inv T L s' ds"
proof -
  have "tstate_of (os_k s) (chThdGetSelfX s) = TCurrent" using o sched_okD(1) [of "os_k s"] by (simp add: sleep_inv_def kernel_ok_def chThdGetSelfX_def)
  then have "refs_ok (os_ref s) (tstate_of k')" using calm_refs [OF c] o by (simp add: sleep_inv_def)
  moreover have "timed_ok (os_timed s) (tstate_of k') (fst ` set ds)" using calm_timers [where timed = "os_timed s", OF c _ u] o by (simp add: sleep_inv_def)
  ultimately show ?thesis using o k clock_ok_truncate [OF s'(1), of T L ds] s'(2-4) by (simp add: sleep_inv_def)
qed

text \<open>Going to sleep. The reference of a thread that suspends has been set before.\<close>

lemma sleep_state_ok:
  assumes t: "timed_ok timed st A" and c: "st c = TCurrent" and n: "st ntp = TReady" and w: "in_wait x" and A': "A' = (if to then insert c A else A)"
    and u: "\<not> timed c"
  shows "timed_ok (timed(c := to)) (st(c := x, ntp := TCurrent)) A'"
  using assms by (auto simp: timed_ok_def)

lemma sleep_refs_ok:
  assumes "refs_ok ref st" and "st c = TCurrent" and "st ntp = TReady" and "\<not> suspended x \<and> ref' = ref \<or> (\<exists>r. x = TSuspended r \<and> ref r = None \<and> ref' = ref(r := Some c))"
  shows "refs_ok ref' (st(c := x, ntp := TCurrent))"
proof -
  have e: "ref r = Some t \<longleftrightarrow> st t = TSuspended r" for r t using assms(1) by (simp add: refs_ok_def)
  have "st t \<noteq> TSuspended r" if "ref r = None" for r t using e [of r t] that by simp
  then show ?thesis using assms(2,3,4) e by (auto simp: refs_ok_def split: if_splits)
qed

lemma gosleep_timeout_ok:
  assumes o: "sleep_inv T L s ds" and p: "punctual T s" and mono: "\<And>k. T k \<le> T (k + 1)" and u: "\<not> os_timed s (chThdGetSelfX s)" and m: "may_sleep d s"
    and x: "in_wait x" and s1: "s1 = set_ref r (Some (chThdGetSelfX s)) s \<and> x = TSuspended r \<and> os_ref s r = None \<or> s1 = s \<and> \<not> suspended x \<or> s1 = s\<lparr>vt_reads := vt_reads s + 1\<rparr> \<and> \<not> suspended x"
  shows "\<exists>s' L' ds'. chSchGoSleepTimeoutS (clock_of T) x d s1 = Some s' \<and> sleep_inv T L' s' ds' \<and>
    ds' = (if d = TIME_INFINITE then ds else insert_dl (chThdGetSelfX s) (T (vt_reads s1) + unat d) ds) \<and> tstate_of (os_k s') (chThdGetSelfX s) = x \<and>
    os_timed s' = (os_timed s)(chThdGetSelfX s := d \<noteq> TIME_INFINITE)"
proof -
  let ?c = "chThdGetSelfX s" and ?n = "vt_reads s1"
  have ok: "clock_ok T L s ds" "kernel_ok (os_k s)" "timed_ok (os_timed s) (tstate_of (os_k s)) (fst ` set ds)" "refs_ok (os_ref s) (tstate_of (os_k s))"
    using o by (simp_all add: sleep_inv_def)
  have curr: "tstate_of (os_k s) ?c = TCurrent" using ok(2) sched_okD(1) [of "os_k s"] by (simp add: kernel_ok_def chThdGetSelfX_def)
  note b = punctual_bound [where T = T, OF ok(1) p mono refl]
  have n: "?n = vt_reads s \<or> ?n = vt_reads s + 1" using s1 by (auto simp: set_ref_def)
  have ext: "os_k s1 = os_k s" "os_timed s1 = os_timed s" "chThdGetSelfX s1 = ?c" using s1 by (auto simp: chThdGetSelfX_def)
  have "clock_ok T L (s\<lparr>vt_reads := vt_reads s + 1\<rparr>) ds" by (rule clock_ok_read [OF ok(1) b(1)]) (use b(3) [of 0] in simp)
  then have c1: "clock_ok T L s1 ds" using s1 ok(1) clock_ok_truncate [of s1 s T L ds] by auto
  have t: "L \<le> T ?n" "T (?n + 1) < T ?n + 2" "ds \<noteq> [] \<Longrightarrow> T (?n + 1) < L + 1890000000"
    using n b(1) b(2) [of 0] b(2) [of 1] b(3) [of 1] b(3) [of 2] mono [of "vt_reads s"] by (auto intro: le_trans)
  have arm: "?c \<notin> fst ` set ds" using timed_okD [OF ok(3)] u by blast
  obtain k' ntp where k': "chSchGoSleepS x (os_k s) = Some k'" "kernel_ok k'" "first_runs k'" "tstate_of (os_k s) ntp = TReady"
    "tstate_of k' = (tstate_of (os_k s))(?c := x, ntp := TCurrent)"
    using gosleep_ok [OF ok(2), of x] m x by (auto simp: may_sleep_def chThdGetSelfX_def asleep_def in_wait_def)
  have "ntp \<noteq> ?c" using curr k'(4) by auto
  then have st: "tstate_of k' ?c = x" using k'(5) by simp
  have refs: "refs_ok (os_ref s1) (tstate_of k')"
    unfolding k'(5) by (rule sleep_refs_ok [OF ok(4) curr k'(4)]) (use s1 in auto)
  show ?thesis
  proof (cases "d = TIME_INFINITE")
    case True
    have "(os_timed s)(?c := False) = os_timed s" using u by (simp add: fun_eq_iff)
    then have "timed_ok (os_timed s) (tstate_of k') (fst ` set ds)"
      using sleep_state_ok [OF ok(3) curr k'(4) x refl u, of False] k'(5) by simp
    then have "sleep_inv T L (s1\<lparr>os_k := k'\<rparr>) ds" using c1 k'(2,3) refs ext clock_ok_truncate [of "s1\<lparr>os_k := k'\<rparr>" s1] by (simp add: sleep_inv_def)
    then show ?thesis using True k'(1) st ext u by (intro exI [of _ "s1\<lparr>os_k := k'\<rparr>"] exI [of _ L] exI [of _ ds]) (simp add: chSchGoSleepTimeoutS_def on_kernel_def fun_upd_idem)
  next
    case False
    then have d: "0 < d" "d < 0x40000000" using m by (simp_all add: may_sleep_def)
    let ?ds = "insert_dl ?c (T ?n + unat d) ds"
    obtain L' s2 where s2: "chVTDoSetI (clock_of T) ?c d s1 = Some s2" "vtl.more s2 = vtl.more s1" "clock_ok T L' s2 ?ds"
      using set_clock_ok [where T = T, OF c1 refl t(1) mono t(2,3) arm d] by auto
    note e2 = more_os [OF s2(2)]
    let ?s = "s2\<lparr>os_k := k', os_timed := (os_timed s)(?c := True)\<rparr>"
    have "timed_ok ((os_timed s)(?c := True)) (tstate_of k') (fst ` set ?ds)"
      using sleep_state_ok [OF ok(3) curr k'(4) x refl u, of True] k'(5) by (simp add: insert_dl_fields(1))
    then have "sleep_inv T L' ?s ?ds" using s2(3) k'(2,3) refs e2 clock_ok_truncate [of ?s s2] by (simp add: sleep_inv_def)
    then show ?thesis using False s2(1) k'(1) st e2 ext
      by (intro exI [of _ ?s] exI [of _ L'] exI [of _ ?ds]) (simp add: chSchGoSleepTimeoutS_def on_kernel_def)
  qed
qed

text \<open>The timer interrupt calls \<open>__sch_wakeup\<close> for one thread after the other.\<close>

definition woken_by :: "tid set \<Rightarrow> os \<Rightarrow> os \<Rightarrow> bool" where
  "woken_by W s0 s \<longleftrightarrow> kernel_ok (os_k s) \<and> k_curr (os_k s) = k_curr (os_k s0) \<and> os_timed s = os_timed s0 \<and>
     (\<forall>t. tstate_of (os_k s) t = (if t \<in> W \<and> in_wait (tstate_of (os_k s0) t) then TReady else tstate_of (os_k s0) t)) \<and>
     (\<forall>t. os_rdymsg s t = (if t \<in> W \<and> in_wait (tstate_of (os_k s0) t) then MSG_TIMEOUT else os_rdymsg s0 t)) \<and>
     (\<forall>r. os_ref s r = (case os_ref s0 r of None \<Rightarrow> None | Some t \<Rightarrow> if t \<in> W then None else Some t))"

lemma in_wait_asleep: "in_wait x \<Longrightarrow> asleep x"
  by (auto simp: in_wait_def asleep_def)

lemma sch_wakeup_ok:
  assumes w: "woken_by W s0 s" and i: "in_wait (tstate_of (os_k s0) i)" "i \<notin> W" and r: "refs_ok (os_ref s0) (tstate_of (os_k s0))"
  shows "\<exists>s'. sch_wakeup i s = Some s' \<and> vtl.truncate s' = vtl.truncate s \<and> woken_by (insert i W) s0 s'"
proof -
  have st: "tstate_of (os_k s) i = tstate_of (os_k s0) i" using w i(2) by (simp add: woken_by_def)
  obtain k' where k': "sch_ready_behind i (os_k s) = Some k'" "kernel_ok k'" "k_curr k' = k_curr (os_k s)"
    "tstate_of k' = (tstate_of (os_k s))(i := TReady)"
    using ready_behind_ok [of "os_k s" i] w in_wait_asleep [OF i(1)] st by (auto simp: woken_by_def)
  have e: "os_ref s0 q = Some t \<longleftrightarrow> tstate_of (os_k s0) t = TSuspended q" for q t using r by (simp add: refs_ok_def)
  have wr: "os_ref s r = (case os_ref s0 r of None \<Rightarrow> None | Some t \<Rightarrow> if t \<in> W then None else Some t)" for r using w by (simp add: woken_by_def)
  show ?thesis
  proof (cases "\<exists>q. tstate_of (os_k s0) i = TSuspended q")
    case True
    then obtain q where TSuspended: "tstate_of (os_k s0) i = TSuspended q" by blast
    let ?s = "(set_rdymsg i MSG_TIMEOUT (set_ref q None s))\<lparr>os_k := k'\<rparr>"
    have "os_ref ?s r = (case os_ref s0 r of None \<Rightarrow> None | Some t \<Rightarrow> if t \<in> insert i W then None else Some t)" for r
    proof (cases "r = q")
      case True
      then show ?thesis using e [of q i] TSuspended by simp
    next
      case False
      then have "os_ref s0 r \<noteq> Some i" using e [of r i] TSuspended by simp
      then show ?thesis using False wr [of r] by (cases "os_ref s0 r") auto
    qed
    then have "woken_by (insert i W) s0 ?s" using w k' i TSuspended by (auto simp: woken_by_def)
    moreover have "sch_wakeup i s = Some ?s" using TSuspended st k'(1) by (simp add: sch_wakeup_def on_kernel_def)
    ultimately show ?thesis by (intro exI [of _ ?s]) simp
  next
    case False
    let ?s = "(set_rdymsg i MSG_TIMEOUT s)\<lparr>os_k := k'\<rparr>"
    have "os_ref ?s r = (case os_ref s0 r of None \<Rightarrow> None | Some t \<Rightarrow> if t \<in> insert i W then None else Some t)" for r
      using wr [of r] e [of r i] False by (cases "os_ref s0 r") auto
    then have "woken_by (insert i W) s0 ?s" using w k' i by (auto simp: woken_by_def)
    moreover have "sch_wakeup i s = Some ?s" using False st k'(1) i(1) by (cases "tstate_of (os_k s0) i") (auto simp: sch_wakeup_def on_kernel_def in_wait_def)
    ultimately show ?thesis by (intro exI [of _ ?s]) simp
  qed
qed

definition wake_ready :: "tid set \<Rightarrow> os \<Rightarrow> tid list \<Rightarrow> os \<Rightarrow> bool" where
  "wake_ready A s0 is s \<longleftrightarrow> distinct is \<and> set is \<subseteq> A \<and> (\<forall>t \<in> A. tstate_of (os_k s0) t = TReady \<or> in_wait (tstate_of (os_k s0) t)) \<and>
     refs_ok (os_ref s0) (tstate_of (os_k s0)) \<and> woken_by (A - set is) s0 s"

interpretation wake: timer_functions sch_wakeup "wake_ready A s0" for A s0
proof
  fix i "is" s
  assume w: "wake_ready A s0 (i # is) s"
  then have i: "i \<in> A" "i \<notin> set is" "A - set is = insert i (A - set (i # is))" by (auto simp: wake_ready_def)
  have wb: "woken_by (A - set (i # is)) s0 s" using w by (simp add: wake_ready_def)
  have "\<exists>s'. sch_wakeup i s = Some s' \<and> vtl.truncate s' = vtl.truncate s \<and> woken_by (A - set is) s0 s'"
  proof (cases "in_wait (tstate_of (os_k s0) i)")
    case True
    then show ?thesis unfolding i(3) using sch_wakeup_ok [OF wb] w by (auto simp: wake_ready_def)
  next
    case False
    then have rd: "tstate_of (os_k s0) i = TReady" using w i(1) by (auto simp: wake_ready_def)
    then have "os_ref s0 r \<noteq> Some i" for r using w by (simp add: wake_ready_def refs_ok_def)
    then have "(case os_ref s0 r of None \<Rightarrow> None | Some t \<Rightarrow> if t \<in> insert i (A - set (i # is)) then None else Some t) =
        (case os_ref s0 r of None \<Rightarrow> None | Some t \<Rightarrow> if t \<in> A - set (i # is) then None else Some t)" for r
      by (cases "os_ref s0 r") auto
    moreover have "t \<in> insert i (A - set (i # is)) \<and> in_wait (tstate_of (os_k s0) t) \<longleftrightarrow> t \<in> A - set (i # is) \<and> in_wait (tstate_of (os_k s0) t)" for t
      using rd by (auto simp: in_wait_def)
    ultimately have "woken_by (A - set is) s0 s" using wb unfolding i(3) woken_by_def by presburger
    moreover have "tstate_of (os_k s) i = TReady" using wb rd by (simp add: woken_by_def in_wait_def)
    ultimately show ?thesis by (simp add: sch_wakeup_def)
  qed
  then show "\<exists>s'. sch_wakeup i s = Some s' \<and> vtl.truncate s' = vtl.truncate s \<and> wake_ready A s0 is s'" using w by (auto simp: wake_ready_def)
next
  fix s' s :: os and "is"
  assume "vtl.more s' = vtl.more s"
  then show "wake_ready A s0 is s' = wake_ready A s0 is s" using more_os [of s' s] by (simp add: wake_ready_def woken_by_def)
qed

text \<open>Some threads become able to run, and references to them are cleared.\<close>

lemma run_timers:
  assumes "runnable k' = B \<union> runnable k" and "\<forall>u. u \<notin> B \<union> runnable k \<longrightarrow> tstate_of k' u = tstate_of k u" and "timed_ok timed (tstate_of k) A"
    and "A' \<subseteq> A" and "A - A' \<subseteq> B \<union> runnable k"
  shows "timed_ok timed (tstate_of k') A'"
proof -
  have "tstate_of k' t = TReady \<or> tstate_of k' t = TCurrent \<or> in_wait (tstate_of k' t) \<and> t \<in> A'" if t: "timed t" for t
  proof (cases "t \<in> B \<union> runnable k")
    case True
    then have "t \<in> runnable k'" using assms(1) by simp
    then show ?thesis by (auto simp: runnable_def)
  next
    case False
    then have "in_wait (tstate_of k t)" "t \<in> A" using assms(3) t by (auto simp: timed_ok_def runnable_def)
    then show ?thesis using False assms(2,5) by auto
  qed
  then show ?thesis using assms(3,4) by (auto simp: timed_ok_def)
qed

lemma run_refs:
  assumes "runnable k' = B \<union> runnable k" and "\<forall>u. u \<notin> B \<union> runnable k \<longrightarrow> tstate_of k' u = tstate_of k u" and "refs_ok ref (tstate_of k)"
    and "\<And>r u. ref' r = Some u \<longleftrightarrow> u \<notin> B \<and> ref r = Some u"
  shows "refs_ok ref' (tstate_of k')"
proof -
  have "tstate_of k' t = TSuspended r \<longleftrightarrow> t \<notin> B \<and> tstate_of k t = TSuspended r" for t r
  proof (cases "t \<in> B \<union> runnable k")
    case True
    then have "t \<in> runnable k'" using assms(1) by simp
    then show ?thesis using True by (auto simp: runnable_def)
  qed (use assms(2) in simp)
  then show ?thesis using assms(3,4) by (simp add: refs_ok_def)
qed

text \<open>The end of an interrupt.\<close>

lemma epilogue_ok:
  assumes "kernel_ok (os_k s)" and c: "clock_ok T L s ds" and t: "timed_ok (os_timed s) (tstate_of (os_k s)) (fst ` set ds)" and r: "refs_ok (os_ref s) (tstate_of (os_k s))"
  shows "\<exists>k'. on_kernel isr_epilogue s = Some (s\<lparr>os_k := k'\<rparr>) \<and> sleep_inv T L (s\<lparr>os_k := k'\<rparr>) ds \<and> runnable k' = runnable (os_k s) \<and>
    (\<forall>u. u \<notin> runnable (os_k s) \<longrightarrow> tstate_of k' u = tstate_of (os_k s) u)"
proof -
  obtain k' where k': "chSchRescheduleS (os_k s) = Some k'" "kernel_ok k'" "first_runs k'" "runnable k' = runnable (os_k s)"
    "\<forall>u. u \<notin> runnable (os_k s) \<longrightarrow> tstate_of k' u = tstate_of (os_k s) u" using reschedule_ok [OF assms(1)] by blast
  have "timed_ok (os_timed s) (tstate_of k') (fst ` set ds)" by (rule run_timers [where B = "{}", OF _ _ t]) (use k'(4,5) in simp_all)
  moreover have "refs_ok (os_ref s) (tstate_of k')" by (rule run_refs [where B = "{}", OF _ _ r]) (use k'(4,5) in simp_all)
  moreover have "clock_ok T L (s\<lparr>os_k := k'\<rparr>) ds" using c clock_ok_truncate [of "s\<lparr>os_k := k'\<rparr>" s] by simp
  ultimately show ?thesis using k' by (intro exI [of _ k']) (simp add: on_kernel_def isr_epilogue_reschedule sleep_inv_def)
qed

lemma woken_runnable:
  assumes w: "woken_by W s0 s" and r: "refs_ok (os_ref s0) (tstate_of (os_k s0))"
  shows "runnable (os_k s) = {t \<in> W. in_wait (tstate_of (os_k s0) t)} \<union> runnable (os_k s0)"
    "\<forall>u. u \<notin> {t \<in> W. in_wait (tstate_of (os_k s0) t)} \<union> runnable (os_k s0) \<longrightarrow> tstate_of (os_k s) u = tstate_of (os_k s0) u"
    "os_ref s q = Some u \<longleftrightarrow> u \<notin> {t \<in> W. in_wait (tstate_of (os_k s0) t)} \<and> os_ref s0 q = Some u"
proof -
  have st: "tstate_of (os_k s) t = (if t \<in> W \<and> in_wait (tstate_of (os_k s0) t) then TReady else tstate_of (os_k s0) t)" for t
    using w by (simp add: woken_by_def)
  show "runnable (os_k s) = {t \<in> W. in_wait (tstate_of (os_k s0) t)} \<union> runnable (os_k s0)" unfolding runnable_def st by auto
  show "\<forall>u. u \<notin> {t \<in> W. in_wait (tstate_of (os_k s0) t)} \<union> runnable (os_k s0) \<longrightarrow> tstate_of (os_k s) u = tstate_of (os_k s0) u" unfolding st by auto
  have "os_ref s q = (case os_ref s0 q of None \<Rightarrow> None | Some t \<Rightarrow> if t \<in> W then None else Some t)" using w by (simp add: woken_by_def)
  moreover have "in_wait (tstate_of (os_k s0) t)" if "os_ref s0 q = Some t" for t using r that by (simp add: refs_ok_def in_wait_def)
  ultimately show "os_ref s q = Some u \<longleftrightarrow> u \<notin> {t \<in> W. in_wait (tstate_of (os_k s0) t)} \<and> os_ref s0 q = Some u" by (cases "os_ref s0 q") auto
qed

lemma drop_minus:
  assumes "distinct (map fst ds)"
  shows "fst ` set ds - fst ` set (drop m ds) = fst ` set (take m ds)"
proof -
  have "set (map fst (take m ds)) \<inter> set (map fst (drop m ds)) = {}" "fst ` set ds = fst ` set (take m ds) \<union> fst ` set (drop m ds)"
    using assms by (metis append_take_drop_id distinct_append map_append, metis append_take_drop_id image_Un set_append)
  then show ?thesis by auto
qed

lemma tick_ok:
  assumes o: "sleep_inv T L s ds" and p: "punctual T s" and mono: "\<And>k. T k \<le> T (k + 1)" and u: "\<not> os_timed s (chThdGetSelfX s)" and ne: "ds \<noteq> []"
    and n: "n = vt_reads s"
  shows "\<exists>m L' s'. m \<le> length ds \<and> ostep (clock_of T) OTick s = Some s' \<and> sleep_inv T L' s' (drop m ds) \<and>
    (\<forall>k < m. snd (ds ! k) \<le> T (n + k)) \<and> (\<forall>x \<in> set (drop m ds). T (n + m) < snd x) \<and>
    (\<forall>t \<in> fst ` set (take m ds). t \<in> runnable (os_k s') \<and> (in_wait (tstate_of (os_k s) t) \<longrightarrow> os_rdymsg s' t = MSG_TIMEOUT)) \<and>
    (\<forall>t. t \<notin> fst ` set (take m ds) \<and> t \<notin> runnable (os_k s) \<longrightarrow> tstate_of (os_k s') t = tstate_of (os_k s) t)"
proof -
  let ?A = "fst ` set ds"
  have ok: "clock_ok T L s ds" "kernel_ok (os_k s)" "timed_ok (os_timed s) (tstate_of (os_k s)) ?A" "refs_ok (os_ref s) (tstate_of (os_k s))"
    using o by (simp_all add: sleep_inv_def)
  have r: "vt_rel T L s ds" using ok(1) by (simp add: clock_ok_def)
  note b = punctual_bound [where T = T, OF ok(1) p mono n]
  have curr: "tstate_of (os_k s) t = TCurrent \<longleftrightarrow> t = chThdGetSelfX s" for t using ok(2) sched_okD(2) by (simp add: kernel_ok_def chThdGetSelfX_def)
  have A: "tstate_of (os_k s) t = TReady \<or> in_wait (tstate_of (os_k s) t)" if "t \<in> ?A" for t
    using that ok(3) u curr [of t] by (auto simp: timed_ok_def)
  have d: "distinct (map fst ds)" by (rule vt_relD(3) [OF r])
  have "woken_by (?A - set (map fst ds)) s s" using ok(2) by (simp add: woken_by_def split: option.split)
  then have rd: "wake_ready ?A s (map fst ds) s" using d A ok(4) by (simp add: wake_ready_def)
  have lt: "T (n + length ds) < L + 2147483648" using b(3) [OF ne, of "length ds"] by simp
  have q: "T (k + 1) < T k + 2" if "n \<le> k" "k \<le> n + length ds" for k using b(2) [of "k - n"] that by simp
  obtain m L' s1 where m: "m \<le> length ds" "chVTDoTickI (clock_of T) sch_wakeup s = Some s1" "wake_ready ?A s (map fst (drop m ds)) s1"
    "\<forall>k < m. snd (ds ! k) \<le> T (n + k)" "\<forall>x \<in> set (drop m ds). T (n + m) < snd x" "n + m < vt_reads s1" "L' \<le> T (n + m)"
    "vt_rel T L' s1 (drop m ds)" "vt_reads s1 \<le> n + m + 2" "drop m ds \<noteq> [] \<longrightarrow> L' = T (n + m)"
    using wake.chVTDoTickI_ok [where T = T, OF r n b(1) lt mono q rd] by blast
  let ?W = "fst ` set (take m ds)"
  let ?B = "{t \<in> ?W. in_wait (tstate_of (os_k s) t)}"
  have wb: "woken_by ?W s s1" using m(3) drop_minus [OF d] by (simp add: wake_ready_def)
  note wr = woken_runnable [OF wb ok(4)]
  have "vt_reads s1 = n + m + 1 \<or> vt_reads s1 = n + m + 2" using m(6,9) by auto
  moreover have "T (n + m) \<le> T (n + m + 1)" "T (n + m + 1) < T (n + m) + 2" using mono [of "n + m"] b(2) [of m] m(1) by auto
  ultimately have "0 < vt_reads s1" "T (n + m) \<le> T (vt_reads s1 - 1)" "T (vt_reads s1 - 1) < T (n + m) + 2" by auto
  then have c1: "clock_ok T L' s1 (drop m ds)" using m(7,8,10) by (auto simp: clock_ok_def)
  have tA: "?W \<subseteq> ?A" "fst ` set (drop m ds) \<subseteq> ?A" by (simp_all add: image_mono set_take_subset set_drop_subset)
  have W: "?W \<subseteq> ?B \<union> runnable (os_k s)"
  proof
    fix t assume t: "t \<in> ?W"
    then have "tstate_of (os_k s) t = TReady \<or> in_wait (tstate_of (os_k s) t)" by (rule A [OF subsetD [OF tA(1)]])
    then show "t \<in> ?B \<union> runnable (os_k s)" using t unfolding runnable_def by blast
  qed
  have "timed_ok (os_timed s) (tstate_of (os_k s1)) (fst ` set (drop m ds))"
    by (rule run_timers [OF wr(1,2) ok(3) tA(2)]) (use W drop_minus [OF d, of m] in simp)
  moreover have "refs_ok (os_ref s1) (tstate_of (os_k s1))" by (rule run_refs [OF wr(1,2) ok(4) wr(3)])
  moreover have "kernel_ok (os_k s1)" "os_timed s1 = os_timed s" using wb by (simp_all add: woken_by_def)
  ultimately obtain k' where k': "on_kernel isr_epilogue s1 = Some (s1\<lparr>os_k := k'\<rparr>)" "sleep_inv T L' (s1\<lparr>os_k := k'\<rparr>) (drop m ds)"
    "runnable k' = runnable (os_k s1)" "\<forall>u. u \<notin> runnable (os_k s1) \<longrightarrow> tstate_of k' u = tstate_of (os_k s1) u"
    using epilogue_ok [OF _ c1] by auto
  have "\<forall>t. t \<notin> ?W \<and> t \<notin> runnable (os_k s) \<longrightarrow> tstate_of k' t = tstate_of (os_k s) t" using k'(4) wr(1,2) by auto
  moreover have "\<forall>t \<in> ?W. t \<in> runnable k' \<and> (in_wait (tstate_of (os_k s) t) \<longrightarrow> os_rdymsg s1 t = MSG_TIMEOUT)"
    using W k'(3) wr(1) wb by (auto simp: woken_by_def)
  moreover have "ostep (clock_of T) OTick s = Some (s1\<lparr>os_k := k'\<rparr>)" using m(2) k'(1) by (simp add: chSysTimerHandlerI_def)
  ultimately show ?thesis using m(1,4,5) k'(2) by (intro exI [of _ m] exI [of _ L'] exI [of _ "s1\<lparr>os_k := k'\<rparr>"]) auto
qed

text \<open>A waiting thread is woken by another thread, or by an interrupt.\<close>

lemma wake_one_ok:
  assumes o: "sleep_inv T L s ds" and w: "in_wait (tstate_of (os_k s) t)"
    and s1: "vtl.truncate s1 = vtl.truncate s" "os_k s1 = os_k s" "os_timed s1 = os_timed s" "\<And>r u. os_ref s1 r = Some u \<longleftrightarrow> u \<notin> {t} \<and> os_ref s r = Some u"
  shows "\<exists>s'. on_kernel (chSchWakeupS t) s1 = Some s' \<and> sleep_inv T L s' ds" "\<exists>s'. Option.bind (on_kernel (chSchReadyI t) s1) (on_kernel isr_epilogue) = Some s' \<and> sleep_inv T L s' ds"
proof -
  have ok: "clock_ok T L s ds" "kernel_ok (os_k s)" "first_runs (os_k s)" "timed_ok (os_timed s) (tstate_of (os_k s)) (fst ` set ds)"
    "refs_ok (os_ref s) (tstate_of (os_k s))" using o by (simp_all add: sleep_inv_def)
  have after: "clock_ok T L (s1\<lparr>os_k := k'\<rparr>) ds" "timed_ok (os_timed s) (tstate_of k') (fst ` set ds)" "refs_ok (os_ref s1) (tstate_of k')"
    if k': "runnable k' = {t} \<union> runnable (os_k s)" "\<forall>u. u \<notin> {t} \<union> runnable (os_k s) \<longrightarrow> tstate_of k' u = tstate_of (os_k s) u" for k'
  proof -
    show "clock_ok T L (s1\<lparr>os_k := k'\<rparr>) ds" using ok(1) clock_ok_truncate [of "s1\<lparr>os_k := k'\<rparr>" s] s1(1) by simp
    show "timed_ok (os_timed s) (tstate_of k') (fst ` set ds)" by (rule run_timers [OF k' ok(4) subset_refl]) simp
    show "refs_ok (os_ref s1) (tstate_of k')" by (rule run_refs [OF k' ok(5) s1(4)])
  qed
  obtain k' where k': "chSchWakeupS t (os_k s) = Some k'" "kernel_ok k'" "first_runs k'" "runnable k' = insert t (runnable (os_k s))"
    "\<forall>u. u \<notin> insert t (runnable (os_k s)) \<longrightarrow> tstate_of k' u = tstate_of (os_k s) u"
    using wakeup_ok [OF ok(2,3) in_wait_asleep [OF w]] by blast
  then show "\<exists>s'. on_kernel (chSchWakeupS t) s1 = Some s' \<and> sleep_inv T L s' ds" using after [of k'] s1(2,3) by (simp add: on_kernel_def sleep_inv_def)
  obtain k2 where k2: "chSchReadyI t (os_k s) = Some k2" "kernel_ok k2" "tstate_of k2 = (tstate_of (os_k s))(t := TReady)"
    using ready_behind_ok [OF ok(2) in_wait_asleep [OF w]] by (auto simp: chSchReadyI_def)
  let ?s2 = "s1\<lparr>os_k := k2\<rparr>"
  have "runnable k2 = {t} \<union> runnable (os_k s)" using k2(3) by (auto simp: runnable_def)
  note a = after [OF this]
  have "clock_ok T L ?s2 ds" "timed_ok (os_timed ?s2) (tstate_of (os_k ?s2)) (fst ` set ds)" "refs_ok (os_ref ?s2) (tstate_of (os_k ?s2))"
    using a k2(3) s1(3) by simp_all
  then obtain k3 where "on_kernel isr_epilogue ?s2 = Some (?s2\<lparr>os_k := k3\<rparr>)" "sleep_inv T L (?s2\<lparr>os_k := k3\<rparr>) ds"
    using epilogue_ok [of ?s2 T L ds] k2(2) by auto
  moreover have "on_kernel (chSchReadyI t) s1 = Some ?s2" using k2(1) s1(2) by (simp add: on_kernel_def)
  ultimately show "\<exists>s'. Option.bind (on_kernel (chSchReadyI t) s1) (on_kernel isr_epilogue) = Some s' \<and> sleep_inv T L s' ds" by simp
qed

lemma resume_ok:
  assumes o: "sleep_inv T L s ds"
  shows "\<exists>s'. chThdResume r m s = Some s' \<and> sleep_inv T L s' ds" "\<exists>s'. Option.bind (chThdResumeI r m s) (on_kernel isr_epilogue) = Some s' \<and> sleep_inv T L s' ds"
proof -
  have "(\<exists>s'. chThdResume r m s = Some s' \<and> sleep_inv T L s' ds) \<and> (\<exists>s'. Option.bind (chThdResumeI r m s) (on_kernel isr_epilogue) = Some s' \<and> sleep_inv T L s' ds)"
  proof (cases "os_ref s r")
    case None
    then show ?thesis using o epilogue_ok [of s T L ds] by (auto simp: chThdResume_def chThdResumeS_def chThdResumeI_def sleep_inv_def)
  next
    case (Some t)
    have e: "os_ref s q = Some u \<longleftrightarrow> tstate_of (os_k s) u = TSuspended q" for q u using o by (simp add: sleep_inv_def refs_ok_def)
    then have t: "tstate_of (os_k s) t = TSuspended r" using Some by blast
    let ?s = "set_rdymsg t m (set_ref r None s)"
    have "os_ref ?s q = Some u \<longleftrightarrow> u \<notin> {t} \<and> os_ref s q = Some u" for q u using e [of q u] t e [of r u] Some by auto
    moreover have "in_wait (tstate_of (os_k s) t)" using t by (simp add: in_wait_def)
    ultimately have "\<exists>s'. on_kernel (chSchWakeupS t) ?s = Some s' \<and> sleep_inv T L s' ds"
      "\<exists>s'. Option.bind (on_kernel (chSchReadyI t) ?s) (on_kernel isr_epilogue) = Some s' \<and> sleep_inv T L s' ds"
      using wake_one_ok [OF o, of t ?s] by auto
    then show ?thesis using Some t by (simp add: chThdResume_def chThdResumeS_def chThdResumeI_def)
  qed
  then show "\<exists>s'. chThdResume r m s = Some s' \<and> sleep_inv T L s' ds" "\<exists>s'. Option.bind (chThdResumeI r m s) (on_kernel isr_epilogue) = Some s' \<and> sleep_inv T L s' ds"
    by blast+
qed

lemma return_ok:
  assumes o: "sleep_inv T L s ds" and p: "punctual T s" and mono: "\<And>k. T k \<le> T (k + 1)"
  shows "\<exists>s'. timeout_return (clock_of T) s = Some (os_rdymsg s (chThdGetSelfX s), s') \<and> sleep_inv T L s' (filter (\<lambda>x. fst x \<noteq> chThdGetSelfX s) ds)"
proof -
  let ?c = "chThdGetSelfX s" and ?ds = "filter (\<lambda>x. fst x \<noteq> chThdGetSelfX s) ds"
  have ok: "clock_ok T L s ds" "timed_ok (os_timed s) (tstate_of (os_k s)) (fst ` set ds)" using o by (simp_all add: sleep_inv_def)
  obtain s1 where s1: "chVTResetI (clock_of T) ?c s = Some s1" "vtl.more s1 = vtl.more s" "clock_ok T L s1 ?ds"
    using reset_clock_ok [OF ok(1) p mono] by blast
  note e = more_os [OF s1(2)]
  let ?s = "s1\<lparr>os_timed := (os_timed s)(?c := False)\<rparr>"
  have "fst ` set ?ds = fst ` set ds - {?c}" by auto
  then have "timed_ok ((os_timed s)(?c := False)) (tstate_of (os_k s)) (fst ` set ?ds)" using ok(2) by (auto simp: timed_ok_def)
  then have "sleep_inv T L ?s ?ds" using o s1(3) e clock_ok_truncate [of ?s s1] by (simp add: sleep_inv_def)
  then show ?thesis using s1(1) e by (auto simp: timeout_return_def chVTResetI_def Let_def)
qed

lemma read_ok:
  assumes o: "sleep_inv T L s ds" and p: "punctual T s" and mono: "\<And>k. T k \<le> T (k + 1)"
  shows "sleep_inv T L (s\<lparr>vt_reads := vt_reads s + 1\<rparr>) ds"
proof -
  have c: "clock_ok T L s ds" using o by (simp add: sleep_inv_def)
  note b = punctual_bound [where T = T, OF c p mono refl]
  have "clock_ok T L (s\<lparr>vt_reads := vt_reads s + 1\<rparr>) ds" by (rule clock_ok_read [OF c b(1)]) (use b(3) [of 0] in simp)
  then show ?thesis using o by (simp add: sleep_inv_def)
qed

text \<open>Calls that send the running thread to sleep.\<close>

lemma go_to_sleep_ok:
  assumes o: "sleep_inv T L s ds" and p: "punctual T s" and mono: "\<And>k. T k \<le> T (k + 1)" and u: "\<not> os_timed s (chThdGetSelfX s)" and m: "may_sleep d s"
  shows "\<exists>s' L'. chThdSleepS (clock_of T) d s = Some s' \<and> tstate_of (os_k s') (chThdGetSelfX s) = TSleeping \<and>
      sleep_inv T L' s' (if d = TIME_INFINITE then ds else insert_dl (chThdGetSelfX s) (T (vt_reads s) + unat d) ds)"
    "\<exists>s' L' ds'. chThdSleepS (clock_of T) d (s\<lparr>vt_reads := vt_reads s + 1\<rparr>) = Some s' \<and> sleep_inv T L' s' ds'"
    "os_ref s r = None \<Longrightarrow> \<exists>s' L' ds'. chSchGoSleepTimeoutS (clock_of T) (TSuspended r) d (set_ref r (Some (chThdGetSelfX s)) s) = Some s' \<and> sleep_inv T L' s' ds'"
proof -
  note g = gosleep_timeout_ok [where T = T, OF o p mono u m]
  have d: "d \<noteq> TIME_IMMEDIATE" using m by (auto simp: may_sleep_def TIME_IMMEDIATE_def)
  show "\<exists>s' L'. chThdSleepS (clock_of T) d s = Some s' \<and> tstate_of (os_k s') (chThdGetSelfX s) = TSleeping \<and>
      sleep_inv T L' s' (if d = TIME_INFINITE then ds else insert_dl (chThdGetSelfX s) (T (vt_reads s) + unat d) ds)"
    using g [of TSleeping s] d by (auto simp: chThdSleepS_def in_wait_def)
  show "\<exists>s' L' ds'. chThdSleepS (clock_of T) d (s\<lparr>vt_reads := vt_reads s + 1\<rparr>) = Some s' \<and> sleep_inv T L' s' ds'"
    using g [of TSleeping "s\<lparr>vt_reads := vt_reads s + 1\<rparr>"] d by (auto simp: chThdSleepS_def in_wait_def)
  show "\<exists>s' L' ds'. chSchGoSleepTimeoutS (clock_of T) (TSuspended r) d (set_ref r (Some (chThdGetSelfX s)) s) = Some s' \<and> sleep_inv T L' s' ds'" if "os_ref s r = None"
    using g [of "TSuspended r" "set_ref r (Some (chThdGetSelfX s)) s" r] that by (auto simp: in_wait_def)
qed

lemma ostep_ok:
  assumes o: "sleep_inv T L s ds" and p: "punctual T s" and mono: "\<And>k. T k \<le> T (k + 1)" and l: "os_legal (clock_of T) e s"
  shows "\<exists>s' L' ds'. ostep (clock_of T) e s = Some s' \<and> sleep_inv T L' s' ds'"
proof -
  have u: "e \<noteq> OReturn \<Longrightarrow> \<not> os_timed s (chThdGetSelfX s)" and a: "os_allowed (clock_of T) e s" using l by (simp_all add: os_legal_def)
  note sl = go_to_sleep_ok [where T = T, OF o p mono] and rd = read_ok [where T = T, OF o p mono]
  show ?thesis
  proof (cases e)
    case (OKern ke)
    obtain k' where k': "kstep ke (os_k s) = Some k'" "kernel_ok k'" "first_runs k'" "calm (chThdGetSelfX s) (os_k s) k'"
      using kstep_ok [of "os_k s" ke] o a OKern by (auto simp: sleep_inv_def chThdGetSelfX_def)
    have "sleep_inv T L (s\<lparr>os_k := k'\<rparr>) ds" by (rule calm_ok [OF o k'(4) u k'(2,3)]) (use OKern in simp_all)
    then show ?thesis using OKern k'(1) by (auto simp: on_kernel_def)
  next
    case (OWake t m)
    then have t: "tstate_of (os_k s) t = TSleeping" using a by simp
    then have "os_ref s r \<noteq> Some t" for r using o by (simp add: sleep_inv_def refs_ok_def)
    then have r: "os_ref (set_rdymsg t m s) r = Some v \<longleftrightarrow> v \<notin> {t} \<and> os_ref s r = Some v" for r v by auto
    have "in_wait (tstate_of (os_k s) t)" using t by (simp add: in_wait_def)
    then show ?thesis using wake_one_ok(1) [OF o _ _ _ _ r] OWake by auto
  next
    case (OSleep d)
    then show ?thesis using sl(1) [OF u, of d] a by (auto simp: chThdSleep_def)
  next
    case (OSleepUntil time)
    let ?d = "chTimeDiffX (clock_of T (vt_reads s)) time"
    have e: "ostep (clock_of T) e s = (if ?d > 0 then chThdSleepS (clock_of T) ?d (s\<lparr>vt_reads := vt_reads s + 1\<rparr>) else Some (s\<lparr>vt_reads := vt_reads s + 1\<rparr>))"
      using OSleepUntil by (simp add: chThdSleepUntil_def Let_def)
    show ?thesis
    proof (cases "?d = 0")
      case False
      then show ?thesis unfolding e using sl(2) [OF u, of ?d] a OSleepUntil by (simp add: Let_def word_gt_0)
    qed (unfold e, use rd in auto)
  next
    case (OSleepUntilWindowed prev nxt)
    let ?t = "clock_of T (vt_reads s)"
    have e: "ostep (clock_of T) e s = (if chTimeIsInRangeX ?t prev nxt then chThdSleepS (clock_of T) (chTimeDiffX ?t nxt) (s\<lparr>vt_reads := vt_reads s + 1\<rparr>) else Some (s\<lparr>vt_reads := vt_reads s + 1\<rparr>))"
      using OSleepUntilWindowed by (simp add: chThdSleepUntilWindowed_def Let_def)
    show ?thesis
    proof (cases "chTimeIsInRangeX ?t prev nxt")
      case True
      then show ?thesis unfolding e using sl(2) [OF u, of "chTimeDiffX ?t nxt"] a OSleepUntilWindowed by simp
    qed (unfold e, use rd in auto)
  next
    case (OSuspend r)
    then have "os_ref s r = None" "may_sleep TIME_INFINITE s" using a by (simp_all add: may_sleep_def TIME_INFINITE_def word_gt_0)
    then show ?thesis using sl(3) [OF u, of TIME_INFINITE r] OSuspend by (simp add: chThdSuspendS_def chSchGoSleepTimeoutS_def)
  next
    case (OSuspendTimeout r d)
    then have r: "os_ref s r = None" "d = 0 \<or> may_sleep d s" using a by simp_all
    show ?thesis
    proof (cases "d = 0")
      case True
      then show ?thesis using OSuspendTimeout r(1) o by (auto simp: chThdSuspendTimeoutS_def TIME_IMMEDIATE_def)
    next
      case False
      then obtain s' L' ds' where "chSchGoSleepTimeoutS (clock_of T) (TSuspended r) d (set_ref r (Some (chThdGetSelfX s)) s) = Some s'" "sleep_inv T L' s' ds'"
        using sl(3) [OF u _ r(1), of d] r(2) OSuspendTimeout by auto
      then show ?thesis using OSuspendTimeout r(1) False by (auto simp: chThdSuspendTimeoutS_def TIME_IMMEDIATE_def)
    qed
  next
    case OReturn
    then show ?thesis using return_ok [where T = T, OF o p mono] by auto
  next
    case (OResume r m)
    then show ?thesis using resume_ok(1) [OF o, of r m] by auto
  next
    case (OIsrResume r m)
    then show ?thesis using resume_ok(2) [OF o, of r m] by auto
  next
    case OTick
    have "alarm_ok T s ds" using o vt_relD(6) unfolding sleep_inv_def clock_ok_def by blast
    then have "ds \<noteq> []" using OTick a by (auto simp: alarm_ok_def)
    then show ?thesis using tick_ok [where T = T, OF o p mono u _ refl] OTick by auto
  qed
qed

lemma os_init_ok:
  assumes "mainthread \<noteq> idle"
  shows "\<exists>s. os_init (clock_of T) mainthread idle = Some s \<and> sleep_inv T 0 s []"
proof -
  obtain k where k: "chInstanceObjectInit mainthread idle = Some k" "kernel_ok k" "first_runs k" using boot_ok [OF assms] by blast
  have "\<not> suspended (tstate_of k t)" for t
    using k(1) by (auto simp: chInstanceObjectInit_def chThdCreateI_def chThdCreateSuspendedI_def chSchReadyI_def sch_ready_behind_def Let_def
        tstate_of_def set_state_def thd_object_init_def split: if_splits)
  then have "refs_ok (\<lambda>r. None) (tstate_of k)" unfolding refs_ok_def by (metis option.distinct(1) suspended.simps(1))
  let ?s = "vtl.extend (vt_object_init (clock_of T)) (os.fields k (\<lambda>t. MSG_OK) (\<lambda>t. False) (\<lambda>r. None)) :: os"
  have "vtl.truncate ?s = vt_object_init (clock_of T)" by (simp add: vtl.defs os.defs)
  then have "vtl.truncate ?s = vtl.truncate (vt_object_init (clock_of T))" by (simp add: vtl.defs)
  moreover have "clock_ok T 0 (vt_object_init (clock_of T)) []" using vt_object_init_rel [of T] by (simp add: clock_ok_def)
  ultimately have "clock_ok T 0 ?s []" using clock_ok_truncate by blast
  moreover have "os_k ?s = k" "os_timed ?s = (\<lambda>t. False)" "os_ref ?s = (\<lambda>r. None)" by (simp_all add: vtl.defs os.defs)
  ultimately have "sleep_inv T 0 ?s []" using k(2,3) \<open>refs_ok (\<lambda>r. None) (tstate_of k)\<close> by (simp add: sleep_inv_def timed_ok_def)
  then show ?thesis using k(1) by (simp add: os_init_def)
qed

lemma os_reach_ok:
  assumes "os_reach T s" and mono: "\<And>k. T k \<le> T (k + 1)"
  shows "\<exists>L ds. sleep_inv T L s ds"
  using assms(1)
proof induction
  case (Boot mainthread idle s)
  then show ?case using os_init_ok [of mainthread idle T] by auto
next
  case (Step s e s')
  then show ?case using ostep_ok [where T = T, OF _ _ mono] by (metis option.inject)
qed

section \<open>Properties\<close>

lemma due_of_index:
  assumes x: "(t, e) \<in> set ds" and d: "distinct (map fst ds)" and m: "m \<le> length ds" and mono: "\<And>k. T k \<le> T (k + 1 :: nat)"
    and early: "\<forall>k < m. snd (ds ! k) \<le> T (n + k)" and late: "\<forall>x \<in> set (drop m ds). T (n + m) < snd x"
  shows "e \<le> T n \<Longrightarrow> t \<in> fst ` set (take m ds)" "T (n + length ds) < (e :: nat) \<Longrightarrow> t \<notin> fst ` set (take m ds)"
proof -
  have mono': "T a \<le> T b" if "a \<le> b" for a b by (rule lift_Suc_mono_le [OF _ that]) (use mono in simp)
  have split: "(t, e) \<in> set (take m ds) \<or> (t, e) \<in> set (drop m ds)" using x by (metis Un_iff append_take_drop_id set_append)
  show "t \<in> fst ` set (take m ds)" if "e \<le> T n"
    using split late mono' [of n "n + m"] that by (metis fst_conv image_eqI le_add1 le_trans not_le snd_conv)
  show "t \<notin> fst ` set (take m ds)" if "T (n + length ds) < e"
  proof
    assume "t \<in> fst ` set (take m ds)"
    then obtain e' where e': "(t, e') \<in> set (take m ds)" by auto
    then have "(t, e') \<in> set ds" by (rule in_set_takeD)
    then have "e' = e" using x d by (meson eq_key_imp_eq_value)
    then obtain k where k: "k < m" "ds ! k = (t, e)" using e' by (auto simp: in_set_conv_nth)
    then have "e \<le> T (n + length ds)" using early mono' [of "n + k" "n + length ds"] m by (auto dest: spec [of _ k])
    then show False using that by simp
  qed
qed

text \<open>
  C23. No sleeper is lost. In every history of threads, mutexes, sleeps, thread references and timer
  interrupts: no assertion of the kernel fails at a step the interface allows; every thread that waits
  with a timeout has an armed timer, the alarm is set while there are any; a reference points to a thread exactly when that
  thread is suspended on it, so a timeout leaves no reference behind; the thread of the highest priority runs.
\<close>

theorem no_sleeper_lost:
  assumes "os_reach T s" and "\<And>k. T k \<le> T (k + 1)"
  shows "(\<forall>t. os_timed s t \<and> in_wait (tstate_of (os_k s) t) \<longrightarrow> chVTIsArmedI t s \<and> vt_alarm s \<noteq> None) \<and>
    (\<forall>r t. os_ref s r = Some t \<longleftrightarrow> tstate_of (os_k s) t = TSuspended r) \<and> (\<forall>t \<in> set (k_ready (os_k s)). prio (os_k s) t \<le> prio (os_k s) (chThdGetSelfX s)) \<and>
    (\<forall>e. punctual T s \<and> os_legal (clock_of T) e s \<longrightarrow> ostep (clock_of T) e s \<noteq> None)"
proof -
  obtain L ds where o: "sleep_inv T L s ds" using os_reach_ok [OF assms] by blast
  then have r: "vt_rel T L s ds" and tm: "timed_ok (os_timed s) (tstate_of (os_k s)) (fst ` set ds)" by (simp_all add: sleep_inv_def clock_ok_def)
  have "chVTIsArmedI t s \<and> vt_alarm s \<noteq> None" if t: "os_timed s t" "in_wait (tstate_of (os_k s) t)" for t
  proof -
    have "t \<in> fst ` set ds" using tm t by (auto simp: timed_ok_def in_wait_def)
    moreover from this have "vt_alarm s \<noteq> None" using vt_relD(6) [OF r] by (cases ds) (auto simp: alarm_ok_def)
    ultimately show ?thesis using vt_relD(2) [OF r] by (metis chVTIsArmedI_def fst_set_offs)
  qed
  moreover have "ostep (clock_of T) e s \<noteq> None" if "punctual T s" "os_legal (clock_of T) e s" for e
    using ostep_ok [where T = T, OF o that(1) assms(2) that(2)] by auto
  moreover have "\<forall>r t. os_ref s r = Some t \<longleftrightarrow> tstate_of (os_k s) t = TSuspended r"
    "\<forall>t \<in> set (k_ready (os_k s)). prio (os_k s) t \<le> prio (os_k s) (chThdGetSelfX s)"
    using o by (simp_all add: sleep_inv_def refs_ok_def first_runs_def chThdGetSelfX_def)
  ultimately show ?thesis by blast
qed

text \<open>The main thread, number 1, sleeps for two ticks of a clock that makes one at each reading.\<close>

definition steady_time :: "nat \<Rightarrow> nat" where "steady_time k = 1000 + k"

lemma sample_sleep:
  "\<exists>s. os_reach steady_time s \<and> punctual steady_time s \<and> vt_reads s = 3 \<and> vt_dlist s = [(1, 2)] \<and> vt_lasttime s = 1001 \<and> os_timed s 1 \<and>
     tstate_of (os_k s) 1 = TSleeping \<and> os_legal (clock_of steady_time) OTick s"
proof -
  let ?c = "clock_of steady_time"
  have "map_option (\<lambda>s. (vt_reads s, vt_dlist s, os_legal ?c (OSleep 2) s)) (os_init ?c 1 0) = Some (1, [], True)" by code_simp
  then obtain s0 where s0: "os_init ?c 1 0 = Some s0" "vt_reads s0 = 1" "vt_dlist s0 = []" "os_legal ?c (OSleep 2) s0" by auto
  have "map_option (\<lambda>s. (vt_reads s, vt_dlist s, vt_lasttime s, os_timed s 1, tstate_of (os_k s) 1, os_legal ?c OTick s))
      (Option.bind (os_init ?c 1 0) (ostep ?c (OSleep 2))) = Some (3, [(1, 2)], 1001, True, TSleeping, True)" by code_simp
  then obtain s1 where s1: "ostep ?c (OSleep 2) s0 = Some s1" "vt_reads s1 = 3" "vt_dlist s1 = [(1, 2)]" "vt_lasttime s1 = 1001" "os_timed s1 1"
    "tstate_of (os_k s1) 1 = TSleeping" "os_legal ?c OTick s1" using s0(1) by auto
  have "punctual steady_time s0" using s0(2,3) by (simp add: punctual_def steady_time_def)
  moreover have "os_reach steady_time s0" using os_reach.Boot s0(1) by (metis zero_neq_one)
  ultimately have "os_reach steady_time s1" using os_reach.Step s0(4) s1(1) by blast
  moreover have "punctual steady_time s1" using s1(2,3,4) by (simp add: punctual_def steady_time_def chTimeDiffX_def)
  ultimately show ?thesis using s1(2-7) by blast
qed

lemma steady_mono: "steady_time k \<le> steady_time (k + 1)"
  by (simp add: steady_time_def)

theorem no_sleeper_lost_witness:
  "\<exists>s. os_reach steady_time s \<and> tstate_of (os_k s) 1 = TSleeping \<and> chVTIsArmedI 1 s \<and> vt_alarm s \<noteq> None \<and> ostep (clock_of steady_time) OTick s \<noteq> None"
proof -
  obtain s where s: "os_reach steady_time s" "punctual steady_time s" "os_timed s 1" "tstate_of (os_k s) 1 = TSleeping"
    "os_legal (clock_of steady_time) OTick s" using sample_sleep by blast
  have "chVTIsArmedI 1 s \<and> vt_alarm s \<noteq> None \<and> ostep (clock_of steady_time) OTick s \<noteq> None"
    using no_sleeper_lost [where T = steady_time, OF s(1) steady_mono] s(2-5) by (simp only: in_wait_def) blast
  then show ?thesis using s(1,4) by blast
qed

text \<open>
  C24. Sleepers wake in time. The armed timers have deadlines: a sleep of \<open>d\<close> ticks adds the time at which it
  was called plus \<open>d\<close>, and puts the caller to sleep. At a timer interrupt every thread whose
  deadline has come can run, with the message of a timeout if it was still waiting, a thread whose
  deadline is still ahead when the interrupt is over stays as it is, and no timer is left overdue.
\<close>

theorem sleepers_wake_in_time:
  assumes "os_reach T s" and "\<And>k. T k \<le> T (k + 1)" and "punctual T s" and "n = vt_reads s"
  shows "\<exists>L ds. vt_rel T L s ds \<and> L \<le> T n \<and>
    (\<forall>d. os_legal (clock_of T) (OSleep d) s \<and> d \<noteq> TIME_INFINITE \<longrightarrow>
       (\<exists>s' L'. ostep (clock_of T) (OSleep d) s = Some s' \<and> tstate_of (os_k s') (chThdGetSelfX s) = TSleeping \<and>
          vt_rel T L' s' (insert_dl (chThdGetSelfX s) (T n + unat d) ds))) \<and>
    (os_legal (clock_of T) OTick s \<longrightarrow>
       (\<exists>s' L' ds'. ostep (clock_of T) OTick s = Some s' \<and> vt_rel T L' s' ds' \<and> (\<forall>x \<in> set ds'. T n < snd x) \<and>
          (\<forall>t e. (t, e) \<in> set ds \<and> e \<le> T n \<longrightarrow>
             t \<in> runnable (os_k s') \<and> (in_wait (tstate_of (os_k s) t) \<longrightarrow> os_rdymsg s' t = MSG_TIMEOUT)) \<and>
          (\<forall>t e. (t, e) \<in> set ds \<and> T (n + length ds) < e \<and> in_wait (tstate_of (os_k s) t) \<longrightarrow>
             tstate_of (os_k s') t = tstate_of (os_k s) t)))"
proof -
  obtain L ds where o: "sleep_inv T L s ds" using os_reach_ok [OF assms(1,2)] by blast
  then have r: "vt_rel T L s ds" by (simp add: sleep_inv_def clock_ok_def)
  have "\<exists>s' L'. ostep (clock_of T) (OSleep d) s = Some s' \<and> tstate_of (os_k s') (chThdGetSelfX s) = TSleeping \<and> vt_rel T L' s' (insert_dl (chThdGetSelfX s) (T n + unat d) ds)"
    if "os_legal (clock_of T) (OSleep d) s" "d \<noteq> TIME_INFINITE" for d
    using go_to_sleep_ok(1) [where T = T, OF o assms(3,2), of d] that assms(4) by (auto simp: os_legal_def chThdSleep_def sleep_inv_def clock_ok_def)
  moreover have "\<exists>s' L' ds'. ostep (clock_of T) OTick s = Some s' \<and> vt_rel T L' s' ds' \<and> (\<forall>x \<in> set ds'. T n < snd x) \<and>
      (\<forall>t e. (t, e) \<in> set ds \<and> e \<le> T n \<longrightarrow> t \<in> runnable (os_k s') \<and> (in_wait (tstate_of (os_k s) t) \<longrightarrow> os_rdymsg s' t = MSG_TIMEOUT)) \<and>
      (\<forall>t e. (t, e) \<in> set ds \<and> T (n + length ds) < e \<and> in_wait (tstate_of (os_k s) t) \<longrightarrow> tstate_of (os_k s') t = tstate_of (os_k s) t)"
    if l: "os_legal (clock_of T) OTick s"
  proof -
    have u: "\<not> os_timed s (chThdGetSelfX s)" and "vt_alarm s \<noteq> None" using l by (simp_all add: os_legal_def)
    then have "ds \<noteq> []" using vt_relD(6) [OF r] by (auto simp: alarm_ok_def)
    then obtain m L' s' where m: "m \<le> length ds" "ostep (clock_of T) OTick s = Some s'" "sleep_inv T L' s' (drop m ds)"
      "\<forall>k < m. snd (ds ! k) \<le> T (n + k)" "\<forall>x \<in> set (drop m ds). T (n + m) < snd x"
      "\<forall>t \<in> fst ` set (take m ds). t \<in> runnable (os_k s') \<and> (in_wait (tstate_of (os_k s) t) \<longrightarrow> os_rdymsg s' t = MSG_TIMEOUT)"
      "\<forall>t. t \<notin> fst ` set (take m ds) \<and> t \<notin> runnable (os_k s) \<longrightarrow> tstate_of (os_k s') t = tstate_of (os_k s) t"
      using tick_ok [where T = T, OF o assms(3,2) u _ assms(4)] by blast
    note due = due_of_index [where T = T, OF _ vt_relD(3) [OF r] m(1) assms(2) m(4,5)]
    have "T n \<le> T (n + m)" by (rule lift_Suc_mono_le) (use assms(2) in simp_all)
    then have "\<forall>x \<in> set (drop m ds). T n < snd x" using m(5) by (meson le_less_trans)
    moreover have "t \<notin> runnable (os_k s)" if "in_wait (tstate_of (os_k s) t)" for t using that by (auto simp: runnable_def in_wait_def)
    moreover have "vt_rel T L' s' (drop m ds)" using m(3) by (simp add: sleep_inv_def clock_ok_def)
    moreover have "\<forall>t e. (t, e) \<in> set ds \<and> e \<le> T n \<longrightarrow> t \<in> runnable (os_k s') \<and> (in_wait (tstate_of (os_k s) t) \<longrightarrow> os_rdymsg s' t = MSG_TIMEOUT)"
      using m(6) due(1) by meson
    ultimately show ?thesis using m(2,7) due(2) by (intro exI [of _ s'] exI [of _ L'] exI [of _ "drop m ds"] conjI) (simp_all, meson)
  qed
  moreover have "L \<le> T n" using punctual_bound(1) [of T L s ds n] o assms(2-4) by (simp add: sleep_inv_def)
  ultimately show ?thesis using r by (intro exI [of _ L] exI [of _ ds] conjI) simp_all
qed

theorem sleepers_wake_in_time_witness:
  "\<exists>s s'. os_reach steady_time s \<and> tstate_of (os_k s) 1 = TSleeping \<and> ostep (clock_of steady_time) OTick s = Some s' \<and>
     1 \<in> runnable (os_k s') \<and> os_rdymsg s' 1 = MSG_TIMEOUT"
proof -
  obtain s where s: "os_reach steady_time s" "punctual steady_time s" "vt_reads s = 3" "vt_dlist s = [(1, 2)]" "vt_lasttime s = 1001"
    "tstate_of (os_k s) 1 = TSleeping" "os_legal (clock_of steady_time) OTick s" using sample_sleep by blast
  obtain L ds s' where r: "vt_rel steady_time L s ds" "L \<le> steady_time 3" "ostep (clock_of steady_time) OTick s = Some s'"
    "\<forall>t e. (t, e) \<in> set ds \<and> e \<le> steady_time 3 \<longrightarrow> t \<in> runnable (os_k s') \<and> (in_wait (tstate_of (os_k s) t) \<longrightarrow> os_rdymsg s' t = MSG_TIMEOUT)"
    using sleepers_wake_in_time [where T = steady_time, OF s(1) steady_mono s(2) s(3) [symmetric]] s(7) by blast
  have "of_nat L = (of_nat 1001 :: u32)" using vt_relD(1) [OF r(1)] s(5) by simp
  then have "\<not> 1001 < L" using same_word_later [of L 1001] r(2) by (auto simp: steady_time_def)
  moreover have "ds = [(1, L + 2)]" using vt_relD(2) [OF r(1)] s(4) by simp
  ultimately have "1 \<in> runnable (os_k s') \<and> os_rdymsg s' 1 = MSG_TIMEOUT" using r(4) s(6) by (simp add: steady_time_def in_wait_def)
  then show ?thesis using s(1,6) r(3) by blast
qed

end
