(* ===== verification/Events.thy ===== *)
theory Events
  imports Threads
begin

text \<open>
  Events of the kernel, \<open>chevents.c\<close>: masks of pending events per thread, event sources with their
  listeners, and the waits for one, any or all events of a mask. Sources and listeners are numbers;
  the listeners of a source, linked through \<open>next\<close>, are a list. A wait is in two parts, before and after the switch
  to another thread; \<open>ev_call\<close> tells which threads are between the two, with what they wait for and whether
  they have a timeout, and the timeout is a step of its own. \<open>None\<close> is a failed assertion.
\<close>

datatype evkind = WaitOne | WaitAny | WaitAll

record event_listener =
  el_listener :: tid
  el_events :: u32
  el_flags :: u32
  el_wflags :: u32

record evs =
  ev_k :: kernel
  ev_rdymsg :: "tid \<Rightarrow> msg"
  ev_epending :: "tid \<Rightarrow> u32"
  ev_call :: "tid \<Rightarrow> (evkind \<times> u32 \<times> bool) option"
  ev_listener :: "nat \<Rightarrow> event_listener"
  ev_source :: "nat \<Rightarrow> nat list"

abbreviation ev_curr :: "evs \<Rightarrow> tid" where "ev_curr s \<equiv> k_curr (ev_k s)"
abbreviation ev_state :: "evs \<Rightarrow> tid \<Rightarrow> tstate" where "ev_state s \<equiv> tstate_of (ev_k s)"

definition set_pending :: "tid \<Rightarrow> u32 \<Rightarrow> evs \<Rightarrow> evs" where
  "set_pending t m s = s\<lparr>ev_epending := (ev_epending s)(t := m)\<rparr>"

definition on_ev_kernel :: "(kernel \<Rightarrow> kernel option) \<Rightarrow> evs \<Rightarrow> evs option" where
  "on_ev_kernel f s = map_option (\<lambda>k. s\<lparr>ev_k := k\<rparr>) (f (ev_k s))"

section \<open>Sources and listeners\<close>

definition chEvtObjectInit :: "nat \<Rightarrow> evs \<Rightarrow> evs" where
  "chEvtObjectInit esp s = s\<lparr>ev_source := (ev_source s)(esp := [])\<rparr>"

definition chEvtObjectDispose :: "nat \<Rightarrow> evs \<Rightarrow> evs option" where
  "chEvtObjectDispose esp s = (if ev_source s esp \<noteq> [] then Some s else None)"

definition chEvtIsListeningI :: "nat \<Rightarrow> evs \<Rightarrow> bool" where
  "chEvtIsListeningI esp s \<longleftrightarrow> ev_source s esp \<noteq> []"

definition chEvtRegisterMaskWithFlagsI :: "nat \<Rightarrow> nat \<Rightarrow> u32 \<Rightarrow> u32 \<Rightarrow> evs \<Rightarrow> evs" where
  "chEvtRegisterMaskWithFlagsI esp elp events wflags s =
     s\<lparr>ev_source := (ev_source s)(esp := elp # ev_source s esp),
       ev_listener := (ev_listener s)(elp := \<lparr>el_listener = ev_curr s, el_events = events, el_flags = 0, el_wflags = wflags\<rparr>)\<rparr>"

definition chEvtRegisterMask :: "nat \<Rightarrow> nat \<Rightarrow> u32 \<Rightarrow> evs \<Rightarrow> evs" where
  "chEvtRegisterMask esp elp events = chEvtRegisterMaskWithFlagsI esp elp events (-1)"

definition chEvtUnregister :: "nat \<Rightarrow> nat \<Rightarrow> evs \<Rightarrow> evs" where
  "chEvtUnregister esp elp s = s\<lparr>ev_source := (ev_source s)(esp := remove1 elp (ev_source s esp))\<rparr>"

section \<open>Pending events and flags\<close>

definition chEvtGetAndClearEventsI :: "u32 \<Rightarrow> evs \<Rightarrow> u32 \<times> evs" where
  "chEvtGetAndClearEventsI events s =
     (let currtp = ev_curr s;
          m = and (ev_epending s currtp) events
      in (m, set_pending currtp (and (ev_epending s currtp) (not events)) s))"

definition chEvtAddEventsI :: "u32 \<Rightarrow> evs \<Rightarrow> u32 \<times> evs" where
  "chEvtAddEventsI events s = (let m = or (ev_epending s (ev_curr s)) events in (m, set_pending (ev_curr s) m s))"

definition chEvtGetAndClearFlagsI :: "nat \<Rightarrow> evs \<Rightarrow> u32 \<times> evs" where
  "chEvtGetAndClearFlagsI elp s =
     (let flags = el_flags (ev_listener s elp);
          s = s\<lparr>ev_listener := (ev_listener s)(elp := (ev_listener s elp)\<lparr>el_flags := 0\<rparr>)\<rparr>
      in (and flags (el_wflags (ev_listener s elp)), s))"

section \<open>Signalling\<close>

definition chEvtSignalI :: "tid \<Rightarrow> u32 \<Rightarrow> evs \<Rightarrow> evs option" where
  "chEvtSignalI tp events s =
     (let s = set_pending tp (or (ev_epending s tp) events) s
      in if (case ev_state s tp of
               TWtorevt ewmask \<Rightarrow> and (ev_epending s tp) ewmask \<noteq> 0
             | TWtandevt ewmask \<Rightarrow> and (ev_epending s tp) ewmask = ewmask
             | _ \<Rightarrow> False)
         then on_ev_kernel (chSchReadyI tp) (s\<lparr>ev_rdymsg := (ev_rdymsg s)(tp := MSG_OK)\<rparr>)
         else Some s)"

definition chEvtSignal :: "tid \<Rightarrow> u32 \<Rightarrow> evs \<Rightarrow> evs option" where
  "chEvtSignal tp events s = Option.bind (chEvtSignalI tp events s) (on_ev_kernel chSchRescheduleS)"

primrec broadcast_loop :: "u32 \<Rightarrow> nat list \<Rightarrow> evs \<Rightarrow> evs option" where
  "broadcast_loop flags [] s = Some s"
| "broadcast_loop flags (elp # l) s =
     (let el = (ev_listener s elp)\<lparr>el_flags := or (el_flags (ev_listener s elp)) flags\<rparr>;
          s = s\<lparr>ev_listener := (ev_listener s)(elp := el)\<rparr>
      in do { s \<leftarrow> (if flags = 0 \<or> and flags (el_wflags el) \<noteq> 0 then chEvtSignalI (el_listener el) (el_events el) s else Some s);
              broadcast_loop flags l s })"

definition chEvtBroadcastFlagsI :: "nat \<Rightarrow> u32 \<Rightarrow> evs \<Rightarrow> evs option" where
  "chEvtBroadcastFlagsI esp flags s = broadcast_loop flags (ev_source s esp) s"

definition chEvtBroadcastFlags :: "nat \<Rightarrow> u32 \<Rightarrow> evs \<Rightarrow> evs option" where
  "chEvtBroadcastFlags esp flags s = Option.bind (chEvtBroadcastFlagsI esp flags s) (on_ev_kernel chSchRescheduleS)"

definition chEvtBroadcastI :: "nat \<Rightarrow> evs \<Rightarrow> evs option" where
  "chEvtBroadcastI esp = chEvtBroadcastFlagsI esp 0"

text \<open>Dispatching: the handlers called, in order, and \<open>None\<close> when one is missing.\<close>

definition EVENT_MASK :: "nat \<Rightarrow> u32" where "EVENT_MASK eid = push_bit eid 1"

partial_function (option) dispatch_loop :: "(nat \<Rightarrow> bool) \<Rightarrow> nat \<Rightarrow> u32 \<Rightarrow> nat list option" where
  "dispatch_loop handlers eid events =
     (if events = 0 then Some []
      else if and events (EVENT_MASK eid) \<noteq> 0
           then if handlers eid
                then do { l \<leftarrow> dispatch_loop handlers (eid + 1) (and events (not (EVENT_MASK eid))); Some (eid # l) }
                else None
           else dispatch_loop handlers (eid + 1) events)"

definition chEvtDispatch :: "(nat \<Rightarrow> bool) \<Rightarrow> u32 \<Rightarrow> nat list option" where
  "chEvtDispatch handlers events = dispatch_loop handlers 0 events"

declare dispatch_loop.simps [code]

section \<open>Waiting\<close>

definition wait_ready :: "evkind \<Rightarrow> u32 \<Rightarrow> u32 \<Rightarrow> bool" where
  "wait_ready kind epending events =
     (case kind of WaitAll \<Rightarrow> and epending events = events | _ \<Rightarrow> and epending events \<noteq> 0)"

definition wait_state :: "evkind \<Rightarrow> u32 \<Rightarrow> tstate" where
  "wait_state kind events = (case kind of WaitAll \<Rightarrow> TWtandevt events | _ \<Rightarrow> TWtorevt events)"

definition lowest :: "u32 \<Rightarrow> u32" where
  "lowest m = xor m (and m (m - 1))"

definition wait_take :: "evkind \<Rightarrow> u32 \<Rightarrow> evs \<Rightarrow> u32 \<times> evs" where
  "wait_take kind events s =
     (let currtp = ev_curr s;
          m = and (ev_epending s currtp) events;
          m = (case kind of WaitOne \<Rightarrow> lowest m | WaitAny \<Rightarrow> m | WaitAll \<Rightarrow> events)
      in (m, set_pending currtp (and (ev_epending s currtp) (not m)) s))"

text \<open>The first part. The result is the mask when the call returns without a wait; the timeout is \<open>None\<close> in the calls without one.\<close>

definition evt_wait :: "evkind \<Rightarrow> u32 \<Rightarrow> u32 option \<Rightarrow> evs \<Rightarrow> (u32 option \<times> evs) option" where
  "evt_wait kind events timeout s =
     (let currtp = ev_curr s in
      if wait_ready kind (ev_epending s currtp) events then Some (apfst Some (wait_take kind events s))
      else if timeout = Some TIME_IMMEDIATE then Some (Some 0, s)
      else do { s \<leftarrow> on_ev_kernel (chSchGoSleepS (wait_state kind events)) s;
                Some (None, s\<lparr>ev_call := (ev_call s)(currtp := Some (kind, events, timeout \<noteq> None \<and> timeout \<noteq> Some TIME_INFINITE))\<rparr>) })"

definition chEvtWaitOne :: "u32 \<Rightarrow> evs \<Rightarrow> (u32 option \<times> evs) option" where
  "chEvtWaitOne events = evt_wait WaitOne events None"
definition chEvtWaitAny :: "u32 \<Rightarrow> evs \<Rightarrow> (u32 option \<times> evs) option" where
  "chEvtWaitAny events = evt_wait WaitAny events None"
definition chEvtWaitAll :: "u32 \<Rightarrow> evs \<Rightarrow> (u32 option \<times> evs) option" where
  "chEvtWaitAll events = evt_wait WaitAll events None"
definition chEvtWaitOneTimeout :: "u32 \<Rightarrow> u32 \<Rightarrow> evs \<Rightarrow> (u32 option \<times> evs) option" where
  "chEvtWaitOneTimeout events timeout = evt_wait WaitOne events (Some timeout)"
definition chEvtWaitAnyTimeout :: "u32 \<Rightarrow> u32 \<Rightarrow> evs \<Rightarrow> (u32 option \<times> evs) option" where
  "chEvtWaitAnyTimeout events timeout = evt_wait WaitAny events (Some timeout)"
definition chEvtWaitAllTimeout :: "u32 \<Rightarrow> u32 \<Rightarrow> evs \<Rightarrow> (u32 option \<times> evs) option" where
  "chEvtWaitAllTimeout events timeout = evt_wait WaitAll events (Some timeout)"

text \<open>The second part, when the thread runs again: it takes its events unless the wait timed out.\<close>

definition evt_return :: "evs \<Rightarrow> (u32 \<times> evs) option" where
  "evt_return s =
     do { (kind, events, timed) \<leftarrow> ev_call s (ev_curr s);
          let s' = s\<lparr>ev_call := (ev_call s)(ev_curr s := None)\<rparr>;
          Some (if timed \<and> ev_rdymsg s (ev_curr s) \<noteq> MSG_OK then (0, s') else wait_take kind events s') }"

text \<open>What the timer of a waiting thread does when it expires.\<close>

definition evt_timeout :: "tid \<Rightarrow> evs \<Rightarrow> evs option" where
  "evt_timeout t s = on_ev_kernel (sch_ready_behind t) (s\<lparr>ev_rdymsg := (ev_rdymsg s)(t := MSG_TIMEOUT)\<rparr>)"

section \<open>Histories\<close>

text \<open>
  What happens next: a step of the kernel (a new thread has no pending events), the calls above from a thread
  or an interrupt, the return of a wait when its thread runs again, the timeout of a wait.
\<close>

datatype vevent =
  VKern kevent | VInit nat | VRegister nat nat u32 u32 | VUnregister nat nat | VClear u32 | VAdd u32 | VFlags nat |
  VSignal tid u32 | VSignalIsr tid u32 | VBroadcast nat u32 | VBroadcastIsr nat u32 | VWait evkind u32 "u32 option" | VReturn | VTimeout tid

fun created :: "kevent \<Rightarrow> tid option" where
  "created (KCreate t p) = Some t"
| "created (KCreateSuspended t p) = Some t"
| "created _ = None"

fun vstep :: "vevent \<Rightarrow> evs \<Rightarrow> evs option" where
  "vstep (VKern e) s = on_ev_kernel (kstep e) (case created e of None \<Rightarrow> s | Some t \<Rightarrow> set_pending t 0 s)"
| "vstep (VInit es) s = Some (chEvtObjectInit es s)"
| "vstep (VRegister es el m f) s = Some (chEvtRegisterMaskWithFlagsI es el m f s)"
| "vstep (VUnregister es el) s = Some (chEvtUnregister es el s)"
| "vstep (VClear m) s = Some (snd (chEvtGetAndClearEventsI m s))"
| "vstep (VAdd m) s = Some (snd (chEvtAddEventsI m s))"
| "vstep (VFlags el) s = Some (snd (chEvtGetAndClearFlagsI el s))"
| "vstep (VSignal t m) s = chEvtSignal t m s"
| "vstep (VSignalIsr t m) s = Option.bind (chEvtSignalI t m s) (on_ev_kernel isr_epilogue)"
| "vstep (VBroadcast es f) s = chEvtBroadcastFlags es f s"
| "vstep (VBroadcastIsr es f) s = Option.bind (chEvtBroadcastFlagsI es f s) (on_ev_kernel isr_epilogue)"
| "vstep (VWait kind m timeout) s = map_option snd (evt_wait kind m timeout s)"
| "vstep VReturn s = map_option snd (evt_return s)"
| "vstep (VTimeout t) s = Option.bind (evt_timeout t s) (on_ev_kernel isr_epilogue)"

text \<open>
  The rules: a thread that runs again inside a wait returns from it first, since it has the system locked; the idle thread does not wait; only a wait with a
  timeout times out.
\<close>

fun v_allowed :: "vevent \<Rightarrow> evs \<Rightarrow> bool" where
  "v_allowed (VKern e) s = legal e (ev_k s)"
| "v_allowed (VWait kind m timeout) s = (ev_curr s \<noteq> k_idle (ev_k s))"
| "v_allowed (VTimeout t) s = (case ev_call s t of None \<Rightarrow> False | Some (kind, m, timed) \<Rightarrow> timed \<and> ev_state s t = wait_state kind m)"
| "v_allowed _ s = True"

definition v_legal :: "vevent \<Rightarrow> evs \<Rightarrow> bool" where
  "v_legal e s \<longleftrightarrow> (e = VReturn \<longleftrightarrow> ev_call s (ev_curr s) \<noteq> None) \<and> v_allowed e s"

definition ev_init :: "tid \<Rightarrow> tid \<Rightarrow> evs option" where
  "ev_init mainthread idle =
     map_option (\<lambda>k. \<lparr>ev_k = k, ev_rdymsg = (\<lambda>t. MSG_OK), ev_epending = (\<lambda>t. 0), ev_call = (\<lambda>t. None),
        ev_listener = (\<lambda>l. \<lparr>el_listener = mainthread, el_events = 0, el_flags = 0, el_wflags = 0\<rparr>), ev_source = (\<lambda>e. [])\<rparr>)
       (chInstanceObjectInit mainthread idle)"

inductive ev_reach :: "evs \<Rightarrow> bool" where
  EvBoot: "mainthread \<noteq> idle \<Longrightarrow> ev_init mainthread idle = Some s \<Longrightarrow> ev_reach s"
| EvStep: "ev_reach s \<Longrightarrow> v_legal e s \<Longrightarrow> vstep e s = Some s' \<Longrightarrow> ev_reach s'"

section \<open>The invariant\<close>

text \<open>
  A thread waits for events it does not have; when it can run again, it has them or the wait timed out.
\<close>

definition call_ok :: "tstate \<Rightarrow> msg \<Rightarrow> u32 \<Rightarrow> (evkind \<times> u32 \<times> bool) option \<Rightarrow> bool" where
  "call_ok st msg pend call =
     (case call of
        None \<Rightarrow> (\<forall>m. st \<noteq> TWtorevt m \<and> st \<noteq> TWtandevt m)
      | Some (kind, m, timed) \<Rightarrow>
          st = wait_state kind m \<and> \<not> wait_ready kind pend m \<or>
          (st = TReady \<or> st = TCurrent) \<and> (msg = MSG_OK \<and> wait_ready kind pend m \<or> timed \<and> msg = MSG_TIMEOUT))"

definition ev_inv :: "evs \<Rightarrow> bool" where
  "ev_inv s \<longleftrightarrow> kernel_ok (ev_k s) \<and> (\<forall>t. call_ok (ev_state s t) (ev_rdymsg s t) (ev_epending s t) (ev_call s t))"

lemma call_ok_simps [simp]:
  "call_ok st msg p None \<longleftrightarrow> (\<forall>m. st \<noteq> TWtorevt m \<and> st \<noteq> TWtandevt m)"
  "call_ok st msg p (Some (kind, m, timed)) \<longleftrightarrow>
     st = wait_state kind m \<and> \<not> wait_ready kind p m \<or>
     (st = TReady \<or> st = TCurrent) \<and> (msg = MSG_OK \<and> wait_ready kind p m \<or> timed \<and> msg = MSG_TIMEOUT)"
  by (simp_all add: call_ok_def)

lemma ev_invD: "ev_inv s \<Longrightarrow> call_ok (ev_state s t) (ev_rdymsg s t) (ev_epending s t) (ev_call s t)" "ev_inv s \<Longrightarrow> kernel_ok (ev_k s)"
  by (simp_all add: ev_inv_def)

lemma wait_state_suspended [simp]:
  "suspended (wait_state kind m)" "wait_state kind m \<noteq> TReady" "wait_state kind m \<noteq> TCurrent" "TReady \<noteq> wait_state kind m" "TCurrent \<noteq> wait_state kind m"
  by (cases kind; simp add: wait_state_def)+

lemma ev_fields [simp]:
  "ev_k (set_pending t m s) = ev_k s" "ev_rdymsg (set_pending t m s) = ev_rdymsg s" "ev_epending (set_pending t m s) = (ev_epending s)(t := m)"
  "ev_call (set_pending t m s) = ev_call s" "ev_listener (set_pending t m s) = ev_listener s" "ev_source (set_pending t m s) = ev_source s"
  by (simp_all add: set_pending_def)

text \<open>More events do not make a wait unready.\<close>

lemma wait_ready_or: "wait_ready kind p m \<Longrightarrow> wait_ready kind (or p x) m"
  by (cases kind) (auto simp: wait_ready_def bit_eq_iff bit_and_iff bit_or_iff)

lemma call_ok_or:
  assumes "call_ok st msg p call" and "\<not> (\<exists>kind m timed. call = Some (kind, m, timed) \<and> st = wait_state kind m \<and> wait_ready kind (or p x) m)"
  shows "call_ok st msg (or p x) call"
  using assms by (auto simp: call_ok_def wait_ready_or split: option.splits)

lemma signal_condition:
  assumes "call_ok st msg p call"
  shows "(case st of TWtorevt m \<Rightarrow> and q m \<noteq> 0 | TWtandevt m \<Rightarrow> and q m = m | _ \<Rightarrow> False) \<longleftrightarrow>
    (\<exists>kind m timed. call = Some (kind, m, timed) \<and> st = wait_state kind m \<and> wait_ready kind q m)"
proof (cases call)
  case None
  then show ?thesis using assms by (cases st) (auto simp: call_ok_def)
next
  case (Some c)
  obtain kind m timed where c: "c = (kind, m, timed)" by (cases c)
  then show ?thesis using assms Some by (cases kind; cases st) (auto simp: call_ok_def wait_state_def wait_ready_def)
qed

lemma chEvtSignalI_if:
  assumes "call_ok (ev_state s t) msg pend (ev_call s t)" and "p = or (ev_epending s t) events"
  shows "chEvtSignalI t events s =
    (if \<exists>kind m timed. ev_call s t = Some (kind, m, timed) \<and> ev_state s t = wait_state kind m \<and> wait_ready kind p m
     then on_ev_kernel (chSchReadyI t) ((set_pending t p s)\<lparr>ev_rdymsg := (ev_rdymsg s)(t := MSG_OK)\<rparr>)
     else Some (set_pending t p s))"
  unfolding chEvtSignalI_def Let_def ev_fields fun_upd_same assms(2) [symmetric] signal_condition [OF assms(1)] ..

text \<open>Signalling adds the events and wakes the thread when it waits for them.\<close>

lemma chEvtSignalI_ok:
  assumes "ev_inv s"
  shows "\<exists>s'. chEvtSignalI t m s = Some s' \<and> ev_inv s' \<and> ev_curr s' = ev_curr s \<and> ev_epending s' = (ev_epending s)(t := or (ev_epending s t) m) \<and>
    ev_call s' = ev_call s \<and> ev_listener s' = ev_listener s \<and> ev_source s' = ev_source s \<and> runnable (ev_k s) \<subseteq> runnable (ev_k s')"
proof -
  let ?p = "or (ev_epending s t) m"
  let ?w = "\<exists>kind m timed. ev_call s t = Some (kind, m, timed) \<and> ev_state s t = wait_state kind m \<and> wait_ready kind ?p m"
  have c: "call_ok (ev_state s u) (ev_rdymsg s u) (ev_epending s u) (ev_call s u)" for u using assms by (simp add: ev_inv_def)
  have k: "kernel_ok (ev_k s)" using assms by (simp add: ev_inv_def)
  note sc = chEvtSignalI_if [where t = t and events = m, OF c refl]
  show ?thesis
  proof (cases ?w)
    case True
    then have "asleep (ev_state s t)" by (auto simp: asleep_def)
    then obtain k' where k': "chSchReadyI t (ev_k s) = Some k'" "kernel_ok k'" "k_curr k' = ev_curr s" "tstate_of k' = (ev_state s)(t := TReady)"
      using ready_behind_ok [OF k] by (auto simp: chSchReadyI_def)
    let ?s = "(set_pending t ?p s)\<lparr>ev_rdymsg := (ev_rdymsg s)(t := MSG_OK), ev_k := k'\<rparr>"
    have "chEvtSignalI t m s = Some ?s" unfolding sc using True k'(1) by (simp only: if_True on_ev_kernel_def) simp
    moreover have "call_ok TReady MSG_OK ?p (ev_call s t)" using True by (auto simp: call_ok_def)
    then have "ev_inv ?s" using k'(2,4) c by (simp add: ev_inv_def)
    ultimately show ?thesis using k' by (intro exI [of _ ?s]) (auto simp: runnable_def)
  next
    case False
    then have "chEvtSignalI t m s = Some (set_pending t ?p s)" unfolding sc by (simp only: if_False)
    moreover have "ev_inv (set_pending t ?p s)" using k c call_ok_or [OF c [of t] False] by (simp add: ev_inv_def)
    ultimately show ?thesis by simp
  qed
qed

lemma bit_or_pending: "bit (or (p :: u32) m) n \<longleftrightarrow> bit p n \<or> bit m n"
  by (simp add: bit_or_iff)

definition notified :: "evs \<Rightarrow> u32 \<Rightarrow> nat list \<Rightarrow> tid \<Rightarrow> nat \<Rightarrow> bool" where
  "notified s flags l t n \<longleftrightarrow>
     (\<exists>el \<in> set l. el_listener (ev_listener s el) = t \<and> (flags = 0 \<or> and flags (el_wflags (ev_listener s el)) \<noteq> 0) \<and> bit (el_events (ev_listener s el)) n)"

lemma broadcast_loop_ok:
  assumes "ev_inv s"
  shows "\<exists>s'. broadcast_loop flags l s = Some s' \<and> ev_inv s' \<and> ev_curr s' = ev_curr s \<and> ev_call s' = ev_call s \<and> ev_source s' = ev_source s \<and>
    runnable (ev_k s) \<subseteq> runnable (ev_k s') \<and> (\<forall>t n. bit (ev_epending s' t) n \<longleftrightarrow> bit (ev_epending s t) n \<or> notified s flags l t n) \<and>
    (\<forall>el. ev_listener s' el = (if el \<in> set l then (ev_listener s el)\<lparr>el_flags := or (el_flags (ev_listener s el)) flags\<rparr> else ev_listener s el))"
  using assms
proof (induction l arbitrary: s)
  case Nil
  then show ?case by (simp add: notified_def)
next
  case (Cons a l)
  let ?el = "(ev_listener s a)\<lparr>el_flags := or (el_flags (ev_listener s a)) flags\<rparr>"
  let ?s = "s\<lparr>ev_listener := (ev_listener s)(a := ?el)\<rparr>"
  let ?b = "flags = 0 \<or> and flags (el_wflags (ev_listener s a)) \<noteq> 0"
  have inv: "ev_inv ?s" using Cons.prems by (simp add: ev_inv_def)
  obtain s1 where s1: "(if ?b then chEvtSignalI (el_listener ?el) (el_events ?el) ?s else Some ?s) = Some s1" "ev_inv s1" "ev_curr s1 = ev_curr s"
    "ev_call s1 = ev_call s" "ev_source s1 = ev_source s" "ev_listener s1 = (ev_listener s)(a := ?el)" "runnable (ev_k s) \<subseteq> runnable (ev_k s1)"
    "\<forall>t n. bit (ev_epending s1 t) n \<longleftrightarrow> bit (ev_epending s t) n \<or> ?b \<and> el_listener ?el = t \<and> bit (el_events ?el) n"
  proof (cases ?b)
    case True
    then show ?thesis using chEvtSignalI_ok [OF inv, of "el_listener ?el" "el_events ?el"] that by (auto simp: bit_or_pending)
  next
    case False
    then show ?thesis using that [of ?s] inv by simp
  qed
  obtain s' where s': "broadcast_loop flags l s1 = Some s'" "ev_inv s'" "ev_curr s' = ev_curr s1" "ev_call s' = ev_call s1" "ev_source s' = ev_source s1"
    "runnable (ev_k s1) \<subseteq> runnable (ev_k s')" "\<forall>t n. bit (ev_epending s' t) n \<longleftrightarrow> bit (ev_epending s1 t) n \<or> notified s1 flags l t n"
    "\<forall>el. ev_listener s' el = (if el \<in> set l then (ev_listener s1 el)\<lparr>el_flags := or (el_flags (ev_listener s1 el)) flags\<rparr> else ev_listener s1 el)"
    using Cons.IH [OF s1(2)] by blast
  have "notified s1 flags l t n = notified s flags l t n" for t n using s1(6) by (auto simp: notified_def)
  then have "\<forall>t n. bit (ev_epending s' t) n \<longleftrightarrow> bit (ev_epending s t) n \<or> notified s flags (a # l) t n"
    using s'(7) s1(8) by (auto simp: notified_def)
  moreover have "\<forall>el. ev_listener s' el = (if el \<in> set (a # l) then (ev_listener s el)\<lparr>el_flags := or (el_flags (ev_listener s el)) flags\<rparr> else ev_listener s el)"
    using s'(8) s1(6) by (auto simp: or.assoc)
  moreover have "broadcast_loop flags (a # l) s = Some s'" using s1(1) s'(1) by (simp add: Let_def)
  ultimately show ?case using s'(2-6) s1(3-5,7) by (intro exI [of _ s']) simp
qed

section \<open>Every step keeps the invariant\<close>

lemma call_ok_run: "call_ok st msg p call \<Longrightarrow> st = TReady \<or> st = TCurrent \<Longrightarrow> st' = TReady \<or> st' = TCurrent \<Longrightarrow> call_ok st' msg p call"
  by (auto simp: call_ok_def split: option.splits)

lemma ev_resched_ok:
  assumes "ev_inv s"
  shows "\<exists>k'. on_ev_kernel chSchRescheduleS s = Some (s\<lparr>ev_k := k'\<rparr>) \<and> ev_inv (s\<lparr>ev_k := k'\<rparr>) \<and> first_runs k' \<and> runnable k' = runnable (ev_k s)"
proof -
  obtain k' where k': "chSchRescheduleS (ev_k s) = Some k'" "kernel_ok k'" "first_runs k'" "runnable k' = runnable (ev_k s)"
    "\<forall>u. u \<notin> runnable (ev_k s) \<longrightarrow> tstate_of k' u = ev_state s u" using reschedule_ok [of "ev_k s"] assms by (auto simp: ev_inv_def)
  have "call_ok (tstate_of k' t) (ev_rdymsg s t) (ev_epending s t) (ev_call s t)" for t
  proof (cases "t \<in> runnable (ev_k s)")
    case True
    then have "tstate_of k' t = TReady \<or> tstate_of k' t = TCurrent" using k'(4) unfolding runnable_def by blast
    moreover have "ev_state s t = TReady \<or> ev_state s t = TCurrent" using True by (simp add: runnable_def)
    moreover have "call_ok (ev_state s t) (ev_rdymsg s t) (ev_epending s t) (ev_call s t)" using assms by (simp add: ev_inv_def)
    ultimately show ?thesis using call_ok_run by blast
  next
    case False
    then show ?thesis using k'(5) assms by (simp add: ev_inv_def)
  qed
  then have "ev_inv (s\<lparr>ev_k := k'\<rparr>)" using k'(2) by (simp add: ev_inv_def)
  then show ?thesis using k'(1,3,4) by (auto simp: on_ev_kernel_def)
qed

lemma ev_kern_ok:
  assumes i: "ev_inv s" and f: "first_runs (ev_k s)" and c: "ev_call s (ev_curr s) = None" and l: "legal e (ev_k s)"
  shows "\<exists>s'. vstep (VKern e) s = Some s' \<and> ev_inv s' \<and> first_runs (ev_k s')"
proof -
  have k: "kernel_ok (ev_k s)" using i by (simp add: ev_inv_def)
  obtain k' where k': "kstep e (ev_k s) = Some k'" "kernel_ok k'" "first_runs k'" "calm (ev_curr s) (ev_k s) k'" using kstep_ok [OF k f l] by blast
  let ?s0 = "case created e of None \<Rightarrow> s | Some t \<Rightarrow> set_pending t 0 s"
  have s0: "ev_k ?s0 = ev_k s" "ev_rdymsg ?s0 = ev_rdymsg s" "ev_call ?s0 = ev_call s" by (auto split: option.split)
  have "call_ok (tstate_of k' t) (ev_rdymsg s t) (ev_epending ?s0 t) (ev_call s t)" for t
  proof (cases "ev_call s t")
    case None
    then have "\<forall>m. ev_state s t \<noteq> TWtorevt m \<and> ev_state s t \<noteq> TWtandevt m" using ev_invD(1) [OF i, of t] by simp
    moreover have "\<not> suspended (tstate_of k' (ev_curr s))" using k'(4) by (simp add: calm_def)
    ultimately have "\<forall>m. tstate_of k' t \<noteq> TWtorevt m \<and> tstate_of k' t \<noteq> TWtandevt m"
      using k'(4) by (cases "t = ev_curr s") (auto simp: calm_def)
    then show ?thesis using None by (simp add: call_ok_def)
  next
    case (Some x)
    then have t: "t \<noteq> ev_curr s" using c by auto
    have co: "call_ok (ev_state s t) (ev_rdymsg s t) (ev_epending s t) (ev_call s t)" using i by (simp add: ev_inv_def)
    then have "ev_state s t \<noteq> TFinal" using Some by (auto simp: call_ok_def wait_state_def split: prod.splits evkind.splits)
    moreover from this have "created e \<noteq> Some t" using l by (cases e) auto
    then have "ev_epending ?s0 t = ev_epending s t" by (auto split: option.split)
    moreover have "suspended (ev_state s t) \<or> ev_state s t = TReady \<or> ev_state s t = TCurrent"
      using co Some by (auto simp: call_ok_def split: prod.splits)
    ultimately show ?thesis using co k'(4) t call_ok_run [OF co] unfolding calm_def by metis
  qed
  then have "ev_inv (?s0\<lparr>ev_k := k'\<rparr>)" using k'(2) s0 by (simp add: ev_inv_def)
  then show ?thesis using k'(1,3) s0 by (auto simp: on_ev_kernel_def)
qed

lemma take_ok:
  assumes "ev_inv s" and "ev_call s (ev_curr s) = None"
  shows "ev_inv (set_pending (ev_curr s) m s)"
proof -
  have "call_ok (ev_state s t) (ev_rdymsg s t) (((ev_epending s)(ev_curr s := m)) t) (ev_call s t)" for t
    using ev_invD(1) [OF assms(1), of t] assms(2) by (cases "t = ev_curr s") simp_all
  then show ?thesis using ev_invD(2) [OF assms(1)] by (simp add: ev_inv_def)
qed

lemma evt_wait_ok:
  assumes i: "ev_inv s" and f: "first_runs (ev_k s)" and c: "ev_call s (ev_curr s) = None" and n: "ev_curr s \<noteq> k_idle (ev_k s)"
  shows "\<exists>r s'. evt_wait kind m timeout s = Some (r, s') \<and> ev_inv s' \<and> first_runs (ev_k s')"
proof (cases "wait_ready kind (ev_epending s (ev_curr s)) m \<or> timeout = Some TIME_IMMEDIATE")
  case True
  then show ?thesis using i f take_ok [OF i c] by (auto simp: evt_wait_def wait_take_def Let_def)
next
  case False
  have k: "kernel_ok (ev_k s)" using i by (simp add: ev_inv_def)
  let ?c = "ev_curr s" let ?x = "wait_state kind m" let ?t = "timeout \<noteq> None \<and> timeout \<noteq> Some TIME_INFINITE"
  obtain k' ntp where k': "chSchGoSleepS ?x (ev_k s) = Some k'" "kernel_ok k'" "first_runs k'" "ev_state s ntp = TReady"
    "tstate_of k' = (ev_state s)(?c := ?x, ntp := TCurrent)" using gosleep_ok [OF k n, of ?x] by (auto simp: asleep_def)
  let ?s = "s\<lparr>ev_k := k', ev_call := (ev_call s)(?c := Some (kind, m, ?t))\<rparr>"
  have "ev_state s ?c = TCurrent" using k sched_okD(1) by (simp add: kernel_ok_def)
  then have ne: "ntp \<noteq> ?c" using k'(4) by auto
  have co: "call_ok (ev_state s t) (ev_rdymsg s t) (ev_epending s t) (ev_call s t)" for t using i by (simp add: ev_inv_def)
  have "call_ok TCurrent (ev_rdymsg s ntp) (ev_epending s ntp) (ev_call s ntp)" using call_ok_run [OF co [of ntp]] k'(4) by simp
  moreover have "call_ok ?x (ev_rdymsg s ?c) (ev_epending s ?c) (Some (kind, m, ?t))" using False by (simp add: call_ok_def)
  ultimately have "ev_inv ?s" using k'(2,5) co ne by (simp add: ev_inv_def)
  then show ?thesis using False k'(1,3) by (auto simp: evt_wait_def on_ev_kernel_def Let_def)
qed

text \<open>What the thread takes: the lowest of the events for \<open>chEvtWaitOne\<close>.\<close>

lemma lowest_bit:
  assumes "m \<noteq> 0"
  shows "\<exists>n < 32. lowest m = EVENT_MASK n \<and> bit m n \<and> (\<forall>i < n. \<not> bit m i)"
proof -
  obtain j where j: "bit m j" using assms by (auto simp: bit_eq_iff)
  define n where "n = (LEAST i. bit m i)"
  have n: "bit m n" "\<And>i. i < n \<Longrightarrow> \<not> bit m i" using j unfolding n_def by (auto intro: LeastI dest: not_less_Least)
  then have n32: "n < 32" using bit_imp_le_length [of m n] by simp
  define r where "r = and m (not (mask (Suc n)))"
  have "m = or r (push_bit n 1)"
  proof (rule bit_word_eqI)
    fix i assume "i < LENGTH(32)"
    then show "bit m i = bit (or r (push_bit n 1)) i"
      using n(1) n(2) [of i] by (cases i n rule: linorder_cases) (auto simp: r_def bit_or_iff bit_and_iff bit_not_iff bit_mask_iff bit_push_bit_iff bit_1_iff bit_exp_iff)
  qed
  moreover have "and r (push_bit n 1) = 0" "and r (mask n) = 0"
    by (auto simp: r_def bit_and_iff bit_not_iff bit_mask_iff bit_push_bit_iff bit_1_iff bit_exp_iff intro!: bit_word_eqI)
  then have "or r (push_bit n 1) = r + push_bit n 1" "or r (mask n) = r + mask n" by (simp_all add: disjunctive_add_eq_or)
  ultimately have "m - 1 = or r (mask n)" by (simp add: mask_eq_exp_minus_1 push_bit_eq_mult)
  then have "bit (m - 1) i \<longleftrightarrow> i < n \<or> bit m i \<and> n < i" if "i < 32" for i
    using that n32 by (auto simp: r_def bit_or_iff bit_and_iff bit_not_iff bit_mask_iff)
  note b = this
  have "lowest m = EVENT_MASK n"
  proof (rule bit_word_eqI)
    fix i assume i: "i < LENGTH(32)"
    then show "bit (lowest m) i = bit (EVENT_MASK n) i"
      using n(1) n(2) [of i] b [of i] by (cases i n rule: linorder_cases) (auto simp: lowest_def EVENT_MASK_def bit_xor_iff bit_and_iff bit_push_bit_iff bit_1_iff bit_exp_iff)
  qed
  then show ?thesis using n n32 by blast
qed

text \<open>What a finished wait has taken of the pending events \<open>p\<close>.\<close>

definition taken :: "evkind \<Rightarrow> u32 \<Rightarrow> u32 \<Rightarrow> u32 \<Rightarrow> bool" where
  "taken kind p events m \<longleftrightarrow>
     (case kind of
        WaitOne \<Rightarrow> \<exists>n < 32. m = EVENT_MASK n \<and> bit p n \<and> bit events n \<and> (\<forall>i < n. \<not> (bit p i \<and> bit events i))
      | WaitAny \<Rightarrow> m = and p events \<and> m \<noteq> 0
      | WaitAll \<Rightarrow> m = events \<and> and p events = events)"

lemma wait_take_taken:
  assumes "wait_ready kind (ev_epending s (ev_curr s)) events"
  shows "\<exists>m. wait_take kind events s = (m, set_pending (ev_curr s) (and (ev_epending s (ev_curr s)) (not m)) s) \<and> taken kind (ev_epending s (ev_curr s)) events m"
proof (cases kind)
  case WaitOne
  then have "and (ev_epending s (ev_curr s)) events \<noteq> 0" using assms by (simp add: wait_ready_def)
  from lowest_bit [OF this] show ?thesis using WaitOne by (auto simp: wait_take_def Let_def taken_def bit_and_iff)
qed (use assms in \<open>simp_all add: wait_take_def Let_def taken_def wait_ready_def\<close>)

lemma evt_return_ok:
  assumes i: "ev_inv s" and c: "ev_call s (ev_curr s) = Some (kind, events, timed)"
  shows "\<exists>m s'. evt_return s = Some (m, s') \<and> ev_inv s' \<and> ev_k s' = ev_k s \<and>
    ev_epending s' = (ev_epending s)(ev_curr s := and (ev_epending s (ev_curr s)) (not m)) \<and>
    (if timed \<and> ev_rdymsg s (ev_curr s) = MSG_TIMEOUT then m = 0 else taken kind (ev_epending s (ev_curr s)) events m)"
proof -
  let ?c = "ev_curr s" and ?s = "s\<lparr>ev_call := (ev_call s)(ev_curr s := None)\<rparr>"
  have st: "ev_state s ?c = TCurrent" using ev_invD(2) [OF i] sched_okD(1) by (simp add: kernel_ok_def)
  then have m: "ev_rdymsg s ?c = MSG_OK \<and> wait_ready kind (ev_epending s ?c) events \<or> timed \<and> ev_rdymsg s ?c = MSG_TIMEOUT"
    using ev_invD(1) [OF i, of ?c] c by simp
  have i': "ev_inv ?s" using i st by (simp add: ev_inv_def)
  show ?thesis
  proof (cases "timed \<and> ev_rdymsg s ?c = MSG_TIMEOUT")
    case True
    then show ?thesis using c i' by (auto simp: evt_return_def Let_def)
  next
    case False
    then have ok: "ev_rdymsg s ?c = MSG_OK" "wait_ready kind (ev_epending ?s (ev_curr ?s)) events" using m by auto
    obtain m where "wait_take kind events ?s = (m, set_pending ?c (and (ev_epending s ?c) (not m)) ?s)" "taken kind (ev_epending s ?c) events m"
      using wait_take_taken [OF ok(2)] by auto
    moreover have "ev_inv (set_pending ?c (and (ev_epending s ?c) (not m)) ?s)" using take_ok [OF i', of "and (ev_epending s ?c) (not m)"] by simp
    ultimately show ?thesis using False c ok(1) by (auto simp: evt_return_def Let_def)
  qed
qed

lemma evt_timeout_ok:
  assumes i: "ev_inv s" and c: "ev_call s t = Some (kind, m, True)" and st: "ev_state s t = wait_state kind m"
  shows "\<exists>s'. evt_timeout t s = Some s' \<and> ev_inv s'"
proof -
  have "asleep (ev_state s t)" using st by (simp add: asleep_def)
  then obtain k' where k': "sch_ready_behind t (ev_k s) = Some k'" "kernel_ok k'" "tstate_of k' = (ev_state s)(t := TReady)"
    using ready_behind_ok [OF ev_invD(2) [OF i]] by blast
  have "ev_inv (s\<lparr>ev_rdymsg := (ev_rdymsg s)(t := MSG_TIMEOUT), ev_k := k'\<rparr>)" using i k'(2,3) c by (simp add: ev_inv_def)
  then show ?thesis using k'(1) by (simp add: evt_timeout_def on_ev_kernel_def)
qed

lemma broadcast_ok:
  assumes "ev_inv s"
  shows "\<exists>s'. chEvtBroadcastFlags es f s = Some s' \<and> ev_inv s' \<and> first_runs (ev_k s') \<and>
    (\<forall>t n. bit (ev_epending s' t) n \<longleftrightarrow> bit (ev_epending s t) n \<or> notified s f (ev_source s es) t n) \<and>
    (\<forall>el \<in> set (ev_source s es). el_flags (ev_listener s' el) = or (el_flags (ev_listener s el)) f)"
proof -
  obtain s1 where s1: "chEvtBroadcastFlagsI es f s = Some s1" "ev_inv s1"
    "\<forall>t n. bit (ev_epending s1 t) n \<longleftrightarrow> bit (ev_epending s t) n \<or> notified s f (ev_source s es) t n"
    "\<forall>el. ev_listener s1 el = (if el \<in> set (ev_source s es) then (ev_listener s el)\<lparr>el_flags := or (el_flags (ev_listener s el)) f\<rparr> else ev_listener s el)"
    using broadcast_loop_ok [OF assms] unfolding chEvtBroadcastFlagsI_def by blast
  then show ?thesis using ev_resched_ok [OF s1(2)] by (auto simp: chEvtBroadcastFlags_def)
qed

lemma signal_ok:
  assumes "ev_inv s"
  shows "\<exists>s'. chEvtSignal t m s = Some s' \<and> ev_inv s' \<and> first_runs (ev_k s') \<and> ev_epending s' = (ev_epending s)(t := or (ev_epending s t) m) \<and>
    ev_call s' = ev_call s"
proof -
  obtain s1 where s1: "chEvtSignalI t m s = Some s1" "ev_inv s1" "ev_epending s1 = (ev_epending s)(t := or (ev_epending s t) m)" "ev_call s1 = ev_call s"
    using chEvtSignalI_ok [OF assms] by blast
  then show ?thesis using ev_resched_ok [OF s1(2)] by (auto simp: chEvtSignal_def)
qed

lemma vstep_ok:
  assumes i: "ev_inv s" and f: "first_runs (ev_k s)" and l: "v_legal e s"
  shows "\<exists>s'. vstep e s = Some s' \<and> ev_inv s' \<and> first_runs (ev_k s')"
proof -
  have c: "e \<noteq> VReturn \<Longrightarrow> ev_call s (ev_curr s) = None" and a: "v_allowed e s" using l unfolding v_legal_def by blast+
  note tk = take_ok [OF i c]
  show ?thesis
  proof (cases e)
    case (VKern ke)
    then show ?thesis using ev_kern_ok [OF i f c, of ke] a by auto
  next
    case (VSignal t m)
    then show ?thesis using signal_ok [OF i, of t m] by auto
  next
    case (VSignalIsr t m)
    then show ?thesis using signal_ok [OF i, of t m] by (auto simp: chEvtSignal_def isr_epilogue_reschedule [abs_def])
  next
    case (VBroadcast es fl)
    then show ?thesis using broadcast_ok [OF i, of es fl] by auto
  next
    case (VBroadcastIsr es fl)
    then show ?thesis using broadcast_ok [OF i, of es fl] by (auto simp: chEvtBroadcastFlags_def isr_epilogue_reschedule [abs_def])
  next
    case (VWait kind m timeout)
    then show ?thesis using evt_wait_ok [OF i f c, of kind m timeout] a by auto
  next
    case VReturn
    then obtain kind m timed where "ev_call s (ev_curr s) = Some (kind, m, timed)" using l by (auto simp: v_legal_def)
    from evt_return_ok [OF i this] show ?thesis using VReturn f by auto
  next
    case (VTimeout t)
    then obtain kind m where t: "ev_call s t = Some (kind, m, True)" "ev_state s t = wait_state kind m" using a by (auto split: option.splits)
    obtain s1 where s1: "evt_timeout t s = Some s1" "ev_inv s1" using evt_timeout_ok [OF i t] by blast
    then show ?thesis using VTimeout ev_resched_ok [OF s1(2)] by (auto simp: isr_epilogue_reschedule [abs_def])
  qed (use i f tk in \<open>auto simp: chEvtObjectInit_def chEvtRegisterMaskWithFlagsI_def chEvtUnregister_def chEvtGetAndClearEventsI_def
      chEvtAddEventsI_def chEvtGetAndClearFlagsI_def Let_def ev_inv_def\<close>)
qed

lemma ev_reach_ok:
  assumes "ev_reach s"
  shows "ev_inv s \<and> first_runs (ev_k s)"
  using assms
proof induction
  case (EvBoot mainthread idle s)
  obtain k where k: "chInstanceObjectInit mainthread idle = Some k" "kernel_ok k" "first_runs k" using boot_ok [OF EvBoot(1)] by blast
  have "tstate_of k t \<noteq> TWtorevt m \<and> tstate_of k t \<noteq> TWtandevt m" for t m
    using k(1) by (auto simp: chInstanceObjectInit_def chThdCreateI_def chThdCreateSuspendedI_def chSchReadyI_def sch_ready_behind_def Let_def
        tstate_of_def set_state_def thd_object_init_def split: if_splits)
  then show ?case using EvBoot(2) k by (auto simp: ev_init_def ev_inv_def)
next
  case (EvStep s e s')
  then show ?case using vstep_ok [of s e] by auto
qed

text \<open>Dispatching calls the handlers of exactly the given events, in order.\<close>

lemma chEvtDispatch_all:
  assumes "\<forall>i. bit events i \<longrightarrow> handlers i"
  shows "chEvtDispatch handlers events = Some (filter (bit events) [0..<32])"
proof -
  have "dispatch_loop handlers eid ev = Some (filter (bit ev) [eid..<32])" if "\<forall>i. bit ev i \<longrightarrow> eid \<le> i \<and> handlers i" "eid \<le> 32" for eid and ev :: u32
    using that
  proof (induction "32 - eid" arbitrary: eid ev)
    case 0
    then have "ev = 0" using bit_imp_le_length [of ev] by (intro bit_word_eqI) fastforce
    then show ?case by (simp add: dispatch_loop.simps)
  next
    case (Suc k)
    let ?ev = "and ev (not (EVENT_MASK eid))"
    have up: "[eid..<32] = eid # [Suc eid..<32]" using Suc.hyps(2) by (simp add: upt_conv_Cons)
    have b: "bit ?ev i \<longleftrightarrow> bit ev i \<and> i \<noteq> eid" if "i < 32" for i
      using that by (auto simp: EVENT_MASK_def bit_and_iff bit_not_iff bit_push_bit_iff bit_1_iff bit_exp_iff)
    have b32: "bit w i \<Longrightarrow> i < 32" for w :: u32 and i using bit_imp_le_length [of w i] by simp
    have "\<forall>i. bit ?ev i \<longrightarrow> Suc eid \<le> i \<and> handlers i" using Suc.prems(1) b b32 by (metis le_antisym not_less_eq_eq)
    then have ih: "dispatch_loop handlers (Suc eid) ?ev = Some (filter (bit ?ev) [Suc eid..<32])" using Suc.hyps by (intro Suc.hyps(1)) simp_all
    have fl: "filter (bit ?ev) [Suc eid..<32] = filter (bit ev) [Suc eid..<32]" by (rule filter_cong) (use b in auto)
    have t: "and ev (EVENT_MASK eid) \<noteq> 0 \<longleftrightarrow> bit ev eid"
    proof -
      have "bit (and ev (EVENT_MASK eid)) i \<longleftrightarrow> i = eid \<and> bit ev eid" for i
        using b32 [of ev eid] by (auto simp: EVENT_MASK_def bit_and_iff bit_push_bit_iff bit_1_iff bit_exp_iff)
      then show ?thesis by (metis bit_0_eq bot_apply bot_bool_def bit_word_eqI)
    qed
    show ?case
    proof (cases "bit ev eid")
      case True
      then have "ev \<noteq> 0" by auto
      then show ?thesis using True t Suc.prems(1) ih fl up by (subst dispatch_loop.simps) simp
    next
      case False
      then have "?ev = ev" using b by (intro bit_word_eqI) auto
      then show ?thesis using False t ih up by (subst dispatch_loop.simps) auto
    qed
  qed
  from this [of events 0] assms show ?thesis by (simp add: chEvtDispatch_def)
qed

lemma chEvtObjectDispose_inverted: "chEvtObjectDispose es (chEvtObjectInit es s) = None"
  by (simp add: chEvtObjectDispose_def chEvtObjectInit_def)

section \<open>Properties\<close>

text \<open>
  C25. No event is lost. In every history no assertion fails, and no thread waits for events it has
  already. Signalling adds events to the pending ones of the thread and takes none away, and lets it run when
  they are what it waits for; broadcasting adds to every thread exactly the events of its listeners at the
  source whose flags match, and the flags to every listener. A wait ends with what it waited for,
  the lowest of the events for a wait for one, and takes just that from the pending events; or it timed out and takes nothing.
\<close>

theorem events_not_lost:
  assumes "ev_reach s"
  shows "(\<forall>t m. (ev_state s t = TWtorevt m \<longrightarrow> and (ev_epending s t) m = 0) \<and> (ev_state s t = TWtandevt m \<longrightarrow> and (ev_epending s t) m \<noteq> m)) \<and>
    (\<forall>e. v_legal e s \<longrightarrow> vstep e s \<noteq> None) \<and>
    (\<forall>t m. \<exists>s'. chEvtSignal t m s = Some s' \<and> ev_epending s' = (ev_epending s)(t := or (ev_epending s t) m) \<and>
       (\<forall>kind w timed. ev_call s t = Some (kind, w, timed) \<and> wait_ready kind (or (ev_epending s t) m) w \<longrightarrow> t \<in> runnable (ev_k s'))) \<and>
    (\<forall>es f. \<exists>s'. chEvtBroadcastFlags es f s = Some s' \<and>
       (\<forall>t n. bit (ev_epending s' t) n \<longleftrightarrow> bit (ev_epending s t) n \<or> notified s f (ev_source s es) t n) \<and>
       (\<forall>el \<in> set (ev_source s es). el_flags (ev_listener s' el) = or (el_flags (ev_listener s el)) f)) \<and>
    (\<forall>kind events timed. ev_call s (ev_curr s) = Some (kind, events, timed) \<longrightarrow>
       (\<exists>m s'. evt_return s = Some (m, s') \<and> ev_epending s' = (ev_epending s)(ev_curr s := and (ev_epending s (ev_curr s)) (not m)) \<and>
          (if timed \<and> ev_rdymsg s (ev_curr s) = MSG_TIMEOUT then m = 0 else taken kind (ev_epending s (ev_curr s)) events m)))"
proof -
  have i: "ev_inv s" and f: "first_runs (ev_k s)" using ev_reach_ok [OF assms] by simp_all
  have "(ev_state s t = TWtorevt m \<longrightarrow> and (ev_epending s t) m = 0) \<and> (ev_state s t = TWtandevt m \<longrightarrow> and (ev_epending s t) m \<noteq> m)" for t m
  proof (cases "ev_call s t")
    case (Some c)
    obtain kind w timed where "c = (kind, w, timed)" by (cases c)
    then show ?thesis using ev_invD(1) [OF i, of t] Some by (cases kind) (auto simp: wait_state_def wait_ready_def)
  qed (use ev_invD(1) [OF i, of t] in simp)
  moreover have "vstep e s \<noteq> None" if "v_legal e s" for e using vstep_ok [OF i f that] by auto
  moreover have "\<exists>s'. chEvtSignal t m s = Some s' \<and> ev_epending s' = (ev_epending s)(t := or (ev_epending s t) m) \<and>
       (\<forall>kind w timed. ev_call s t = Some (kind, w, timed) \<and> wait_ready kind (or (ev_epending s t) m) w \<longrightarrow> t \<in> runnable (ev_k s'))" for t m
  proof -
    obtain s' where s': "chEvtSignal t m s = Some s'" "ev_inv s'" "ev_epending s' = (ev_epending s)(t := or (ev_epending s t) m)" "ev_call s' = ev_call s"
      using signal_ok [OF i] by blast
    then show ?thesis using ev_invD(1) [OF s'(2), of t] by (intro exI [of _ s']) (auto simp: runnable_def)
  qed
  moreover note broadcast_ok [OF i] evt_return_ok [OF i]
  ultimately show ?thesis by blast
qed

text \<open>The main thread, number 1, waits for the first two events; the idle thread sends it the second.\<close>

theorem events_not_lost_witness:
  "\<exists>s s'. ev_reach s \<and> ev_state s 1 = TWtorevt 3 \<and> and (ev_epending s 1) 3 = 0 \<and> chEvtSignal 1 2 s = Some s' \<and> ev_epending s' 1 = 2 \<and> 1 \<in> runnable (ev_k s')"
proof -
  have "map_option (\<lambda>s. v_legal (VWait WaitAny 3 None) s) (ev_init 1 0) = Some True" by code_simp
  then obtain s0 where s0: "ev_init 1 0 = Some s0" "v_legal (VWait WaitAny 3 None) s0" by auto
  have "map_option (\<lambda>s. (ev_state s 1, ev_epending s 1, ev_call s 1)) (Option.bind (ev_init 1 0) (vstep (VWait WaitAny 3 None))) =
      Some (TWtorevt 3, 0, Some (WaitAny, 3, False))" by code_simp
  then obtain s1 where s1: "vstep (VWait WaitAny 3 None) s0 = Some s1" "ev_state s1 1 = TWtorevt 3" "ev_epending s1 1 = 0"
    "ev_call s1 1 = Some (WaitAny, 3, False)" using s0(1) by auto
  have "ev_reach s0" using ev_reach.EvBoot [OF _ s0(1)] by simp
  then have r: "ev_reach s1" using ev_reach.EvStep s0(2) s1(1) by blast
  have "wait_ready WaitAny (or (ev_epending s1 1) 2) 3" using s1(3) by (simp add: wait_ready_def)
  then obtain s' where "chEvtSignal 1 2 s1 = Some s'" "ev_epending s' = (ev_epending s1)(1 := or (ev_epending s1 1) 2)" "1 \<in> runnable (ev_k s')"
    using events_not_lost [OF r] s1(4) by blast
  then show ?thesis using r s1(2,3) by (intro exI [of _ s1] exI [of _ s']) simp
qed

end
