(* ===== verification/Mac.thy ===== *)
theory Mac
  imports Ring "HOL-Library.Monad_Syntax"
begin

text \<open>
  The Ethernet driver, \<open>MACv1/hal_mac_lld.c\<close> with the waits of \<open>hal_mac.c\<close>, and the frame handling of the network interface thread
  \<open>lwipthread.c\<close> with the allocation of packet buffers from \<open>pbuf.c\<close>. The descriptors form two rings, shared with the DMA engine of the
  Ethernet hardware, which owns those with the bit \<open>OWN\<close>; a pointer to a descriptor is its index, and the link to the next one, which never
  changes, is \<open>next_rx\<close> and \<open>next_tx\<close>. A chain of packet buffers is the list of their payloads. \<open>None\<close> is a failed assertion, a read outside a
  buffer, or a loop that does not end. The request that resumes a suspended DMA engine has no counterpart: in the histories below the engine may always take its next step.
\<close>

record rx_desc =
  rdes0 :: u32
  rx_buf :: "u8 list"

record tx_desc =
  tdes0 :: u32
  tdes1 :: nat
  tx_buf :: "u8 list"

record MACDriver =
  mac_link_up :: bool
  mac_rx :: "rx_desc list"
  mac_rxptr :: nat
  mac_tx :: "tx_desc list"
  mac_txptr :: nat
  mac_maccr :: u32

record MACTransmitDescriptor =
  td_offset :: nat
  td_size :: nat
  td_physdesc :: nat

record MACReceiveDescriptor =
  rd_offset :: nat
  rd_size :: nat
  rd_physdesc :: nat

definition STM32_RDES0_OWN :: u32 where "STM32_RDES0_OWN = 0x80000000"
definition STM32_RDES0_AFM :: u32 where "STM32_RDES0_AFM = 0x40000000"
definition STM32_RDES0_FL_MASK :: u32 where "STM32_RDES0_FL_MASK = 0x3FFF0000"
definition STM32_RDES0_ES :: u32 where "STM32_RDES0_ES = 0x00008000"
definition STM32_RDES0_FS :: u32 where "STM32_RDES0_FS = 0x00000200"
definition STM32_RDES0_LS :: u32 where "STM32_RDES0_LS = 0x00000100"
definition STM32_TDES0_OWN :: u32 where "STM32_TDES0_OWN = 0x80000000"
definition STM32_TDES0_IC :: u32 where "STM32_TDES0_IC = 0x40000000"
definition STM32_TDES0_LS :: u32 where "STM32_TDES0_LS = 0x20000000"
definition STM32_TDES0_FS :: u32 where "STM32_TDES0_FS = 0x10000000"
definition STM32_TDES0_LOCKED :: u32 where "STM32_TDES0_LOCKED = 0x01000000"
definition STM32_TDES0_TCH :: u32 where "STM32_TDES0_TCH = 0x00100000"
definition STM32_MAC_TRANSMIT_BUFFERS :: nat where "STM32_MAC_TRANSMIT_BUFFERS = 2"
definition STM32_MAC_RECEIVE_BUFFERS :: nat where "STM32_MAC_RECEIVE_BUFFERS = 4"
definition STM32_MAC_BUFFERS_SIZE :: nat where "STM32_MAC_BUFFERS_SIZE = 1522"

definition ETH_MACCR_RE :: u32 where "ETH_MACCR_RE = 0x00000004"
definition ETH_MACCR_TE :: u32 where "ETH_MACCR_TE = 0x00000008"

definition mac_lld_init :: MACDriver where
  "mac_lld_init =
     \<lparr>mac_link_up = False, mac_rx = replicate STM32_MAC_RECEIVE_BUFFERS \<lparr>rdes0 = 0, rx_buf = replicate STM32_MAC_BUFFERS_SIZE 0\<rparr>, mac_rxptr = 0,
      mac_tx = replicate STM32_MAC_TRANSMIT_BUFFERS \<lparr>tdes0 = 0, tdes1 = 0, tx_buf = replicate STM32_MAC_BUFFERS_SIZE 0\<rparr>, mac_txptr = 0, mac_maccr = 0\<rparr>"

definition mac_reset_descriptors :: "MACDriver \<Rightarrow> MACDriver" where
  "mac_reset_descriptors macp =
     macp\<lparr>mac_rx := map (\<lambda>d. d\<lparr>rdes0 := STM32_RDES0_OWN\<rparr>) (mac_rx macp), mac_rxptr := 0,
          mac_tx := map (\<lambda>d. d\<lparr>tdes0 := STM32_TDES0_TCH\<rparr>) (mac_tx macp), mac_txptr := 0\<rparr>"

definition mac_lld_start :: "MACDriver \<Rightarrow> MACDriver" where
  "mac_lld_start macp = (mac_reset_descriptors macp)\<lparr>mac_maccr := ETH_MACCR_RE OR ETH_MACCR_TE\<rparr>"

definition next_rx :: "MACDriver \<Rightarrow> nat \<Rightarrow> nat" where "next_rx macp i = (i + 1) mod length (mac_rx macp)"
definition next_tx :: "MACDriver \<Rightarrow> nat \<Rightarrow> nat" where "next_tx macp i = (i + 1) mod length (mac_tx macp)"

definition set_rx :: "nat \<Rightarrow> (rx_desc \<Rightarrow> rx_desc) \<Rightarrow> MACDriver \<Rightarrow> MACDriver" where
  "set_rx i f macp = macp\<lparr>mac_rx := (mac_rx macp)[i := f (mac_rx macp ! i)]\<rparr>"

definition set_tx :: "nat \<Rightarrow> (tx_desc \<Rightarrow> tx_desc) \<Rightarrow> MACDriver \<Rightarrow> MACDriver" where
  "set_tx i f macp = macp\<lparr>mac_tx := (mac_tx macp)[i := f (mac_tx macp ! i)]\<rparr>"

section \<open>Transmission\<close>

definition mac_lld_get_transmit_descriptor :: "MACDriver \<Rightarrow> MACTransmitDescriptor option \<times> MACDriver" where
  "mac_lld_get_transmit_descriptor macp =
     (if \<not> mac_link_up macp then (None, macp)
      else let tdes = mac_txptr macp in
           if tdes0 (mac_tx macp ! tdes) AND (STM32_TDES0_OWN OR STM32_TDES0_LOCKED) \<noteq> 0 then (None, macp)
           else let macp = set_tx tdes (\<lambda>d. d\<lparr>tdes0 := tdes0 d OR STM32_TDES0_LOCKED\<rparr>) macp;
                    macp = macp\<lparr>mac_txptr := next_tx macp tdes\<rparr>
                in (Some \<lparr>td_offset = 0, td_size = STM32_MAC_BUFFERS_SIZE, td_physdesc = tdes\<rparr>, macp))"

definition overwrite :: "nat \<Rightarrow> u8 list \<Rightarrow> u8 list \<Rightarrow> u8 list" where
  "overwrite off bs buf = take off buf @ bs @ drop (off + length bs) buf"

definition mac_lld_write_transmit_descriptor ::
    "u8 list \<Rightarrow> MACTransmitDescriptor \<Rightarrow> MACDriver \<Rightarrow> (MACTransmitDescriptor \<times> MACDriver) option" where
  "mac_lld_write_transmit_descriptor buf tdp macp =
     (if tdes0 (mac_tx macp ! td_physdesc tdp) AND STM32_TDES0_OWN \<noteq> 0 then None
      else let sz = min (length buf) (td_size tdp - td_offset tdp) in
           if sz > 0
           then Some (tdp\<lparr>td_offset := td_offset tdp + sz\<rparr>,
                      set_tx (td_physdesc tdp) (\<lambda>d. d\<lparr>tx_buf := overwrite (td_offset tdp) (take sz buf) (tx_buf d)\<rparr>) macp)
           else Some (tdp, macp))"

definition mac_lld_release_transmit_descriptor :: "MACTransmitDescriptor \<Rightarrow> MACDriver \<Rightarrow> MACDriver option" where
  "mac_lld_release_transmit_descriptor tdp macp =
     (if tdes0 (mac_tx macp ! td_physdesc tdp) AND STM32_TDES0_OWN \<noteq> 0 then None
      else Some (set_tx (td_physdesc tdp)
        (\<lambda>d. d\<lparr>tdes1 := td_offset tdp,
               tdes0 := STM32_TDES0_IC OR STM32_TDES0_LS OR STM32_TDES0_FS OR STM32_TDES0_TCH OR STM32_TDES0_OWN\<rparr>) macp))"

section \<open>Reception\<close>

definition rx_valid :: "u32 \<Rightarrow> bool" where
  "rx_valid w \<longleftrightarrow> w AND (STM32_RDES0_AFM OR STM32_RDES0_ES) = 0 \<and> w AND STM32_RDES0_FS \<noteq> 0 \<and> w AND STM32_RDES0_LS \<noteq> 0"

definition rx_size :: "u32 \<Rightarrow> nat" where
  "rx_size w = unat (drop_bit 16 (w AND STM32_RDES0_FL_MASK) - 4)"

partial_function (option) get_receive_loop :: "nat \<Rightarrow> MACDriver \<Rightarrow> (MACReceiveDescriptor option \<times> MACDriver) option" where
  "get_receive_loop rdes macp =
     (if rdes0 (mac_rx macp ! rdes) AND STM32_RDES0_OWN = 0
      then if rx_valid (rdes0 (mac_rx macp ! rdes))
           then Some (Some \<lparr>rd_offset = 0, rd_size = rx_size (rdes0 (mac_rx macp ! rdes)), rd_physdesc = rdes\<rparr>, macp\<lparr>mac_rxptr := next_rx macp rdes\<rparr>)
           else let macp = set_rx rdes (\<lambda>d. d\<lparr>rdes0 := STM32_RDES0_OWN\<rparr>) macp
                in get_receive_loop (next_rx macp rdes) macp
      else Some (None, macp\<lparr>mac_rxptr := rdes\<rparr>))"

definition mac_lld_get_receive_descriptor :: "MACDriver \<Rightarrow> (MACReceiveDescriptor option \<times> MACDriver) option" where
  "mac_lld_get_receive_descriptor macp = get_receive_loop (mac_rxptr macp) macp"


definition mac_lld_release_receive_descriptor :: "MACReceiveDescriptor \<Rightarrow> MACDriver \<Rightarrow> MACDriver option" where
  "mac_lld_release_receive_descriptor rdp macp =
     (if rdes0 (mac_rx macp ! rd_physdesc rdp) AND STM32_RDES0_OWN \<noteq> 0 then None
      else Some (set_rx (rd_physdesc rdp) (\<lambda>d. d\<lparr>rdes0 := STM32_RDES0_OWN\<rparr>) macp))"

declare get_receive_loop.simps [code]

section \<open>Link status\<close>

text \<open>The registers of the PHY are arguments, the mode of the MAC is the register \<open>MACCR\<close>.\<close>

definition BMCR_FULLDPLX :: u32 where "BMCR_FULLDPLX = 0x0100"
definition BMCR_ANENABLE :: u32 where "BMCR_ANENABLE = 0x1000"
definition BMCR_SPEED100 :: u32 where "BMCR_SPEED100 = 0x2000"
definition BMSR_LSTATUS :: u32 where "BMSR_LSTATUS = 0x0004"
definition BMSR_RFAULT :: u32 where "BMSR_RFAULT = 0x0010"
definition BMSR_ANEGCOMPLETE :: u32 where "BMSR_ANEGCOMPLETE = 0x0020"
definition LPA_10FULL :: u32 where "LPA_10FULL = 0x0040"
definition LPA_100HALF :: u32 where "LPA_100HALF = 0x0080"
definition LPA_100FULL :: u32 where "LPA_100FULL = 0x0100"
definition LPA_100BASE4 :: u32 where "LPA_100BASE4 = 0x0200"
definition ETH_MACCR_FES :: u32 where "ETH_MACCR_FES = 0x4000"
definition ETH_MACCR_DM :: u32 where "ETH_MACCR_DM = 0x0800"

definition set_mode :: "bool \<Rightarrow> u32 \<Rightarrow> u32 \<Rightarrow> u32" where
  "set_mode b flag maccr = (if b then maccr OR flag else maccr AND NOT flag)"

definition mac_lld_poll_link_status :: "u32 \<Rightarrow> u32 \<Rightarrow> u32 \<Rightarrow> MACDriver \<Rightarrow> bool \<times> MACDriver" where
  "mac_lld_poll_link_status bmsr bmcr lpa macp =
     (if bmcr AND BMCR_ANENABLE \<noteq> 0
      then if bmsr AND (BMSR_LSTATUS OR BMSR_RFAULT OR BMSR_ANEGCOMPLETE) \<noteq> (BMSR_LSTATUS OR BMSR_ANEGCOMPLETE)
           then (False, macp\<lparr>mac_link_up := False\<rparr>)
           else (True, macp\<lparr>mac_link_up := True,
                   mac_maccr := set_mode (lpa AND (LPA_10FULL OR LPA_100FULL) \<noteq> 0) ETH_MACCR_DM
                     (set_mode (lpa AND (LPA_100HALF OR LPA_100FULL OR LPA_100BASE4) \<noteq> 0) ETH_MACCR_FES (mac_maccr macp))\<rparr>)
      else if bmsr AND BMSR_LSTATUS = 0
           then (False, macp\<lparr>mac_link_up := False\<rparr>)
           else (True, macp\<lparr>mac_link_up := True,
                   mac_maccr := set_mode (bmcr AND BMCR_FULLDPLX \<noteq> 0) ETH_MACCR_DM (set_mode (bmcr AND BMCR_SPEED100 \<noteq> 0) ETH_MACCR_FES (mac_maccr macp))\<rparr>))"

section \<open>The interface of the network stack\<close>

text \<open>
  Sending waits for a descriptor. \<open>wakes\<close> lists what happens each time the caller sleeps: the message it
  is woken with, and what the interrupt and the hardware did to the driver.
\<close>

fun macWaitTransmitDescriptor ::
    "(msg \<times> (MACDriver \<Rightarrow> MACDriver)) list \<Rightarrow> MACDriver \<Rightarrow> (MACTransmitDescriptor option \<times> MACDriver) option" where
  "macWaitTransmitDescriptor wakes macp =
     (case mac_lld_get_transmit_descriptor macp of
        (Some td, macp) \<Rightarrow> Some (Some td, macp)
      | (None, macp) \<Rightarrow>
          (case wakes of
             [] \<Rightarrow> None
           | (msg, f) # wakes \<Rightarrow> if msg = MSG_TIMEOUT then Some (None, f macp) else macWaitTransmitDescriptor wakes (f macp)))"

primrec write_chain :: "u8 list list \<Rightarrow> MACTransmitDescriptor \<Rightarrow> MACDriver \<Rightarrow> (MACTransmitDescriptor \<times> MACDriver) option" where
  "write_chain [] td macp = Some (td, macp)"
| "write_chain (q # p) td macp = do { (td, macp) \<leftarrow> mac_lld_write_transmit_descriptor q td macp; write_chain p td macp }"

text \<open>The result tells whether the frame was sent (\<open>ERR_OK\<close>) or the wait timed out (\<open>ERR_TIMEOUT\<close>).\<close>

definition low_level_output :: "(msg \<times> (MACDriver \<Rightarrow> MACDriver)) list \<Rightarrow> u8 list list \<Rightarrow> MACDriver \<Rightarrow> (bool \<times> MACDriver) option" where
  "low_level_output wakes p macp =
     do { (td, macp) \<leftarrow> macWaitTransmitDescriptor wakes macp;
          case td of
            None \<Rightarrow> Some (False, macp)
          | Some td \<Rightarrow> do { (td, macp) \<leftarrow> write_chain p td macp;
                            macp \<leftarrow> mac_lld_release_transmit_descriptor td macp;
                            Some (True, macp) } }"

















section \<open>Histories\<close>

text \<open>
  The driver together with the hardware. The DMA engine works through the rings on its own: \<open>net_drx\<close>
  and \<open>net_dtx\<close> are its positions. A received frame is stored into a descriptor it owns, with the status and the frame length in the
  first word, or is lost when it owns none; a descriptor to send is put on the wire. Steps of the driver and of the DMA engine interleave in
  any way; one thread sends and one receives. \<open>net_in\<close> and \<open>net_out\<close> are the valid frames stored and those put on the wire,
  \<open>net_got\<close> and \<open>net_rel\<close> those the driver has taken and released, and \<open>net_cur\<close> is the frame being written.
\<close>

record net =
  net_mac :: MACDriver
  net_drx :: nat
  net_dtx :: nat
  net_rd :: "MACReceiveDescriptor option"
  net_td :: "MACTransmitDescriptor option"
  net_in :: "u8 list list"
  net_got :: "u8 list list"
  net_cur :: "u8 list"
  net_rel :: "u8 list list"
  net_out :: "u8 list list"

datatype nevent = RxGet | RxRelease | TxGet | TxWrite "u8 list" | TxRelease | Link u32 u32 u32 | DmaRx u32 "u8 list" | DmaTx

definition rx_payload :: "rx_desc \<Rightarrow> u8 list" where "rx_payload d = take (rx_size (rdes0 d)) (rx_buf d)"
definition frames_of :: "rx_desc \<Rightarrow> u8 list list" where "frames_of d = (if rx_valid (rdes0 d) then [rx_payload d] else [])"
definition tx_frame :: "tx_desc \<Rightarrow> u8 list" where "tx_frame d = take (tdes1 d) (tx_buf d)"

abbreviation rx_own :: "rx_desc \<Rightarrow> bool" where "rx_own d \<equiv> rdes0 d AND STM32_RDES0_OWN \<noteq> 0"
abbreviation tx_own :: "tx_desc \<Rightarrow> bool" where "tx_own d \<equiv> tdes0 d AND STM32_TDES0_OWN \<noteq> 0"

fun nstep :: "nevent \<Rightarrow> net \<Rightarrow> net option" where
  "nstep RxGet s =
     do { (rd, macp) \<leftarrow> mac_lld_get_receive_descriptor (net_mac s);
          Some (s\<lparr>net_mac := macp, net_rd := rd,
                  net_got := net_got s @ (case rd of None \<Rightarrow> [] | Some rd \<Rightarrow> [rx_payload (mac_rx macp ! rd_physdesc rd)])\<rparr>) }"
| "nstep RxRelease s =
     do { rd \<leftarrow> net_rd s; macp \<leftarrow> mac_lld_release_receive_descriptor rd (net_mac s); Some (s\<lparr>net_mac := macp, net_rd := None\<rparr>) }"
| "nstep TxGet s = (let (td, macp) = mac_lld_get_transmit_descriptor (net_mac s) in Some (s\<lparr>net_mac := macp, net_td := td, net_cur := []\<rparr>))"
| "nstep (TxWrite bs) s =
     do { td \<leftarrow> net_td s; (td', macp) \<leftarrow> mac_lld_write_transmit_descriptor bs td (net_mac s);
          Some (s\<lparr>net_mac := macp, net_td := Some td', net_cur := take STM32_MAC_BUFFERS_SIZE (net_cur s @ bs)\<rparr>) }"
| "nstep TxRelease s =
     do { td \<leftarrow> net_td s; macp \<leftarrow> mac_lld_release_transmit_descriptor td (net_mac s);
          Some (s\<lparr>net_mac := macp, net_td := None, net_rel := net_rel s @ [net_cur s]\<rparr>) }"
| "nstep (Link bmsr bmcr lpa) s = Some (s\<lparr>net_mac := snd (mac_lld_poll_link_status bmsr bmcr lpa (net_mac s))\<rparr>)"
| "nstep (DmaRx w bs) s =
     (if rx_own (mac_rx (net_mac s) ! net_drx s)
      then Some (s\<lparr>net_mac := set_rx (net_drx s) (\<lambda>d. \<lparr>rdes0 = w, rx_buf = bs\<rparr>) (net_mac s), net_drx := next_rx (net_mac s) (net_drx s),
                   net_in := net_in s @ frames_of \<lparr>rdes0 = w, rx_buf = bs\<rparr>\<rparr>)
      else Some s)"
| "nstep DmaTx s =
     (if tx_own (mac_tx (net_mac s) ! net_dtx s)
      then Some (s\<lparr>net_mac := set_tx (net_dtx s) (\<lambda>d. d\<lparr>tdes0 := tdes0 d AND NOT STM32_TDES0_OWN\<rparr>) (net_mac s), net_dtx := next_tx (net_mac s) (net_dtx s),
                   net_out := net_out s @ [tx_frame (mac_tx (net_mac s) ! net_dtx s)]\<rparr>)
      else Some s)"

text \<open>The hardware clears \<open>OWN\<close>, and a valid frame has at least the four bytes of its checksum and fits the buffer.\<close>

fun n_legal :: "nevent \<Rightarrow> net \<Rightarrow> bool" where
  "n_legal RxGet s = (net_rd s = None)"
| "n_legal RxRelease s = (net_rd s \<noteq> None)"
| "n_legal TxGet s = (net_td s = None)"
| "n_legal (TxWrite bs) s = (net_td s \<noteq> None)"
| "n_legal TxRelease s = (net_td s \<noteq> None)"
| "n_legal (Link bmsr bmcr lpa) s = True"
| "n_legal (DmaRx w bs) s = (w AND STM32_RDES0_OWN = 0 \<and> length bs = STM32_MAC_BUFFERS_SIZE \<and> (rx_valid w \<longrightarrow> rx_size w \<le> STM32_MAC_BUFFERS_SIZE))"
| "n_legal DmaTx s = True"

definition net_init :: net where
  "net_init = \<lparr>net_mac = mac_lld_start mac_lld_init, net_drx = 0, net_dtx = 0, net_rd = None, net_td = None, net_in = [], net_got = [],
     net_cur = [], net_rel = [], net_out = []\<rparr>"

inductive net_reach :: "net \<Rightarrow> bool" where
  NetInit: "net_reach net_init"
| NetStep: "net_reach s \<Longrightarrow> n_legal e s \<Longrightarrow> nstep e s = Some s' \<Longrightarrow> net_reach s'"

primrec nrun :: "nevent list \<Rightarrow> net \<Rightarrow> net option" where
  "nrun [] s = Some s"
| "nrun (e # es) s = (if n_legal e s then do { s' \<leftarrow> nstep e s; nrun es s' } else None)"

text \<open>What becomes of a received frame: it is cut into the buffers of a chain and goes to the stack, or is freed.\<close>

primrec chop :: "nat list \<Rightarrow> u8 list \<Rightarrow> u8 list list" where
  "chop [] f = []"
| "chop (l # lens) f = take l f # chop lens (drop l f)"




section \<open>The rings\<close>

lemma idx_eq: "i < n \<Longrightarrow> j < n \<Longrightarrow> (p + i) mod n = (p + j) mod n \<longleftrightarrow> i = (j :: nat)"
  using mod_add_neq [of i j n p] mod_add_neq [of j i n p] by (metis linorder_neqE_nat)

lemma ring_other:
  assumes "c \<le> j" and "j < length buf"
  shows "ring (buf[(p + j) mod length buf := x]) p c = ring buf p c"
proof -
  have "(p + j) mod length buf \<noteq> (p + k) mod length buf" if "k < c" for k using idx_eq [of j "length buf" k p] that assms by simp
  then show ?thesis by (simp add: ring_def)
qed

text \<open>
  The receive ring: from \<open>p\<close>, where the driver reads, \<open>c\<close> filled descriptors, up to \<open>d\<close>, where the DMA engine stores; the
  others belong to it, but the one before \<open>p\<close> that the driver may hold (\<open>h = 1\<close>).
\<close>

definition rx_ring :: "nat \<Rightarrow> nat \<Rightarrow> rx_desc list \<Rightarrow> nat \<Rightarrow> nat \<Rightarrow> bool" where
  "rx_ring h c rx p d \<longleftrightarrow> p < length rx \<and> c + h \<le> length rx \<and> d = (p + c) mod length rx \<and>
     (\<forall>j < length rx. rx_own (rx ! ((p + j) mod length rx)) \<longleftrightarrow> c \<le> j \<and> j + h < length rx) \<and>
     (\<forall>x \<in> set rx. length (rx_buf x) = STM32_MAC_BUFFERS_SIZE \<and> (\<not> rx_own x \<and> rx_valid (rdes0 x) \<longrightarrow> rx_size (rdes0 x) \<le> STM32_MAC_BUFFERS_SIZE))"

definition tx_ring :: "nat \<Rightarrow> nat \<Rightarrow> tx_desc list \<Rightarrow> nat \<Rightarrow> nat \<Rightarrow> bool" where
  "tx_ring h c tx d t \<longleftrightarrow> d < length tx \<and> c + h \<le> length tx \<and> h \<le> 1 \<and> t = (d + c + h) mod length tx \<and>
     (\<forall>j < length tx. tx_own (tx ! ((d + j) mod length tx)) \<longleftrightarrow> j < c) \<and> (\<forall>x \<in> set tx. length (tx_buf x) = STM32_MAC_BUFFERS_SIZE)"

lemma nth_mod_update: "i < length l \<Longrightarrow> j < length l \<Longrightarrow> l[(p + i) mod length l := x] ! ((p + j) mod length l) = (if j = i then x else l ! ((p + j) mod length l))"
  using idx_eq [of i "length l" j p] by (auto simp: nth_list_update mod_length_less)

lemma rx_ring_store:
  assumes r: "rx_ring h c rx p d" and o: "rx_own (rx ! d)" and w: "\<not> rx_own x" "length (rx_buf x) = STM32_MAC_BUFFERS_SIZE"
    "rx_valid (rdes0 x) \<longrightarrow> rx_size (rdes0 x) \<le> STM32_MAC_BUFFERS_SIZE"
  shows "rx_ring h (Suc c) (rx[d := x]) p ((d + 1) mod length rx) \<and> ring (rx[d := x]) p (Suc c) = ring rx p c @ [x]"
proof -
  let ?n = "length rx"
  have d: "d = (p + c) mod ?n" and n: "p < ?n" "c + h \<le> ?n"
    and own: "\<And>j. j < ?n \<Longrightarrow> rx_own (rx ! ((p + j) mod ?n)) \<longleftrightarrow> c \<le> j \<and> j + h < ?n" using r by (simp_all add: rx_ring_def)
  have c: "c + h < ?n"
  proof (rule ccontr)
    assume "\<not> c + h < ?n"
    then have e: "c + h = ?n" using n(2) by simp
    show False
    proof (cases "c < ?n")
      case True
      then show False using own [OF True] o d e by simp
    next
      case False
      then have "c = ?n" "0 < ?n" using e n(1) by auto
      then show False using own [of 0] n(1) o d by simp
    qed
  qed
  have "rx_own (rx[d := x] ! ((p + j) mod ?n)) \<longleftrightarrow> Suc c \<le> j \<and> j + h < ?n" if "j < ?n" for j
    using own [OF that] nth_mod_update [of c rx j p x] that c w(1) d by auto
  moreover have "set (rx[d := x]) \<subseteq> insert x (set rx)" by (rule set_update_subset_insert)
  moreover have "(d + 1) mod ?n = (p + Suc c) mod ?n" unfolding d by (simp add: mod_simps)
  ultimately have "rx_ring h (Suc c) (rx[d := x]) p ((d + 1) mod ?n)" using r c w(2,3) unfolding rx_ring_def by auto
  then show ?thesis using ring_put [of c rx p x] c d by simp
qed

lemma own_bits [simp]: "STM32_RDES0_OWN \<noteq> 0"
  by (simp add: STM32_RDES0_OWN_def)

lemma next_prev: "p < n \<Longrightarrow> ((p + 1) mod n + (n - 1)) mod n = (p :: nat)"
  by (cases "p + 1 = n") auto

text \<open>The driver moves on by one descriptor: it holds it, or gives it back at once.\<close>

lemma rx_ring_first:
  assumes "rx_ring 0 c rx p d"
  shows "rx_own (rx ! p) \<longleftrightarrow> c = 0"
  using assms unfolding rx_ring_def by (elim conjE allE [where x = 0]) auto

lemma rx_ring_take:
  assumes r: "rx_ring 0 (Suc c) rx p d"
  shows "rx_ring 1 c rx ((p + 1) mod length rx) d" "ring rx p (Suc c) = rx ! p # ring rx ((p + 1) mod length rx) c"
proof -
  let ?n = "length rx"
  have n: "p < ?n" "Suc c \<le> ?n" and d: "d = (p + Suc c) mod ?n"
    and own: "\<And>j. j < ?n \<Longrightarrow> rx_own (rx ! ((p + j) mod ?n)) \<longleftrightarrow> Suc c \<le> j" using r by (simp_all add: rx_ring_def)
  have "rx_own (rx ! (((p + 1) mod ?n + j) mod ?n)) \<longleftrightarrow> c \<le> j \<and> j + 1 < ?n" if "j < ?n" for j
  proof (cases "j + 1 < ?n")
    case True
    then show ?thesis using own [of "j + 1"] by (simp add: mod_simps)
  next
    case False
    then have "j + 1 = ?n" using that by simp
    then have "j = ?n - 1" "rx \<noteq> []" by auto
    then show ?thesis using own [of 0] n False next_prev [OF n(1)] by simp
  qed
  moreover have "(p + 1) mod ?n < ?n" by (rule mod_length_less [OF n(1)])
  ultimately show "rx_ring 1 c rx ((p + 1) mod ?n) d" using r n d unfolding rx_ring_def by (auto simp: mod_simps)
  show "ring rx p (Suc c) = rx ! p # ring rx ((p + 1) mod ?n) c" using ring_get [of "Suc c" rx p] n by simp
qed

lemma rx_ring_give:
  assumes r: "rx_ring 1 c rx p d" and q: "q = (p + (length rx - 1)) mod length rx"
  shows "rx_ring 0 c (rx[q := (rx ! q)\<lparr>rdes0 := STM32_RDES0_OWN\<rparr>]) p d" "ring (rx[q := (rx ! q)\<lparr>rdes0 := STM32_RDES0_OWN\<rparr>]) p c = ring rx p c"
proof -
  let ?n = "length rx" let ?x = "(rx ! q)\<lparr>rdes0 := STM32_RDES0_OWN\<rparr>"
  have n: "p < ?n" "c + 1 \<le> ?n" and own: "\<And>j. j < ?n \<Longrightarrow> rx_own (rx ! ((p + j) mod ?n)) \<longleftrightarrow> c \<le> j \<and> j + 1 < ?n"
    using r by (simp_all add: rx_ring_def)
  have "rx_own (rx[q := ?x] ! ((p + j) mod ?n)) \<longleftrightarrow> c \<le> j" if "j < ?n" for j
    using own [OF that] nth_mod_update [of "?n - 1" rx j p ?x] that n q by auto
  moreover have "q < ?n" using q n(1) by (metis mod_length_less)
  then have "set (rx[q := ?x]) \<subseteq> insert ?x (set rx)" "rx ! q \<in> set rx" by (simp_all add: set_update_subset_insert)
  ultimately show "rx_ring 0 c (rx[q := ?x]) p d" using r unfolding rx_ring_def by auto
  show "ring (rx[q := ?x]) p c = ring rx p c" unfolding q by (rule ring_other) (use n in auto)
qed

text \<open>What taking a descriptor makes of the pending frames \<open>fs\<close>.\<close>

definition rx_got :: "u8 list list \<Rightarrow> nat \<Rightarrow> MACReceiveDescriptor option \<Rightarrow> MACDriver \<Rightarrow> nat \<Rightarrow> bool" where
  "rx_got fs c rd macp c' \<longleftrightarrow>
     (case rd of
        None \<Rightarrow> c' = 0 \<and> fs = []
      | Some rd \<Rightarrow> c' < c \<and> rd_physdesc rd = (mac_rxptr macp + (length (mac_rx macp) - 1)) mod length (mac_rx macp) \<and> rd_offset rd = 0 \<and>
          rx_valid (rdes0 (mac_rx macp ! rd_physdesc rd)) \<and> rd_size rd = rx_size (rdes0 (mac_rx macp ! rd_physdesc rd)) \<and>
          fs = rx_payload (mac_rx macp ! rd_physdesc rd) # concat (map frames_of (ring (mac_rx macp) (mac_rxptr macp) c')))"

lemma rx_got_Suc: "rx_got fs c rd macp c' \<Longrightarrow> rx_got fs (Suc c) rd macp c'"
  by (cases rd) (auto simp: rx_got_def)

lemma get_receive_ok:
  assumes "rx_ring 0 c (mac_rx macp) p d"
  shows "\<exists>rd macp' c'. get_receive_loop p macp = Some (rd, macp') \<and> rx_ring (if rd = None then 0 else 1) c' (mac_rx macp') (mac_rxptr macp') d \<and>
    length (mac_rx macp') = length (mac_rx macp) \<and> mac_tx macp' = mac_tx macp \<and> mac_txptr macp' = mac_txptr macp \<and> mac_link_up macp' = mac_link_up macp \<and>
    rx_got (concat (map frames_of (ring (mac_rx macp) p c))) c rd macp' c'"
  using assms
proof (induction c arbitrary: macp p)
  case 0
  then have "rx_own (mac_rx macp ! p)" using rx_ring_first by blast
  then show ?case using 0 by (simp add: get_receive_loop.simps rx_got_def)
next
  case (Suc c)
  let ?rx = "mac_rx macp" and ?n = "length (mac_rx macp)"
  have no: "\<not> rx_own (?rx ! p)" using rx_ring_first [OF Suc.prems] by simp
  have n: "p < ?n" using Suc.prems by (simp add: rx_ring_def)
  note tk = rx_ring_take [OF Suc.prems]
  have q: "((p + 1) mod ?n + (?n - 1)) mod ?n = p" by (rule next_prev [OF n])
  show ?case
  proof (cases "rx_valid (rdes0 (?rx ! p))")
    case True
    then show ?thesis using no tk q n by (subst get_receive_loop.simps) (simp add: next_rx_def frames_of_def rx_got_def, intro exI [of _ c], simp)
  next
    case False
    let ?m = "set_rx p (\<lambda>d. d\<lparr>rdes0 := STM32_RDES0_OWN\<rparr>) macp"
    have m: "mac_rx ?m = ?rx[p := (?rx ! p)\<lparr>rdes0 := STM32_RDES0_OWN\<rparr>]" "mac_tx ?m = mac_tx macp" "mac_txptr ?m = mac_txptr macp" "mac_link_up ?m = mac_link_up macp"
      by (simp_all add: set_rx_def)
    have A: "rx_ring 0 c (mac_rx ?m) ((p + 1) mod ?n) d" and R: "ring (mac_rx ?m) ((p + 1) mod ?n) c = ring ?rx ((p + 1) mod ?n) c"
      unfolding m(1) using rx_ring_give [OF tk(1) q [symmetric]] by simp_all
    have G: "get_receive_loop p macp = get_receive_loop ((p + 1) mod ?n) ?m"
      using no False by (subst get_receive_loop.simps) (simp add: next_rx_def Let_def m(1))
    have F: "concat (map frames_of (ring ?rx p (Suc c))) = concat (map frames_of (ring ?rx ((p + 1) mod ?n) c))" using tk(2) False by (simp add: frames_of_def)
    have N: "length (mac_rx ?m) = ?n" using m(1) by simp
    show ?thesis using Suc.IH [OF A, unfolded R N m(2-4), folded F G] rx_got_Suc by blast
  qed
qed

lemma tx_bits [simp]:
  "(w OR STM32_TDES0_LOCKED) AND STM32_TDES0_OWN = w AND STM32_TDES0_OWN"
  "(w AND NOT STM32_TDES0_OWN) AND STM32_TDES0_OWN = 0"
  "(STM32_TDES0_IC OR STM32_TDES0_LS OR STM32_TDES0_FS OR STM32_TDES0_TCH OR STM32_TDES0_OWN) AND STM32_TDES0_OWN \<noteq> 0"
proof -
  have "STM32_TDES0_LOCKED AND STM32_TDES0_OWN = 0" by (simp add: STM32_TDES0_LOCKED_def STM32_TDES0_OWN_def)
  then show "(w OR STM32_TDES0_LOCKED) AND STM32_TDES0_OWN = w AND STM32_TDES0_OWN" by (simp add: bit.conj_disj_distrib2)
  show "(w AND NOT STM32_TDES0_OWN) AND STM32_TDES0_OWN = 0" by (simp add: and.assoc)
  show "(STM32_TDES0_IC OR STM32_TDES0_LS OR STM32_TDES0_FS OR STM32_TDES0_TCH OR STM32_TDES0_OWN) AND STM32_TDES0_OWN \<noteq> 0"
    by (simp add: STM32_TDES0_IC_def STM32_TDES0_LS_def STM32_TDES0_FS_def STM32_TDES0_TCH_def STM32_TDES0_OWN_def)
qed

lemma tx_free: "w AND (STM32_TDES0_OWN OR STM32_TDES0_LOCKED) = 0 \<Longrightarrow> w AND STM32_TDES0_OWN = 0"
  by (simp add: bit.conj_disj_distrib or_eq_0_iff)

text \<open>The transmit ring: the driver takes a free descriptor, fills it and hands it over; the DMA engine sends the first one.\<close>

lemma tx_ring_get:
  assumes r: "tx_ring 0 e tx d t" and o: "\<not> tx_own (tx ! t)" and x: "tdes0 x AND STM32_TDES0_OWN = tdes0 (tx ! t) AND STM32_TDES0_OWN" "tx_buf x = tx_buf (tx ! t)"
  shows "tx_ring 1 e (tx[t := x]) d ((t + 1) mod length tx)" "t = (d + e) mod length tx" "ring (tx[t := x]) d e = ring tx d e"
proof -
  let ?n = "length tx"
  have n: "d < ?n" "e \<le> ?n" and t: "t = (d + e) mod ?n" and own: "\<And>j. j < ?n \<Longrightarrow> tx_own (tx ! ((d + j) mod ?n)) \<longleftrightarrow> j < e"
    using r by (simp_all add: tx_ring_def)
  have e: "e < ?n"
  proof (rule ccontr)
    assume "\<not> e < ?n"
    then have "e = ?n" "tx \<noteq> []" using n by auto
    then show False using own [of 0] n(1) o t by simp
  qed
  have "tx_own (tx[t := x] ! ((d + j) mod ?n)) \<longleftrightarrow> j < e" if "j < ?n" for j
    using own [OF that] nth_mod_update [of e tx j d x] that e x(1) t by auto
  moreover have "t < ?n" using mod_length_less [OF n(1)] t by simp
  then have "set (tx[t := x]) \<subseteq> insert x (set tx)" "tx ! t \<in> set tx" by (simp_all add: set_update_subset_insert)
  moreover have "(t + 1) mod ?n = (d + e + 1) mod ?n" unfolding t by (simp add: mod_simps)
  ultimately show "tx_ring 1 e (tx[t := x]) d ((t + 1) mod ?n)" using r e x(2) unfolding tx_ring_def by auto
  show "t = (d + e) mod ?n" by (rule t)
  show "ring (tx[t := x]) d e = ring tx d e" unfolding t by (rule ring_other) (use e in auto)
qed

lemma tx_ring_held:
  assumes r: "tx_ring 1 e tx d t" and q: "q = (d + e) mod length tx"
  shows "\<not> tx_own (tx ! q)" "q < length tx" "length (tx_buf (tx ! q)) = STM32_MAC_BUFFERS_SIZE"
    "\<lbrakk>tdes0 x AND STM32_TDES0_OWN = tdes0 (tx ! q) AND STM32_TDES0_OWN; length (tx_buf x) = STM32_MAC_BUFFERS_SIZE\<rbrakk> \<Longrightarrow>
       tx_ring 1 e (tx[q := x]) d t \<and> ring (tx[q := x]) d e = ring tx d e"
    "\<lbrakk>tdes0 x AND STM32_TDES0_OWN \<noteq> 0; length (tx_buf x) = STM32_MAC_BUFFERS_SIZE\<rbrakk> \<Longrightarrow>
       tx_ring 0 (Suc e) (tx[q := x]) d t \<and> ring (tx[q := x]) d (Suc e) = ring tx d e @ [x]"
proof -
  let ?n = "length tx"
  have n: "d < ?n" "e + 1 \<le> ?n" and own: "\<And>j. j < ?n \<Longrightarrow> tx_own (tx ! ((d + j) mod ?n)) \<longleftrightarrow> j < e"
    using r by (simp_all add: tx_ring_def)
  show q': "q < ?n" using mod_length_less [OF n(1)] q by simp
  show no: "\<not> tx_own (tx ! q)" using own [of e] n(2) q by simp
  have sub: "set (tx[q := x]) \<subseteq> insert x (set tx)" for x by (rule set_update_subset_insert)
  have up: "tx_own (tx[q := x] ! ((d + j) mod ?n)) \<longleftrightarrow> (if j = e then tx_own x else j < e)" if "j < ?n" for j x
    using own [OF that] nth_mod_update [of e tx j d x] that n(2) q by auto
  show "length (tx_buf (tx ! q)) = STM32_MAC_BUFFERS_SIZE" using r q' by (simp add: tx_ring_def)
  show "tx_ring 1 e (tx[q := x]) d t \<and> ring (tx[q := x]) d e = ring tx d e"
    if "tdes0 x AND STM32_TDES0_OWN = tdes0 (tx ! q) AND STM32_TDES0_OWN" "length (tx_buf x) = STM32_MAC_BUFFERS_SIZE"
  proof
    show "tx_ring 1 e (tx[q := x]) d t" using r up [of _ x] sub [of x] that no unfolding tx_ring_def by auto
    show "ring (tx[q := x]) d e = ring tx d e" unfolding q by (rule ring_other) (use n in auto)
  qed
  show "tx_ring 0 (Suc e) (tx[q := x]) d t \<and> ring (tx[q := x]) d (Suc e) = ring tx d e @ [x]"
    if "tdes0 x AND STM32_TDES0_OWN \<noteq> 0" "length (tx_buf x) = STM32_MAC_BUFFERS_SIZE"
  proof
    show "tx_ring 0 (Suc e) (tx[q := x]) d t" using r up [of _ x] sub [of x] that unfolding tx_ring_def by auto
    show "ring (tx[q := x]) d (Suc e) = ring tx d e @ [x]" unfolding q by (rule ring_put) (use n in auto)
  qed
qed

lemma tx_ring_send:
  assumes r: "tx_ring h e tx d t" and o: "tx_own (tx ! d)" and x: "tdes0 x AND STM32_TDES0_OWN = 0" "length (tx_buf x) = STM32_MAC_BUFFERS_SIZE"
  shows "\<exists>e'. e = Suc e' \<and> tx_ring h e' (tx[d := x]) ((d + 1) mod length tx) t \<and> ring tx d e = tx ! d # ring (tx[d := x]) ((d + 1) mod length tx) e'"
proof -
  let ?n = "length tx" and ?p = "(d + 1) mod length tx"
  have n: "d < ?n" "e + h \<le> ?n" "h \<le> 1" and own: "\<And>j. j < ?n \<Longrightarrow> tx_own (tx ! ((d + j) mod ?n)) \<longleftrightarrow> j < e"
    using r by (simp_all add: tx_ring_def)
  have ne: "tx \<noteq> []" using n(1) by auto
  then have "0 < e" using own [of 0] o n(1) by simp
  then obtain e' where e: "e = Suc e'" by (cases e) auto
  have d: "(?p + (?n - 1)) mod ?n = d" by (rule next_prev [OF n(1)])
  have "tx_own (tx[d := x] ! ((?p + j) mod ?n)) \<longleftrightarrow> j < e'" if j: "j < ?n" for j
  proof (cases "j + 1 < ?n")
    case True
    then show ?thesis using own [of "j + 1"] nth_mod_update [of 0 tx "j + 1" d x] n(1) ne e by (simp add: mod_simps)
  next
    case False
    then have "j = ?n - 1" using j by simp
    then show ?thesis using d n e x(1) by simp
  qed
  moreover have "set (tx[d := x]) \<subseteq> insert x (set tx)" by (rule set_update_subset_insert)
  moreover have "(?p + e' + h) mod ?n = (d + e + h) mod ?n" unfolding e using mod_add_left_eq [of "d + 1" ?n "e' + h"] by (simp add: add.assoc)
  moreover have "?p < ?n" by (rule mod_length_less [OF n(1)])
  ultimately have "tx_ring h e' (tx[d := x]) ?p t" using r e x(2) unfolding tx_ring_def by auto
  moreover have "ring (tx[d := x]) ?p e' = ring tx ?p e'" using ring_other [of e' "?n - 1" tx ?p x] n d e by auto
  then have "ring tx d e = tx ! d # ring (tx[d := x]) ?p e'" using ring_get [of e tx d] e n(1) by simp
  ultimately show ?thesis using e by blast
qed

section \<open>The invariant\<close>

definition rx_hold :: "rx_desc list \<Rightarrow> nat \<Rightarrow> MACReceiveDescriptor \<Rightarrow> u8 list list \<Rightarrow> bool" where
  "rx_hold rx p rd got \<longleftrightarrow> rd_physdesc rd = (p + (length rx - 1)) mod length rx \<and> rd_offset rd = 0 \<and> rd_size rd = rx_size (rdes0 (rx ! rd_physdesc rd)) \<and>
     rx_valid (rdes0 (rx ! rd_physdesc rd)) \<and> got \<noteq> [] \<and> last got = rx_payload (rx ! rd_physdesc rd)"

definition tx_hold :: "tx_desc list \<Rightarrow> nat \<Rightarrow> MACTransmitDescriptor \<Rightarrow> u8 list \<Rightarrow> bool" where
  "tx_hold tx q td cur \<longleftrightarrow> td_physdesc td = q mod length tx \<and> td_offset td = length cur \<and> td_size td = STM32_MAC_BUFFERS_SIZE \<and>
     length cur \<le> STM32_MAC_BUFFERS_SIZE \<and> take (length cur) (tx_buf (tx ! td_physdesc td)) = cur"

definition rx_inv :: "net \<Rightarrow> nat \<Rightarrow> bool" where
  "rx_inv s c \<longleftrightarrow> (let m = net_mac s; rx = mac_rx m in length rx = STM32_MAC_RECEIVE_BUFFERS \<and>
     rx_ring (if net_rd s = None then 0 else 1) c rx (mac_rxptr m) (net_drx s) \<and> net_in s = net_got s @ concat (map frames_of (ring rx (mac_rxptr m) c)) \<and>
     (\<forall>rd. net_rd s = Some rd \<longrightarrow> rx_hold rx (mac_rxptr m) rd (net_got s)))"

definition tx_inv :: "net \<Rightarrow> nat \<Rightarrow> bool" where
  "tx_inv s e \<longleftrightarrow> (let m = net_mac s; tx = mac_tx m in length tx = STM32_MAC_TRANSMIT_BUFFERS \<and>
     tx_ring (if net_td s = None then 0 else 1) e tx (net_dtx s) (mac_txptr m) \<and> net_rel s = net_out s @ map tx_frame (ring tx (net_dtx s) e) \<and>
     (\<forall>td. net_td s = Some td \<longrightarrow> tx_hold tx (net_dtx s + e) td (net_cur s)))"

lemma rx_hold_same: "rx_hold rx p rd got \<Longrightarrow> length rx' = length rx \<Longrightarrow> rx' ! rd_physdesc rd = rx ! rd_physdesc rd \<Longrightarrow> rx_hold rx' p rd got"
  by (auto simp: rx_hold_def)

lemma tx_hold_same: "tx_hold tx q td cur \<Longrightarrow> length tx' = length tx \<Longrightarrow> q' mod length tx = q mod length tx \<Longrightarrow>
    tx' ! td_physdesc td = tx ! td_physdesc td \<Longrightarrow> tx_hold tx' q' td cur"
  by (auto simp: tx_hold_def)

lemma inv_lengths: "rx_inv s c \<Longrightarrow> length (mac_rx (net_mac s)) = STM32_MAC_RECEIVE_BUFFERS" "tx_inv s e \<Longrightarrow> length (mac_tx (net_mac s)) = STM32_MAC_TRANSMIT_BUFFERS"
  by (simp_all add: rx_inv_def tx_inv_def Let_def)

lemma rx_held:
  assumes "rx_inv s c" and "net_rd s = Some rd"
  shows "rd_physdesc rd < length (mac_rx (net_mac s))" "\<not> rx_own (mac_rx (net_mac s) ! rd_physdesc rd)"
proof -
  let ?rx = "mac_rx (net_mac s)" and ?p = "mac_rxptr (net_mac s)"
  have r: "rx_ring 1 c ?rx ?p (net_drx s)" and q: "rd_physdesc rd = (?p + (length ?rx - 1)) mod length ?rx" using assms by (simp_all add: rx_inv_def Let_def rx_hold_def)
  have p: "?p < length ?rx" using r by (simp add: rx_ring_def)
  then show "rd_physdesc rd < length ?rx" unfolding q by (rule mod_length_less)
  show "\<not> rx_own (?rx ! rd_physdesc rd)" unfolding q using r p unfolding rx_ring_def by (elim conjE allE [where x = "length ?rx - 1"]) auto
qed

text \<open>Steps that do not concern one of the rings.\<close>

lemma rx_inv_same:
  assumes "rx_inv s c" and "mac_rx (net_mac s') = mac_rx (net_mac s)" and "mac_rxptr (net_mac s') = mac_rxptr (net_mac s)"
    and "net_drx s' = net_drx s" "net_rd s' = net_rd s" "net_in s' = net_in s" "net_got s' = net_got s"
  shows "rx_inv s' c"
  using assms(1) unfolding rx_inv_def Let_def assms(2-7) .

lemma tx_inv_same:
  assumes "tx_inv s e" and "mac_tx (net_mac s') = mac_tx (net_mac s)" and "mac_txptr (net_mac s') = mac_txptr (net_mac s)"
    and "net_dtx s' = net_dtx s" "net_td s' = net_td s" "net_cur s' = net_cur s" "net_rel s' = net_rel s" "net_out s' = net_out s"
  shows "tx_inv s' e"
  using assms(1) unfolding tx_inv_def Let_def assms(2-8) .

lemma set_fields_mac [simp]:
  "mac_rx (set_rx i f m) = (mac_rx m)[i := f (mac_rx m ! i)]" "mac_rxptr (set_rx i f m) = mac_rxptr m" "mac_tx (set_rx i f m) = mac_tx m" "mac_txptr (set_rx i f m) = mac_txptr m"
  "mac_tx (set_tx i g m) = (mac_tx m)[i := g (mac_tx m ! i)]" "mac_txptr (set_tx i g m) = mac_txptr m" "mac_rx (set_tx i g m) = mac_rx m" "mac_rxptr (set_tx i g m) = mac_rxptr m"
  by (simp_all add: set_rx_def set_tx_def)

lemma rx_get_ok:
  assumes i: "rx_inv s c" "tx_inv s e" and l: "net_rd s = None"
  shows "\<exists>s' c'. nstep RxGet s = Some s' \<and> rx_inv s' c' \<and> tx_inv s' e \<and> (net_rd s' = None \<longrightarrow> net_got s' = net_in s') \<and> mac_link_up (net_mac s') = mac_link_up (net_mac s)"
proof -
  let ?m = "net_mac s"
  have r: "rx_ring 0 c (mac_rx ?m) (mac_rxptr ?m) (net_drx s)" and f: "net_in s = net_got s @ concat (map frames_of (ring (mac_rx ?m) (mac_rxptr ?m) c))"
    using i(1) l by (simp_all add: rx_inv_def Let_def)
  obtain rd m' c' where g: "mac_lld_get_receive_descriptor ?m = Some (rd, m')" "rx_ring (if rd = None then 0 else 1) c' (mac_rx m') (mac_rxptr m') (net_drx s)"
    "mac_tx m' = mac_tx ?m" "mac_txptr m' = mac_txptr ?m" "length (mac_rx m') = STM32_MAC_RECEIVE_BUFFERS" "rx_got (concat (map frames_of (ring (mac_rx ?m) (mac_rxptr ?m) c))) c rd m' c'"
    "mac_link_up m' = mac_link_up ?m"
    using get_receive_ok [OF r] inv_lengths(1) [OF i(1)] unfolding mac_lld_get_receive_descriptor_def by auto
  let ?s = "s\<lparr>net_mac := m', net_rd := rd, net_got := net_got s @ (case rd of None \<Rightarrow> [] | Some rd \<Rightarrow> [rx_payload (mac_rx m' ! rd_physdesc rd)])\<rparr>"
  have "rx_hold (mac_rx m') (mac_rxptr m') d (net_got s @ [rx_payload (mac_rx m' ! rd_physdesc d)])" if "rd = Some d" for d
    using g(6) that by (auto simp: rx_got_def rx_hold_def)
  then have "rx_inv ?s c'" using g(2,5,6) f by (cases rd) (simp_all add: rx_inv_def rx_got_def Let_def)
  moreover have "tx_inv ?s e" by (rule tx_inv_same [OF i(2)]) (use g(3,4) in simp_all)
  moreover have "rd = None \<longrightarrow> net_got ?s = net_in ?s" using g(6) f by (cases rd) (simp_all add: rx_got_def)
  ultimately show ?thesis using g(1,7) by auto
qed

lemma rx_release_ok:
  assumes i: "rx_inv s c" "tx_inv s e" and l: "net_rd s = Some rd"
  shows "\<exists>s'. nstep RxRelease s = Some s' \<and> rx_inv s' c \<and> tx_inv s' e"
proof -
  let ?rx = "mac_rx (net_mac s)" and ?p = "mac_rxptr (net_mac s)" and ?q = "rd_physdesc rd"
  have r: "rx_ring 1 c ?rx ?p (net_drx s)" and q: "?q = (?p + (length ?rx - 1)) mod length ?rx" and f: "net_in s = net_got s @ concat (map frames_of (ring ?rx ?p c))"
    using i(1) l by (simp_all add: rx_inv_def Let_def rx_hold_def)
  note g = rx_ring_give [OF r q]
  let ?s = "s\<lparr>net_mac := set_rx ?q (\<lambda>d. d\<lparr>rdes0 := STM32_RDES0_OWN\<rparr>) (net_mac s), net_rd := None\<rparr>"
  have "nstep RxRelease s = Some ?s" using rx_held(2) [OF i(1) l] l by (simp add: mac_lld_release_receive_descriptor_def)
  moreover have "rx_inv ?s c" using g f inv_lengths(1) [OF i(1)] by (simp add: rx_inv_def Let_def)
  moreover have "tx_inv ?s e" by (rule tx_inv_same [OF i(2)]) simp_all
  ultimately show ?thesis by blast
qed

lemma dma_rx_ok:
  assumes i: "rx_inv s c" "tx_inv s e" and l: "n_legal (DmaRx w bs) s"
  shows "\<exists>s' c'. nstep (DmaRx w bs) s = Some s' \<and> rx_inv s' c' \<and> tx_inv s' e"
proof (cases "rx_own (mac_rx (net_mac s) ! net_drx s)")
  case True
  let ?rx = "mac_rx (net_mac s)" and ?p = "mac_rxptr (net_mac s)" and ?d = "net_drx s" and ?x = "\<lparr>rdes0 = w, rx_buf = bs\<rparr>"
  let ?h = "if net_rd s = None then 0 else 1 :: nat"
  have r: "rx_ring ?h c ?rx ?p ?d" and f: "net_in s = net_got s @ concat (map frames_of (ring ?rx ?p c))" using i(1) by (simp_all add: rx_inv_def Let_def)
  have st: "rx_ring ?h (Suc c) (?rx[?d := ?x]) ?p ((?d + 1) mod length ?rx)" "ring (?rx[?d := ?x]) ?p (Suc c) = ring ?rx ?p c @ [?x]"
    using rx_ring_store [OF r True, of ?x] l by simp_all
  let ?s = "s\<lparr>net_mac := set_rx ?d (\<lambda>d. ?x) (net_mac s), net_drx := next_rx (net_mac s) ?d, net_in := net_in s @ frames_of ?x\<rparr>"
  have "rx_hold (?rx[?d := ?x]) ?p rd (net_got s)" if "net_rd s = Some rd" for rd
  proof (rule rx_hold_same)
    show "rx_hold ?rx ?p rd (net_got s)" using i(1) that by (simp add: rx_inv_def Let_def)
    show "?rx[?d := ?x] ! rd_physdesc rd = ?rx ! rd_physdesc rd" using rx_held(2) [OF i(1) that] True by (cases "rd_physdesc rd = ?d") auto
  qed simp
  then have "rx_inv ?s (Suc c)" using i(1) st f inv_lengths(1) [OF i(1)] unfolding rx_inv_def Let_def by (simp add: next_rx_def)
  moreover have "tx_inv ?s e" by (rule tx_inv_same [OF i(2)]) simp_all
  moreover have "nstep (DmaRx w bs) s = Some ?s" using True by simp
  ultimately show ?thesis by blast
next
  case False
  then show ?thesis using i by auto
qed

lemma tx_get_ok:
  assumes i: "rx_inv s c" "tx_inv s e" and l: "net_td s = None"
  shows "\<exists>s'. nstep TxGet s = Some s' \<and> rx_inv s' c \<and> tx_inv s' e"
proof -
  let ?m = "net_mac s" let ?tx = "mac_tx ?m" and ?t = "mac_txptr ?m"
  have r: "tx_ring 0 e ?tx (net_dtx s) ?t" and f: "net_rel s = net_out s @ map tx_frame (ring ?tx (net_dtx s) e)" using i(2) l by (simp_all add: tx_inv_def Let_def)
  show ?thesis
  proof (cases "mac_link_up ?m \<and> tdes0 (?tx ! ?t) AND (STM32_TDES0_OWN OR STM32_TDES0_LOCKED) = 0")
    case True
    let ?x = "(?tx ! ?t)\<lparr>tdes0 := tdes0 (?tx ! ?t) OR STM32_TDES0_LOCKED\<rparr>"
    have "\<not> tx_own (?tx ! ?t)" using tx_free True by blast
    note g = tx_ring_get [OF r this, of ?x]
    let ?s = "s\<lparr>net_mac := (set_tx ?t (\<lambda>d. d\<lparr>tdes0 := tdes0 d OR STM32_TDES0_LOCKED\<rparr>) ?m)\<lparr>mac_txptr := (?t + 1) mod length ?tx\<rparr>,
      net_td := Some \<lparr>td_offset = 0, td_size = STM32_MAC_BUFFERS_SIZE, td_physdesc = ?t\<rparr>, net_cur := []\<rparr>"
    have "nstep TxGet s = Some ?s" using True by (simp add: mac_lld_get_transmit_descriptor_def Let_def next_tx_def)
    moreover have "rx_inv ?s c" by (rule rx_inv_same [OF i(1)]) simp_all
    moreover have "tx_inv ?s e" using g f inv_lengths(2) [OF i(2)] by (simp add: tx_inv_def Let_def tx_hold_def)
    ultimately show ?thesis by blast
  next
    case False
    then have "nstep TxGet s = Some (s\<lparr>net_td := None, net_cur := []\<rparr>)" by (auto simp: mac_lld_get_transmit_descriptor_def Let_def)
    moreover have "rx_inv (s\<lparr>net_td := None, net_cur := []\<rparr>) c" by (rule rx_inv_same [OF i(1)]) simp_all
    moreover have "tx_inv (s\<lparr>net_td := None, net_cur := []\<rparr>) e" using r f inv_lengths(2) [OF i(2)] by (simp add: tx_inv_def Let_def)
    ultimately show ?thesis by blast
  qed
qed

lemma overwrite_next:
  assumes "take (length cur) buf = cur" and "length cur + length bs \<le> length buf"
  shows "length (overwrite (length cur) bs buf) = length buf" "take (length (cur @ bs)) (overwrite (length cur) bs buf) = cur @ bs"
  using assms by (simp_all add: overwrite_def)

lemma tx_write_ok:
  assumes i: "rx_inv s c" "tx_inv s e" and l: "net_td s = Some td"
  shows "\<exists>s'. nstep (TxWrite bs) s = Some s' \<and> rx_inv s' c \<and> tx_inv s' e"
proof -
  let ?m = "net_mac s" let ?tx = "mac_tx ?m" and ?q = "td_physdesc td" and ?cur = "net_cur s"
  have r: "tx_ring 1 e ?tx (net_dtx s) (mac_txptr ?m)" and f: "net_rel s = net_out s @ map tx_frame (ring ?tx (net_dtx s) e)"
    and h: "tx_hold ?tx (net_dtx s + e) td ?cur" using i(2) l by (simp_all add: tx_inv_def Let_def)
  have q: "?q = (net_dtx s + e) mod length ?tx" and td: "td_offset td = length ?cur" "td_size td = STM32_MAC_BUFFERS_SIZE" "length ?cur \<le> STM32_MAC_BUFFERS_SIZE"
    "take (length ?cur) (tx_buf (?tx ! ?q)) = ?cur" using h unfolding tx_hold_def by blast+
  note t = tx_ring_held [OF r q]
  define sz where sz: "sz = min (length bs) (STM32_MAC_BUFFERS_SIZE - length ?cur)"
  have le: "sz \<le> length bs" "length ?cur + sz \<le> STM32_MAC_BUFFERS_SIZE" using td(3) by (simp_all add: sz)
  have tk: "length (take sz bs) = sz" using le(1) by simp
  have cur: "take STM32_MAC_BUFFERS_SIZE (?cur @ bs) = ?cur @ take sz bs" using td(3) by (simp add: sz min_def)
  show ?thesis
  proof (cases "sz = 0")
    case True
    let ?s = "s\<lparr>net_mac := ?m, net_td := Some td, net_cur := take STM32_MAC_BUFFERS_SIZE (?cur @ bs)\<rparr>"
    have "nstep (TxWrite bs) s = Some ?s" using l t(1) True td(1,2) by (simp add: mac_lld_write_transmit_descriptor_def Let_def sz)
    moreover have "?s = s" using l cur True by simp
    ultimately show ?thesis using i by simp
  next
    case False
    let ?x = "(?tx ! ?q)\<lparr>tx_buf := overwrite (length ?cur) (take sz bs) (tx_buf (?tx ! ?q))\<rparr>"
    have le': "length ?cur + length (take sz bs) \<le> length (tx_buf (?tx ! ?q))" using le(2) t(3) unfolding tk by simp
    note o = overwrite_next [OF td(4) le']
    let ?m' = "set_tx ?q (\<lambda>d. d\<lparr>tx_buf := overwrite (td_offset td) (take sz bs) (tx_buf d)\<rparr>) ?m"
    let ?s = "s\<lparr>net_mac := ?m', net_td := Some (td\<lparr>td_offset := td_offset td + sz\<rparr>), net_cur := take STM32_MAC_BUFFERS_SIZE (?cur @ bs)\<rparr>"
    have "nstep (TxWrite bs) s = Some ?s" using l t(1) False td(1,2) by (simp add: mac_lld_write_transmit_descriptor_def Let_def sz)
    moreover have "rx_inv ?s c" by (rule rx_inv_same [OF i(1)]) simp_all
    moreover have "tx_ring 1 e (?tx[?q := ?x]) (net_dtx s) (mac_txptr ?m) \<and> ring (?tx[?q := ?x]) (net_dtx s) e = ring ?tx (net_dtx s) e"
      using t(4) [of ?x] o(1) t(3) by simp
    moreover have "tx_hold (?tx[?q := ?x]) (net_dtx s + e) (td\<lparr>td_offset := td_offset td + sz\<rparr>) (?cur @ take sz bs)"
      unfolding tx_hold_def using q td t(2) o(2) le(2) tk by (simp del: length_take take_append)
    ultimately show ?thesis using f td(1) cur inv_lengths(2) [OF i(2)] by (intro exI [of _ ?s]) (simp add: tx_inv_def Let_def)
  qed
qed

lemma tx_release_ok:
  assumes i: "rx_inv s c" "tx_inv s e" and l: "net_td s = Some td"
  shows "\<exists>s'. nstep TxRelease s = Some s' \<and> rx_inv s' c \<and> tx_inv s' (Suc e)"
proof -
  let ?m = "net_mac s" let ?tx = "mac_tx ?m" and ?q = "td_physdesc td"
  let ?w = "STM32_TDES0_IC OR STM32_TDES0_LS OR STM32_TDES0_FS OR STM32_TDES0_TCH OR STM32_TDES0_OWN"
  have r: "tx_ring 1 e ?tx (net_dtx s) (mac_txptr ?m)" and f: "net_rel s = net_out s @ map tx_frame (ring ?tx (net_dtx s) e)"
    and h: "tx_hold ?tx (net_dtx s + e) td (net_cur s)" using i(2) l by (simp_all add: tx_inv_def Let_def)
  have q: "?q = (net_dtx s + e) mod length ?tx" using h by (simp add: tx_hold_def)
  note t = tx_ring_held [OF r q]
  let ?x = "(?tx ! ?q)\<lparr>tdes1 := td_offset td, tdes0 := ?w\<rparr>"
  let ?s = "s\<lparr>net_mac := set_tx ?q (\<lambda>d. d\<lparr>tdes1 := td_offset td, tdes0 := ?w\<rparr>) ?m, net_td := None, net_rel := net_rel s @ [net_cur s]\<rparr>"
  have "nstep TxRelease s = Some ?s" using l t(1) by (simp add: mac_lld_release_transmit_descriptor_def)
  moreover have "rx_inv ?s c" by (rule rx_inv_same [OF i(1)]) simp_all
  moreover have "tx_ring 0 (Suc e) (?tx[?q := ?x]) (net_dtx s) (mac_txptr ?m) \<and> ring (?tx[?q := ?x]) (net_dtx s) (Suc e) = ring ?tx (net_dtx s) e @ [?x]"
    using t(5) [of ?x] t(3) by simp
  moreover have "td_offset td = length (net_cur s)" "take (length (net_cur s)) (tx_buf (?tx ! ?q)) = net_cur s" using h unfolding tx_hold_def by blast+
  then have "tx_frame ?x = net_cur s" by (simp add: tx_frame_def)
  ultimately show ?thesis using f inv_lengths(2) [OF i(2)] by (intro exI [of _ ?s]) (simp add: tx_inv_def Let_def)
qed

lemma dma_tx_ok:
  assumes i: "rx_inv s c" "tx_inv s e"
  shows "\<exists>s' e'. nstep DmaTx s = Some s' \<and> rx_inv s' c \<and> tx_inv s' e'"
proof (cases "tx_own (mac_tx (net_mac s) ! net_dtx s)")
  case True
  let ?m = "net_mac s" let ?tx = "mac_tx ?m" and ?d = "net_dtx s" let ?h = "if net_td s = None then 0 else 1 :: nat"
  let ?x = "(?tx ! ?d)\<lparr>tdes0 := tdes0 (?tx ! ?d) AND NOT STM32_TDES0_OWN\<rparr>"
  have r: "tx_ring ?h e ?tx ?d (mac_txptr ?m)" and f: "net_rel s = net_out s @ map tx_frame (ring ?tx ?d e)" using i(2) by (simp_all add: tx_inv_def Let_def)
  have "length (tx_buf ?x) = STM32_MAC_BUFFERS_SIZE" using r by (simp add: tx_ring_def)
  then obtain e' where e: "e = Suc e'" "tx_ring ?h e' (?tx[?d := ?x]) ((?d + 1) mod length ?tx) (mac_txptr ?m)"
    "ring ?tx ?d e = ?tx ! ?d # ring (?tx[?d := ?x]) ((?d + 1) mod length ?tx) e'" using tx_ring_send [OF r True, of ?x] by auto
  let ?s = "s\<lparr>net_mac := set_tx ?d (\<lambda>d. d\<lparr>tdes0 := tdes0 d AND NOT STM32_TDES0_OWN\<rparr>) ?m, net_dtx := next_tx ?m ?d, net_out := net_out s @ [tx_frame (?tx ! ?d)]\<rparr>"
  have "tx_hold (?tx[?d := ?x]) ((?d + 1) mod length ?tx + e') td (net_cur s)" if td: "net_td s = Some td" for td
  proof (rule tx_hold_same)
    show h: "tx_hold ?tx (?d + e) td (net_cur s)" using i(2) td by (simp add: tx_inv_def Let_def)
    show "((?d + 1) mod length ?tx + e') mod length ?tx = (?d + e) mod length ?tx" using e(1) by (simp add: mod_simps)
    have "\<not> tx_own (?tx ! td_physdesc td)" using tx_ring_held(1) [of e ?tx ?d "mac_txptr ?m" "td_physdesc td"] r td h by (simp add: tx_hold_def)
    then show "?tx[?d := ?x] ! td_physdesc td = ?tx ! td_physdesc td" using True by (cases "td_physdesc td = ?d") auto
  qed simp
  then have "tx_inv ?s e'" using e f inv_lengths(2) [OF i(2)] by (simp add: tx_inv_def Let_def next_tx_def)
  moreover have "rx_inv ?s c" by (rule rx_inv_same [OF i(1)]) simp_all
  moreover have "nstep DmaTx s = Some ?s" using True by simp
  ultimately show ?thesis by blast
next
  case False
  then show ?thesis using i by auto
qed

lemma nstep_ok:
  assumes i: "rx_inv s c" "tx_inv s e" and l: "n_legal ev s"
  shows "\<exists>s' c' e'. nstep ev s = Some s' \<and> rx_inv s' c' \<and> tx_inv s' e'"
proof (cases ev)
  case (Link bmsr bmcr lpa)
  let ?s = "s\<lparr>net_mac := snd (mac_lld_poll_link_status bmsr bmcr lpa (net_mac s))\<rparr>"
  have "rx_inv ?s c" by (rule rx_inv_same [OF i(1)]) (simp_all add: mac_lld_poll_link_status_def)
  moreover have "tx_inv ?s e" by (rule tx_inv_same [OF i(2)]) (simp_all add: mac_lld_poll_link_status_def)
  ultimately show ?thesis using Link by auto
next
  case RxGet
  then show ?thesis using rx_get_ok [OF i] l by (metis n_legal.simps(1))
next
  case RxRelease
  then show ?thesis using rx_release_ok [OF i] l by (metis n_legal.simps(2) option.exhaust)
next
  case TxGet
  then show ?thesis using tx_get_ok [OF i] l by (metis n_legal.simps(3))
next
  case (TxWrite bs)
  then show ?thesis using tx_write_ok [OF i] l by (metis n_legal.simps(4) option.exhaust)
next
  case TxRelease
  then show ?thesis using tx_release_ok [OF i] l by (metis n_legal.simps(5) option.exhaust)
next
  case (DmaRx w bs)
  then show ?thesis using dma_rx_ok [OF i, of w bs] l by blast
next
  case DmaTx
  then show ?thesis using dma_tx_ok [OF i] by blast
qed

lemma net_inv: "net_reach s \<Longrightarrow> \<exists>c e. rx_inv s c \<and> tx_inv s e"
proof (induction rule: net_reach.induct)
  case NetInit
  have "rx_inv net_init 0" "tx_inv net_init 0"
    by (auto simp: rx_inv_def tx_inv_def rx_ring_def tx_ring_def net_init_def mac_lld_start_def mac_reset_descriptors_def mac_lld_init_def ring_def Let_def
      STM32_MAC_RECEIVE_BUFFERS_def STM32_MAC_TRANSMIT_BUFFERS_def STM32_TDES0_TCH_def STM32_TDES0_OWN_def)
  then show ?case by blast
next
  case (NetStep s e s')
  then show ?case using nstep_ok [of s _ _ e] by fastforce
qed

lemma nrun_reach: "net_reach s \<Longrightarrow> nrun es s = Some s' \<Longrightarrow> net_reach s'"
  by (induction es arbitrary: s) (auto split: if_splits bind_splits intro: net_reach.intros)

lemma nrun_append: "nrun (es @ es') s = nrun es s \<bind> nrun es'"
  by (induction es arbitrary: s) (auto split: bind_splits)

section \<open>Receiving\<close>

lemma chop_props: "sum_list lens = length f \<Longrightarrow> concat (chop lens f) = f \<and> map length (chop lens f) = lens"
  by (induction lens arbitrary: f) auto









section \<open>Sending\<close>

lemma write_chain_ok:
  assumes "net_reach s" and "net_td s = Some td"
  shows "\<exists>s' td'. nrun (map TxWrite p) s = Some s' \<and> write_chain p td (net_mac s) = Some (td', net_mac s') \<and> net_td s' = Some td' \<and>
    net_cur s' = take STM32_MAC_BUFFERS_SIZE (net_cur s @ concat p) \<and> net_rel s' = net_rel s"
  using assms
proof (induction p arbitrary: s td)
  case Nil
  obtain c e where "tx_inv s e" using net_inv [OF Nil(1)] by blast
  then have "length (net_cur s) \<le> STM32_MAC_BUFFERS_SIZE" using Nil(2) by (simp add: tx_inv_def tx_hold_def Let_def)
  then show ?case using Nil by simp
next
  case (Cons q p)
  obtain c e where i: "rx_inv s c" "tx_inv s e" using net_inv [OF Cons.prems(1)] by blast
  obtain s1 where n: "nstep (TxWrite q) s = Some s1" using tx_write_ok [OF i Cons.prems(2)] by blast
  obtain td1 m where w: "mac_lld_write_transmit_descriptor q td (net_mac s) = Some (td1, m)"
    "s1 = s\<lparr>net_mac := m, net_td := Some td1, net_cur := take STM32_MAC_BUFFERS_SIZE (net_cur s @ q)\<rparr>"
    using n Cons.prems(2) by (auto split: bind_splits)
  have "net_reach s1" using NetStep [OF Cons.prems(1) _ n] Cons.prems(2) by simp
  then obtain s' td' where r: "nrun (map TxWrite p) s1 = Some s'" "write_chain p td1 m = Some (td', net_mac s')" "net_td s' = Some td'"
    "net_cur s' = take STM32_MAC_BUFFERS_SIZE (net_cur s1 @ concat p)" "net_rel s' = net_rel s" using Cons.IH [of s1 td1] w(2) by auto
  have "net_cur s' = take STM32_MAC_BUFFERS_SIZE (net_cur s @ concat (q # p))" unfolding r(4) w(2) by (simp add: min_def)
  then show ?case using r n w Cons.prems(2) by simp
qed

lemma low_level_output_ok:
  assumes r: "net_reach s" and l: "net_td s = None" and g: "fst (mac_lld_get_transmit_descriptor (net_mac s)) \<noteq> None"
  shows "\<exists>s'. nrun (TxGet # map TxWrite p @ [TxRelease]) s = Some s' \<and> low_level_output wakes p (net_mac s) = Some (True, net_mac s') \<and>
    net_rel s' = net_rel s @ [take STM32_MAC_BUFFERS_SIZE (concat p)]"
proof -
  obtain td m where t: "mac_lld_get_transmit_descriptor (net_mac s) = (Some td, m)" using g by (cases "mac_lld_get_transmit_descriptor (net_mac s)") auto
  let ?s = "s\<lparr>net_mac := m, net_td := Some td, net_cur := []\<rparr>"
  have n: "nstep TxGet s = Some ?s" using t by simp
  then have "net_reach ?s" using NetStep [OF r _ n] l by simp
  then obtain s1 td1 where w: "nrun (map TxWrite p) ?s = Some s1" "write_chain p td m = Some (td1, net_mac s1)" "net_td s1 = Some td1"
    "net_cur s1 = take STM32_MAC_BUFFERS_SIZE (concat p)" "net_rel s1 = net_rel s" "net_reach s1"
    using write_chain_ok [of ?s td p] nrun_reach by fastforce
  obtain c e where i: "rx_inv s1 c" "tx_inv s1 e" using net_inv [OF w(6)] by blast
  obtain s2 where s2: "nstep TxRelease s1 = Some s2" using tx_release_ok [OF i w(3)] by blast
  then obtain m2 where m2: "mac_lld_release_transmit_descriptor td1 (net_mac s1) = Some m2"
    "s2 = s1\<lparr>net_mac := m2, net_td := None, net_rel := net_rel s1 @ [net_cur s1]\<rparr>" using w(3) by (auto split: bind_splits)
  have "nrun (TxGet # map TxWrite p @ [TxRelease]) s = Some s2" using n l w(1,3) s2 by (simp add: nrun_append)
  moreover have "low_level_output wakes p (net_mac s) = Some (True, m2)" using t w(2) m2(1) by (simp add: low_level_output_def macWaitTransmitDescriptor.simps)
  ultimately show ?thesis using m2(2) w(4,5) by simp
qed

section \<open>Properties\<close>

lemma frames_le: "length (concat (map frames_of ds)) \<le> length ds"
  by (induction ds) (auto simp: frames_of_def)

lemma pending_frames:
  assumes "net_reach s"
  shows "\<exists>pending waiting. net_in s = net_got s @ pending \<and> length pending \<le> STM32_MAC_RECEIVE_BUFFERS \<and>
    (\<forall>f \<in> set pending. length f \<le> STM32_MAC_BUFFERS_SIZE) \<and> net_rel s = net_out s @ waiting \<and> length waiting \<le> STM32_MAC_TRANSMIT_BUFFERS"
proof -
  obtain c e where i: "rx_inv s c" "tx_inv s e" using net_inv [OF assms] by blast
  let ?rx = "ring (mac_rx (net_mac s)) (mac_rxptr (net_mac s)) c" and ?tx = "ring (mac_tx (net_mac s)) (net_dtx s) e"
  have "net_in s = net_got s @ concat (map frames_of ?rx)" "c \<le> STM32_MAC_RECEIVE_BUFFERS" using i(1) unfolding rx_inv_def Let_def rx_ring_def by simp_all
  moreover have "net_rel s = net_out s @ map tx_frame ?tx" "e \<le> STM32_MAC_TRANSMIT_BUFFERS" using i(2) unfolding tx_inv_def Let_def tx_ring_def by simp_all
  moreover have "length ?rx = c" "length ?tx = e" by (simp_all add: ring_def)
  moreover have "length f \<le> STM32_MAC_BUFFERS_SIZE" if f: "f \<in> set (concat (map frames_of ?rx))" for f
  proof -
    have p: "mac_rxptr (net_mac s) < length (mac_rx (net_mac s))" and b: "\<forall>x \<in> set (mac_rx (net_mac s)). length (rx_buf x) = STM32_MAC_BUFFERS_SIZE"
      using i(1) unfolding rx_inv_def Let_def rx_ring_def by auto
    obtain j where "f = rx_payload (mac_rx (net_mac s) ! ((mac_rxptr (net_mac s) + j) mod length (mac_rx (net_mac s))))"
      using f by (auto simp: ring_def frames_of_def split: if_splits)
    then show ?thesis using b nth_mem [OF mod_length_less [OF p]] by (auto simp: rx_payload_def)
  qed
  ultimately show ?thesis using frames_le [of ?rx] by (intro exI [of _ "concat (map frames_of ?rx)"] exI [of _ "map tx_frame ?tx"]) simp
qed



text \<open>A history: the link comes up and a frame of 64 bytes arrives.\<close>

definition ex_frame :: "u8 list" where "ex_frame = replicate 12 1 @ [8, 0] @ replicate 50 7"
definition ex_buf :: "u8 list" where "ex_buf = ex_frame @ replicate 1458 0"

definition ex_history :: "nevent list" where "ex_history = [Link 0x24 0x1000 0x100, DmaRx 0x00440300 ex_buf]"

lemma ex_history_eval:
  "(case nrun ex_history net_init of
      None \<Rightarrow> False
    | Some s \<Rightarrow> net_in s = [ex_frame] \<and> net_got s = [] \<and> net_rd s = None \<and> net_td s = None \<and> net_rel s = [] \<and>
        fst (mac_lld_get_transmit_descriptor (net_mac s)) \<noteq> None)"
  by code_simp

lemma ex_history_runs:
  obtains s where "nrun ex_history net_init = Some s" "net_reach s" "net_in s = [ex_frame]" "net_got s = []" "net_rd s = None" "net_td s = None" "net_rel s = []"
    "fst (mac_lld_get_transmit_descriptor (net_mac s)) \<noteq> None"
  using ex_history_eval nrun_reach [OF NetInit, of ex_history] by (cases "nrun ex_history net_init") simp_all

text \<open>
  C30. In every reachable state of the Ethernet driver and the DMA engine, under any interleaving of their steps, the
  valid frames stored by the hardware are those the driver has taken, in order, followed by at most four that are still in the ring; the frames put on the
  wire are a prefix of those the driver has released, with at most two behind; and no step of the driver fails an assertion or loops for ever.
  Sending a chain of packet buffers when a descriptor is free releases one frame, the bytes of the chain up to the size of a buffer.
\<close>

theorem ethernet_frames_in_order:
  assumes "net_reach s"
  shows "(\<exists>pending waiting. net_in s = net_got s @ pending \<and> length pending \<le> STM32_MAC_RECEIVE_BUFFERS \<and>
      net_rel s = net_out s @ waiting \<and> length waiting \<le> STM32_MAC_TRANSMIT_BUFFERS) \<and>
    (n_legal e s \<longrightarrow> nstep e s \<noteq> None) \<and>
    (net_td s = None \<and> fst (mac_lld_get_transmit_descriptor (net_mac s)) \<noteq> None \<longrightarrow>
      (\<exists>s'. nrun (TxGet # map TxWrite p @ [TxRelease]) s = Some s' \<and> low_level_output wakes p (net_mac s) = Some (True, net_mac s') \<and>
        net_rel s' = net_rel s @ [take STM32_MAC_BUFFERS_SIZE (concat p)]))"
  using pending_frames [OF assms] low_level_output_ok [OF assms] net_inv [OF assms] nstep_ok [of s _ _ e] by fast

theorem ethernet_frames_in_order_witness:
  "\<exists>s (s' :: net). nrun ex_history net_init = Some s \<and> nstep RxGet s \<noteq> None \<and> low_level_output [] [[1, 2], [3]] (net_mac s) = Some (True, net_mac s') \<and> net_rel s' = [[1, 2, 3]]"
proof -
  obtain s where s: "nrun ex_history net_init = Some s" "net_reach s" "net_rd s = None" "net_td s = None" "net_rel s = []"
    "fst (mac_lld_get_transmit_descriptor (net_mac s)) \<noteq> None" by (rule ex_history_runs)
  note t = ethernet_frames_in_order [OF s(2), of RxGet "[[1, 2], [3]]" "[]"]
  obtain s' :: net where "low_level_output [] [[1, 2], [3]] (net_mac s) = Some (True, net_mac s')"
    "net_rel s' = net_rel s @ [take STM32_MAC_BUFFERS_SIZE (concat [[1, 2], [3]])]" using t s(4,6) by blast
  then have "low_level_output [] [[1, 2], [3]] (net_mac s) = Some (True, net_mac s') \<and> net_rel s' = [[1, 2, 3]]" using s(5) by (simp add: STM32_MAC_BUFFERS_SIZE_def)
  moreover have "nstep RxGet s \<noteq> None" using t s(3) by simp
  ultimately show ?thesis using s(1) by blast
qed




end
