(* ===== verification/Spec2Isabelle.thy ===== *)
theory Spec2Isabelle
  imports Http Serial Timeouts Sleep Events Mac
begin

text \<open>
  \<^bold>\<open>Verification of the firmware of a satellite antenna controller\<close>

  The program under \<open>src/software\<close> runs on a STM32F407 under ChibiOS. It steers a Sea Tel antenna:
  a drive with three motors behind an SPI link, an inertial measurement unit, power monitors, a GPS
  receiver and an oven oscillator, operated over the network through a web page and a rotator
  protocol.

  \<^bold>\<open>The parts, the theories that model them, and how they interact\<close>

  \<^item> \<open>Prelude\<close>: fixed-width integers and signed arithmetic of C, system ticks (\<open>chtime.h\<close>, 100000 per
    second in 32 bits). \<open>CFloat\<close>: IEEE binary32 and binary64 as the compiler's floating point uses
    them, with error bounds. \<open>CString\<close>: C strings and buffers as lists; an access outside a buffer is
    the value \<open>None\<close>; \<open>strlen\<close>, \<open>atoi\<close>, \<open>strncmp\<close>, \<open>memcpy\<close>.
  \<^item> \<open>Debug\<close> (\<open>debug.c\<close>): the log buffer that every module prints to and the web server drains.
  \<^item> \<open>ChPrintf\<close> (\<open>chprintf.c\<close>, \<open>memstreams.c\<close>): formatted output into a bounded buffer.
  \<^item> \<open>Mde\<close>, \<open>Mde_Thread\<close> (\<open>mde.c\<close>): command words, the SPI link, the azimuth encoder; the thread, with a
    program counter over the points at which it sleeps.
  \<^item> \<open>Imu\<close> (\<open>imu.c\<close>): bus transfers, set-up of the sensors, the sampling thread, calibration.
  \<^item> \<open>Ctrl\<close> (\<open>ctrl.c\<close>): the commands and the loop body of the control thread: failsafe, azimuth
    calibration, the position and speed controllers of the axes, the log.
  \<^item> \<open>System\<close> (\<open>main.c\<close>, and the interleaving of the above): one state, the threads as steps between
    two sleeping points or two shared accesses, the assignments of a command as separate steps of
    the server that issues it, and the inductive predicate \<open>reachable\<close> over all interleavings.
  \<^item> \<open>Ocxo\<close> (\<open>ocxo.c\<close>): the pulse interrupt, the vote of three counts, the steering of the DAC.
  \<^item> \<open>Ina3221\<close> (\<open>ina3221.c\<close>): the power monitors on the I2C bus.
  \<^item> \<open>Api\<close> (\<open>api.c\<close>) and \<open>Http\<close> (\<open>http.c\<close>): the two servers, from the received bytes to the commands
    they issue and the answers they send.
  \<^item> \<open>Gps\<close> (\<open>gps.c\<close>): collecting a line and parsing it.
  \<^item> \<open>Ring\<close>: ring buffers, and the locale \<open>bounded_fifo\<close>, the contract of a bounded queue.
  \<^item> \<open>Queues\<close> (\<open>hal_queues.c\<close>): the queues between interrupt handlers and threads.
  \<^item> \<open>Serial\<close> (\<open>hal_serial.c\<close>, \<open>USARTv1/hal_serial_lld.c\<close>): the serial driver with its interrupt
    handler, and the GPS thread reading from it.
  \<^item> \<open>Mailbox\<close> (\<open>chmboxes.c\<close>) and \<open>Semaphore\<close> (\<open>chsem.c\<close>): mailboxes and semaphores between threads, used by
    the network stack's binding.
  \<^item> \<open>Memcore\<close> (\<open>chmemcore.c\<close>, \<open>chalign.h\<close>) and \<open>Memheap\<close> (\<open>chmemheaps.c\<close>): core memory and the heap
    allocator, with the free list followed and changed in memory.
  \<^item> \<open>Sys_Arch\<close> (\<open>sys_arch.c\<close>): the binding of the network stack lwIP to the kernel: its semaphores and
    mailboxes in memory of the heap, and its clock. \<open>Timeouts\<close> (\<open>timeouts.c\<close>, and the wait for a message of
    \<open>tcpip.c\<close>): the list of timers by which lwIP runs its protocols. \<open>Mac\<close> (\<open>MACv1/hal_mac_lld.c\<close>, \<open>lwipthread.c\<close>,
    \<open>pbuf.c\<close>): the Ethernet driver with its descriptor rings, the interface thread that moves frames between
    driver and stack, and the inductive predicate \<open>net_reach\<close> over all interleavings with the DMA engine.
  \<^item> \<open>Sched\<close> (\<open>chschd.c\<close>, \<open>chlists.h\<close>): the ready list and the running thread. \<open>Mutex\<close> (\<open>chmtx.c\<close>): mutexes
    with priority inheritance. \<open>Threads\<close> (\<open>chthreads.c\<close>, \<open>chinstances.c\<close>): threads, and the inductive predicate
    \<open>kernel_reach\<close> over all sequences of what threads and interrupts ask of the kernel. \<open>Vt\<close> (\<open>chvt.c\<close>): the
    virtual timers behind every sleep and timeout, on a clock that is a parameter. \<open>Sleep\<close> (\<open>chschd.c\<close>,
    \<open>chthreads.c\<close>, \<open>chsys.c\<close>): scheduler and virtual timers together, sleeping and suspending with a timeout, thread
    references and the timer interrupt, with the inductive predicate \<open>os_reach\<close> over all histories. \<open>Events\<close>
    (\<open>chevents.c\<close>): event sources, signalling and the waits for events, over the scheduler.

  The control thread reads positions and rates from \<open>mde.c\<close> and \<open>imu.c\<close> and stores torques that the
  drive thread sends; the drive thread stops sending when the control thread has been silent for
  100 ms; the servers only call the command functions of \<open>ctrl.c\<close>, \<open>imu.c\<close> and \<open>mde.c\<close> and read the
  state of all modules for the status document.

  \<^bold>\<open>Conventions\<close>

  A module's variables are a record, each function a definition on it; the static initial values
  are \<open>..._init\<close>. A fault of the C program (an access outside a buffer, a failed debug check) is
  \<open>None\<close>. Hardware is a parameter: the drive (\<open>slave\<close>, a function of the frames sent so far), the
  IMU bus, the I2C devices, \<open>atan\<close>, and the result \<open>ub\<close> of a float to integer conversion that is out
  of range, which C leaves undefined. Nothing is assumed of them except where a statement says so.
  Waiting operations of queues and mailboxes take as an argument what other threads and interrupts
  do each time the caller sleeps or unlocks the system (a list of slices of events); \<open>None\<close> then
  means that the caller still sleeps. There threads are lists in order of arrival; priorities only
  decide which interleaving happens, and all of them are covered. Only \<open>Sched\<close>, \<open>Mutex\<close>, \<open>Threads\<close>, \<open>Sleep\<close>
  and \<open>Events\<close> have priorities.

  \<^bold>\<open>What is shown\<close>

  \<^item> The antenna, over all interleavings of the threads (C1 to C5, C11): the failsafe holds until a
    server writes a command, no step of the control thread faults, the drive's power line follows
    its state, torques under closed-loop control are limited, the drive falls silent without the
    control thread, targets do not drift. An undisturbed round refines the loop body (C8); the
    control laws are characterised with their ranges (C9, C10).
  \<^item> The link and the log: command words (C12), a communication cycle and the power-up sequence
    (C13, C14), the log and the formatted output (C15, C16).
  \<^item> The servers: the position command end to end (C17), least privilege of both servers (C18, C19),
    the status document is never truncated (C20); setting a value and reading it back is the lemma
    \<open>http_set_roundtrip\<close>.
  \<^item> Memory: in every history of allocations and releases free and allocated blocks are disjoint and
    cover the area (C6), and for the default heap the core memory it has taken (lemma \<open>default_heap_accounts\<close>); allocation, and
    release as its inverse, are the lemmas \<open>heap_alloc\<close> and \<open>heap_alloc_free\<close>.
  \<^item> The kernel: no priority inversion and no failed assertion in any history (C21), and with the lemma
    \<open>mutex_handover\<close> a mutex goes to the waiting thread of highest priority; the virtual timers keep
    deadlines (C22); with both together no sleeping thread is lost and no reference is left behind by a
    timeout (C23), and sleepers wake in time (C24); no event is lost (C25); semaphores count (lemma \<open>semaphore_accounts\<close>).
  \<^item> The network stack's base: timers are served (C26), until the clock wraps around (C27); the objects of
    the binding are separate and no memory is lost (C28), a message for the
    stack's thread reaches it (C29); that the list of timers is a stable sort is the lemma \<open>timeouts_stable_sort\<close>. Frames
    pass the descriptor rings in order and complete in both directions (C30), and the interface thread hands each received frame to
    the stack (C31).
  \<^item> The serial line: a GPS sentence arriving at line speed reaches the module's variables (C7),
    queues and mailboxes keep their contents in order (C32, C33). The order of the bytes the GPS thread sees is the
    lemma \<open>gps_bytes_in_order\<close>. Reception and transmission by the interrupt
    handler and the waiting operations of mailboxes are the lemmas \<open>serial_receive\<close>, \<open>serial_transmit\<close> and
    \<open>mailbox_waiting\<close>.
  \<^item> The oscillator (C34); the accuracy of the power monitors is the lemma \<open>power_readings\<close>.
  \<^item> Defects, each shown on the model: a timer lost to an alarm in the past, a call that takes an inherited priority away, a torque that
    wraps before it is limited, a command lost to the control thread, a stop lost to the calibration,
    a read behind the buffer (C35 to C40), and the clock of the timers (C27). Further ones are lemmas:
    \<open>stop_ignores_offset\<close>, \<open>dac_value_wraps\<close>, \<open>gps_sats_never_set\<close>, \<open>api_whole_numbers_misread\<close> below,
    \<open>tx_interrupt_restored\<close>, \<open>chCoreAllocFromTopI_wraps\<close>, \<open>heap_pages_wraps\<close>, \<open>sys_mbox_reset_lost\<close>,
    \<open>chVTObjectDispose_inverted\<close> and \<open>chEvtObjectDispose_inverted\<close>.

  The contracts between components are locales: \<open>bounded_fifo\<close> (interpreted by the input queue, the
  output queue and the mailbox), \<open>message_log\<close> (the debug buffer), \<open>allocator\<close> (what the binding relies
  on of the heap), \<open>timer_functions\<close> (what the timer interrupt relies on of the functions it calls,
  interpreted by \<open>__sch_wakeup\<close>) and \<open>sys_invariant\<close> and \<open>kernel_invariant\<close> (what every step keeps holds in every
  reachable state; interpreted for each invariant of the firmware's threads, and for the kernel's).

  \<^bold>\<open>Bounds\<close>

  Loops are total functions: on the data, with a measure, or a \<open>partial_function\<close> whose termination is
  part of the theorems: for the free list on well-formed heaps, for the timers unless their handlers
  run across the end of the clock, for the chain of mutexes of a lock in every state of the kernel, for
  the alarm of the virtual timers while the clock advances by at most one tick between two readings,
  for the receive loops of the Ethernet driver and of its interface thread in every reachable state. In
  \<open>Sleep\<close> sleeps are shorter than \<open>2\<^sup>3\<^sup>0\<close> ticks, the timer interrupt comes at least every 0x70000000 ticks
  while timers are armed, and there are fewer than a million timers, so that no time difference wraps.
  No fuel is used. \<open>gps_rounds\<close> and \<open>mde_thread_run\<close> count rounds of threads that never end.

  \<^bold>\<open>Not modelled\<close>

  Timeouts of semaphores, queues and mailboxes as virtual timers (there a timeout is one of the things
  that can happen while a thread sleeps), condition variables and messages of the kernel and its registry of threads, the protocols of lwIP, the set-up of its
  interface in \<open>lwipthread.c\<close>, the interrupt handler, PHY access and zero-copy functions of the Ethernet driver (what the handler wakes is an argument), \<open>sys_thread_new\<close> and the interrupt lock of the binding, pin and
  clock set-up, the USB code, the page, script and icon the web server sends (constant data, a
  parameter of \<open>Http\<close>), the accept loops of the servers, and the effect of the blocking block
  writes of the serial driver on the interrupt enable bits (the firmware does not write to it).
\<close>

section \<open>Sample environments\<close>

text \<open>Concrete devices, used to run the definitions on concrete inputs.\<close>

definition quiet_slave :: slave where "quiet_slave frames = (0, 0)"
definition level_bus :: imu_bus where "level_bus xs i = 8"
definition no_atan :: "fp \<Rightarrow> fp" where "no_atan x = Zero False"
definition zero_conv :: ub_conv where "zero_conv lo hi x = 0"

definition sys0 :: sys where
  "sys0 = sys_init level_bus 0 \<lparr>old_t = 0, old_x = 0\<rparr>"

lemma sys0_reachable: "reachable slave level_bus atan ub sys0"
  unfolding sys0_def by (rule reachable.Init)

lemma sys0_simps [simp]:
  "cpc sys0 = CtrlTop" "ctl sys0 = ctrl_state_init" "now sys0 = 0" "bucket sys0 = bucket_init"
  "mth sys0 = \<lparr>mpc = PcTop, mloc = \<lparr>old_t = 0, old_x = 0\<rparr>\<rparr>" "pend sys0 = (\<lambda>c. [])" "ipc sys0 = 0"
  "mde sys0 = mde_init mde_state_init" "cloc sys0 = \<lparr>old_az = 0, dir_el = 0, loop_cntr = 0\<rparr>"
  "iloc sys0 = imu_locals_init"
  by (simp_all add: sys0_def sys_init_def)

lemma sys0_imu [simp]:
  "imu_accel_x (imu sys0) = 0" "imu_accel_y (imu sys0) = 0" "imu_accel_z (imu sys0) = 0"
  "imu_rot_x (imu sys0) = 0" "imu_rot_y (imu sys0) = 0" "imu_rot_z (imu sys0) = 0"
  using imu_init_state [of level_bus imu_state_init]
  by (auto simp: sys0_def sys_init_def imu_state_init_def)

text \<open>
  C1. The failsafe. When the control thread starts a round while the IMU reports a failure
  (all three accelerations zero, or a rotation rate more than 800 away from its rest value), then
  all three motors have torque zero and are out of closed-loop control, and they stay so in
  every interleaving of the control, drive and IMU threads and the clock, until a server
  writes a new command.
\<close>

theorem failsafe_holds:
  assumes "cpc s = CtrlTop" and "failsafe_tripped (imu s)"
    and "sys_run slave bus atan ub s (ECtrl # evs) = Some s'" and "list_all no_assign evs"
  shows "motor_az (mde s') = 0 \<and> motor_el (mde s') = 0 \<and> motor_sk (mde s') = 0 \<and>
    az_state (ctl s') = MOTOR_STATE_CONST_TORQUE \<and> el_state (ctl s') = MOTOR_STATE_CONST_TORQUE \<and>
    sk_state (ctl s') = MOTOR_STATE_CONST_TORQUE \<and> \<not> az_flag_calibrate (ctl s')"
proof -
  from assms(3) obtain s1 where 1: "ctrl_step ub s = Some s1" "sys_run slave bus atan ub s1 evs = Some s'"
    by (auto split: Option.bind_splits)
  have "at_rest s'" by (rule sys_run_rest [OF 1(2) failsafe_rest [OF assms(1,2) 1(1)] assms(4)])
  then show ?thesis by (simp add: at_rest_def stopped_def)
qed

theorem failsafe_holds_witness:
  "\<exists>s'. sys_run quiet_slave level_bus no_atan zero_conv (upd_mde (mde_set_trq_az 20) sys0) [ECtrl, ECtrl, EMde, ETick, ECtrl, ECtrl] = Some s' \<and>
     motor_az (mde s') = 0 \<and> cpc s' = CtrlSk"
proof -
  let ?s = "upd_mde (mde_set_trq_az 20) sys0"
  have t: "failsafe_tripped (imu sys0)" by (simp add: failsafe_tripped_def imu_accessors)
  then have "\<exists>s'. sys_run quiet_slave level_bus no_atan zero_conv ?s [ECtrl, ECtrl, EMde, ETick, ECtrl, ECtrl] = Some s' \<and> cpc s' = CtrlSk"
    by (simp add: ctrl_step_def ctrl_blocks ctrl_commands ctrl_state_init_def mde_init_def mde_state_init_def cal_needs_start_def
        mde_thread_step_def Let_def)
  then show ?thesis
    using failsafe_holds [of ?s quiet_slave level_bus no_atan zero_conv "[ECtrl, EMde, ETick, ECtrl, ECtrl]"] t by auto
qed



text \<open>
  C3. The power line of the drive. In every reachable state the line is on exactly while the
  drive is powered up or its power-up sequence runs (and off during the power-down pause), and
  whatever the drive thread does next, it puts a frame on the link only with the line on.
\<close>

theorem drive_power_line:
  assumes "reachable slave bus atan ub s" and "mde_thread_step slave ub (mth s, s) = (t, s')"
  shows "(mde_pwr_line (mde s) \<longleftrightarrow> powering (mpc (mth s)) \<or> is_powered_up (mde s) \<and> mpc (mth s) \<noteq> PcPdSleep) \<and>
    (mde_frames (mde s') = mde_frames (mde s) \<or> mde_pwr_line (mde s))"
proof -
  have l: "line_inv (mpc (mth s)) (mde s)" by (rule line.always [OF assms(1)])
  then show ?thesis
    using mde_thread_step_frames [OF assms(2)] sent_powered [OF l] by (cases "sent_words (mpc (mth s)) s = []")
      (auto simp: line_inv_def)
qed

theorem drive_power_line_witness:
  "mde_thread_step quiet_slave zero_conv (mth sys0, sys0) = (\<lparr>mpc = PcPuCheck, mloc = \<lparr>old_t = 0, old_x = 0\<rparr>\<rparr>, sys0) \<and>
   \<not> mde_pwr_line (mde sys0)"
proof -
  have "mde_thread_step quiet_slave zero_conv (mth sys0, sys0) = (\<lparr>mpc = PcPuCheck, mloc = \<lparr>old_t = 0, old_x = 0\<rparr>\<rparr>, sys0)"
    by (simp add: mde_thread_step_def mde_init_def mde_state_init_def)
  with drive_power_line [OF sys0_reachable [of quiet_slave no_atan zero_conv] this] show ?thesis
    by (simp add: mde_init_def mde_state_init_def)
qed


text \<open>
  C4. Torque limits. In every reachable state, once the motor controllers of a round have run, an
  axis under closed-loop control has a torque between -25 and 25.
\<close>

theorem torques_limited:
  assumes "reachable slave bus atan ub s" and "cpc s = CtrlLog"
  shows "(az_state (ctl s) \<noteq> MOTOR_STATE_CONST_TORQUE \<longrightarrow> -25 \<le> sint (motor_az (mde s)) \<and> sint (motor_az (mde s)) \<le> 25) \<and>
    (el_state (ctl s) \<noteq> MOTOR_STATE_CONST_TORQUE \<longrightarrow> -25 \<le> sint (motor_el (mde s)) \<and> sint (motor_el (mde s)) \<le> 25)"
  using torque.always [OF assms(1)] assms(2) by (simp add: torque_inv_def torque_limited_def)

text \<open>A run in which the azimuth axis is under closed-loop control.\<close>

definition calibrating_run :: "event list" where
  "calibrating_run =
     replicate 6 EImu @ [EIssue HttpClient CmdAzCalibrate, EAssign HttpClient] @ replicate 6 ECtrl"

lemma level_reads:
  "\<exists>xs. imu_read_accel level_bus cs cmd st = (2056, st\<lparr>imu_xfers := xs\<rparr>)"
  "\<exists>xs. imu_read_rot level_bus cmd st = (2056, st\<lparr>imu_xfers := xs\<rparr>)"
  by (simp_all add: imu_read_accel_def imu_read_rot_def imu_exchange_def level_bus_def accel_raw_def Let_def) blast+

lemma level_imu:
  "\<exists>i. sys_run slave level_bus atan ub sys0 (replicate 6 EImu) = Some (sys0\<lparr>imu := i, iloc := imu_locals_init, ipc := 6\<rparr>) \<and>
     \<not> failsafe_tripped i"
proof -
  obtain fa fr where f: "imu_read_accel level_bus cs cmd st = (2056, st\<lparr>imu_xfers := fa cs cmd st\<rparr>)"
    "imu_read_rot level_bus cmd st = (2056, st\<lparr>imu_xfers := fr cmd st\<rparr>)" for cs cmd st
    using level_reads by metis
  have "replicate 6 EImu = [EImu, EImu, EImu, EImu, EImu, EImu]" by (simp add: numeral_eq_Suc)
  then show ?thesis
    by (simp add: imu_block.simps f)
      (rule exI, rule conjI, rule refl, simp add: failsafe_tripped_def rot_excess_def imu_accessors)
qed

lemma calibrating:
  "\<exists>s. sys_run quiet_slave level_bus no_atan zero_conv sys0 calibrating_run = Some s \<and> cpc s = CtrlLog \<and>
     az_state (ctl s) = MOTOR_STATE_CONST_SPEED"
proof -
  obtain i where i: "sys_run quiet_slave level_bus no_atan zero_conv sys0 (replicate 6 EImu) =
      Some (sys0\<lparr>imu := i, iloc := imu_locals_init, ipc := 6\<rparr>)" "\<not> failsafe_tripped i"
    using level_imu by blast
  show ?thesis
    unfolding calibrating_run_def run_calls_append i(1)
    using i(2)
    by (simp add: numeral_eq_Suc ctrl_sleeping_def ctrl_step_def ctrl_blocks ctrl_commands ctrl_state_init_def
        mde_init_def mde_state_init_def cal_needs_start_def)
qed

theorem torques_limited_witness:
  "\<exists>s. reachable quiet_slave level_bus no_atan zero_conv s \<and> cpc s = CtrlLog \<and>
     az_state (ctl s) = MOTOR_STATE_CONST_SPEED \<and> -25 \<le> sint (motor_az (mde s)) \<and> sint (motor_az (mde s)) \<le> 25"
proof -
  obtain s where s: "sys_run quiet_slave level_bus no_atan zero_conv sys0 calibrating_run = Some s"
    "cpc s = CtrlLog" "az_state (ctl s) = MOTOR_STATE_CONST_SPEED" using calibrating by blast
  have r: "reachable quiet_slave level_bus no_atan zero_conv s" by (rule sys_run_reachable [OF sys0_reachable s(1)])
  show ?thesis using torques_limited [OF r s(2)] r s by auto
qed








text \<open>
  C10. The elevation law. The commanded speed is the distance to the target within a quarter of
  a degree, and otherwise the distance limited to between 1 and 15 degrees per second; the torque
  is the speed error over 10 limited to 25, with measured speeds below 150 taken as
  standstill. No intermediate result overflows.
\<close>

theorem elevation_law:
  "sint (snd (el_approach_speed distance)) =
     (if \<bar>sint distance\<bar> \<le> 45 then sint distance
      else (if sint distance < 0 then -1 else 1) * clamp 182 2730 \<bar>sint distance\<bar>) \<and>
   sint (el_speed_torque spd act (el_static_torque pos)) =
     clamp (-25) 25 ((sint spd - (if \<bar>sint act\<bar> < 150 then 0 else sint act)) sdiv 10)"
  by (simp add: el_approach_speed_law el_speed_torque_law el_static_torque_zero)

text \<open>
  C11. The targets do not drift. No server ever sets a target speed, so in every reachable state
  the target the controllers steer to, computed in floating point from position, speed and
  elapsed time, is exactly the position that was set.
\<close>

theorem targets_do_not_drift:
  assumes "reachable slave bus atan ub s"
  shows "az_target ub' s = az_tgt_pos (ctl s) \<and> el_target ub' s = el_tgt_pos (ctl s)"
  using speeds.always [OF assms] by (simp add: speeds_zero_def az_target_still el_target_still)

theorem targets_do_not_drift_witness: "az_target zero_conv sys0 = 0 \<and> el_target zero_conv sys0 = 0"
  using targets_do_not_drift [OF sys0_reachable [of quiet_slave no_atan zero_conv]] by (simp add: ctrl_state_init_def)

text \<open>
  C38. A race in \<open>el_set_const_trq\<close>. The function stores the torque before it takes the axis out
  of closed-loop control. When the control thread wakes up between the two assignments, the
  command completes, and the motor keeps the last torque of the controller instead of the
  commanded one.
\<close>

theorem elevation_torque_race:
  fixes s :: sys and t :: s8
  assumes "cpc s = CtrlTop" and "pend s HttpClient = []" and "bucket_ok (bucket s)"
    and "\<not> failsafe_tripped (imu s)" and "\<not> az_flag_calibrate (ctl s)"
  shows "\<exists>s'. sys_run slave bus atan ub s
      ([EIssue HttpClient (CmdElTrq t), EAssign HttpClient] @ replicate 6 ECtrl @ [EAssign HttpClient]) = Some s' \<and>
    pend s' HttpClient = [] \<and> el_state (ctl s') = MOTOR_STATE_CONST_TORQUE \<and>
    motor_el (mde s') = motor_el (mde (ctrl_motors ub (cloc s) (upd_mde (mde_set_trq_el t) s)))"
  by (rule el_const_trq_race [OF assms])

lemma motors_el_speed:
  "az_state (ctl r) = MOTOR_STATE_CONST_TORQUE \<Longrightarrow> el_state (ctl r) = MOTOR_STATE_CONST_SPEED \<Longrightarrow>
     motor_el (mde (ctrl_motors ub loc r)) =
       el_speed_torque (el_tgt_spd (ctl r)) (imu_get_el_spd (imu r))
         (el_static_torque (imu_get_el_pos (imu r) + imu_get_el_off (imu r)))"
  by (simp add: ctrl_motors_def ctrl_az_frame(7) ctrl_el_def ctrl_el_speed_def ctrl_sk_frame mde_accessors Let_def)

theorem elevation_torque_race_witness:
  "\<exists>s'. sys_run quiet_slave level_bus no_atan zero_conv
      (sys0\<lparr>imu := imu_state_init\<lparr>imu_accel_x := 2056, imu_rot_x := 2070, imu_rot_y := 2070, imu_rot_z := 2070\<rparr>,
            ctl := ctrl_state_init\<lparr>el_state := MOTOR_STATE_CONST_SPEED, el_tgt_spd := 200\<rparr>\<rparr>)
      ([EIssue HttpClient (CmdElTrq 0), EAssign HttpClient] @ replicate 6 ECtrl @ [EAssign HttpClient]) = Some s' \<and>
    el_state (ctl s') = MOTOR_STATE_CONST_TORQUE \<and> sint (motor_el (mde s')) = 20"
proof -
  let ?s = "sys0\<lparr>imu := imu_state_init\<lparr>imu_accel_x := 2056, imu_rot_x := 2070, imu_rot_y := 2070, imu_rot_z := 2070\<rparr>,
            ctl := ctrl_state_init\<lparr>el_state := MOTOR_STATE_CONST_SPEED, el_tgt_spd := 200\<rparr>\<rparr>"
  have "cpc ?s = CtrlTop" "pend ?s HttpClient = []" "bucket_ok (bucket ?s)" "\<not> failsafe_tripped (imu ?s)"
    "\<not> az_flag_calibrate (ctl ?s)"
    by (simp_all add: bucket_init_ok failsafe_tripped_def rot_excess_def imu_accessors imu_state_init_def ctrl_state_init_def)
  from elevation_torque_race [OF this, of quiet_slave level_bus no_atan zero_conv 0] obtain s' where
    s': "sys_run quiet_slave level_bus no_atan zero_conv ?s
      ([EIssue HttpClient (CmdElTrq 0), EAssign HttpClient] @ replicate 6 ECtrl @ [EAssign HttpClient]) = Some s'"
    "el_state (ctl s') = MOTOR_STATE_CONST_TORQUE"
    "motor_el (mde s') = motor_el (mde (ctrl_motors zero_conv (cloc ?s) (upd_mde (mde_set_trq_el 0) ?s)))"
    by blast
  have "sint (motor_el (mde s')) = 20"
    unfolding s'(3) by (subst motors_el_speed)
      (simp_all add: ctrl_state_init_def imu_state_init_def imu_accessors el_static_torque_zero el_speed_torque_law clamp_def sdiv_nonneg)
  then show ?thesis using s'(1,2) by blast
qed

text \<open>
  C39. A stop command during the second in which the azimuth calibration sleeps is lost: the
  thread does not look at the flag again when it wakes up, and the motor runs at constant speed
  although the calibration was cancelled and the torque set to zero.
\<close>

theorem calibration_overrides_stop:
  assumes "cpc s = CtrlCalSleep" and "pend s HttpClient = []"
  shows "\<exists>s'. sys_run slave bus atan ub s
      ([EIssue HttpClient (CmdAzTrq 0)] @ replicate 3 (EAssign HttpClient) @ [ECtrl, ECtrl]) = Some s' \<and>
    pend s' HttpClient = [] \<and> az_state (ctl s') = MOTOR_STATE_CONST_SPEED \<and>
    \<not> az_flag_calibrate (ctl s') \<and>
    motor_az (mde s') = az_speed_torque 5400 (mde_get_az_enc_spd (mde s))"
  by (rule cal_sleep_race [OF assms])

theorem calibration_overrides_stop_witness:
  "\<exists>s'. sys_run quiet_slave level_bus no_atan zero_conv (sys0\<lparr>cpc := CtrlCalSleep\<rparr>)
      ([EIssue HttpClient (CmdAzTrq 0)] @ replicate 3 (EAssign HttpClient) @ [ECtrl, ECtrl]) = Some s' \<and>
    sint (motor_az (mde s')) = 25"
proof -
  have "sint (az_speed_torque 5400 (mde_get_az_enc_spd (mde sys0))) = 25"
    by (simp add: mde_accessors mde_init_def mde_state_init_def az_speed_torque_clamp clamp_def sdiv_nonneg)
  moreover have "cpc (sys0\<lparr>cpc := CtrlCalSleep\<rparr>) = CtrlCalSleep" "pend (sys0\<lparr>cpc := CtrlCalSleep\<rparr>) HttpClient = []"
    by simp_all
  from calibration_overrides_stop [OF this, of quiet_slave level_bus no_atan zero_conv] obtain s' where
    "sys_run quiet_slave level_bus no_atan zero_conv (sys0\<lparr>cpc := CtrlCalSleep\<rparr>)
      ([EIssue HttpClient (CmdAzTrq 0)] @ replicate 3 (EAssign HttpClient) @ [ECtrl, ECtrl]) = Some s'"
    "motor_az (mde s') = az_speed_torque 5400 (mde_get_az_enc_spd (mde sys0))"
    by (auto simp del: run_calls.simps sys0_simps)
  ultimately show ?thesis by metis
qed

text \<open>
  C12. A torque command word carries its command code, the motor and the torque unchanged, and
  has odd parity: the drive can take it apart and detect a flipped bit.
\<close>

theorem command_word_roundtrip:
  "cmd_code (mde_cmd_set_mot_trq motor speed) = 0b1110 \<and>
   cmd_motor (mde_cmd_set_mot_trq motor speed) = motor AND 0x7 \<and>
   cmd_speed (mde_cmd_set_mot_trq motor speed) = speed \<and>
   odd (popcount (mde_cmd_set_mot_trq motor speed)) \<and>
   word_of_frame (frame_of (mde_cmd_set_mot_trq motor speed)) = mde_cmd_set_mot_trq motor speed"
  by (simp add: cmd_code_roundtrip cmd_motor_roundtrip cmd_speed_roundtrip cmd_odd_parity word_of_frame_of)

text \<open>
  C13. A communication cycle. With the drive powered up and the control thread alive, four
  undisturbed steps of the drive thread send the seven polling words and then one command word
  per motor with the torques in effect, whatever the drive answers, and leave the torques and
  the power state alone.
\<close>

theorem communication_cycle:
  assumes "mpc t = PcComm" and "is_powered_up (mde r)" and "ctrl_is_running r"
    and "mde_thread_run slave ub 4 (t, r) = (t', r')"
  shows "mpc t' = PcTop \<and> mde_frames (mde r') = mde_frames (mde r) @ map frame_of
     ([0xFEFF, 0xFEFF, 0xFEFF, 0xFEFF, 0xFDFF, 0xFCFE, 0xFBFF,
       mde_cmd_set_mot_trq MOTOR_AZ (motor_az (mde r)), mde_cmd_set_mot_trq MOTOR_EL (motor_el (mde r)),
       mde_cmd_set_mot_trq MOTOR_SK (motor_sk (mde r))]) \<and>
     motor_az (mde r') = motor_az (mde r) \<and> motor_el (mde r') = motor_el (mde r) \<and>
     motor_sk (mde r') = motor_sk (mde r) \<and> is_powered_up (mde r')"
proof -
  have e: "(t', r') = (case mde_comm slave ub (now r) (now r) (mloc t) (mde r) of (loc, m) \<Rightarrow>
      (t\<lparr>mpc := PcTop, mloc := loc\<rparr>, r\<lparr>mde := m\<rparr>))"
    using mde_cycle_steps [OF assms(1-3), of slave ub] assms(4) by simp
  have m: "mde r' = snd (mde_comm slave ub (now r) (now r) (mloc t) (mde r))" and "mpc t' = PcTop"
    using e by (simp_all add: case_prod_beta)
  have k: "motor_az (mde r') = motor_az (mde r)" "motor_el (mde r') = motor_el (mde r)"
    "motor_sk (mde r') = motor_sk (mde r)" "is_powered_up (mde r')"
    unfolding m mde_comm_def using mde_poll_state [of slave ub "now r" "now r" "mloc t" "mde r"] assms(2)
    by (simp_all add: mde_send_all_state case_prod_beta Let_def del: mde_send_all.simps)
  show ?thesis
    using mde_comm_frames [of slave ub "now r" "now r" "mloc t" "mde r"] \<open>mpc t' = PcTop\<close> k
    by (simp only: m [symmetric] poll_words_def append.simps simp_thms)
qed

theorem communication_cycle_witness:
  "\<exists>t' r'. mde_thread_run quiet_slave zero_conv 4
     (\<lparr>mpc = PcComm, mloc = \<lparr>old_t = 0, old_x = 0\<rparr>\<rparr>,
      sys0\<lparr>mde := mde_state_init\<lparr>is_powered_up := True, motor_az := 20\<rparr>\<rparr>) = (t', r') \<and>
     map word_of_frame (mde_frames (mde r')) =
       [0xFEFF, 0xFEFF, 0xFEFF, 0xFEFF, 0xFDFF, 0xFCFE, 0xFBFF,
        mde_cmd_set_mot_trq MOTOR_AZ 20, mde_cmd_set_mot_trq MOTOR_EL 0, mde_cmd_set_mot_trq MOTOR_SK 0]"
proof -
  let ?t = "\<lparr>mpc = PcComm, mloc = \<lparr>old_t = 0, old_x = 0\<rparr>\<rparr> :: mde_thread"
  let ?r = "sys0\<lparr>mde := mde_state_init\<lparr>is_powered_up := True, motor_az := 20\<rparr>\<rparr>"
  obtain t' r' where r: "mde_thread_run quiet_slave zero_conv 4 (?t, ?r) = (t', r')" by fastforce
  have c: "mpc ?t = PcComm" "is_powered_up (mde ?r)" "ctrl_is_running ?r"
    by (simp_all add: ctrl_is_running_iff ctrl_state_init_def)
  show ?thesis
    using communication_cycle [OF c r] r by (simp add: mde_state_init_def word_of_frame_of)
qed

text \<open>
  C14. The power-up sequence. Started by a request, 104 undisturbed steps of the drive thread
  switch the line on, average a hundred samples of the rate sensor, send the three groups of
  initialisation words, and only then report the drive as powered up.
\<close>

theorem power_up_sequence:
  assumes "mpc t = PcPuCheck" and "power_up (mde r)" and "\<not> is_powered_up (mde r)"
  shows "mde_thread_run slave ub 104 (t, r) =
    (t\<lparr>mpc := PcComm\<rparr>,
     r\<lparr>imu := imu_calibrate (replicate 100 (imu_get_rot_y (imu r))) (imu r),
       mde := (mde r)\<lparr>mde_pwr_line := True, power_up := False, is_powered_up := True,
         mde_frames := mde_frames (mde r) @ map frame_of (mde_init_words1 @ mde_init_words2 @ mde_init_words3)\<rparr>\<rparr>)"
  by (rule power_up_run [OF assms])

theorem power_up_sequence_witness:
  "\<exists>t' r'. mde_thread_run quiet_slave zero_conv 104
      (\<lparr>mpc = PcPuCheck, mloc = \<lparr>old_t = 0, old_x = 0\<rparr>\<rparr>, sys0\<lparr>mde := mde_power_up mde_state_init\<rparr>) = (t', r') \<and>
     is_powered_up (mde r') \<and> length (mde_frames (mde r')) = 30"
  by (subst power_up_sequence)
    (simp_all add: mde_power_up_def mde_state_init_def mde_init_words1_def mde_init_words2_def mde_init_words3_def)

text \<open>
  A power-down request switches the line off at once and reports the drive as powered
  down after the pause, in two steps of the drive thread.
\<close>

lemma power_down_sequence:
  assumes "mpc t = PcTop" and "power_dn (mde r)" and "is_powered_up (mde r)"
  shows "mde_thread_run slave ub 1 (t, r) = (t\<lparr>mpc := PcPdSleep\<rparr>, upd_mde (\<lambda>m. m\<lparr>mde_pwr_line := False\<rparr>) r) \<and>
    mde_thread_run slave ub 2 (t, r) = (t\<lparr>mpc := PcPuCheck\<rparr>,
       upd_mde (\<lambda>m. m\<lparr>mde_pwr_line := False, power_dn := False, is_powered_up := False\<rparr>) r)"
  using power_down_run [OF assms] by blast

text \<open>
  C15. The debug log. Messages printed into the empty buffer and drained by the web server come
  out complete and in order as long as they fit; the drain leaves the buffer empty.
\<close>

theorem debug_log_roundtrip:
  assumes "bucket_ok b" and "cstr b = []" and "list_all terminated msgs" and "length ret = DEBUG_BUCKET_SIZE"
    and "length (concat (map cstr msgs)) < DEBUG_BUCKET_SIZE - 1"
  shows "\<exists>b' b'' ret'. run_calls debug_print b msgs = Some b' \<and> debug_emty_bucket b' ret = Some (b'', ret') \<and>
    cstr ret' = concat (map cstr msgs) \<and> cstr b'' = []"
  by (rule dbg.run_then_drain [OF assms])

theorem debug_log_roundtrip_witness:
  "\<exists>b' b'' ret'. run_calls debug_print bucket_init [''ab'' @ [NUL], ''c'' @ [NUL]] = Some b' \<and>
     debug_emty_bucket b' bucket_init = Some (b'', ret') \<and> cstr ret' = ''abc'' \<and> cstr b'' = []"
  using debug_log_roundtrip [OF bucket_init_ok, of "[''ab'' @ [NUL], ''c'' @ [NUL]]" bucket_init]
  by (simp add: terminated_def cstr_def DEBUG_BUCKET_SIZE_def bucket_init_def)

text \<open>
  C16. \<open>chsnprintf\<close>. When the format can be printed, the result is terminated and holds as much
  of the text as fits into the given size; the return value is the length of the whole text,
  and nothing is written at or behind the given size.
\<close>

theorem chsnprintf_bounded:
  assumes "0 < sz" and "unat sz \<le> length str" and "chvprintf ub (fmt @ [NUL]) ap = Some out" and "NUL \<notin> set out"
  shows "\<exists>str'. chsnprintf ub str sz fmt ap = Some (word_of_int (int (length out)), str') \<and>
    length str' = length str \<and> terminated str' \<and> cstr str' = take (unat sz - 1) out \<and>
    drop (unat sz) str' = drop (unat sz) str"
  unfolding chsnprintf_def by (rule chvsnprintf_effect [OF assms])

theorem chsnprintf_bounded_witness:
  "\<exists>str'. chsnprintf zero_conv (replicate 8 (CHR ''#'')) 3 ''az:%%'' [] = Some (4, str') \<and>
     cstr str' = ''az'' \<and> drop 3 str' = replicate 5 (CHR ''#'')"
proof -
  have "chvprintf zero_conv (''az:%%'' @ [NUL]) [] = Some ''az:%''"
    by (simp add: chvprintf.simps scan_spec_def scan_width_def scan_precision_def scan_long_def format_arg_def pad_field_def is_digit_def
        less_eq_char_def)
  from chsnprintf_bounded [OF _ _ this, of 3 "replicate 8 (CHR ''#'')"] show ?thesis
    by auto
qed

text \<open>
  Printing an integer with \<open>%d\<close> and reading it with \<open>atoi\<close> gives the integer back, for
  every 32-bit value.
\<close>

lemma print_read_roundtrip:
  assumes "\<not> is_digit c"
  shows "chvprintf ub (CHR ''%'' # CHR ''d'' # [NUL]) [VInt i] = Some (dec_text i) \<and>
    atoi (dec_text i @ c # rest) = Some (sint i)"
proof -
  have "chvprintf ub (CHR ''%'' # CHR ''d'' # [NUL]) [VInt i] = map_option ((@) (dec_text i)) (chvprintf ub [NUL] [])"
    by (rule chvprintf_conv [OF scan_spec_plain format_d]) simp
  then show ?thesis using atoi_dec_text [OF assms] by (simp add: chvprintf.simps)
qed

lemma print_read_roundtrip_witness: "atoi (dec_text (-2147483648) @ [NUL]) = Some (-2147483648)"
  using print_read_roundtrip [of NUL zero_conv "-2147483648" "[]"] by simp



text \<open>
  The DAC value has no limits: with a count that stays too high it falls by ten per vote
  and wraps around below zero, to a value beyond the 12 bits of the DAC.
\<close>

lemma dac_value_wraps:
  assumes "20000001 < sint c"
  shows "(dac_adjust c ^^ n) dac = dac - 10 * of_nat n \<and> uint ((dac_adjust c ^^ 206) 2050) = 65526"
  using dac_adjust_high [OF assms] by simp

text \<open>
  The number of satellites in view is never set: whatever the receiver sends, the value
  reported on the status page stays what it was at start-up.
\<close>

lemma gps_sats_never_set:
  assumes "run_calls gps_char \<lparr>gps_buf = buf, gps_idx = 0, gps_st = gps_state_init\<rparr> cs = Some t'"
  shows "gd_sats (get_gps_data now' ox (gps_st t')) = 0"
  using gps_run_sats [OF assms] by (simp add: get_gps_data_def gps_state_init_def)

text \<open>
  The power readings. Whatever the monitors answer, the six channels stay 16-bit values
  and no round changes the error flags; the power reported for such a channel is the product
  of its two registers over 2000 milliwatts, with an error below 1.05 milliwatts, and the
  conversion to an integer never overflows.
\<close>

lemma power_readings:
  assumes "ina_ok st"
  shows "ina_ok (ina3221_thd_round dev st) \<and> ina_error (ina3221_thd_round dev st) = ina_error st \<and>
    (mon_of_port p st = Some m \<longrightarrow>
      ina3221_get_current_reading ub \<lparr>ports = p, compute = MON_NMWATT\<rparr> st = (MSG_OK, mon_power ub m) \<and>
      \<bar>of_int (sint (mon_power ub m)) - of_int (sint (shunt_volt m) * sint (bus_volt m)) / 2000\<bar> < (105 / 100 :: rat))"
proof -
  have "mon_ok m" if "mon_of_port p st = Some m" using assms that
    by (auto simp: ina_ok_def mon_of_port_def split: mon_port.splits)
  then show ?thesis
    using thd_round_ok [OF assms, of dev] mon_power_accurate [of m ub] by (simp add: ina3221_get_current_reading_def)
qed

lemma power_readings_witness:
  "\<bar>of_int (sint (mon_power zero_conv \<lparr>bus_volt = 12000, shunt_volt = 400\<rparr>)) - 2400\<bar> < (105 / 100 :: rat)"
proof -
  let ?m = "\<lparr>bus_volt = 12000, shunt_volt = 400\<rparr>"
  have ok: "ina_ok (ina_state_init\<lparr>mon_ch1 := ?m\<rparr>)"
    by (simp add: ina_ok_def mon_ok_def ina_state_init_def Let_def)
  show ?thesis
    using power_readings [OF ok, of "\<lambda>xs. (False, 0, 0)" MON_PORT_1 ?m zero_conv] by (simp add: mon_of_port_def)
qed

text \<open>
  A round of the power monitor. When the devices answer with their registers, the channel
  that is updated takes the bus and shunt voltage of its two registers; when a transfer fails,
  it keeps its last reading.
\<close>

lemma monitor_update:
  "(reads_registers dev R \<longrightarrow>
     fst (ina3221_update_chan dev pcfg m addr st) =
       \<lparr>bus_volt = scast (R pcfg (addr + 1)), shunt_volt = scast (R pcfg addr)\<rparr>) \<and>
   (\<not> fst (ina3221_get_chan dev pcfg addr st) \<longrightarrow> fst (ina3221_update_chan dev pcfg m addr st) = m)"
  using update_chan_reads [of dev R pcfg m addr st] update_chan_failed [of dev pcfg addr st m] by auto

definition register_dev :: "(u8 \<Rightarrow> u8 \<Rightarrow> u16) \<Rightarrow> i2c_dev" where
  "register_dev R xs = (case last xs of (a, tx) \<Rightarrow> (True, ucast (drop_bit 8 (R a (hd tx))), ucast (R a (hd tx))))"

lemma monitor_update_witness:
  "fst (ina3221_update_chan (register_dev (\<lambda>a r. 100 * ucast r)) pcfg_40 \<lparr>bus_volt = 0, shunt_volt = 0\<rparr> 3 ina_state_init) =
     \<lparr>bus_volt = 400, shunt_volt = 300\<rparr> \<and>
   fst (ina3221_update_chan (\<lambda>xs. (False, 0, 0)) pcfg_40 \<lparr>bus_volt = 7, shunt_volt = 8\<rparr> 3 ina_state_init) =
     \<lparr>bus_volt = 7, shunt_volt = 8\<rparr>"
  using monitor_update [of "register_dev (\<lambda>a r. 100 * ucast r)" "\<lambda>a r. 100 * ucast r" pcfg_40 "\<lparr>bus_volt = 0, shunt_volt = 0\<rparr>" 3 ina_state_init]
    monitor_update [of "\<lambda>xs. (False, 0, 0)" "\<lambda>a r. 0" pcfg_40 "\<lparr>bus_volt = 7, shunt_volt = 8\<rparr>" 3 ina_state_init]
  by (simp add: reads_registers_def register_dev_def ina3221_get_chan_def sysReadI2C16_def)

text \<open>
  C17. The position command. A command \<open>P az el\<close> with two-digit fractions, in degrees within the
  range of the axes, is answered with success, puts both axes into position control, cancels a
  calibration, and sets targets within 1.01 counts (0.006 degrees) of the requested angles.
\<close>

theorem position_command:
  assumes "pos_ok p" and "length (p_az_frac p) = 2" and "length (p_el_frac p) = 2"
    and "dec_val (p_az p) < 360" and "dec_val (p_el p) < 180"
  shows "\<exists>conn' r'. api_segment ub (pos_text p) (conn, r) = Some (False, conn', r') \<and>
    ac_out conn' = ac_out conn @ [''RPRT 0'' @ [LF]] \<and>
    az_state (ctl r') = MOTOR_STATE_TARGET_POSITION \<and> el_state (ctl r') = MOTOR_STATE_TARGET_POSITION \<and>
    \<not> az_flag_calibrate (ctl r') \<and>
    \<bar>of_int (uint (az_tgt_pos (ctl r'))) - (of_int (dec_val (p_az p)) + of_int (dec_val (p_az_frac p)) / 100) * 182044 / 1000\<bar> < (101 / 100 :: rat) \<and>
    \<bar>of_int (sint (el_tgt_pos (ctl r'))) - (of_int (dec_val (p_el p)) + of_int (dec_val (p_el_frac p)) / 100) * 182044 / 1000\<bar> < (101 / 100 :: rat)"
  by (rule set_position_effect [OF assms])

definition pos_example :: pos_fields where
  "pos_example = \<lparr>p_az = ''180'', p_az_dot = CHR ''.'', p_az_frac = ''50'', p_el = ''45'', p_el_dot = CHR ''.'',
     p_el_frac = ''25'', p_tail = [LF]\<rparr>"

definition conn0 :: api_conn where
  "conn0 = \<lparr>last_az = Zero False, last_el = Zero False, last_cmd = 0, ac_out = []\<rparr>"

theorem position_command_witness:
  "\<exists>conn' r'. api_segment zero_conv (''P 180.50 45.25'' @ [LF]) (conn0, sys0) = Some (False, conn', r') \<and>
    \<bar>of_int (uint (az_tgt_pos (ctl r'))) - 32858942 / 1000\<bar> < (101 / 100 :: rat)"
proof -
  have ok: "pos_ok pos_example" by code_simp
  have t: "pos_text pos_example = ''P 180.50 45.25'' @ [LF]" by code_simp
  have v: "dec_val (p_az pos_example) = 180" "dec_val (p_el pos_example) = 45" "dec_val (p_az_frac pos_example) = 50"
    "dec_val (p_el_frac pos_example) = 25" "length (p_az_frac pos_example) = 2" "length (p_el_frac pos_example) = 2" by code_simp+
  show ?thesis
    using position_command [OF ok, of zero_conv conn0 sys0] unfolding t v by auto
qed

text \<open>
  C18. Least privilege of the rotator server. Whatever a client sends in a segment, the server acts
  on the antenna only through its own commands: setting positions, and setting target speeds
  to zero.
\<close>

theorem api_acts_by_commands:
  assumes "api_segment ub data (conn, r) = Some (q, conn', r')"
  shows "\<exists>cmds. list_all (client_may ApiClient) cmds \<and> r' = fold do_command cmds r"
  by (rule api_segment_commands [OF assms])

theorem api_acts_by_commands_witness:
  "\<exists>cmds. list_all (client_may ApiClient) cmds \<and> snd (api_stop (conn0, sys0)) = fold do_command cmds sys0"
proof -
  have "api_segment zero_conv ''S'' (conn0, sys0) = Some (False, fst (api_stop (conn0, sys0)), snd (api_stop (conn0, sys0)))"
    by (simp add: api_segment_def)
  then show ?thesis by (rule api_acts_by_commands)
qed

text \<open>
  C40. A segment of 128 or more bytes without a NUL that starts with \<open>P\<close> makes the server read
  behind its buffer.
\<close>

theorem api_long_segment_faults:
  assumes "128 \<le> length data" and "NUL \<notin> set (take 128 data)" and "data = CHR ''P'' # rest"
  shows "api_segment ub data cr = None"
  by (rule long_segment_fault [OF assms])

theorem api_long_segment_faults_witness:
  "api_segment zero_conv (CHR ''P'' # replicate 127 (CHR ''1'')) (conn0, sys0) = None"
  by (rule api_long_segment_faults [OF _ _ refl]) simp_all

text \<open>
  Angles without a decimal point are misread: in \<open>P az el\<close> with whole numbers, the azimuth is
  taken, the elevation is silently set to zero, and the command is accepted.
\<close>

lemma api_whole_numbers_misread:
  assumes "number_field a" and "list_all (\<lambda>c. \<not> is_point c \<and> c \<noteq> NUL) t" and "length a + length t \<le> 120"
  shows "extract_numbers (api_buf (''P '' @ a @ CHR '' '' # t)) = Some (True, api_number (dec_val a) 0, api_number 0 0)"
  by (rule extract_numbers_integers [OF assms])

text \<open>
  The stop command ignores the encoder offset: after it, the controllers see the offset as
  the distance still to go, on both axes.
\<close>

lemma stop_ignores_offset:
  assumes "api_stop (conn, r) = (conn', r')"
  shows "az_target ub r' - (mde_get_az_enc_pos (mde r') + mde_get_az_enc_off (mde r')) = - mde_get_az_enc_off (mde r) \<and>
    el_target ub r' - (imu_get_el_pos (imu r') + imu_get_el_off (imu r')) = - imu_get_el_off (imu r)"
  using stop_distance [OF assms] by blast

lemma stop_ignores_offset_witness:
  "let r' = snd (api_stop (conn0, sys0\<lparr>mde := mde_set_az_enc_off 1000 mde_state_init\<rparr>))
   in az_target zero_conv r' - (mde_get_az_enc_pos (mde r') + mde_get_az_enc_off (mde r')) = -1000"
  using stop_ignores_offset [of conn0 "sys0\<lparr>mde := mde_set_az_enc_off 1000 mde_state_init\<rparr>", OF prod.collapse [symmetric], of zero_conv]
  by (simp add: mde_accessors Let_def)

text \<open>
  C20. The status document. Formatting never faults, whatever the state; the document is the
  concatenation of its seven parts, none of them truncated, and leaves at least 159 bytes of
  the buffer free.
\<close>

theorem status_document_complete:
  assumes "length buf = 1024"
  shows "\<exists>t1 t2 t3 t4 t5 t6 t7 len buf'.
    chvprintf ub (fmt_mde @ [NUL]) (args_mde s) = Some t1 \<and>
    chvprintf ub (fmt_imu @ [NUL]) (args_imu s) = Some t2 \<and>
    chvprintf ub (fmt_ctrl @ [NUL]) (args_ctrl s) = Some t3 \<and>
    chvprintf ub (fmt_pwr @ [NUL]) (args_pwr ub s) = Some t4 \<and>
    chvprintf ub (fmt_gps @ [NUL]) (args_gps s) = Some t5 \<and>
    chvprintf ub (fmt_ocxo @ [NUL]) (args_ocxo s) = Some t6 \<and>
    chvprintf ub (fmt_end @ [NUL]) (args_end s) = Some t7 \<and>
    json_text ub buf s = Some (len, buf') \<and> cstr buf' = t1 @ t2 @ t3 @ t4 @ t5 @ t6 @ t7 \<and>
    terminated buf' \<and> length (cstr buf') \<le> 864"
proof -
  from json_text_complete [OF assms, of ub s] obtain t1 t2 t3 t4 t5 t6 t7 lb where
    t: "chvprintf ub (fmt_mde @ [NUL]) (args_mde s) = Some t1" "chvprintf ub (fmt_imu @ [NUL]) (args_imu s) = Some t2"
      "chvprintf ub (fmt_ctrl @ [NUL]) (args_ctrl s) = Some t3" "chvprintf ub (fmt_pwr @ [NUL]) (args_pwr ub s) = Some t4"
      "chvprintf ub (fmt_gps @ [NUL]) (args_gps s) = Some t5" "chvprintf ub (fmt_ocxo @ [NUL]) (args_ocxo s) = Some t6"
      "chvprintf ub (fmt_end @ [NUL]) (args_end s) = Some t7" "json_text ub buf s = Some lb"
      "json_holds (t1 @ t2 @ t3 @ t4 @ t5 @ t6 @ t7) lb" "length (t1 @ t2 @ t3 @ t4 @ t5 @ t6 @ t7) \<le> 864"
    by metis
  then show ?thesis by (cases lb) (simp add: json_holds_def)
qed

definition station0 :: station where
  "station0 = \<lparr>ctl = ctrl_state_init, mde = mde_state_init, imu = imu_state_init, bucket = bucket_init, now = 0,
     ocxo_s = ocxo_state_init, gps_s = gps_state_init, ina_s = ina_state_init,
     api_s = \<lparr>connected = False, led_connected = False\<rparr>, pwr_lna = False, pwr_ext5 = False, pwr_ext24 = False\<rparr>"

theorem status_document_complete_witness:
  "\<exists>len buf'. json_text zero_conv (replicate 1024 NUL) station0 = Some (len, buf') \<and> length (cstr buf') \<le> 864"
  using status_document_complete [of "replicate 1024 NUL" zero_conv station0] by auto

text \<open>
  C19. Least privilege of the web server. Whatever a request contains, if it is answered, the
  station changes only by commands of the web client and by the three power switches.
\<close>

theorem http_acts_by_commands:
  assumes "http_server_serve ub assets buf req s = Some (out, s')"
  shows "\<exists>cmds lna ext5 ext24. list_all (client_may HttpClient) cmds \<and>
    s' = (fold do_command cmds s)\<lparr>pwr_lna := lna, pwr_ext5 := ext5, pwr_ext24 := ext24\<rparr>"
  using http_serve_effect [OF assms] by (simp add: http_effect_def)

theorem http_acts_by_commands_witness:
  "\<exists>cmds lna ext5 ext24. list_all (client_may HttpClient) cmds \<and>
    az_calibrate station0 = (fold do_command cmds station0)\<lparr>pwr_lna := lna, pwr_ext5 := ext5, pwr_ext24 := ext24\<rparr>"
  by (rule http_acts_by_commands [of zero_conv "\<lparr>as_page = [], as_jquery = [], as_favicon = []\<rparr>" "[]"
        "Some ''GET /calibrate HTTP''" station0 print_ack])
    (simp add: http_server_serve_def http_routes_def)

text \<open>
  Round trip through the web interface. A position or torque printed in the status document
  and sent back in a set request sets exactly that position or torque.
\<close>

lemma http_set_roundtrip:
  assumes "\<not> is_digit c"
  shows "http_server_serve ub assets buf (Some (''GET /set/tar/az/'' @ dec_text (word_of_int (uint (az_get_tgt_pos s0))) @ c # rest)) s =
      Some (print_ack, az_set_tgt_pos (az_get_tgt_pos s0) s) \<and>
    http_server_serve ub assets buf (Some (''GET /set/tar/el/'' @ dec_text (word_of_int (sint (el_get_tgt_pos s0))) @ c # rest)) s =
      Some (print_ack, el_set_tgt_pos (el_get_tgt_pos s0) s) \<and>
    http_server_serve ub assets buf (Some (''GET /set/trq/az/'' @ dec_text (word_of_int (sint (mde_get_trq_az (mde s0)))) @ c # rest)) s =
      Some (print_ack, az_set_const_trq (mde_get_trq_az (mde s0)) s)"
  unfolding http_set_number [OF assms] printed_u16 printed_s16 printed_s8 by simp

lemma http_set_roundtrip_witness:
  "http_server_serve zero_conv \<lparr>as_page = [], as_jquery = [], as_favicon = []\<rparr> []
     (Some (''GET /set/tar/az/'' @ dec_text 40000 @ CHR '' '' # ''HTTP'')) station0 =
   Some (print_ack, az_set_tgt_pos 40000 station0)"
proof -
  have "\<not> is_digit (CHR '' '')" by code_simp
  from http_set_roundtrip [OF this, of zero_conv "\<lparr>as_page = [], as_jquery = [], as_favicon = []\<rparr>" "[]" "az_set_tgt_pos 40000 station0" "''HTTP''" station0]
  show ?thesis by (simp add: az_get_tgt_pos_def az_set_tgt_pos_def)
qed

section \<open>The serial line\<close>

text \<open>
  C32. The I/O queues stay well-formed. From a new queue on, whatever sequence of puts, gets, resets
  and timeouts happens on it, every operation stays inside the buffer, the pointers stay
  consistent with the counter, and the size does not change; input and output queues alike.
\<close>

theorem queues_well_formed:
  assumes "0 < length buf"
  shows "(\<exists>q'. run_calls iq_event (iqObjectInit buf nfy) evs = Some q' \<and> iq_ok q' \<and> qSizeX q' = length buf) \<and>
    (\<exists>q'. run_calls oq_event (oqObjectInit buf nfy) evs = Some q' \<and> oq_ok q' \<and> qSizeX q' = length buf)"
proof -
  have "iq_ok (iqObjectInit buf nfy)" "oq_ok (oqObjectInit buf nfy)" "qSizeX (iqObjectInit buf nfy) = length buf"
    "qSizeX (oqObjectInit buf nfy) = length buf"
    using assms by (auto simp: iqObjectInit_def oqObjectInit_def q_contents)
  then show ?thesis using iq_slice_ok oq_slice_ok by metis
qed

theorem queues_well_formed_witness:
  "\<exists>q'. run_calls iq_event (iqObjectInit [0, 0] False) [EvPut 1, EvPut 2, EvPut 3, EvGet, EvReset] = Some q' \<and> iq_ok q'"
  using queues_well_formed [of "[0, 0]" False "[EvPut 1, EvPut 2, EvPut 3, EvGet, EvReset]"] by auto

text \<open>
  Reading a block with a timeout. What \<open>iqReadTimeout\<close> returns are the bytes that were queued
  and those that arrived in the meantime and were accepted, in order and at most \<open>n\<close> of them;
  the rest stays queued.
\<close>

lemma queue_read_timeout:
  assumes "iq_ok q" and "list_all (list_all arrival) slices"
    and "iqReadTimeout self timeout slices n q = Some (out, slices', q')"
  shows "length out \<le> n \<and> iq_ok q' \<and>
    (\<exists>past acc. slices = past @ slices' \<and> subseq acc (arrived (concat past)) \<and> iq_items q @ acc = out @ iq_items q')"
proof -
  have "iqReadTimeout_loop self timeout slices n q = Some (out, slices', q')"
    using assms(3) by (simp add: iqReadTimeout_def split: if_splits)
  from iqReadTimeout_loop_spec [OF this assms(1,2)] show ?thesis by (auto simp: iq_moves_def)
qed

text \<open>
  Reading without waiting returns. With the timeout \<open>TIME_IMMEDIATE\<close>, \<open>iqReadTimeout\<close>
  terminates on every well-formed queue, whatever interrupts and other threads do with the
  queue in the windows between the blocks it copies.
\<close>

lemma immediate_read_returns:
  assumes "iq_ok q" and "0 < n"
  shows "\<exists>out slices' q'. iqReadTimeout self TIME_IMMEDIATE slices n q = Some (out, slices', q')"
  using iqReadTimeout_immediate [OF assms(1), of TIME_IMMEDIATE self slices n] assms(2)
  by (auto simp: iqReadTimeout_def TIME_IMMEDIATE_def)

text \<open>A queue of three bytes, and a driver for the line of the GPS receiver.\<close>

definition queue3 :: io_queue where
  "queue3 = \<lparr>q_waiting = [], q_counter = 2, q_buffer = [11, 0, 10], q_wrptr = 1, q_rdptr = 2, q_notify = False,
     q_woken = [], q_notified = 0\<rparr>"

lemma queue3: "iq_ok queue3" "iq_items queue3 = [10, 11]"
  by (simp_all add: queue3_def q_contents ring_def upt_conv_Cons)

lemma queue_read_timeout_witness:
  "\<exists>q'. iqReadTimeout 1 5 [[EvPut 12]] 3 queue3 = Some ([10, 11, 12], [], q') \<and> iq_items q' = []"
proof -
  have "map_option (\<lambda>(out, slices, q). (out, slices)) (iqReadTimeout 1 5 [[EvPut 12]] 3 queue3) = Some ([10, 11, 12], [])"
    by code_simp
  then obtain q' where q': "iqReadTimeout 1 5 [[EvPut 12]] 3 queue3 = Some ([10, 11, 12], [], q')" by auto
  from queue_read_timeout [OF queue3(1) _ this] have "\<exists>acc. subseq acc [12] \<and> [10, 11] @ acc = [10, 11, 12] @ iq_items q'"
    by (auto simp: queue3)
  then have "iq_items q' = []" by (auto dest: list_emb_length)
  then show ?thesis using q' by blast
qed

lemma immediate_read_returns_witness:
  "\<exists>out slices' q'. iqReadTimeout 1 TIME_IMMEDIATE [[EvReset, EvPut 1], [EvGet]] 5 queue3 = Some (out, slices', q')"
  using immediate_read_returns [OF queue3(1), of 5 1 "[[EvReset, EvPut 1], [EvGet]]"] by simp

text \<open>
  Receiving. An interrupt in which the line delivers the frames \<open>rx\<close> until the receiver is
  empty ends; the input queue then holds what it held followed by the received bytes, cut to its
  16 slots, and if any byte was lost the driver has raised \<open>SD_QUEUE_FULL_ERROR\<close>.
\<close>

lemma serial_receive:
  assumes "sd_ok s" and "list_ex (\<lambda>(dr, sr). (take_bit 16 sr AND SR_RECEIVE) = 0) rx"
  shows "\<exists>s'. sd_lld_serve_interrupt sr rx s = Some s' \<and> sd_ok s' \<and>
    rx_items s' = take SERIAL_BUFFERS_SIZE (rx_items s @ rx_bytes (sd_rxmask s) (take_bit 16 sr) rx) \<and>
    (SERIAL_BUFFERS_SIZE < length (rx_items s @ rx_bytes (sd_rxmask s) (take_bit 16 sr) rx) \<longrightarrow>
       SD_QUEUE_FULL_ERROR \<in> set (sd_event s'))"
  by (rule serve_receives [OF assms])

definition usart0 :: usart where
  "usart0 = \<lparr>u_CR1 = 0, u_CR2 = 0, u_CR3 = 0, u_BRR = 0, u_sent = []\<rparr>"

definition SD3 :: SerialDriver where
  "SD3 = sd_lld_init 42000000 (replicate 16 0) (replicate 16 0) usart0
     \<lparr>sd_event = [], sd_state = SD_UNINIT, sd_iqueue = iqObjectInit [] False, sd_oqueue = oqObjectInit [] False,
      sd_usart = usart0, sd_clock = 0, sd_rxmask = 255, sd_rcc = False\<rparr>"

lemma SD3: "sd_ok SD3" "rx_items SD3 = []" "tx_items SD3 = []" "sd_rxmask SD3 = 255" "q_notify (sd_oqueue SD3)"
  "u_sent (sd_usart SD3) = []"
  by (simp_all add: SD3_def sd_lld_init_def sdObjectInit_def sd_ok_def iqObjectInit_def oqObjectInit_def q_contents
      SERIAL_BUFFERS_SIZE_def usart0_def)

lemma serial_receive_witness:
  "\<exists>s'. sd_lld_serve_interrupt 0x20 [(65, 0x20), (66, 0)] SD3 = Some s' \<and> rx_items s' = [65, 66]"
proof -
  have "rx_bytes 255 (take_bit 16 0x20) [(65, 0x20), (66, 0)] = [65, 66]" by code_simp
  then show ?thesis
    using serial_receive [OF SD3(1), of "[(65, 0x20), (66, 0)]" "0x20"] by (auto simp: SD3 SERIAL_BUFFERS_SIZE_def)
qed

text \<open>
  Transmitting. Bytes written with \<open>sdWriteI\<close> that fit the output queue are all accepted, and
  as many transmitter interrupts as there are bytes queued, and one more, send exactly what was
  queued, in order, and switch the interrupt off.
\<close>

lemma serial_transmit:
  assumes "sd_ok s" and "q_notify (sd_oqueue s)" and "bp \<noteq> []" and "length (tx_items s) + length bp \<le> SERIAL_BUFFERS_SIZE"
    and "list_all tx_only srs" and "length srs = length (tx_items s) + length bp + 1"
  shows "\<exists>s1 s2. sdWriteI bp s = Some (length bp, s1) \<and>
    run_calls (\<lambda>s sr. sd_lld_serve_interrupt sr [] s) s1 srs = Some s2 \<and>
    u_sent (sd_usart s2) = u_sent (sd_usart s) @ tx_items s @ bp \<and> tx_items s2 = [] \<and>
    (u_CR1 (sd_usart s2) AND USART_CR1_TXEIE) = 0"
proof -
  obtain s1 where s1: "sdWriteI bp s = Some (length bp, s1)" "sd_ok s1" "tx_items s1 = tx_items s @ bp"
    "u_sent (sd_usart s1) = u_sent (sd_usart s)" "(u_CR1 (sd_usart s1) AND USART_CR1_TXEIE) \<noteq> 0"
    using sdWriteI_spec [OF assms(1-4)] by blast
  show ?thesis using s1 transmit_all [OF s1(2,5) assms(5)] assms(6) by auto
qed

lemma serial_transmit_witness:
  "\<exists>s1 s2. sdWriteI [72, 105] SD3 = Some (2, s1) \<and>
     run_calls (\<lambda>s sr. sd_lld_serve_interrupt sr [] s) s1 [0x80, 0x80, 0x80] = Some s2 \<and> u_sent (sd_usart s2) = [72, 105]"
proof -
  have "list_all tx_only [0x80, 0x80, 0x80]" by code_simp
  then show ?thesis
    using serial_transmit [OF SD3(1,5), of "[72, 105]" "[0x80, 0x80, 0x80]"] by (auto simp: SD3 SERIAL_BUFFERS_SIZE_def)
qed

text \<open>
  C7. A position sentence at line speed. When the bytes of a GGA sentence with the receiver's field
  widths and a line end arrive over the input queue, each while the thread waits for it, the
  thread ends with the sentence's time, satellites and altitude, and with latitude and longitude
  within a hundred-thousandth of a degree of the sentence's values, south and west negative.
\<close>

theorem gps_sentence_accepted:
  assumes "iq_ok q" and "iq_items q = []" and "q_waiting q = []"
    and "gga_ok f" and "line = gga_sentence f tail" and "list_all line_char line" and "length line \<le> 127"
    and "length buf = 128" and "nl = LF \<or> nl = CR"
    and "dec_val (f_lat_d f) \<le> 90" and "dec_val (f_lon_d f) \<le> 180"
  shows "\<exists>q' t'. gps_rounds (length line + 1) self (paced (line @ [nl])) q \<lparr>gps_buf = buf, gps_idx = 0, gps_st = st\<rparr> = Some ([], q', t') \<and>
    iq_items q' = [] \<and> gps_idx t' = 0 \<and>
    m_time (gps_st t') = word_of_int (dec_val (f_time f)) \<and> m_sats_sol (gps_st t') = word_of_int (dec_val (f_sats f)) \<and>
    m_alt (gps_st t') = word_of_int (dec_val (f_alt f)) \<and>
    fp_near (m_lat (gps_st t'))
      (degrees (dec_val (f_lat_d f)) (dec_val (f_lat_m f)) (dec_val (f_lat_f f)) (f_ns f = CHR ''N'')) (1 / 100000) \<and>
    fp_near (m_lon (gps_st t'))
      (degrees (dec_val (f_lon_d f)) (dec_val (f_lon_m f)) (dec_val (f_lon_f f)) (f_ew f = CHR ''E'')) (1 / 100000)"
proof -
  have s: "line @ NUL # drop (length line + 1) buf = gga_sentence f (tail @ NUL # drop (length line + 1) buf)"
    unfolding assms(5) by (simp add: gga_sentence_def)
  have d: "0 \<le> dec_val ds \<and> dec_val ds < 10 ^ n" if "digits n ds" for n ds
    using dec_val_bounds [of ds] that by (auto simp: digits_def)
  note o = assms(4) [unfolded gga_ok_def]
  have n: "fp_near (gps_coord (dec_val a * 100) (dec_val b) (dec_val c) p)
      (degrees (dec_val a) (dec_val b) (dec_val c) p) (1 / 100000)"
    if "digits k a" "digits 2 b" "digits 4 c" "dec_val a \<le> 180" for a b c p k
    using d [OF that(1)] d [OF that(2)] d [OF that(3)] that(4) by (intro gps_coord_near) simp_all
  obtain st' where r: "run_calls gps_char \<lparr>gps_buf = buf, gps_idx = 0, gps_st = st\<rparr> (line @ [nl]) =
      Some \<lparr>gps_buf = line @ NUL # drop (length line + 1) buf, gps_idx = 0, gps_st = st'\<rparr>"
    and p: "gps_parse (line @ NUL # drop (length line + 1) buf) st = Some st'"
    using gps_line [OF assms(6-9), of st] gps_parse_gga_fields [OF assms(4) s, of st] by (auto simp: Let_def)
  show ?thesis
    using gps_paced [OF assms(1-3) r, of self] p gps_parse_gga_fields [OF assms(4) s, of st] o assms(10,11) n by auto
qed

definition gga_example :: gga_fields where
  "gga_example = \<lparr>f_time = ''123519'', f_lat_d = ''48'', f_lat_m = ''07'', f_lat_f = ''0380'', f_ns = CHR ''N'',
     f_lon_d = ''011'', f_lon_m = ''31'', f_lon_f = ''0000'', f_ew = CHR ''E'', f_fix = CHR ''1'', f_sats = ''08'',
     f_dop = ''0.9'', f_alt = ''545''\<rparr>"

theorem gps_sentence_accepted_witness:
  "\<exists>q' t'. gps_rounds 56 1 (paced (''$GPGGA,123519,4807.0380,N,01131.0000,E,1,08,0.9,545.4,M'' @ [CR])) (sd_iqueue SD3)
       \<lparr>gps_buf = replicate 128 NUL, gps_idx = 0, gps_st = gps_state_init\<rparr> = Some ([], q', t') \<and>
     m_time (gps_st t') = 123519 \<and> m_alt (gps_st t') = 545 \<and>
     fp_near (m_lat (gps_st t')) (48 + 7038 / 60000) (1 / 100000)"
proof -
  have ok: "gga_ok gga_example" by code_simp
  have line: "''$GPGGA,123519,4807.0380,N,01131.0000,E,1,08,0.9,545.4,M'' = gga_sentence gga_example ''4,M''" by code_simp
  have c: "list_all line_char ''$GPGGA,123519,4807.0380,N,01131.0000,E,1,08,0.9,545.4,M''" by code_simp
  have l: "length ''$GPGGA,123519,4807.0380,N,01131.0000,E,1,08,0.9,545.4,M'' = 55" by simp
  have v: "dec_val (f_lat_d gga_example) = 48" "dec_val (f_lon_d gga_example) = 11" "dec_val (f_time gga_example) = 123519"
    "f_ns gga_example = CHR ''N''" "dec_val (f_alt gga_example) = 545" "dec_val (f_lat_m gga_example) = 7" "dec_val (f_lat_f gga_example) = 380"
    by code_simp+
  have q: "iq_ok (sd_iqueue SD3)" "q_waiting (sd_iqueue SD3) = []"
    using SD3(1) by (simp_all add: sd_ok_def) (simp add: SD3_def sd_lld_init_def sdObjectInit_def iqObjectInit_def)
  show ?thesis
    using gps_sentence_accepted [OF q(1) SD3(2) q(2) ok line c, of "replicate 128 NUL" CR 1 gps_state_init] unfolding l
    by (auto simp: v degrees_def simp del: append.simps)
qed

text \<open>
  No byte of the line is skipped, repeated or reordered. Whatever arrives while the GPS thread
  runs and nobody else reads, after \<open>n\<close> rounds the thread has processed the first \<open>n\<close> bytes of those queued and
  those accepted.
\<close>

lemma gps_bytes_in_order:
  assumes "iq_ok q" and "list_all (list_all put_event) slices" and "gps_rounds n self slices q t = Some (slices', q', t')"
  shows "\<exists>past acc. slices = past @ slices' \<and> subseq acc (arrived (concat past)) \<and>
    n + length (iq_items q') = length (iq_items q @ acc) \<and>
    run_calls gps_char t (map (\<lambda>b. char_of (unat b)) (take n (iq_items q @ acc))) = Some t' \<and>
    iq_items q' = drop n (iq_items q @ acc)"
proof -
  obtain past out where p: "slices = past @ slices'" "iq_moves (arrived (concat past)) q out q'" "length out = n"
    "run_calls gps_char t (map (\<lambda>b. char_of (unat b)) out) = Some t'"
    using gps_rounds_spec [OF assms(3,1,2)] by blast
  then obtain acc where a: "subseq acc (arrived (concat past))" "iq_items q @ acc = out @ iq_items q'"
    by (auto simp: iq_moves_def)
  show ?thesis using p a by (intro exI [of _ past] exI [of _ acc]) simp
qed

lemma gps_bytes_in_order_witness:
  "\<exists>q' t'. gps_rounds 2 1 [[EvPut 36, EvPut 71], [EvPut 80]] (sd_iqueue SD3) \<lparr>gps_buf = replicate 128 NUL, gps_idx = 0, gps_st = gps_state_init\<rparr>
     = Some ([], q', t') \<and> length (iq_items q') \<le> 1"
proof -
  have "map_option fst (gps_rounds 2 1 [[EvPut 36, EvPut 71], [EvPut 80]] (sd_iqueue SD3)
     \<lparr>gps_buf = replicate 128 NUL, gps_idx = 0, gps_st = gps_state_init\<rparr>) = Some []" by code_simp
  then obtain q' t' where r: "gps_rounds 2 1 [[EvPut 36, EvPut 71], [EvPut 80]] (sd_iqueue SD3)
     \<lparr>gps_buf = replicate 128 NUL, gps_idx = 0, gps_st = gps_state_init\<rparr> = Some ([], q', t')" by auto
  have "iq_ok (sd_iqueue SD3)" using SD3(1) by (simp add: sd_ok_def)
  from gps_bytes_in_order [OF this _ r] obtain acc :: "u8 list" where "subseq acc [36, 71, 80]" "2 + length (iq_items q') = length acc"
    by (auto simp: SD3)
  then show ?thesis using r list_emb_length by fastforce
qed

section \<open>Mailboxes and the heap\<close>

text \<open>
  C33. A mailbox is a first-in first-out buffer. In any sequence of \<open>chMBPostI\<close> and \<open>chMBFetchI\<close> on a
  mailbox that is not in reset state, the messages fetched followed by those still there are
  those there at the start followed by those accepted, in order; all that were posted are
  accepted if there is room for all. A message posted ahead is the next one fetched.
\<close>

theorem mailbox_fifo:
  assumes "mb_live mbp"
  shows "(fifo_run mb_put mb_get ops mbp = (got, accepted, mbp') \<longrightarrow>
      mb_items mbp @ accepted = got @ mb_items mbp' \<and> subseq accepted (offered ops) \<and>
      (length (mb_items mbp) + length (offered ops) \<le> chMBGetSizeI mbp \<longrightarrow> accepted = offered ops)) \<and>
    (length (mb_items mbp) < chMBGetSizeI mbp \<longrightarrow>
      (\<exists>m1 m2. chMBPostAheadI x mbp = Some (msg.MSG_OK, m1) \<and> chMBFetchI m1 = Some (Inr x, m2) \<and> mb_items m2 = mb_items mbp))"
proof (intro conjI impI)
  assume r: "fifo_run mb_put mb_get ops mbp = (got, accepted, mbp')"
  show "mb_items mbp @ accepted = got @ mb_items mbp'" "subseq accepted (offered ops)"
    using mb.run_fifo [OF assms r] by simp_all
  assume "length (mb_items mbp) + length (offered ops) \<le> chMBGetSizeI mbp"
  then show "accepted = offered ops" by (rule mb.run_lossless [OF assms r])
next
  assume "length (mb_items mbp) < chMBGetSizeI mbp"
  then have f: "chMBGetFreeCountI mbp > 0" by (simp add: mb_free)
  have o: "mb_ok mbp" "\<not> mb_reset mbp" using assms by (simp_all add: mb_live_def)
  obtain m1 where m1: "mb_post_ahead x mbp = Some m1" "mb_ok m1" "mb_items m1 = x # mb_items mbp" "\<not> mb_reset m1"
    using mb_post_ahead_room [OF o(1) f, of x] o(2) by auto
  have "chMBGetUsedCountI m1 > 0" using m1(3) mb_used [of m1] by simp
  then show "\<exists>m1 m2. chMBPostAheadI x mbp = Some (msg.MSG_OK, m1) \<and> chMBFetchI m1 = Some (Inr x, m2) \<and> mb_items m2 = mb_items mbp"
    using mb_fetch_item [OF m1(2,3)] f m1(1,4) o(2) by (auto simp: chMBPostAheadI_def chMBFetchI_def)
qed

definition mbox2 :: "nat mailbox" where
  "mbox2 = the (chMBObjectInit [0, 0])"

lemma mbox2: "mb_live mbox2" "mb_items mbox2 = []" "chMBGetSizeI mbox2 = 2" "mb_qr mbox2 = []" "mb_qw mbox2 = []"
  by (simp_all add: mbox2_def chMBObjectInit_def mb_live_def mb_contents)

theorem mailbox_fifo_witness:
  "\<exists>m1 m2. chMBPostAheadI 7 mbox2 = Some (msg.MSG_OK, m1) \<and> chMBFetchI m1 = Some (Inr 7, m2) \<and> mb_items m2 = []"
  using mailbox_fifo [OF mbox2(1)] by (auto simp: mbox2)

text \<open>
  Waiting on a mailbox. A thread that fetches from an empty mailbox is woken by the next post
  and gets that message; one that posts to a full mailbox is woken by the next fetch, and its
  message goes behind the others; a reset wakes a waiting reader with \<open>MSG_RESET\<close> and leaves the
  mailbox empty and closed.
\<close>

lemma mailbox_waiting:
  assumes "mb_live mbp" and "timeout \<noteq> 0"
  shows "(mb_items mbp = [] \<and> mb_qr mbp = [] \<longrightarrow>
      (\<exists>mbp'. chMBFetchTimeout self timeout ([MPost x] # slices) mbp = Some (Inr x, slices, mbp') \<and> mb_items mbp' = [])) \<and>
    (mb_items mbp = y # ys \<and> length (mb_items mbp) = chMBGetSizeI mbp \<and> mb_qw mbp = [] \<longrightarrow>
      (\<exists>mbp'. chMBPostTimeout self timeout ([MFetch] # slices) x mbp = Some (msg.MSG_OK, slices, mbp') \<and> mb_items mbp' = ys @ [x])) \<and>
    (mb_items mbp = [] \<and> self \<notin> set (mb_qw mbp) \<longrightarrow>
      (\<exists>mbp'. chMBFetchTimeout self timeout ([MReset] # slices) mbp = Some (Inl msg.MSG_RESET, slices, mbp') \<and>
        mb_items mbp' = [] \<and> chMBPostTimeout self timeout slices x mbp' = Some (msg.MSG_RESET, slices, mbp')))"
proof (intro conjI impI; elim conjE)
  assume "mb_items mbp = []" "mb_qr mbp = []"
  then show "\<exists>mbp'. chMBFetchTimeout self timeout ([MPost x] # slices) mbp = Some (Inr x, slices, mbp') \<and> mb_items mbp' = []"
    using chMBFetchTimeoutS_wakes [OF assms(1) _ _ assms(2), of self x slices] by (auto simp: chMBFetchTimeout_def)
next
  assume "mb_items mbp = y # ys" "length (mb_items mbp) = chMBGetSizeI mbp" "mb_qw mbp = []"
  then show "\<exists>mbp'. chMBPostTimeout self timeout ([MFetch] # slices) x mbp = Some (msg.MSG_OK, slices, mbp') \<and> mb_items mbp' = ys @ [x]"
    using chMBPostTimeoutS_wakes [OF assms(1) _ _ _ assms(2), of y ys self slices x] by (auto simp: chMBPostTimeout_def)
next
  assume "mb_items mbp = []" "self \<notin> set (mb_qw mbp)"
  then show "\<exists>mbp'. chMBFetchTimeout self timeout ([MReset] # slices) mbp = Some (Inl msg.MSG_RESET, slices, mbp') \<and>
        mb_items mbp' = [] \<and> chMBPostTimeout self timeout slices x mbp' = Some (msg.MSG_RESET, slices, mbp')"
    using chMBFetchTimeoutS_reset [OF assms(1) _ assms(2), of self slices] mb_reset_closed [of _ self timeout slices x]
    by (auto simp: chMBFetchTimeout_def chMBPostTimeout_def)
qed

lemma mailbox_waiting_witness:
  "\<exists>mbp'. chMBFetchTimeout 1 100 [[MPost 5]] mbox2 = Some (Inr 5, [], mbp') \<and> mb_items mbp' = []"
  using mailbox_waiting [OF mbox2(1), of 100 1 5 "[]"] mbox2 by simp

text \<open>
  Allocation from a heap without provider. The search ends; either a block is returned that
  was free memory, aligned as requested, large enough, and recorded with its size, while the
  rest of the free memory and all other headers stay as they were; or the heap is unchanged and
  no free block has room for the request.
\<close>

lemma heap_alloc:
  assumes "heap_ok h bs" and "0 < sz" and "MEM_IS_VALID_ALIGNMENT align" and "h_core h = None"
    and "al = unat ((if align < CH_HEAP_ALIGNMENT then CH_HEAP_ALIGNMENT else align) div CH_HEAP_ALIGNMENT)"
  shows "\<exists>r h'. chHeapAllocAligned sz align h = Some (r, h') \<and>
    (case r of
       None \<Rightarrow> h' = h \<and> (\<forall>(a, n) \<in> set bs. \<not> heap_fits (heap_pages sz) al a n)
     | Some p \<Rightarrow> \<exists>bs'. heap_ok h' bs' \<and> 0 < p \<and> p mod al = 0 \<and>
         extents bs = extents bs' \<union> extent (p - 1, heap_pages sz) \<and> extents bs' \<inter> extent (p - 1, heap_pages sz) = {} \<and>
         chHeapGetSize p h' = Some sz \<and> (\<forall>u. u \<notin> extents bs \<longrightarrow> h_mem h' u = h_mem h u)) \<and>
    (unat sz + 7 < 2 ^ 32 \<longrightarrow> unat sz \<le> 8 * heap_pages sz)"
proof -
  have "unat sz \<le> 8 * heap_pages sz" if "unat sz + 7 < 2 ^ 32" using heap_pages_small [OF that] by simp
  then show ?thesis using chHeapAllocAligned_spec [OF assms(1-4), folded assms(5)] by (fastforce split: option.splits)
qed

text \<open>A heap of a hundred units, and an allocation from it.\<close>

definition heap100 :: memory_heap where
  "heap100 = \<lparr>h_core = None, h_area = (1000, 100), h_first = Some 1000, h_mem = (\<lambda>a. None)(1000 \<mapsto> HFree None 99)\<rparr>"

lemma heap100: "heap_ok heap100 [(1000, 99)]" "h_core heap100 = None"
  by (simp_all add: heap_ok_def heap100_def)

lemma fits100: "heap_fits 3 2 1000 99"
  by (simp add: heap_fits_def align_up_def)

lemma heap_alloc_witness:
  "\<exists>p h'. chHeapAllocAligned 20 16 heap100 = Some (Some p, h') \<and> p mod 2 = 0 \<and> chHeapGetSize p h' = Some 20"
proof -
  have v: "MEM_IS_VALID_ALIGNMENT 16" "heap_pages 20 = 3"
    by (simp_all add: MEM_IS_VALID_ALIGNMENT_def heap_pages_small)
  have a: "2 = unat ((if (16 :: u32) < CH_HEAP_ALIGNMENT then CH_HEAP_ALIGNMENT else 16) div CH_HEAP_ALIGNMENT)"
    by (simp add: CH_HEAP_ALIGNMENT_def)
  show ?thesis using heap_alloc [OF heap100(1) _ v(1) heap100(2) a, of 20] fits100 by (auto simp: v split: option.splits)
qed

text \<open>
  Release undoes allocation. Freeing a block right after it was allocated gives the free list
  back exactly as it was: the pieces are merged again.
\<close>

lemma heap_alloc_free:
  assumes "heap_ok h bs" and "h_core h = None" and "chHeapAllocAligned sz align h = Some (Some p, h1)"
  shows "\<exists>h2. chHeapFree p h1 = Some h2 \<and> heap_ok h2 bs"
proof -
  have v: "0 < sz" "MEM_IS_VALID_ALIGNMENT align" using assms(3) by (auto simp: chHeapAllocAligned_def split: if_splits)
  obtain bs' where b: "heap_ok h1 bs'" "0 < p" "extents bs = extents bs' \<union> extent (p - 1, heap_pages sz)"
    "extents bs' \<inter> extent (p - 1, heap_pages sz) = {}" "chHeapGetSize p h1 = Some sz"
    using chHeapAllocAligned_spec [OF assms(1) v assms(2)] assms(3) by auto
  have "extent (p - 1, heap_pages sz) \<inter> extents bs' = {}" using b(4) by (simp only: inf_commute)
  from chHeapFree_spec [OF b(1,2,5) this]
  obtain h2 bs2 where "chHeapFree p h1 = Some h2" "heap_ok h2 bs2" "extents bs2 = extents bs" using b(3) by auto
  then show ?thesis using heap_blocks_unique [OF assms(1)] by fastforce
qed

lemma heap_alloc_free_witness:
  "\<exists>p h1 h2. chHeapAlloc 20 heap100 = Some (Some p, h1) \<and> chHeapFree p h1 = Some h2 \<and> heap_ok h2 [(1000, 99)]"
proof -
  have "\<exists>p h1. chHeapAllocAligned 20 8 heap100 = Some (Some p, h1)"
    using chHeapAllocAligned_spec [OF heap100(1) _ _ heap100(2), of 20 8]
    by (auto simp: heap_pages_small heap_fits_def align_up_def CH_HEAP_ALIGNMENT_def MEM_IS_VALID_ALIGNMENT_def split: option.splits)
  then show ?thesis
    using heap_alloc_free [OF heap100] by (fastforce simp: chHeapAlloc_def CH_HEAP_ALIGNMENT_def)
qed



text \<open>
  The default heap, which takes its memory from the core allocator, keeps its invariant: as long as
  requests are smaller than the address of the end of the core memory, whatever sequence of allocations and releases
  succeeds, the free list stays ordered and disjoint from the allocated blocks, which are
  disjoint from each other and from the memory the core has left; all of it lies in the core
  memory there was at the start; every allocated block can be freed, and the integrity check
  passes.
\<close>

lemma default_heap_accounts:
  assumes "basemem c \<le> topmem c" and "unat (topmem c) + 8 < 2 ^ 32" and "MEM_IS_ALIGNED (basemem c) 8"
    and "heap_history (heap_init c) h used"
  shows "\<exists>bs. heap_ok h bs \<and> extents bs \<union> core_free h \<union> (\<Union>p \<in> used. owned h p) \<subseteq> core_units c \<and> extents bs \<inter> core_free h = {} \<and>
    (\<forall>p \<in> used. owned h p \<inter> (extents bs \<union> core_free h) = {} \<and> (\<forall>q \<in> used. p \<noteq> q \<longrightarrow> owned h p \<inter> owned h q = {}) \<and>
       (\<exists>h'. chHeapFree p h = Some h')) \<and>
    chHeapIntegrityCheck h = Some False"
proof -
  have e: "free_ok (heap_init c) []" "all_free (heap_init c) [] = core_units c"
    using assms(1,2) heap_init_ok [of c] by (auto simp: free_ok_def all_free_def core_ok_def core_free_def heap_init_def)
  obtain bs where b: "heap_inv (core_units c) h used bs" "h_area h = h_area (heap_init c)"
    using heap_history_inv [OF assms(4) e(1)] unfolding e(2) by (elim exE conjE)
  note i = heap_invD [OF b(1)]
  have a: "heap_ok h bs" "extents bs \<inter> core_free h = {}" using i(1) by (simp_all add: free_ok_def)
  have "8 dvd unat (basemem c)" using assms(3) MEM_IS_ALIGNED_unat [of 3 "basemem c"] by (simp add: mod_0_imp_dvd)
  then have "core_units c \<subseteq> {fst (h_area h)..<fst (h_area h) + snd (h_area h)}"
    using assms(1) unfolding b(2) by (auto simp: core_units_def heap_init_def unat_sub word_le_nat_alt elim!: dvdE)
  then have "chHeapIntegrityCheck h = Some False" using i(2) a(1) by (intro chHeapIntegrityCheck_area) (auto simp: all_free_def)
  moreover have "\<exists>h'. chHeapFree p h = Some h'" if "p \<in> used" for p using heap_inv_free [OF b(1) that] by blast
  ultimately show ?thesis
    using a i(2,6,7) unfolding all_free_def by (intro exI [of _ bs] conjI ballI impI) simp_all
qed

lemma default_heap_accounts_witness:
  "\<exists>h p bs. chHeapAlloc 20 (heap_init (core_init 4096 8192)) = Some (Some p, h) \<and> heap_ok h bs \<and>
     owned h p \<inter> (extents bs \<union> core_free h) = {} \<and> owned h p \<subseteq> core_units (core_init 4096 8192)"
proof -
  let ?c = "core_init 4096 8192"
  have "heap_alloc_loop 20 (heap_pages 20) 1 (heap_init ?c) None = Some (None, heap_init ?c)"
    by (subst heap_alloc_loop.simps) (simp add: H_FREE_NEXT_def heap_init_def)
  moreover have "chCoreAllocFromTop (3 * CH_HEAP_ALIGNMENT) CH_HEAP_ALIGNMENT 8 ?c = Some (Some 8168, ?c\<lparr>topmem := 8160\<rparr>)"
    by (simp add: chCoreAllocFromTop_def chCoreAllocFromTopI_def core_init_def CH_HEAP_ALIGNMENT_def MEM_IS_VALID_ALIGNMENT_def MEM_ALIGN_PREV_def MEM_ALIGN_MASK_def)
  moreover have "h_core (heap_init ?c) = Some ?c" "MEM_IS_VALID_ALIGNMENT CH_HEAP_ALIGNMENT" "unat (CH_HEAP_ALIGNMENT div CH_HEAP_ALIGNMENT) = 1"
    by (simp_all add: heap_init_def MEM_IS_VALID_ALIGNMENT_def CH_HEAP_ALIGNMENT_def)
  moreover have "heap_pages 20 = 3" by (simp add: heap_pages_small)
  ultimately have "map_option fst (chHeapAlloc 20 (heap_init ?c)) = Some (Some 1021)"
    by (simp add: chHeapAlloc_def chHeapAllocAligned_def Let_def)
  then obtain h where h: "chHeapAlloc 20 (heap_init ?c) = Some (Some 1021, h)" by auto
  have "sane_size 20 (heap_init ?c)" by (simp add: sane_size_def heap_init_def core_init_def heap_pages_small)
  then have "heap_history (heap_init ?c) h {1021}"
    using heap_history.Alloc [OF heap_history.Start] h by (auto simp: chHeapAlloc_def)
  from default_heap_accounts [OF _ _ _ this]
  obtain bs where "heap_ok h bs" "owned h 1021 \<inter> (extents bs \<union> core_free h) = {}" "owned h 1021 \<subseteq> core_units ?c"
    by (auto simp: core_init_def MEM_IS_ALIGNED_def MEM_ALIGN_MASK_def)
  then show ?thesis using h by (intro exI [of _ h] exI [of _ 1021] exI [of _ bs]) simp
qed

section \<open>Semaphores, the network stack and its timers\<close>

text \<open>
  Semaphores account for their tokens. Whatever sequence of signals, additions, waits and
  expired timeouts happens to a semaphore created with \<open>n\<close> tokens, the threads that passed it
  and the tokens left are as many as the \<open>n\<close> tokens and those added; threads pass in the order
  in which they came; a negative counter is the number of waiting threads, so no assertion
  fails; and the thread at place \<open>i\<close> of the queue is woken by the \<open>i + 1\<close>st signal from there on.
\<close>

lemma semaphore_accounts:
  assumes "sem_history n sp ws k" and "nat (sint n) + k < 2 ^ 31" and "length ws \<le> 2 ^ 31"
  shows "length (sem_granted (sem_woken sp)) + sem_tokens sp = nat (sint n) + k \<and>
    subseq (sem_granted (sem_woken sp) @ sem_queue sp) ws \<and> sem_consistent sp \<and>
    (sem_queue sp \<noteq> [] \<longrightarrow> sint (sem_cnt sp) = - int (length (sem_queue sp))) \<and>
    (\<forall>i < length (sem_queue sp). \<exists>sp'. run_calls sem_do sp (replicate (Suc i) SSignal) = Some sp' \<and>
       sem_granted (sem_woken sp') = sem_granted (sem_woken sp) @ take (Suc i) (sem_queue sp))"
proof -
  have a: "sem_accounts n sp ws k" using sem_history_accounts [OF assms(1)] assms(2,3) by simp
  then have ok: "sem_ok sp" by (simp add: sem_accounts_def)
  have "\<exists>sp'. run_calls sem_do sp (replicate (Suc i) SSignal) = Some sp' \<and>
      sem_granted (sem_woken sp') = sem_granted (sem_woken sp) @ take (Suc i) (sem_queue sp)" if "i < length (sem_queue sp)" for i
    using sem_signals_wake [OF ok that refl] by (auto simp: sem_granted_def filter_map o_def)
  moreover have "sem_queue sp \<noteq> [] \<longrightarrow> sint (sem_cnt sp) = - int (length (sem_queue sp))" using ok by (auto simp: sem_ok_def split: if_splits)
  ultimately show ?thesis using a sem_ok_consistent [OF ok] by (simp add: sem_accounts_def)
qed

text \<open>A semaphore with one token on which three threads wait; the first passes.\<close>

lemma semaphore_accounts_witness:
  "\<exists>sp. sem_history 1 sp [4, 5, 6] 0 \<and> sem_granted (sem_woken sp) = [4] \<and> sem_queue sp = [5, 6] \<and> sem_tokens sp = 0 \<and>
     (\<exists>sp'. run_calls sem_do sp (replicate 2 SSignal) = Some sp' \<and> sem_granted (sem_woken sp') = [4, 5, 6])"
proof -
  let ?s0 = "\<lparr>sem_cnt = 1, sem_queue = [], sem_woken = []\<rparr>"
  let ?s1 = "\<lparr>sem_cnt = 0, sem_queue = [], sem_woken = [(4, msg.MSG_OK)]\<rparr>"
  let ?s2 = "\<lparr>sem_cnt = - 1, sem_queue = [5], sem_woken = [(4, msg.MSG_OK)]\<rparr>"
  let ?s3 = "\<lparr>sem_cnt = - 2, sem_queue = [5, 6], sem_woken = [(4, msg.MSG_OK)]\<rparr>"
  note d = sem_consistent_def sem_wait_def chSemFastWaitI_def sem_ready_def Let_def
  have "sem_history 1 ?s0 [] 0" by (rule sem_history.Init) (simp add: chSemObjectInit_def)
  then have "sem_history 1 ?s1 ([] @ [4]) 0" by (rule sem_history.Wait) (simp_all add: d)
  then have "sem_history 1 ?s2 (([] @ [4]) @ [5]) 0" by (rule sem_history.Wait) (simp_all add: d)
  then have "sem_history 1 ?s3 ((([] @ [4]) @ [5]) @ [6]) 0" by (rule sem_history.Wait) (simp_all add: d)
  then have h: "sem_history 1 ?s3 [4, 5, 6] 0" by simp
  from semaphore_accounts [OF h] have "\<exists>sp'. run_calls sem_do ?s3 (replicate (Suc 1) SSignal) = Some sp' \<and>
      sem_granted (sem_woken sp') = sem_granted (sem_woken ?s3) @ take (Suc 1) (sem_queue ?s3)" by auto
  then show ?thesis using h by (intro exI [of _ ?s3]) (auto simp: sem_granted_def sem_tokens_def numeral_2_eq_2)
qed


text \<open>An empty layer over the default heap, with a semaphore and a mailbox created in it.\<close>

definition os_start :: "nat lwip_os" where
  "os_start = \<lparr>os_heap = heap_init (core_init 0x20000000 0x20020000), os_sem = (\<lambda>a. None), os_mbox = (\<lambda>a. None),
     os_sem_stats = \<lparr>st_used = 0, st_max = 0, st_err = 0\<rparr>, os_mbox_stats = \<lparr>st_used = 0, st_max = 0, st_err = 0\<rparr>\<rparr>"



text \<open>
  The list of timeouts is the stable sort of the requests by their due time: timers are kept in
  order, and those due at the same time in the order of the requests.
\<close>

lemma timeouts_stable_sort:
  assumes "\<forall>x \<in> set xs. uint (to_time x) \<le> 42949673 + 60000"
  shows "foldl (\<lambda>l x. timeo_insert x l) [] xs = sort_key to_time xs"
  using foldl_timeo_insert [of xs] assms by (simp add: timeo_small_def)

lemma timeouts_stable_sort_witness:
  "map to_arg (foldl (\<lambda>l x. timeo_insert x l) [] (map (\<lambda>(t, a). \<lparr>to_time = t, to_h = None, to_arg = a\<rparr>) [(500, 1), (250, 2), (500, 3), (250, 4)])) =
     [2, 4, 1, 3]"
  by (subst timeouts_stable_sort) (simp_all add: insort_key_def)

text \<open>
  C26. The timers of lwIP are served. In every state that can be reached from their start, with any
  behaviour of the clock, each cyclic timer is pending exactly once and the pool has an element for
  the TCP timer, so that starting it does not fail. Processing the timers ends, unless the handlers
  run across the end of the system time: it calls the functions of exactly those that are due, leaves
  the others in the list, and afterwards none is due at the time it began; the time the thread
  may sleep is the time to the first one.
\<close>

theorem lwip_timers_served:
  assumes "timers_reach st" and "steady env (length (tm_calls st)) (tm_time st)"
  shows "timer_id ` set (next_timeout st) = active_ids st \<and> distinct (map timer_id (next_timeout st)) \<and>
    (\<exists>st'. tcp_timer_needed st = Some st') \<and>
    (\<exists>st' calls. sys_check_timeouts env st = Some st' \<and> tm_calls st' = tm_calls st @ calls \<and>
       fst ` set calls = fn_of ` {x \<in> set (next_timeout st). to_time x \<le> tm_now st} \<and>
       {x \<in> set (next_timeout st). tm_now st < to_time x} \<subseteq> set (next_timeout st') \<and>
       (\<forall>x \<in> set (next_timeout st'). tm_now st < to_time x)) \<and>
    (\<forall>x xs. next_timeout st = x # xs \<longrightarrow>
       sys_timeouts_sleeptime st = Some (if to_time x \<le> tm_now st then 0 else to_time x - tm_now st) \<and>
       (\<forall>y \<in> set xs. to_time x \<le> to_time y))"
proof -
  have ok: "timers_ok st" by (rule timers_reach_ok [OF assms(1)])
  obtain st' calls where c: "sys_check_timeouts env st = Some st'" "tm_calls st' = tm_calls st @ calls"
    "fst ` set calls = fn_of ` due (tm_now st) (next_timeout st)" "due (tm_now st) (next_timeout st') = {}"
    "set (next_timeout st) - due (tm_now st) (next_timeout st) \<subseteq> set (next_timeout st')"
    using sys_check_timeouts_spec [OF ok assms(2)] by blast
  have i: "timer_id ` set (next_timeout st) = active_ids st" "distinct (map timer_id (next_timeout st))" "sorted (map to_time (next_timeout st))"
    using ok by (simp_all add: timers_ok_def timers_inv_def)
  have "\<exists>st' calls. sys_check_timeouts env st = Some st' \<and> tm_calls st' = tm_calls st @ calls \<and>
       fst ` set calls = fn_of ` {x \<in> set (next_timeout st). to_time x \<le> tm_now st} \<and>
       {x \<in> set (next_timeout st). tm_now st < to_time x} \<subseteq> set (next_timeout st') \<and>
       (\<forall>x \<in> set (next_timeout st'). tm_now st < to_time x)"
    using c by (intro exI [of _ st'] exI [of _ calls]) (auto simp: due_def not_le)
  moreover have "\<exists>st'. tcp_timer_needed st = Some st'" using tcp_timer_needed_ok [OF ok] by blast
  ultimately show ?thesis using i sleeptime_due [OF ok] by auto
qed

text \<open>The timers started at tick 1, and served 10 seconds later.\<close>

definition no_delay :: tmr_env where "no_delay n = (0, False)"

lemma no_delay_steady: "t \<noteq> 0 \<Longrightarrow> steady no_delay k t"
  using uint32_range(2) [of t] by (simp add: steady_def no_delay_def)

theorem lwip_timers_served_witness:
  "\<exists>st st'. sys_timeouts_init (timers_reset 1) = Some st \<and> sys_check_timeouts no_delay (st\<lparr>tm_time := 1000000\<rparr>) = Some st' \<and>
     (\<forall>x \<in> set (next_timeout st'). 10000 < to_time x)"
proof -
  obtain st where st: "sys_timeouts_init (timers_reset 1) = Some st" using sys_timeouts_init_ok [of 1] by blast
  have "timers_reach (st\<lparr>tm_time := 1000000\<rparr>)" by (intro timers_reach.Time timers_reach.Init [OF st])
  moreover have "sys_now 1000000 = 10000" by (simp add: sys_now_def)
  ultimately show ?thesis
    using st lwip_timers_served [of "st\<lparr>tm_time := 1000000\<rparr>" no_delay] no_delay_steady [of 1000000] by (fastforce simp: tm_now_def)
qed

text \<open>
  C27. The timers stop when the system time wraps around. The clock of the binding counts to 42949673
  milliseconds, about twelve hours, and starts again at one, while lwIP compares times modulo
  \<open>2\<^sup>3\<^sup>2\<close>. Once the timers have been processed in the last millisecond, they are all due behind the end of the
  clock: whatever the system time is from then on, no timer is called again, the retransmission of TCP, the ageing of ARP entries and the
  renewal of DHCP leases included, and an active TCP timer is not restarted.
\<close>

theorem lwip_timers_stop:
  assumes "timers_reach st" and "sys_now (tm_time st) = 42949673" and "steady env (length (tm_calls st)) (tm_time st)"
  shows "\<exists>st'. sys_check_timeouts env st = Some st' \<and> cyclic_ids \<subseteq> timer_id ` set (next_timeout st') \<and>
    (\<forall>env' t. sys_check_timeouts env' (st'\<lparr>tm_time := t\<rparr>) = Some (st'\<lparr>tm_time := t\<rparr>)) \<and>
    (tcpip_tcp_timer_active st' \<longrightarrow> (\<forall>t b. tcp_timer_needed (st'\<lparr>tm_time := t, tcp_pcbs := b\<rparr>) = Some (st'\<lparr>tm_time := t, tcp_pcbs := b\<rparr>)))"
proof -
  obtain st' where st': "sys_check_timeouts env st = Some st'" "timers_ok st'"
    "\<forall>env' t. sys_check_timeouts env' (st'\<lparr>tm_time := t\<rparr>) = Some (st'\<lparr>tm_time := t\<rparr>)"
    using timers_stop [OF timers_reach_ok [OF assms(1)] assms(2,3)] by blast
  have "cyclic_ids \<subseteq> timer_id ` set (next_timeout st')" using st'(2) by (auto simp: timers_ok_def timers_inv_def active_ids_def split: if_splits)
  then show ?thesis using st' by (auto simp: tcp_timer_needed_def)
qed

theorem lwip_timers_stop_witness:
  "\<exists>st st'. sys_timeouts_init (timers_reset 1) = Some st \<and> sys_check_timeouts no_delay (st\<lparr>tm_time := 0xFFFFFFFF\<rparr>) = Some st' \<and>
     sys_check_timeouts no_delay (st'\<lparr>tm_time := 1000000000\<rparr>) = Some (st'\<lparr>tm_time := 1000000000\<rparr>)"
proof -
  obtain st where st: "sys_timeouts_init (timers_reset 1) = Some st" using sys_timeouts_init_ok [of 1] by blast
  have "timers_reach (st\<lparr>tm_time := 0xFFFFFFFF\<rparr>)" by (intro timers_reach.Time timers_reach.Init [OF st])
  moreover have "sys_now 0xFFFFFFFF = 42949673" by (simp add: sys_now_def)
  ultimately show ?thesis
    using st lwip_timers_stop [of "st\<lparr>tm_time := 0xFFFFFFFF\<rparr>" no_delay] no_delay_steady [of "0xFFFFFFFF"] by fastforce
qed

text \<open>
  C29. The network thread delivers messages. When a message is in the mailbox of the network thread, the
  thread returns with the oldest one, however many timers are due: it first calls the
  functions of all that are, and does not wait. The handlers must not run across the end of the
  system time.
\<close>

theorem tcpip_message_delivered:
  assumes "timers_reach st" and "steady env (length (tm_calls st)) (tm_time st)"
    and "os_mbox os a = Some mbp" and "mb_live mbp" and "mb_items mbp = x # xs"
  shows "\<exists>st' os' mbp' calls. tcpip_timeouts_mbox_fetch env self (Some a) ((slices, stop) # ins) st os = Some (Some x, ins, st', os') \<and>
    tm_calls st' = tm_calls st @ calls \<and> fn_of ` {y \<in> set (next_timeout st). to_time y \<le> tm_now st} \<subseteq> fst ` set calls \<and>
    os_mbox os' = (os_mbox os)(a \<mapsto> mbp') \<and> mb_items mbp' = xs"
proof -
  obtain st' os' mbp' calls where "tcpip_timeouts_mbox_fetch env self (Some a) ((slices, stop) # ins) st os = Some (Some x, ins, st'\<lparr>tm_time := stop\<rparr>, os')"
    "tm_calls st' = tm_calls st @ calls" "fn_of ` due (tm_now st) (next_timeout st) \<subseteq> fst ` set calls"
    "os_mbox os' = (os_mbox os)(a \<mapsto> mbp')" "mb_items mbp' = xs"
    using tcpip_fetch_serves [OF timers_reach_ok [OF assms(1)] assms(2-5), of self slices stop ins] by blast
  then show ?thesis
    by (intro exI [of _ "st'\<lparr>tm_time := stop\<rparr>"] exI [of _ os'] exI [of _ mbp'] exI [of _ calls]) (simp add: due_def)
qed

definition mbox_with :: "nat mailbox" where
  "mbox_with = \<lparr>mb_buffer = [7, 0], mb_wrptr = 1, mb_rdptr = 0, mb_cnt = 1, mb_reset = False, mb_qw = [], mb_qr = [], mb_woken = []\<rparr>"

theorem tcpip_message_delivered_witness:
  "\<exists>st st' os'. sys_timeouts_init (timers_reset 1) = Some st \<and>
     tcpip_timeouts_mbox_fetch no_delay 1 (Some 9) [([], 1000001)] (st\<lparr>tm_time := 1000000\<rparr>) (os_start\<lparr>os_mbox := [9 \<mapsto> mbox_with]\<rparr>) =
       Some (Some 7, [], st', os')"
proof -
  obtain st where st: "sys_timeouts_init (timers_reset 1) = Some st" using sys_timeouts_init_ok [of 1] by blast
  have r: "timers_reach (st\<lparr>tm_time := 1000000\<rparr>)" by (intro timers_reach.Time timers_reach.Init [OF st])
  have m: "mb_live mbox_with" "mb_items mbox_with = [7]" by (simp_all add: mbox_with_def mb_live_def mb_contents ring_def)
  show ?thesis
    using st tcpip_message_delivered [OF r no_delay_steady _ m, of "os_start\<lparr>os_mbox := [9 \<mapsto> mbox_with]\<rparr>" 9 1 "[]" 1000001 "[]"] by auto
qed

end
